(* ===== verification/Capability.thy ===== *)
theory Capability
  imports Prelude
begin

text \<open>
  \<open>crates/common/src/capability.rs\<close>: the deny-by-default capability tokens and the set of
  them a runtime is given. \<open>capability_set\<close> is the source's bit set over a \<open>u32\<close>; the
  locale \<open>grant_set\<close> is the interface the permission grammar builds a set through, and
  \<open>caps_of\<close> the set of capabilities a bit set stands for.
\<close>

unbundle bit_operations_syntax

named_theorems capability_simps \<open>membership in a capability set\<close>

section \<open>The interface of a set of grants\<close>

text \<open>
  What a client may rely on: the empty set grants nothing, a grant adds the capability and
  what it implies, a revocation removes the capability and nothing else.
\<close>

locale grant_set =
  fixes empty :: "'s"
    and add :: "'c \<Rightarrow> 's \<Rightarrow> 's"
    and drop :: "'c \<Rightarrow> 's \<Rightarrow> 's"
    and holds :: "'s \<Rightarrow> 'c \<Rightarrow> bool"
    and also_granted :: "'c \<Rightarrow> 'c set"
  assumes holds_empty: "\<not> holds empty c"
    and holds_add: "holds (add c s) d \<longleftrightarrow> d = c \<or> d \<in> also_granted c \<or> holds s d"
    and holds_drop: "holds (drop c s) d \<longleftrightarrow> d \<noteq> c \<and> holds s d"
begin

lemma holds_fold_add:
  "holds (fold add cs s) d \<longleftrightarrow> (\<exists>c\<in>set cs. d = c \<or> d \<in> also_granted c) \<or> holds s d"
  by (induction cs arbitrary: s) (auto simp: holds_add)

lemma holds_fold_drop: "holds (fold drop cs s) d \<longleftrightarrow> d \<notin> set cs \<and> holds s d"
  by (induction cs arbitrary: s) (auto simp: holds_drop)

lemma fold_add_monotone: "holds s d \<Longrightarrow> holds (fold add cs s) d"
  by (simp add: holds_fold_add)

lemma fold_drop_antitone: "holds (fold drop cs s) d \<Longrightarrow> holds s d"
  by (simp add: holds_fold_drop)

lemma fold_drop_order: "set cs = set ds \<Longrightarrow> holds (fold drop cs s) d = holds (fold drop ds s) d"
  by (simp add: holds_fold_drop)

end

section \<open>Capabilities\<close>

datatype capability =
    Clock | Entropy | Timers | Net | FileSystem | TaskSpawn | Env | FileRead | FileWrite
  | NetListen | Signals | Run | Worker | DiagnosticsObserve | DiagnosticsDetail

definition ALL_CAPABILITIES :: "capability list" where
  "ALL_CAPABILITIES = [Clock, Entropy, Timers, Net, FileSystem, TaskSpawn, Env, FileRead, FileWrite,
          NetListen, Signals, Run, Worker, DiagnosticsObserve, DiagnosticsDetail]"

definition HOST_FACING :: "capability list" where
  "HOST_FACING = [FileRead, FileWrite, FileSystem, Net, NetListen, Env, Run, Signals, Worker,
                  DiagnosticsObserve, DiagnosticsDetail]"

fun flag_name :: "capability \<Rightarrow> string option" where
  "flag_name FileRead = Some ''read''"
| "flag_name FileWrite = Some ''write''"
| "flag_name FileSystem = Some ''imports''"
| "flag_name Net = Some ''net''"
| "flag_name NetListen = Some ''listen''"
| "flag_name Env = Some ''env''"
| "flag_name Run = Some ''run''"
| "flag_name Signals = Some ''signals''"
| "flag_name Worker = Some ''workers''"
| "flag_name DiagnosticsObserve = Some ''diagnostics''"
| "flag_name DiagnosticsDetail = Some ''diagnostics-detail''"
| "flag_name Clock = None"
| "flag_name Entropy = None"
| "flag_name Timers = None"
| "flag_name TaskSpawn = None"

definition from_flag_name :: "string \<Rightarrow> capability option" where
  "from_flag_name name = find (\<lambda>cap. flag_name cap = Some name) HOST_FACING"

fun cap_bit :: "capability \<Rightarrow> u32" where
  "cap_bit Clock = push_bit 0 1"
| "cap_bit Entropy = push_bit 1 1"
| "cap_bit Timers = push_bit 2 1"
| "cap_bit Net = push_bit 3 1"
| "cap_bit FileSystem = push_bit 4 1"
| "cap_bit TaskSpawn = push_bit 5 1"
| "cap_bit Env = push_bit 6 1"
| "cap_bit FileRead = push_bit 7 1"
| "cap_bit FileWrite = push_bit 8 1"
| "cap_bit NetListen = push_bit 9 1"
| "cap_bit Signals = push_bit 10 1"
| "cap_bit Run = push_bit 11 1"
| "cap_bit Worker = push_bit 12 1"
| "cap_bit DiagnosticsObserve = push_bit 13 1"
| "cap_bit DiagnosticsDetail = push_bit 14 1"

fun implies :: "capability \<Rightarrow> u32" where
  "implies DiagnosticsDetail = cap_bit DiagnosticsObserve"
| "implies _ = 0"

text \<open>\<open>Debug\<close> prints the variant's name; \<open>Display\<close> adds the flag name in brackets.\<close>

fun variant_name :: "capability \<Rightarrow> string" where
  "variant_name Clock = ''Clock''"
| "variant_name Entropy = ''Entropy''"
| "variant_name Timers = ''Timers''"
| "variant_name Net = ''Net''"
| "variant_name FileSystem = ''FileSystem''"
| "variant_name TaskSpawn = ''TaskSpawn''"
| "variant_name Env = ''Env''"
| "variant_name FileRead = ''FileRead''"
| "variant_name FileWrite = ''FileWrite''"
| "variant_name NetListen = ''NetListen''"
| "variant_name Signals = ''Signals''"
| "variant_name Run = ''Run''"
| "variant_name Worker = ''Worker''"
| "variant_name DiagnosticsObserve = ''DiagnosticsObserve''"
| "variant_name DiagnosticsDetail = ''DiagnosticsDetail''"

definition capability_display :: "capability \<Rightarrow> string" where
  "capability_display c =
     variant_name c @
     (case flag_name c of
        Some name \<Rightarrow> '' (permission '' @ [CHR 0x22] @ name @ [CHR 0x22] @ '')''
      | None \<Rightarrow> [])"

section \<open>The bit set\<close>

record capability_set =
  bits :: u32

definition none :: capability_set where
  "none = \<lparr>bits = 0\<rparr>"

definition grant :: "capability \<Rightarrow> capability_set \<Rightarrow> capability_set" where
  "grant cap s = s\<lparr>bits := bits s OR (cap_bit cap OR implies cap)\<rparr>"

definition with_cap :: "capability_set \<Rightarrow> capability \<Rightarrow> capability_set" where
  "with_cap s cap = s\<lparr>bits := bits s OR (cap_bit cap OR implies cap)\<rparr>"

definition revoke :: "capability \<Rightarrow> capability_set \<Rightarrow> capability_set" where
  "revoke cap s = s\<lparr>bits := bits s AND NOT (cap_bit cap)\<rparr>"

definition contains :: "capability_set \<Rightarrow> capability \<Rightarrow> bool" where
  "contains s cap \<longleftrightarrow> bits s AND cap_bit cap \<noteq> 0"

definition all_caps :: capability_set where
  "all_caps = fold (\<lambda>cap s. s\<lparr>bits := bits s OR cap_bit cap\<rparr>) ALL_CAPABILITIES none"

definition without_host_access :: "capability_set \<Rightarrow> capability_set" where
  "without_host_access s = fold revoke HOST_FACING s"

definition denied_names :: "capability_set \<Rightarrow> string list" where
  "denied_names s = List.map_filter flag_name (filter (\<lambda>cap. \<not> contains s cap) HOST_FACING)"

definition require :: "capability_set \<Rightarrow> capability \<Rightarrow> capability + unit" where
  "require s cap = (if contains s cap then Inr () else Inl cap)"

section \<open>Bits and membership\<close>

fun cap_index :: "capability \<Rightarrow> nat" where
  "cap_index Clock = 0" | "cap_index Entropy = 1" | "cap_index Timers = 2"
| "cap_index Net = 3" | "cap_index FileSystem = 4" | "cap_index TaskSpawn = 5"
| "cap_index Env = 6" | "cap_index FileRead = 7" | "cap_index FileWrite = 8"
| "cap_index NetListen = 9" | "cap_index Signals = 10" | "cap_index Run = 11"
| "cap_index Worker = 12" | "cap_index DiagnosticsObserve = 13"
| "cap_index DiagnosticsDetail = 14"

lemma cap_bit_index: "cap_bit c = push_bit (cap_index c) 1"
  by (cases c) simp_all

lemma cap_index_less: "cap_index c < 15"
  by (cases c) simp_all

lemma nth_cap_index: "ALL_CAPABILITIES ! cap_index c = c"
  by (cases c) (simp_all add: ALL_CAPABILITIES_def)

lemma cap_index_inject [simp]: "cap_index c = cap_index d \<longleftrightarrow> c = d"
  by (metis nth_cap_index)

lemma cap_index_onto: "n < 15 \<Longrightarrow> \<exists>c. cap_index c = n"
proof -
  assume "n < 15"
  then have "n \<in> set [0..<15]" by simp
  moreover have "[0..<15] = map cap_index ALL_CAPABILITIES"
    by (simp add: ALL_CAPABILITIES_def upt_rec)
  ultimately show ?thesis by (metis (no_types) imageE list.set_map)
qed

lemma in_ALL_CAPABILITIES [simp]: "c \<in> set ALL_CAPABILITIES"
  by (cases c) (simp_all add: ALL_CAPABILITIES_def)

lemma bit_cap_bit: "bit (cap_bit c) n \<longleftrightarrow> n = cap_index c"
  using cap_index_less [of c] by (auto simp: cap_bit_index bit_push_bit_iff bit_1_iff
    simp flip: push_bit_of_1)

lemma contains_iff_bit: "contains s c \<longleftrightarrow> bit (bits s) (cap_index c)"
  by (simp add: contains_def cap_bit_index bit_iff_and_push_bit_not_eq_0)

text \<open>The capabilities a capability carries with it, as a set.\<close>

definition implied :: "capability \<Rightarrow> capability set" where
  "implied c = (if c = DiagnosticsDetail then {DiagnosticsObserve} else {})"

lemma bit_implies: "bit (implies c) (cap_index d) \<longleftrightarrow> d \<in> implied c"
  by (cases c; cases d) (simp_all add: implied_def bit_cap_bit del: cap_bit.simps)

lemma contains_none: "\<not> contains none c"
  by (simp add: contains_def none_def)

lemma contains_grant: "contains (grant c s) d \<longleftrightarrow> d = c \<or> d \<in> implied c \<or> contains s d"
  by (auto simp: contains_iff_bit grant_def bit_or_iff bit_cap_bit bit_implies)

lemma contains_revoke: "contains (revoke c s) d \<longleftrightarrow> d \<noteq> c \<and> contains s d"
  using cap_index_less [of d]
  by (auto simp: contains_iff_bit revoke_def bit_and_iff bit_not_iff bit_cap_bit)

interpretation caps: grant_set none grant revoke contains implied
  by unfold_locales (rule contains_none contains_grant contains_revoke)+

lemma with_cap_grant: "with_cap s c = grant c s"
  by (simp add: with_cap_def grant_def)

lemma contains_fold_or:
  "contains (fold (\<lambda>cap s. s\<lparr>bits := bits s OR cap_bit cap\<rparr>) cs s) d \<longleftrightarrow> d \<in> set cs \<or> contains s d"
  by (induction cs arbitrary: s) (auto simp: contains_iff_bit bit_or_iff bit_cap_bit)

lemma contains_all_caps: "contains all_caps c"
  by (simp add: all_caps_def contains_fold_or)

lemma contains_without_host_access:
  "contains (without_host_access s) c \<longleftrightarrow> c \<notin> set HOST_FACING \<and> contains s c"
  by (simp add: without_host_access_def caps.holds_fold_drop)

lemma flag_name_host_facing: "flag_name c \<noteq> None \<longleftrightarrow> c \<in> set HOST_FACING"
  by (cases c) (simp_all add: HOST_FACING_def)

lemmas contains_simps [capability_simps] =
  contains_none contains_grant contains_revoke contains_all_caps contains_without_host_access
  caps.holds_fold_add caps.holds_fold_drop

section \<open>The set a bit set stands for\<close>

definition caps_of :: "capability_set \<Rightarrow> capability set" where
  "caps_of s = {c. contains s c}"

text \<open>The bits a set built through the interface can have.\<close>

definition wf_caps :: "capability_set \<Rightarrow> bool" where
  "wf_caps s \<longleftrightarrow> drop_bit 15 (bits s) = 0"

lemma wf_caps_bit: "wf_caps s \<longleftrightarrow> (\<forall>n\<ge>15. \<not> bit (bits s) n)"
proof
  assume w: "wf_caps s"
  show "\<forall>n\<ge>15. \<not> bit (bits s) n"
  proof (intro allI impI)
    fix n :: nat
    assume "15 \<le> n"
    with w have "\<not> bit (drop_bit 15 (bits s)) (n - 15)" by (simp add: wf_caps_def)
    with \<open>15 \<le> n\<close> show "\<not> bit (bits s) n" by (simp add: bit_drop_bit_eq)
  qed
next
  assume "\<forall>n\<ge>15. \<not> bit (bits s) n"
  then show "wf_caps s" by (auto simp: wf_caps_def bit_eq_iff bit_drop_bit_eq)
qed

lemma bit_implies_bound: "bit (implies c) n \<Longrightarrow> n < 15"
  by (cases c) (auto simp: bit_cap_bit simp del: cap_bit.simps)

lemma wf_none: "wf_caps none"
  by (simp add: wf_caps_def none_def)

lemma wf_grant: "wf_caps s \<Longrightarrow> wf_caps (grant c s)"
  using cap_index_less [of c] bit_implies_bound [of c]
  by (auto simp: wf_caps_bit grant_def bit_or_iff bit_cap_bit not_le [symmetric])

lemma wf_revoke: "wf_caps s \<Longrightarrow> wf_caps (revoke c s)"
  by (simp add: wf_caps_bit revoke_def bit_and_iff)

lemma wf_all_caps: "wf_caps all_caps"
  by (simp add: all_caps_def ALL_CAPABILITIES_def none_def wf_caps_def)

lemma caps_of_eq_iff:
  assumes "wf_caps s" "wf_caps t"
  shows "caps_of s = caps_of t \<longleftrightarrow> s = t"
proof
  assume eq: "caps_of s = caps_of t"
  have "bit (bits s) n = bit (bits t) n" for n
  proof (cases "n < 15")
    case True
    then obtain c where "cap_index c = n" using cap_index_onto by blast
    with eq show ?thesis by (auto simp: caps_of_def set_eq_iff contains_iff_bit)
  qed (use assms in \<open>simp add: wf_caps_bit\<close>)
  then have "bits s = bits t" by (simp add: bit_eq_iff)
  then show "s = t" by simp
qed simp

text \<open>
  C1: the bit set implements sets of capabilities. The empty set, \<open>with\<close>, granting, revoking,
  the full set and \<open>--deny-all\<close>'s set are the set operations they name (\<open>with\<close> and a grant carry what
  the capability implies), they keep the set within its fifteen bits, and there two sets are equal
  exactly when they grant the same capabilities, so no bit is shared, lost or left over.
\<close>

theorem capability_set_refines_set:
  assumes "wf_caps s" and "wf_caps t"
  shows "caps_of none = {} \<and> caps_of all_caps = UNIV \<and>
    caps_of (with_cap s c) = {c} \<union> implied c \<union> caps_of s \<and>
    caps_of (grant c s) = {c} \<union> implied c \<union> caps_of s \<and>
    caps_of (revoke c s) = caps_of s - {c} \<and>
    caps_of (without_host_access s) = caps_of s - set HOST_FACING \<and>
    wf_caps none \<and> wf_caps all_caps \<and> wf_caps (with_cap s c) \<and> wf_caps (grant c s) \<and> wf_caps (revoke c s) \<and>
    (caps_of s = caps_of t \<longleftrightarrow> s = t)"
  using assms
  by (auto simp: caps_of_eq_iff wf_none wf_all_caps with_cap_grant wf_grant wf_revoke)
     (auto simp: caps_of_def capability_simps)

theorem capability_set_refines_set_witness:
  "caps_of (revoke Net (grant DiagnosticsDetail (grant Net none))) =
     {DiagnosticsDetail, DiagnosticsObserve}"
proof -
  have w: "wf_caps (grant Net none)" "wf_caps (grant DiagnosticsDetail (grant Net none))"
    by (simp_all add: wf_grant wf_none)
  have "caps_of (grant Net none) = {Net}"
    using capability_set_refines_set [OF wf_none wf_none, of Net] by (simp add: implied_def)
  then have "caps_of (grant DiagnosticsDetail (grant Net none)) = {DiagnosticsDetail, DiagnosticsObserve, Net}"
    using capability_set_refines_set [OF w(1) w(1), of DiagnosticsDetail] by (auto simp: implied_def)
  then show ?thesis
    using capability_set_refines_set [OF w(2) w(2), of Net] by auto
qed

section \<open>The denial vocabulary\<close>

text \<open>
  The flag vocabulary is a bijection. \<open>from_flag_name\<close> reads back exactly the names
  \<open>flag_name\<close> writes, no two capabilities share one, the capabilities with a name are the
  host-facing ones, and \<open>denied_names\<close> lists, in that order, the names of those not held.
\<close>

theorem flag_name_roundtrip:
  "(from_flag_name n = Some c \<longleftrightarrow> flag_name c = Some n) \<and>
   (flag_name c = None \<longleftrightarrow> c \<notin> set HOST_FACING) \<and>
   (n \<in> set (denied_names s) \<longleftrightarrow> (\<exists>d. from_flag_name n = Some d \<and> \<not> contains s d))"
proof -
  have inj: "flag_name a = Some m \<Longrightarrow> flag_name b = Some m \<Longrightarrow> a = b" for a b m
    by (cases a; cases b) auto
  have rt: "from_flag_name m = Some d \<longleftrightarrow> flag_name d = Some m" for m d
  proof
    assume "from_flag_name m = Some d"
    then show "flag_name d = Some m" by (auto simp: from_flag_name_def find_Some_iff)
  next
    assume d: "flag_name d = Some m"
    then have "d \<in> set HOST_FACING" using flag_name_host_facing by blast
    with d have "from_flag_name m \<noteq> None" by (auto simp: from_flag_name_def find_None_iff)
    then obtain e where "from_flag_name m = Some e" by blast
    with d inj show "from_flag_name m = Some d" by (auto simp: from_flag_name_def find_Some_iff)
  qed
  have "n \<in> set (denied_names s) \<longleftrightarrow>
      (\<exists>d\<in>set HOST_FACING. \<not> contains s d \<and> flag_name d = Some n)"
    unfolding denied_names_def in_set_map_filter by auto
  moreover have "flag_name d = Some n \<Longrightarrow> d \<in> set HOST_FACING" for d
    using flag_name_host_facing [of d] by simp
  ultimately show ?thesis
    using rt flag_name_host_facing [of c] by blast
qed

section \<open>Implication\<close>

text \<open>A set is closed when it holds what its capabilities imply.\<close>

definition implication_closed :: "capability_set \<Rightarrow> bool" where
  "implication_closed s \<longleftrightarrow> (\<forall>c. contains s c \<longrightarrow> implied c \<subseteq> caps_of s)"

lemma implication_closed_iff:
  "implication_closed s \<longleftrightarrow> (contains s DiagnosticsDetail \<longrightarrow> contains s DiagnosticsObserve)"
  by (auto simp: implication_closed_def implied_def caps_of_def)

text \<open>
  A set built by grants is closed under implication, and so is the full set, but a
  revocation can open it: exactly when it takes \<open>DiagnosticsObserve\<close> from a set that holds
  \<open>DiagnosticsDetail\<close>, which then keeps the wider grant without the narrower one.
\<close>

theorem implication_closure:
  "implication_closed none \<and> implication_closed all_caps \<and>
   (implication_closed s \<longrightarrow> implication_closed (grant c s)) \<and>
   (implication_closed s \<longrightarrow>
      (implication_closed (revoke c s) \<longleftrightarrow> \<not> (c = DiagnosticsObserve \<and> contains s DiagnosticsDetail)))"
  by (auto simp: implication_closed_iff capability_simps implied_def)

theorem implication_closure_witness:
  "\<not> implication_closed (revoke DiagnosticsObserve all_caps) \<and>
   implication_closed (revoke DiagnosticsDetail all_caps)"
  using implication_closure [of all_caps DiagnosticsObserve]
    implication_closure [of all_caps DiagnosticsDetail]
  by (simp add: contains_all_caps)

end
