(* ===== verification/Allowlist.thy ===== *)
theory Allowlist
  imports Prelude
begin

text \<open>
  The contract the address list and the path list share: a list permits a request exactly when
  one of its entries admits it. What follows from that (an empty list permits nothing, a longer
  list permits more, order and repetition do not matter) is proved once here.
\<close>

locale allowlist =
  fixes admits :: "'e \<Rightarrow> 'r \<Rightarrow> bool"
    and permits :: "'e list \<Rightarrow> 'r \<Rightarrow> bool"
  assumes permits_iff: "permits es r \<longleftrightarrow> (\<exists>e\<in>set es. admits e r)"
begin

lemma permits_Nil [simp]: "\<not> permits [] r"
  by (simp add: permits_iff)

lemma permits_append: "permits (es @ fs) r \<longleftrightarrow> permits es r \<or> permits fs r"
  by (auto simp: permits_iff)

lemma permits_mono: "set es \<subseteq> set fs \<Longrightarrow> permits es r \<Longrightarrow> permits fs r"
  by (auto simp: permits_iff)

lemma permits_set: "set es = set fs \<Longrightarrow> permits es r = permits fs r"
  by (auto simp: permits_iff)

lemma permits_refusedD: "\<not> permits es r \<Longrightarrow> e \<in> set es \<Longrightarrow> \<not> admits e r"
  by (auto simp: permits_iff)

end

text \<open>A list whose entries each admit a part of the requests closed under some relation.\<close>

locale closed_allowlist = allowlist +
  fixes below :: "'b \<Rightarrow> 'b \<Rightarrow> bool"
  assumes admits_below: "admits e r \<Longrightarrow> below r' r \<Longrightarrow> admits e r'"
begin

lemma permits_below: "permits es r \<Longrightarrow> below r' r \<Longrightarrow> permits es r'"
  by (auto simp: permits_iff intro: admits_below)

end

end
