(* ===== verification/IpAddr.thy ===== *)
theory IpAddr
  imports Prelude
begin

text \<open>
  The textual forms of an IP address that Rust's standard library reads
  (\<open>str::parse::<IpAddr>()\<close>), which the address allowlist compares by value. A parser takes
  the text that is left and returns what it read and the rest; \<open>None\<close> leaves the caller's
  text untouched, as the library's atomic reads do.
\<close>

datatype ip_addr = V4 "u8 list" | V6 "u16 list"

type_synonym 'a reader = "string \<Rightarrow> ('a \<times> string) option"

fun digit_value :: "nat \<Rightarrow> char \<Rightarrow> nat option" where
  "digit_value radix c =
     (let n = code c;
          v = (if 48 \<le> n \<and> n \<le> 57 then n - 48
               else if 97 \<le> n \<and> n \<le> 122 then n - 87
               else if 65 \<le> n \<and> n \<le> 90 then n - 55 else radix)
      in if v < radix then Some v else None)"

fun read_digits :: "nat \<Rightarrow> nat \<Rightarrow> nat \<Rightarrow> string \<Rightarrow> nat \<times> nat \<times> string" where
  "read_digits radix acc count [] = (acc, count, [])"
| "read_digits radix acc count (c # cs) =
     (case digit_value radix c of
        None \<Rightarrow> (acc, count, c # cs)
      | Some d \<Rightarrow> read_digits radix (acc * radix + d) (Suc count) cs)"

text \<open>
  A number of at most \<open>most\<close> digits that fits \<open>bound\<close>; more digits is no number at all, and
  without \<open>zeros\<close> a leading zero is allowed only on its own.
\<close>

definition read_number :: "nat \<Rightarrow> nat \<Rightarrow> bool \<Rightarrow> nat \<Rightarrow> nat reader" where
  "read_number radix most zeros bound s =
     (case read_digits radix 0 0 s of (n, count, rest) \<Rightarrow>
        if count = 0 \<or> count > most \<or> bound \<le> n then None
        else if \<not> zeros \<and> count > 1 \<and> hd s = CHR ''0'' then None
        else Some (n, rest))"

fun read_char :: "char \<Rightarrow> unit reader" where
  "read_char c [] = None"
| "read_char c (x # xs) = (if x = c then Some ((), xs) else None)"

definition read_separated :: "char \<Rightarrow> nat \<Rightarrow> 'a reader \<Rightarrow> 'a reader" where
  "read_separated sep index p s =
     (if index = 0 then p s
      else Option.bind (read_char sep s) (\<lambda>(_, rest). p rest))"

fun read_octets :: "nat \<Rightarrow> nat \<Rightarrow> nat list reader" where
  "read_octets index 0 s = Some ([], s)"
| "read_octets index (Suc n) s =
     Option.bind (read_separated CHR ''.'' index (read_number 10 3 False 256) s) (\<lambda>(x, rest).
       Option.bind (read_octets (Suc index) n rest) (\<lambda>(xs, rest'). Some (x # xs, rest')))"

definition read_ipv4 :: "u8 list reader" where
  "read_ipv4 s = map_option (map_prod (map word_of_nat) (\<lambda>r. r)) (read_octets 0 4 s)"

text \<open>
  Up to \<open>limit\<close> groups of an IPv6 address, from group \<open>i\<close> on: a dotted IPv4 address may stand
  for the last two, and ends the groups.
\<close>

fun read_groups :: "nat \<Rightarrow> nat \<Rightarrow> string \<Rightarrow> u16 list \<times> bool \<times> string" where
  "read_groups i 0 s = ([], False, s)"
| "read_groups i (Suc n) s =
     (case (if n = 0 then None else read_separated CHR '':'' i read_ipv4 s) of
        Some ([a, b, c, d], rest) \<Rightarrow>
          ([word_of_nat (unat a * 256 + unat b), word_of_nat (unat c * 256 + unat d)], True, rest)
      | _ \<Rightarrow>
          (case read_separated CHR '':'' i (read_number 16 4 True 65536) s of
             Some (g, rest) \<Rightarrow>
               (case read_groups (Suc i) n rest of (gs, v4, rest') \<Rightarrow> (word_of_nat g # gs, v4, rest'))
           | None \<Rightarrow> ([], False, s)))"

definition read_ipv6 :: "u16 list reader" where
  "read_ipv6 s =
     (case read_groups 0 8 s of (front, v4, rest) \<Rightarrow>
        if length front = 8 then Some (front, rest)
        else if v4 then None
        else Option.bind (read_char CHR '':'' rest) (\<lambda>(_, rest1).
          Option.bind (read_char CHR '':'' rest1) (\<lambda>(_, rest2).
            case read_groups 0 (8 - (length front + 1)) rest2 of (back, _, rest3) \<Rightarrow>
              Some (front @ replicate (8 - length front - length back) 0 @ back, rest3))))"

definition parse_ip :: "string \<Rightarrow> ip_addr option" where
  "parse_ip s =
     (case read_ipv4 s of
        Some (a, rest) \<Rightarrow> if rest = [] then Some (V4 a) else None
      | None \<Rightarrow>
          (case read_ipv6 s of
             Some (g, rest) \<Rightarrow> if rest = [] then Some (V6 g) else None
           | None \<Rightarrow> None))"

text \<open>\<open>str::parse::<u16>()\<close>: decimal digits, a leading \<open>+\<close> allowed, within the width.\<close>

definition parse_u16 :: "string \<Rightarrow> u16 option" where
  "parse_u16 s =
     (let body = (case s of c # cs \<Rightarrow> if c = CHR ''+'' then cs else s | [] \<Rightarrow> s)
      in case read_digits 10 0 0 body of (n, count, rest) \<Rightarrow>
           if count = 0 \<or> rest \<noteq> [] \<or> 65536 \<le> n then None else Some (word_of_nat n))"

section \<open>Letter case\<close>

text \<open>
  Every reader is blind to the case of letters: it reads the same value from a lower-cased
  text and leaves the rest lower-cased.
\<close>

definition case_blind :: "'a reader \<Rightarrow> bool" where
  "case_blind p \<longleftrightarrow>
     (\<forall>s. p (map lower_char s) = map_option (map_prod (\<lambda>x. x) (map lower_char)) (p s))"

lemma case_blindD:
  "case_blind p \<Longrightarrow> p (map lower_char s) = map_option (map_prod (\<lambda>x. x) (map lower_char)) (p s)"
  by (simp add: case_blind_def)

lemma digit_value_lower: "digit_value radix (lower_char c) = digit_value radix c"
  by (simp add: code_lower_char is_ascii_upper_def Let_def)

lemma read_digits_lower:
  "read_digits radix acc count (map lower_char s) =
     map_prod (\<lambda>x. x) (map_prod (\<lambda>x. x) (map lower_char)) (read_digits radix acc count s)"
  by (induction radix acc count s rule: read_digits.induct)
     (simp_all add: digit_value_lower split: option.split del: digit_value.simps)

lemma code_eq_iff: "code c = code d \<longleftrightarrow> c = d"
  by (simp add: code_def)

lemma lower_char_eq_iff: "\<not> is_ascii_lower d \<Longrightarrow> \<not> is_ascii_upper d \<Longrightarrow> lower_char c = d \<longleftrightarrow> c = d"
  by (auto simp: code_eq_iff [symmetric] code_lower_char is_ascii_upper_def is_ascii_lower_def)

lemma hd_lower_zero: "s \<noteq> [] \<Longrightarrow> hd (map lower_char s) = CHR ''0'' \<longleftrightarrow> hd s = CHR ''0''"
  by (cases s) (simp_all add: lower_char_eq_iff is_ascii_lower_def is_ascii_upper_def code_def)

lemma case_blind_number: "case_blind (read_number radix most zeros bound)"
proof -
  have "read_number radix most zeros bound (map lower_char s) =
      map_option (map_prod (\<lambda>x. x) (map lower_char)) (read_number radix most zeros bound s)" for s
  proof (cases "s = []")
    case False
    obtain n k rest where "read_digits radix 0 0 s = (n, k, rest)"
      by (cases "read_digits radix 0 0 s")
    with False show ?thesis
      by (simp add: read_number_def read_digits_lower hd_lower_zero)
  qed (simp add: read_number_def)
  then show ?thesis by (simp add: case_blind_def to_ascii_lowercase_def)
qed

lemma case_blind_char:
  "\<not> is_ascii_lower c \<Longrightarrow> \<not> is_ascii_upper c \<Longrightarrow> case_blind (read_char c)"
  unfolding case_blind_def to_ascii_lowercase_def
proof
  fix s
  assume "\<not> is_ascii_lower c" "\<not> is_ascii_upper c"
  then show "read_char c (map lower_char s) =
      map_option (map_prod (\<lambda>x. x) (map lower_char)) (read_char c s)"
    by (cases s) (simp_all add: lower_char_eq_iff)
qed

lemma case_blind_bind:
  "case_blind p \<Longrightarrow> (\<And>x. case_blind (f x)) \<Longrightarrow>
     case_blind (\<lambda>s. Option.bind (p s) (\<lambda>(x, rest). f x rest))"
  by (auto simp: case_blind_def split: bind_split)

lemma case_blind_separated:
  "case_blind p \<Longrightarrow> \<not> is_ascii_lower c \<Longrightarrow> \<not> is_ascii_upper c \<Longrightarrow> case_blind (read_separated c i p)"
  unfolding read_separated_def
  by (cases "i = 0") (simp_all add: case_blind_bind [OF case_blind_char])

lemma separators_caseless:
  "\<not> is_ascii_lower CHR '':''" "\<not> is_ascii_upper CHR '':''"
  "\<not> is_ascii_lower CHR ''.''" "\<not> is_ascii_upper CHR ''.''"
  by (simp_all add: is_ascii_lower_def is_ascii_upper_def code_def)

lemma case_blind_octets: "case_blind (read_octets i n)"
proof (induction n arbitrary: i)
  case (Suc n)
  have pure: "case_blind (\<lambda>rest. Some (x # xs, rest))" for x :: nat and xs
    by (simp add: case_blind_def)
  show ?case
    by (simp add: case_blind_bind case_blind_separated case_blind_number separators_caseless
        Suc.IH pure)
qed (simp add: case_blind_def)

lemma case_blind_ipv4: "case_blind read_ipv4"
  using case_blind_octets [of 0 4]
  by (simp add: case_blind_def read_ipv4_def option.map_comp comp_def prod.map_comp)

lemma read_groups_lower:
  "read_groups i n (map lower_char s) =
     map_prod (\<lambda>x. x) (map_prod (\<lambda>x. x) (map lower_char)) (read_groups i n s)"
proof (induction i n s rule: read_groups.induct)
  case (2 i n s)
  have a: "read_separated CHR '':'' i read_ipv4 (map lower_char s) =
      map_option (map_prod (\<lambda>x. x) (map lower_char)) (read_separated CHR '':'' i read_ipv4 s)"
    by (rule case_blindD) (simp add: case_blind_separated case_blind_ipv4 separators_caseless)
  have b: "read_separated CHR '':'' i (read_number 16 4 True 65536) (map lower_char s) =
      map_option (map_prod (\<lambda>x. x) (map lower_char))
        (read_separated CHR '':'' i (read_number 16 4 True 65536) s)"
    by (rule case_blindD) (simp add: case_blind_separated case_blind_number separators_caseless)
  show ?case
    unfolding read_groups.simps a b
    using "2.IH"
    by (fastforce split: option.splits list.splits prod.splits if_splits)
qed simp

lemma case_blind_ipv6: "case_blind read_ipv6"
proof -
  have colon: "read_char CHR '':'' (map lower_char r) =
      map_option (map_prod (\<lambda>x. x) (map lower_char)) (read_char CHR '':'' r)" for r
    by (rule case_blindD) (simp add: case_blind_char separators_caseless)
  show ?thesis
    unfolding case_blind_def to_ascii_lowercase_def
    by (auto simp: read_ipv6_def read_groups_lower colon Option.bind_map_option bind_eq_Some_conv
        split: prod.splits bind_splits)
qed

lemma parse_ip_lower: "parse_ip (to_ascii_lowercase s) = parse_ip s"
  using case_blind_ipv4 case_blind_ipv6
  by (auto simp: parse_ip_def case_blind_def to_ascii_lowercase_def split: option.split)

text \<open>The facts that evaluate the readers on a literal.\<close>

lemmas ip_eval =
  parse_ip_def read_ipv4_def read_ipv6_def read_number_def read_separated_def code_def
  parse_u16_def
  read_octets.simps(2) [of _ "pred_numeral k" for k, folded numeral_eq_Suc]
  read_groups.simps(2) [of _ "pred_numeral k" for k, folded numeral_eq_Suc]
  replicate_Suc [of "pred_numeral k" for k, folded numeral_eq_Suc]

lemma parse_ip_examples:
  "parse_ip ''127.0.0.1'' = Some (V4 [127, 0, 0, 1])"
  "parse_ip ''127.0.0.01'' = None"
  "parse_ip ''example.com'' = None"
  by (simp_all add: ip_eval)

lemma parse_ip_v6_examples:
  "parse_ip ''::1'' = Some (V6 [0, 0, 0, 0, 0, 0, 0, 1])"
  "parse_ip ''0:0:0:0:0:0:0:1'' = Some (V6 [0, 0, 0, 0, 0, 0, 0, 1])"
  "parse_ip ''::ffff:10.0.0.1'' = Some (V6 [0, 0, 0, 0, 0, 65535, 2560, 1])"
  "parse_ip ''1::2::3'' = None"
  by (simp_all add: ip_eval)

end
