(* ===== verification/Paths.thy ===== *)
theory Paths
  imports Prelude "HOL-Library.Sublist"
begin

text \<open>
  \<open>crates/default-providers/src/path.rs\<close> and the part of \<open>std::path\<close> it stands on, as it is
  on Unix: a path is its list of components, which is what Rust compares two paths by, what
  \<open>starts_with\<close> matches and what \<open>parent\<close>, \<open>push\<close> and \<open>pop\<close> move along. The file system
  itself (\<open>canonicalize\<close>, \<open>is_dir\<close>, \<open>is_file\<close>) is a parameter of the functions that ask it.
\<close>

section \<open>Components\<close>

datatype component = RootDir | CurDir | ParentDir | Normal string

type_synonym path = "component list"

fun piece :: "string \<Rightarrow> path" where
  "piece s = (if s = [] \<or> s = ''.'' then [] else if s = ''..'' then [ParentDir] else [Normal s])"

definition components :: "string \<Rightarrow> path" where
  "components s =
     (case split_on CHR ''/'' s of
        [] \<Rightarrow> []
      | p # ps \<Rightarrow>
          (if p = [] \<and> ps \<noteq> [] then [RootDir] else if p = ''.'' then [CurDir] else piece p)
          @ concat (map piece ps))"

definition is_absolute :: "path \<Rightarrow> bool" where
  "is_absolute p \<longleftrightarrow> (case p of RootDir # _ \<Rightarrow> True | _ \<Rightarrow> False)"

definition starts_with :: "path \<Rightarrow> path \<Rightarrow> bool" where
  "starts_with p base \<longleftrightarrow> strip_prefix base p \<noteq> None"

fun parent :: "path \<Rightarrow> path option" where
  "parent p = (if p = [] \<or> last p = RootDir then None else Some (butlast p))"

definition file_name :: "path \<Rightarrow> string option" where
  "file_name p = (if p = [] then None else (case last p of Normal s \<Rightarrow> Some s | _ \<Rightarrow> None))"

definition pop :: "path \<Rightarrow> path" where
  "pop p = (case parent p of Some q \<Rightarrow> q | None \<Rightarrow> p)"

text \<open>\<open>push\<close>: an absolute argument replaces the path; \<open>.\<close> only stays in front.\<close>

definition join :: "path \<Rightarrow> path \<Rightarrow> path" where
  "join p q =
     (case q of
        RootDir # _ \<Rightarrow> q
      | CurDir # q' \<Rightarrow> if p = [] then q else p @ q'
      | _ \<Rightarrow> p @ q)"

definition push :: "path \<Rightarrow> string \<Rightarrow> path" where
  "push p s = join p (components s)"

text \<open>\<open>ancestors\<close>: the path, its parent, and so on.\<close>

function ancestors :: "path \<Rightarrow> path list" where
  "ancestors p = p # (case parent p of None \<Rightarrow> [] | Some q \<Rightarrow> ancestors q)"
  by pat_completeness auto
termination by (relation "measure length") (auto split: if_splits)

declare ancestors.simps [simp del]

section \<open>path.rs\<close>

definition join_relative :: "path \<Rightarrow> string \<Rightarrow> path" where
  "join_relative base rel =
     fold (\<lambda>segment out.
        if segment = [] \<or> segment = ''.'' then out
        else if segment = ''..'' then pop out
        else push out segment) (split_on CHR ''/'' rel) base"

definition within_root :: "path \<Rightarrow> path \<Rightarrow> bool" where
  "within_root real root \<longleftrightarrow> starts_with real root"

definition is_installed_dependency :: "path \<Rightarrow> bool" where
  "is_installed_dependency dir \<longleftrightarrow> Normal ''node_modules'' \<in> set dir"

text \<open>The two tests of one ancestor in \<open>detect_root\<close>'s loop.\<close>

definition is_project_root :: "(path \<Rightarrow> bool) \<Rightarrow> (path \<Rightarrow> bool) \<Rightarrow> path \<Rightarrow> bool" where
  "is_project_root is_dir is_file a \<longleftrightarrow>
     \<not> is_installed_dependency a \<and>
     (is_dir (push a ''node_modules'') \<or> is_file (push a ''package.json''))"

definition start_of :: "(path \<Rightarrow> path option) \<Rightarrow> path \<Rightarrow> path" where
  "start_of canonicalize dir = (case canonicalize dir of Some real \<Rightarrow> real | None \<Rightarrow> dir)"

definition detect_root ::
  "(path \<Rightarrow> path option) \<Rightarrow> (path \<Rightarrow> bool) \<Rightarrow> (path \<Rightarrow> bool) \<Rightarrow> path \<Rightarrow> path" where
  "detect_root canonicalize is_dir is_file dir =
     (let start = start_of canonicalize dir
      in case find (is_project_root is_dir is_file) (ancestors start) of
           Some a \<Rightarrow> a
         | None \<Rightarrow> start)"

text \<open>The forward-slash form of an id, and back; \<open>windows\<close> is \<open>cfg!(windows)\<close>.\<close>

definition replace_char :: "char \<Rightarrow> char \<Rightarrow> string \<Rightarrow> string" where
  "replace_char a b s = map (\<lambda>c. if c = a then b else c) s"

definition slash_on :: "string \<Rightarrow> bool \<Rightarrow> string" where
  "slash_on s windows = (if windows then replace_char (CHR 0x5C) CHR ''/'' s else s)"

definition is_sep :: "char \<Rightarrow> bool" where
  "is_sep c \<longleftrightarrow> c = CHR 0x5C \<or> c = CHR ''/''"

fun is_windows_absolute :: "string \<Rightarrow> bool" where
  "is_windows_absolute (a # b # c # _) \<longleftrightarrow>
     (is_ascii_alphabetic a \<and> b = CHR '':'' \<and> is_sep c) \<or> (is_sep a \<and> is_sep b \<and> \<not> is_sep c)"
| "is_windows_absolute _ \<longleftrightarrow> False"

definition path_part :: "string \<Rightarrow> string" where
  "path_part s = takeWhile (\<lambda>c. c \<noteq> CHR ''?'' \<and> c \<noteq> CHR ''#'') s"

definition swap_in_path :: "char \<Rightarrow> char \<Rightarrow> string \<Rightarrow> string" where
  "swap_in_path a b s =
     (let p = path_part s; rest = drop (length p) s
      in if a \<notin> set p then s else replace_char a b p @ rest)"

definition slash_id_on :: "string \<Rightarrow> bool \<Rightarrow> string" where
  "slash_id_on s windows =
     (if \<not> windows \<or> \<not> is_windows_absolute s then s else swap_in_path (CHR 0x5C) CHR ''/'' s)"

definition native_on :: "string \<Rightarrow> bool \<Rightarrow> string" where
  "native_on s windows =
     (if \<not> windows \<or> \<not> is_windows_absolute s then s else swap_in_path CHR ''/'' (CHR 0x5C) s)"

section \<open>Laws of paths\<close>

lemma starts_with_prefix: "starts_with p base \<longleftrightarrow> prefix base p"
  by (cases "strip_prefix base p") (auto simp: starts_with_def strip_prefix_iff prefix_def)

lemma starts_with_refl [simp]: "starts_with p p"
  by (simp add: starts_with_prefix)

lemma starts_with_trans: "starts_with p q \<Longrightarrow> starts_with q r \<Longrightarrow> starts_with p r"
  by (auto simp: starts_with_prefix)

lemma starts_with_append [simp]: "starts_with (p @ q) p"
  by (simp add: starts_with_prefix)

lemma starts_with_extend: "starts_with p r \<Longrightarrow> starts_with (p @ q) r"
  by (simp add: starts_with_prefix)

lemma starts_with_linear:
  "starts_with p a \<Longrightarrow> starts_with p b \<Longrightarrow> starts_with a b \<or> starts_with b a"
  by (auto simp: starts_with_prefix dest: prefix_same_cases)

lemma is_absolute_append: "is_absolute p \<Longrightarrow> is_absolute (p @ q)"
  by (auto simp: is_absolute_def split: list.splits component.splits)

lemma is_absolute_iff: "is_absolute p \<longleftrightarrow> p \<noteq> [] \<and> hd p = RootDir"
  by (cases p) (auto simp: is_absolute_def split: component.splits)

lemma parent_prefix: "parent p = Some q \<Longrightarrow> starts_with p q"
  by (auto simp: starts_with_prefix prefix_def split: if_splits) (metis append_butlast_last_id)

lemma is_absolute_pop: "is_absolute p \<Longrightarrow> is_absolute (pop p)"
  by (cases p) (auto simp: is_absolute_iff pop_def)

lemma is_absolute_push: "is_absolute p \<Longrightarrow> is_absolute (push p s)"
  by (auto simp: push_def join_def is_absolute_iff split: list.splits component.splits)

lemma ancestors_prefix: "a \<in> set (ancestors p) \<Longrightarrow> starts_with p a"
proof (induction p rule: ancestors.induct)
  case (1 p)
  show ?case
  proof (cases "parent p")
    case None
    with "1.prems" show ?thesis by (subst (asm) ancestors.simps) simp
  next
    case (Some q)
    with "1.prems" have "a = p \<or> a \<in> set (ancestors q)"
      by (subst (asm) ancestors.simps) simp
    with "1.IH" [OF Some] parent_prefix [OF Some] show ?thesis by (auto intro: starts_with_trans)
  qed
qed

lemma split_on_single_piece: "CHR ''/'' \<notin> set s \<Longrightarrow> s \<noteq> [] \<Longrightarrow> s \<noteq> ''.'' \<Longrightarrow> components s = piece s"
  by (simp add: components_def split_on_free)

lemma join_relative_step:
  assumes "segment \<in> set (split_on CHR ''/'' rel)" and "segment \<noteq> ''..''"
  shows "(if segment = [] \<or> segment = ''.'' then out
          else if segment = ''..'' then pop out else push out segment) = out @ piece segment"
proof (cases "segment = [] \<or> segment = ''.''")
  case False
  moreover have "components segment = [Normal segment]"
    using False assms split_on_pieces_free [OF assms(1)]
    by (subst split_on_single_piece) auto
  ultimately show ?thesis using assms(2) by (simp add: push_def join_def)
qed simp

text \<open>
  A path made relative stays where it belongs: joining a \<open>/\<close>-separated relative path onto
  an absolute base gives an absolute path, and when no segment is \<open>..\<close> the result lies under
  the base, its tail being exactly the named segments.
\<close>

theorem join_relative_confined:
  assumes "is_absolute base"
  shows "is_absolute (join_relative base rel) \<and>
    (''..'' \<notin> set (split_on CHR ''/'' rel) \<longrightarrow>
       join_relative base rel = base @ concat (map piece (split_on CHR ''/'' rel)) \<and>
       within_root (join_relative base rel) base)"
proof -
  have abs: "is_absolute out \<Longrightarrow> is_absolute (fold (\<lambda>segment out.
        if segment = [] \<or> segment = ''.'' then out
        else if segment = ''..'' then pop out
        else push out segment) segs out)" for segs out
    by (induction segs arbitrary: out) (simp_all add: is_absolute_pop is_absolute_push)
  have down: "set segs \<subseteq> set (split_on CHR ''/'' rel) \<Longrightarrow> ''..'' \<notin> set segs \<Longrightarrow>
      fold (\<lambda>segment out.
        if segment = [] \<or> segment = ''.'' then out
        else if segment = ''..'' then pop out
        else push out segment) segs out = out @ concat (map piece segs)" for segs out
  proof (induction segs arbitrary: out)
    case (Cons x segs)
    then have "(if x = [] \<or> x = ''.'' then out
          else if x = ''..'' then pop out else push out x) = out @ piece x"
      by (intro join_relative_step) auto
    with Cons show ?case by (simp del: piece.simps)
  qed simp
  show ?thesis
    using abs [OF assms] down [OF subset_refl]
    by (simp add: join_relative_def within_root_def del: piece.simps)
qed

theorem join_relative_confined_witness:
  "join_relative (components ''/srv/app'') ''./dist//main.js'' = components ''/srv/app/dist/main.js''
   \<and> within_root (join_relative (components ''/srv/app'') ''./dist//main.js'') (components ''/srv/app'')"
proof -
  have "is_absolute (components ''/srv/app'')"
    by (simp add: components_def is_absolute_def)
  from join_relative_confined [OF this, of "''./dist//main.js''"] show ?thesis
    by (simp add: components_def) (metis (no_types))
qed

lemma ancestors_nested: "sorted_wrt starts_with (ancestors p)"
proof (induction p rule: ancestors.induct)
  case (1 p)
  show ?case
  proof (cases "parent p")
    case None
    then show ?thesis by (subst ancestors.simps) simp
  next
    case (Some q)
    have "starts_with p a" if "a \<in> set (ancestors q)" for a
      using ancestors_prefix [OF that] parent_prefix [OF Some] starts_with_trans by blast
    with Some "1.IH" [OF Some] show ?thesis by (subst ancestors.simps) simp
  qed
qed

lemma find_sorted_wrt:
  "sorted_wrt R xs \<Longrightarrow> find P xs = Some x \<Longrightarrow> y \<in> set xs \<Longrightarrow> P y \<Longrightarrow> x = y \<or> R x y"
  by (induction xs) (auto split: if_splits)

lemma self_ancestor: "p \<in> set (ancestors p)"
  by (subst ancestors.simps) simp

text \<open>
  The sandbox root is the start directory or an ancestor of it. When some ancestor holds
  \<open>node_modules\<close> or \<open>package.json\<close> and is not itself installed under a \<open>node_modules\<close>, the
  root is such a one and every other lies above it; otherwise it is the start directory.
\<close>

theorem detect_root_nearest:
  "within_root (start_of canonicalize dir) (detect_root canonicalize is_dir is_file dir) \<and>
   (\<forall>a\<in>set (ancestors (start_of canonicalize dir)). is_project_root is_dir is_file a \<longrightarrow>
      is_project_root is_dir is_file (detect_root canonicalize is_dir is_file dir) \<and>
      within_root (detect_root canonicalize is_dir is_file dir) a) \<and>
   (detect_root canonicalize is_dir is_file dir = start_of canonicalize dir \<or>
    is_project_root is_dir is_file (detect_root canonicalize is_dir is_file dir))"
proof (cases "find (is_project_root is_dir is_file) (ancestors (start_of canonicalize dir))")
  case None
  then have "detect_root canonicalize is_dir is_file dir = start_of canonicalize dir"
    by (simp add: detect_root_def Let_def)
  with None show ?thesis by (auto simp: within_root_def find_None_iff)
next
  case (Some r)
  then have "r \<in> set (ancestors (start_of canonicalize dir))" "is_project_root is_dir is_file r"
    by (auto simp: find_Some_iff)
  moreover have "starts_with r a"
    if "a \<in> set (ancestors (start_of canonicalize dir))" "is_project_root is_dir is_file a" for a
    using find_sorted_wrt [OF ancestors_nested Some that] by auto
  ultimately show ?thesis
    using Some by (simp add: detect_root_def within_root_def ancestors_prefix)
qed

text \<open>An entry inside an installed package: its own manifest is passed over.\<close>

theorem detect_root_nearest_witness:
  "within_root (detect_root Some (\<lambda>_. False)
       (\<lambda>p. last p = Normal ''package.json'' \<and> length p \<in> {3, 5})
       [RootDir, Normal ''app'', Normal ''node_modules'', Normal ''pkg''])
     [RootDir, Normal ''app'']"
proof -
  let ?file = "\<lambda>p. last p = Normal ''package.json'' \<and> length p \<in> {3, 5 :: nat}"
  let ?dir = "[RootDir, Normal ''app'', Normal ''node_modules'', Normal ''pkg'']"
  have "[RootDir, Normal ''app''] \<in> set (ancestors (start_of Some ?dir))"
    by (simp add: start_of_def ancestors.simps)
  moreover have "is_project_root (\<lambda>_. False) ?file [RootDir, Normal ''app'']"
    by (simp add: is_project_root_def is_installed_dependency_def push_def join_def components_def)
  ultimately show ?thesis
    using detect_root_nearest [of Some ?dir "\<lambda>_. False" ?file] by blast
qed

lemma replace_back: "b \<notin> set s \<Longrightarrow> replace_char b a (replace_char a b s) = s"
  by (induction s) (auto simp: replace_char_def)

lemma path_part_split: "path_part s @ drop (length (path_part s)) s = s"
  using takeWhile_dropWhile_id [of "\<lambda>c. c \<noteq> CHR ''?'' \<and> c \<noteq> CHR ''#''" s]
  by (simp add: path_part_def dropWhile_eq_drop)

lemma takeWhile_dropWhile_Nil: "takeWhile P (dropWhile P s) = []"
  by (induction s) auto

lemma path_part_replace:
  assumes "a \<in> {CHR ''/'', CHR 0x5C}" "b \<in> {CHR ''/'', CHR 0x5C}"
  shows "path_part (replace_char a b (path_part s) @ drop (length (path_part s)) s)
     = replace_char a b (path_part s)"
proof -
  let ?ok = "\<lambda>c. c \<noteq> CHR ''?'' \<and> c \<noteq> CHR ''#''"
  have "\<forall>c\<in>set (path_part s). ?ok c"
    unfolding path_part_def by (auto dest: set_takeWhileD)
  then have all: "\<forall>c\<in>set (replace_char a b (path_part s)). ?ok c"
    using assms by (auto simp: replace_char_def)
  have "takeWhile ?ok (drop (length (path_part s)) s) = []"
    unfolding path_part_def dropWhile_eq_drop [symmetric] by (rule takeWhile_dropWhile_Nil)
  with all show ?thesis
    by (subst path_part_def) (simp add: takeWhile_append2)
qed

lemma swap_in_path_alt:
  "swap_in_path a b s = replace_char a b (path_part s) @ drop (length (path_part s)) s"
proof (cases "a \<in> set (path_part s)")
  case False
  then have "replace_char a b (path_part s) = path_part s"
    by (auto simp: replace_char_def intro: map_idI)
  with False path_part_split [of s] show ?thesis by (simp add: swap_in_path_def)
qed (simp add: swap_in_path_def Let_def)

lemma swap_in_path_back:
  assumes "a \<in> {CHR ''/'', CHR 0x5C}" "b \<in> {CHR ''/'', CHR 0x5C}" "b \<notin> set (path_part s)"
  shows "swap_in_path b a (swap_in_path a b s) = s"
proof -
  have "length (replace_char a b (path_part s)) = length (path_part s)"
    by (simp add: replace_char_def)
  then show ?thesis
    using replace_back [OF assms(3)] path_part_split [of s]
    by (simp add: swap_in_path_alt [of b a] swap_in_path_alt [of a b] path_part_replace [OF assms(1,2)])
qed

lemma is_sep_swap:
  "a \<in> {CHR ''/'', CHR 0x5C} \<Longrightarrow> b \<in> {CHR ''/'', CHR 0x5C} \<Longrightarrow> is_sep (if c = a then b else c) = is_sep c"
  by (auto simp: is_sep_def)

lemma not_sep_swap: "a \<in> {CHR ''/'', CHR 0x5C} \<Longrightarrow> \<not> is_sep c \<Longrightarrow> (if c = a then b else c) = c"
  by (auto simp: is_sep_def)

lemma path_part_Cons:
  "path_part (c # s) = (if c = CHR ''?'' \<or> c = CHR ''#'' then [] else c # path_part s)"
  by (simp add: path_part_def)

lemma swap_in_path_Cons:
  "swap_in_path a b (c # s) =
     (if c = CHR ''?'' \<or> c = CHR ''#'' then c # s
      else (if c = a then b else c) # swap_in_path a b s)"
  by (simp add: swap_in_path_alt path_part_Cons) (simp add: replace_char_def)

lemma is_sep_not_mark: "is_sep c \<Longrightarrow> c \<noteq> CHR ''?'' \<and> c \<noteq> CHR ''#''"
  by (auto simp: is_sep_def)

lemma alphabetic_plain: "is_ascii_alphabetic c \<Longrightarrow> c \<noteq> CHR ''?'' \<and> c \<noteq> CHR ''#'' \<and> \<not> is_sep c"
  by (auto simp: is_ascii_alphabetic_def is_ascii_upper_def is_ascii_lower_def code_def is_sep_def)

lemma swap_keeps_absolute:
  assumes ab: "a \<in> {CHR ''/'', CHR 0x5C}" "b \<in> {CHR ''/'', CHR 0x5C}" and "is_windows_absolute s"
  shows "is_windows_absolute (swap_in_path a b s)"
proof -
  from assms(3) obtain x y z r where s: "s = x # y # z # r"
    by (cases s rule: is_windows_absolute.cases) auto
  have colon: "\<not> is_sep CHR '':''" by (simp add: is_sep_def)
  consider "is_ascii_alphabetic x" "y = CHR '':''" "is_sep z"
    | "is_sep x" "is_sep y" "\<not> is_sep z"
    using assms(3) s by auto
  then show ?thesis
  proof cases
    case 1
    then show ?thesis
      using alphabetic_plain [of x] is_sep_not_mark [of z] is_sep_swap [OF ab] colon ab
      by (simp add: s swap_in_path_Cons not_sep_swap [OF ab(1)])
  next
    case 2
    then show ?thesis
      using is_sep_not_mark [of x] is_sep_not_mark [of y] is_sep_swap [OF ab]
      by (cases "z = CHR ''?'' \<or> z = CHR ''#''") (simp_all add: s swap_in_path_Cons)
  qed
qed

text \<open>
  The two spellings of a module id undo each other. Where the path part of an id (what is
  before a query or hash) has no forward slash, the native form of its slash form is the id
  itself; where it has no backslash, so is the slash form of its native form.
\<close>

theorem module_id_spelling_roundtrip:
  "(CHR ''/'' \<notin> set (path_part s) \<longrightarrow> native_on (slash_id_on s windows) windows = s) \<and>
   (CHR 0x5C \<notin> set (path_part s) \<longrightarrow> slash_id_on (native_on s windows) windows = s)"
  by (auto simp: native_on_def slash_id_on_def swap_keeps_absolute swap_in_path_back)

theorem module_id_spelling_roundtrip_witness:
  "native_on (slash_id_on (CHR ''C'' # CHR '':'' # CHR 0x5C # ''a.js?u=b/c'') True) True
     = CHR ''C'' # CHR '':'' # CHR 0x5C # ''a.js?u=b/c''"
  using module_id_spelling_roundtrip [of "CHR ''C'' # CHR '':'' # CHR 0x5C # ''a.js?u=b/c''" True]
  by (simp add: path_part_def)

end
