(* ===== verification/HostAllowlist.thy ===== *)
theory HostAllowlist
  imports Allowlist IpAddr Paths
begin

text \<open>
  \<open>crates/default-providers/src/host_allowlist.rs\<close>: the addresses \<open>--allow-net\<close> and
  \<open>--allow-listen\<close> name. A host is an IP literal, compared as an address, or a name, compared
  without letter case; a list permits what one of its entries admits.
\<close>

section \<open>Entries\<close>

datatype host = Ip ip_addr | Name string

definition host_parse :: "string \<Rightarrow> host" where
  "host_parse text =
     (case parse_ip text of Some ip \<Rightarrow> Ip ip | None \<Rightarrow> Name (to_ascii_lowercase text))"

fun host_matches :: "host \<Rightarrow> string \<Rightarrow> bool" where
  "host_matches (Ip ip) h \<longleftrightarrow> parse_ip h = Some ip"
| "host_matches (Name name) h \<longleftrightarrow> CHR '':'' \<notin> set h \<and> eq_ignore_ascii_case h name"

datatype entry = AnyPort host | Exact host u16 | AnyHost u16 | SocketPath path

record host_allowlist =
  entries :: "entry list"

datatype entry_error =
    NotAnAbsoluteSocketPath string
  | MissingBracket string
  | NotAnIpv6Address string string
  | NoHostBeforePort string
  | NotAnAddress string
  | NotAPortNumber string string

definition parse_port :: "string \<Rightarrow> string \<Rightarrow> entry_error + u16" where
  "parse_port entry port =
     (let port = (case port of c # cs \<Rightarrow> if c = CHR '':'' then cs else port | [] \<Rightarrow> port)
      in ok_or (NotAPortNumber port entry) (parse_u16 port))"

definition parse_socket :: "string \<Rightarrow> string \<Rightarrow> entry_error + entry" where
  "parse_socket entry path =
     (if is_absolute (components path) then Inr (SocketPath (components path))
      else Inl (NotAnAbsoluteSocketPath entry))"

definition parse_bracketed :: "string \<Rightarrow> string \<Rightarrow> entry_error + entry" where
  "parse_bracketed entry rest =
     res_bind (ok_or (MissingBracket entry) (split_once CHR '']'' rest)) (\<lambda>(inside, after).
     res_bind (ok_or (NotAnIpv6Address inside entry) (parse_ip inside)) (\<lambda>ip.
       if after = [] then Inr (AnyPort (Ip ip))
       else res_bind (parse_port entry after) (\<lambda>port. Inr (Exact (Ip ip) port))))"

definition parse_plain :: "string \<Rightarrow> entry_error + entry" where
  "parse_plain entry =
     (case rsplit_once CHR '':'' entry of
        Some (h, port) \<Rightarrow>
          (if CHR '':'' \<notin> set h then
             (if h = [] then Inl (NoHostBeforePort entry)
              else res_bind (parse_port entry port) (\<lambda>port. Inr (Exact (host_parse h) port)))
           else res_bind (ok_or (NotAnAddress entry) (parse_ip entry)) (\<lambda>ip. Inr (AnyPort (Ip ip))))
      | None \<Rightarrow> Inr (AnyPort (host_parse entry)))"

definition parse_entry :: "string \<Rightarrow> entry_error + entry" where
  "parse_entry entry =
     (case strip_prefix ''unix:'' entry of
        Some path \<Rightarrow> parse_socket entry path
      | None \<Rightarrow>
     (case strip_prefix ''['' entry of
        Some rest \<Rightarrow> parse_bracketed entry rest
      | None \<Rightarrow>
          if entry \<noteq> [] \<and> list_all is_ascii_digit entry then
            res_bind (parse_port entry entry) (\<lambda>port. Inr (AnyHost port))
          else parse_plain entry))"

definition parse_hosts :: "string list \<Rightarrow> entry_error + host_allowlist" where
  "parse_hosts es = res_bind (res_map_list parse_entry es) (\<lambda>parsed. Inr \<lparr>entries = parsed\<rparr>)"

section \<open>Requests\<close>

fun admits_address :: "entry \<Rightarrow> string \<times> u16 \<Rightarrow> bool" where
  "admits_address (AnyPort h) (host, port) \<longleftrightarrow> host_matches h host"
| "admits_address (Exact h p) (host, port) \<longleftrightarrow> p = port \<and> host_matches h host"
| "admits_address (AnyHost p) (host, port) \<longleftrightarrow> p = port"
| "admits_address (SocketPath _) (host, port) \<longleftrightarrow> False"

definition permits :: "host_allowlist \<Rightarrow> string \<Rightarrow> u16 \<Rightarrow> bool" where
  "permits l host port \<longleftrightarrow> list_ex (\<lambda>e. admits_address e (host, port)) (entries l)"

text \<open>A query name without its root dot and its leading \<open>_\<close>-labels.\<close>

definition strip_root_dot :: "string \<Rightarrow> string" where
  "strip_root_dot name = (if name \<noteq> [] \<and> last name = CHR ''.'' then butlast name else name)"

definition drop_label :: "string \<Rightarrow> string option" where
  "drop_label host =
     (case strip_prefix ''_'' host of
        None \<Rightarrow> None
      | Some h \<Rightarrow> map_option snd (split_once CHR ''.'' h))"

lemma drop_label_shorter: "drop_label host = Some rest \<Longrightarrow> length rest < length host"
  by (auto simp: drop_label_def strip_prefix_iff split_once_Some split: option.splits)

function query_host :: "string \<Rightarrow> string" where
  "query_host host = (case drop_label host of None \<Rightarrow> host | Some rest \<Rightarrow> query_host rest)"
  by pat_completeness auto
termination by (relation "measure length") (simp_all add: drop_label_shorter)

declare query_host.simps [simp del]

fun names_host :: "entry \<Rightarrow> string \<Rightarrow> bool" where
  "names_host (AnyPort (Name n)) host \<longleftrightarrow> host_matches (Name n) host"
| "names_host (Exact (Name n) _) host \<longleftrightarrow> host_matches (Name n) host"
| "names_host _ host \<longleftrightarrow> False"

definition permits_query :: "host_allowlist \<Rightarrow> string \<Rightarrow> bool" where
  "permits_query l name \<longleftrightarrow>
     (let host = query_host (strip_root_dot name)
      in host \<noteq> [] \<and> list_ex (\<lambda>e. names_host e host) (entries l))"

fun admits_path :: "entry \<Rightarrow> path \<Rightarrow> bool" where
  "admits_path (SocketPath p) path \<longleftrightarrow> p = path"
| "admits_path _ path \<longleftrightarrow> False"

definition permits_path :: "host_allowlist \<Rightarrow> path \<Rightarrow> bool" where
  "permits_path l path \<longleftrightarrow> list_ex (\<lambda>e. admits_path e path) (entries l)"

datatype refusal =
    NotAnAllowedAddress string u16 string
  | NoHostInUrl string
  | NoPortInUrl string string

definition check_host :: "host_allowlist \<Rightarrow> string \<Rightarrow> u16 \<Rightarrow> string \<Rightarrow> refusal + unit" where
  "check_host l host port action =
     (if permits l host port then Inr () else Inl (NotAnAllowedAddress host port action))"

text \<open>What the code reads of a \<open>url::Url\<close>, a third-party value.\<close>

record url =
  scheme :: string
  host_str :: "string option"
  port_or_known_default :: "u16 option"

definition trim_brackets :: "string \<Rightarrow> string" where
  "trim_brackets h =
     rev (dropWhile (\<lambda>c. c = CHR '']'') (rev (dropWhile (\<lambda>c. c = CHR ''['') h)))"

definition check_url :: "host_allowlist \<Rightarrow> url \<Rightarrow> string \<Rightarrow> refusal + unit" where
  "check_url l u action =
     res_bind (ok_or (NoHostInUrl (scheme u)) (host_str u)) (\<lambda>h.
     let host = trim_brackets h in
     res_bind (ok_or (NoPortInUrl (scheme u) host) (port_or_known_default u)) (\<lambda>port.
       check_host l host port action))"

section \<open>The contract\<close>

interpretation addresses: allowlist admits_address "\<lambda>es (h, p). permits \<lparr>entries = es\<rparr> h p"
  by unfold_locales (auto simp: permits_def list_ex_iff)

interpretation sockets: allowlist admits_path "\<lambda>es p. permits_path \<lparr>entries = es\<rparr> p"
  by unfold_locales (simp add: permits_path_def list_ex_iff)

section \<open>What a parsed entry can be\<close>

text \<open>A host that parsing made: an address, or a lower-cased name that is not an address.\<close>

fun wf_host :: "host \<Rightarrow> bool" where
  "wf_host (Ip _) \<longleftrightarrow> True"
| "wf_host (Name n) \<longleftrightarrow> to_ascii_lowercase n = n \<and> parse_ip n = None"

fun wf_entry :: "entry \<Rightarrow> bool" where
  "wf_entry (AnyPort h) \<longleftrightarrow> wf_host h"
| "wf_entry (Exact h _) \<longleftrightarrow> wf_host h"
| "wf_entry _ \<longleftrightarrow> True"

definition wf_hosts :: "host_allowlist \<Rightarrow> bool" where
  "wf_hosts l \<longleftrightarrow> list_all wf_entry (entries l)"

lemma wf_host_parse [simp]: "wf_host (host_parse s)"
  by (simp add: host_parse_def parse_ip_lower split: option.split)

lemma wf_parse_plain: "parse_plain s = Inr e \<Longrightarrow> wf_entry e"
  by (auto simp: parse_plain_def result_simps split: option.splits if_splits)

lemma wf_parse_entry: "parse_entry s = Inr e \<Longrightarrow> wf_entry e"
  by (auto simp: parse_entry_def parse_socket_def parse_bracketed_def result_simps wf_parse_plain
      split: option.splits if_splits prod.splits)

lemma parse_hosts_Inr:
  "parse_hosts es = Inr l \<longleftrightarrow> map parse_entry es = map Inr (entries l)"
proof -
  have "parse_hosts es = Inr l \<longleftrightarrow> res_map_list parse_entry es = Inr (entries l)"
    by (auto simp: parse_hosts_def result_simps)
  then show ?thesis by (simp add: res_map_list_Inr)
qed

lemma wf_parse_hosts:
  assumes "parse_hosts es = Inr l"
  shows "wf_hosts l"
proof -
  have "Inr e \<in> parse_entry ` set es" if "e \<in> set (entries l)" for e
  proof -
    have "Inr e \<in> set (map Inr (entries l))" using that by simp
    then show ?thesis
      using assms by (metis parse_hosts_Inr list.set_map)
  qed
  then show ?thesis
    by (force simp: wf_hosts_def list_all_iff intro: wf_parse_entry)
qed

text \<open>The entries that name an address: at most three can.\<close>

definition entries_for :: "string \<Rightarrow> u16 \<Rightarrow> entry set" where
  "entries_for host port =
     {AnyHost port} \<union>
     (case parse_ip host of
        Some a \<Rightarrow> {AnyPort (Ip a), Exact (Ip a) port}
      | None \<Rightarrow>
          if CHR '':'' \<in> set host then {}
          else {AnyPort (Name (to_ascii_lowercase host)), Exact (Name (to_ascii_lowercase host)) port})"

lemma host_matches_wf:
  assumes "wf_host e"
  shows "host_matches e h \<longleftrightarrow>
    (case parse_ip h of
       Some a \<Rightarrow> e = Ip a
     | None \<Rightarrow> CHR '':'' \<notin> set h \<and> e = Name (to_ascii_lowercase h))"
proof (cases e)
  case (Name n)
  have "parse_ip h = None" if "to_ascii_lowercase h = n"
    using that assms Name parse_ip_lower [of h] by simp
  then show ?thesis
    using Name assms by (auto simp: eq_ignore_ascii_case_def split: option.split)
qed (auto split: option.split)

lemma admits_address_wf: "wf_entry e \<Longrightarrow> admits_address e (h, p) \<longleftrightarrow> e \<in> entries_for h p"
  by (cases e) (auto simp: host_matches_wf entries_for_def split: option.split)

text \<open>
  C2: matching is exact and never widens. A list parsed from the command line permits a host
  and port exactly when it holds one of the at most three entries that name them: the bare
  port, the host on any port, the host on that port. An IP entry is satisfied by its address
  however written and never by a name; a name entry by that name in any letter case, never by
  a subdomain and never by an address; a socket entry by its path alone.
\<close>

theorem permits_exact:
  assumes "parse_hosts es = Inr l"
  shows "(permits l host port \<longleftrightarrow> set (entries l) \<inter> entries_for host port \<noteq> {}) \<and>
    (permits_path l path \<longleftrightarrow> SocketPath path \<in> set (entries l)) \<and>
    permits l (to_ascii_lowercase host) port = permits l host port"
proof -
  have wf: "wf_hosts l" using assms by (rule wf_parse_hosts)
  have eq: "permits l h port \<longleftrightarrow> set (entries l) \<inter> entries_for h port \<noteq> {}" for h
  proof -
    have "permits l h port \<longleftrightarrow> (\<exists>e\<in>set (entries l). admits_address e (h, port))"
      by (simp add: permits_def list_ex_iff)
    also have "\<dots> \<longleftrightarrow> (\<exists>e\<in>set (entries l). e \<in> entries_for h port)"
      using wf by (intro bex_cong) (auto simp: admits_address_wf wf_hosts_def list_all_iff)
    finally show ?thesis by blast
  qed
  have "CHR '':'' = lower_char c \<longleftrightarrow> CHR '':'' = c" for c
    using lower_char_eq_iff [of "CHR '':''" c] separators_caseless by metis
  then have colon: "CHR '':'' \<in> set (to_ascii_lowercase host) \<longleftrightarrow> CHR '':'' \<in> set host"
    by (simp add: to_ascii_lowercase_def image_iff)
  have "entries_for (to_ascii_lowercase host) port = entries_for host port"
    by (simp add: entries_for_def parse_ip_lower colon split: option.split)
  moreover have "admits_path e path \<longleftrightarrow> e = SocketPath path" for e
    by (cases e) auto
  ultimately show ?thesis
    using eq by (auto simp: permits_path_def list_ex_iff)
qed

text \<open>\<open>example.com\<close> is that host in any case and not a subdomain of it; a bare port is any host.\<close>

lemma parse_hosts_example:
  "parse_hosts [''example.com'', ''8080'', ''[::1]:443''] =
     Inr \<lparr>entries = [AnyPort (Name ''example.com''), AnyHost 8080, Exact (Ip (V6 [0,0,0,0,0,0,0,1])) 443]\<rparr>"
  by (simp add: parse_hosts_def parse_entry_def parse_plain_def parse_bracketed_def parse_port_def
      host_parse_def ip_eval text_eval rsplit_once_def)

theorem permits_exact_witness:
  "\<exists>l. parse_hosts [''example.com'', ''8080'', ''[::1]:443''] = Inr l \<and>
     permits l ''EXAMPLE.com'' 80 \<and> \<not> permits l ''api.example.com'' 80 \<and>
     permits l ''api.example.com'' 8080 \<and> permits l ''0:0:0:0:0:0:0:1'' 443"
  by (rule exI, rule conjI, rule parse_hosts_example,
      unfold permits_exact [OF parse_hosts_example, THEN conjunct1])
     (simp add: entries_for_def ip_eval text_eval)

section \<open>Parsing a whole list\<close>

text \<open>
  A list is read whole or refused. When it is read, its entries are those of the command
  line, in order; otherwise the error is that of the first entry that does not parse, so no
  entry is dropped and none is reported before an earlier one.
\<close>

theorem parse_hosts_all_or_nothing:
  "(parse_hosts es = Inr l \<longleftrightarrow> map parse_entry es = map Inr (entries l)) \<and>
   (parse_hosts es = Inl err \<longleftrightarrow>
      (\<exists>before e after. es = before @ e # after \<and> parse_entry e = Inl err \<and>
         (\<forall>b\<in>set before. \<exists>x. parse_entry b = Inr x)))"
proof -
  have "parse_hosts es = Inl err \<longleftrightarrow> res_map_list parse_entry es = Inl err"
    by (auto simp: parse_hosts_def result_simps)
  then show ?thesis by (simp add: parse_hosts_Inr res_map_list_Inl)
qed

theorem parse_hosts_all_or_nothing_witness:
  "parse_hosts [''8080'', ''db:'', ''unix:run''] = Inl (NotAPortNumber [] ''db:'')"
proof -
  have "parse_entry ''8080'' = Inr (AnyHost 8080)"
    and "parse_entry ''db:'' = Inl (NotAPortNumber [] ''db:'')"
    by (simp_all add: parse_entry_def parse_plain_def parse_port_def ip_eval text_eval rsplit_once_def)
  then show ?thesis
    using parse_hosts_all_or_nothing [of "[''8080'', ''db:'', ''unix:run'']" _ "NotAPortNumber [] ''db:''"]
    by (metis append_Cons append_Nil empty_iff empty_set set_ConsD)
qed

section \<open>Queries\<close>

lemma drop_label_Some:
  "drop_label host = Some rest \<longleftrightarrow> (\<exists>x. CHR ''.'' \<notin> set x \<and> host = CHR ''_'' # x @ CHR ''.'' # rest)"
  by (auto simp: drop_label_def strip_prefix_iff split_once_Some split_once_None
      split: option.splits)

lemma query_host_labels:
  "query_host name = host \<longleftrightarrow>
     drop_label host = None \<and>
     (\<exists>ls. (\<forall>x\<in>set ls. CHR ''.'' \<notin> set x) \<and> name = concat (map (\<lambda>x. CHR ''_'' # x @ [CHR ''.'']) ls) @ host)"
  (is "_ \<longleftrightarrow> ?spec name")
proof (induction name rule: query_host.induct)
  case (1 name)
  show ?case
  proof (cases "drop_label name")
    case None
    have "?spec name \<longleftrightarrow> name = host"
    proof
      assume "?spec name"
      then obtain ls where ls: "\<forall>x\<in>set ls. CHR ''.'' \<notin> set x"
        "name = concat (map (\<lambda>x. CHR ''_'' # x @ [CHR ''.'']) ls) @ host" by blast
      show "name = host"
      proof (cases ls)
        case (Cons y ys)
        with ls have "\<exists>rest. drop_label name = Some rest" by (auto simp: drop_label_Some)
        with None show ?thesis by simp
      qed (use ls in simp)
    next
      assume "name = host"
      with None show "?spec name" by (intro conjI exI [of _ "[]"]) auto
    qed
    with None show ?thesis by (subst query_host.simps) simp
  next
    case (Some rest)
    then obtain x where x: "CHR ''.'' \<notin> set x" "name = CHR ''_'' # x @ CHR ''.'' # rest"
      by (auto simp: drop_label_Some)
    have "?spec name \<longleftrightarrow> ?spec rest"
    proof
      assume "?spec name"
      then obtain ls where ls: "drop_label host = None" "\<forall>x\<in>set ls. CHR ''.'' \<notin> set x"
        "name = concat (map (\<lambda>x. CHR ''_'' # x @ [CHR ''.'']) ls) @ host" by blast
      show "?spec rest"
      proof (cases ls)
        case Nil
        with ls Some show ?thesis by simp
      next
        case (Cons y ys)
        with ls x have "x @ CHR ''.'' # rest
            = y @ CHR ''.'' # concat (map (\<lambda>x. CHR ''_'' # x @ [CHR ''.'']) ys) @ host"
          by simp
        moreover have "CHR ''.'' \<notin> set y" using ls Cons by simp
        ultimately have "rest = concat (map (\<lambda>x. CHR ''_'' # x @ [CHR ''.'']) ys) @ host"
          using x(1) append_sep_inject [of "CHR ''.''" x y] by blast
        moreover have "\<forall>x\<in>set ys. CHR ''.'' \<notin> set x" using ls Cons by simp
        ultimately show ?thesis using ls(1) by blast
      qed
    next
      assume "?spec rest"
      then obtain ls where ls: "drop_label host = None" "\<forall>x\<in>set ls. CHR ''.'' \<notin> set x"
        "rest = concat (map (\<lambda>x. CHR ''_'' # x @ [CHR ''.'']) ls) @ host" by blast
      with x have "name = concat (map (\<lambda>x. CHR ''_'' # x @ [CHR ''.'']) (x # ls)) @ host"
        and "\<forall>y\<in>set (x # ls). CHR ''.'' \<notin> set y" by simp_all
      with ls(1) show "?spec name" by blast
    qed
    moreover have "query_host name = query_host rest"
      by (subst query_host.simps) (simp add: Some)
    ultimately show ?thesis using "1.IH" [OF Some] by (simp only:)
  qed
qed

text \<open>
  A DNS query is permitted for the records of a host a name entry covers. The name, less
  its root dot, is any number of \<open>_\<close>-labels in front of a host that has none left, is not
  empty, and is named by an entry; a port-only entry and an IP entry permit no query.
\<close>

theorem permits_query_iff:
  "permits_query l name \<longleftrightarrow>
     (\<exists>labels host. strip_root_dot name = concat (map (\<lambda>x. CHR ''_'' # x @ [CHR ''.'']) labels) @ host \<and>
        (\<forall>x\<in>set labels. CHR ''.'' \<notin> set x) \<and> drop_label host = None \<and> host \<noteq> [] \<and>
        (\<exists>n p. (AnyPort (Name n) \<in> set (entries l) \<or> Exact (Name n) p \<in> set (entries l)) \<and>
           host_matches (Name n) host))"
proof -
  have named: "names_host e host \<longleftrightarrow> (\<exists>n p. (e = AnyPort (Name n) \<or> e = Exact (Name n) p) \<and>
      host_matches (Name n) host)" for e host
    by (cases "(e, host)" rule: names_host.cases) auto
  have "list_ex (\<lambda>e. names_host e host) (entries l) \<longleftrightarrow>
      (\<exists>n p. (AnyPort (Name n) \<in> set (entries l) \<or> Exact (Name n) p \<in> set (entries l)) \<and>
           host_matches (Name n) host)" for host
    unfolding list_ex_iff named by blast
  then have "permits_query l name \<longleftrightarrow>
      (\<exists>host. query_host (strip_root_dot name) = host \<and> host \<noteq> [] \<and>
        (\<exists>n p. (AnyPort (Name n) \<in> set (entries l) \<or> Exact (Name n) p \<in> set (entries l)) \<and>
           host_matches (Name n) host))"
    by (simp add: permits_query_def Let_def)
  then show ?thesis unfolding query_host_labels by blast
qed

theorem permits_query_iff_witness:
  "permits_query \<lparr>entries = [AnyPort (Name ''db.example'')]\<rparr> ''_mongodb._tcp.db.example''"
proof -
  let ?l = "\<lparr>entries = [AnyPort (Name ''db.example'')]\<rparr>"
  have "\<forall>x\<in>set [''mongodb'', ''tcp'']. CHR ''.'' \<notin> set x" by simp
  moreover have "strip_root_dot ''_mongodb._tcp.db.example''
      = concat (map (\<lambda>x. CHR ''_'' # x @ [CHR ''.'']) [''mongodb'', ''tcp'']) @ ''db.example''"
    by (simp add: strip_root_dot_def)
  moreover have "drop_label ''db.example'' = None" by (simp add: drop_label_def)
  moreover have "host_matches (Name ''db.example'') ''db.example''"
    by (simp add: eq_ignore_ascii_case_def)
  ultimately show ?thesis
    unfolding permits_query_iff [of ?l "''_mongodb._tcp.db.example''"]
    by (intro exI [of _ "[''mongodb'', ''tcp'']"] exI [of _ "''db.example''"]) auto
qed

end
