(* ===== verification/PathAllowlist.thy ===== *)
theory PathAllowlist
  imports Allowlist Paths
begin

text \<open>
  \<open>crates/default-providers/src/path_allowlist.rs\<close>: the subtrees \<open>--allow-read\<close> and
  \<open>--allow-write\<close> name. Entries are canonicalized when the list is made and compared with
  canonical paths; the file system's \<open>canonicalize\<close> is a parameter.
\<close>

datatype access = Read | Write

fun access_as_str :: "access \<Rightarrow> string" where
  "access_as_str Read = ''read''"
| "access_as_str Write = ''write''"

record path_allowlist =
  subtrees :: "path list"

datatype path_list_error = EmptyPath

section \<open>Canonicalizing what exists\<close>

function canonicalize_loop :: "(path \<Rightarrow> path option) \<Rightarrow> path \<Rightarrow> path \<Rightarrow> string list \<Rightarrow> path" where
  "canonicalize_loop canonicalize whole existing tail =
     (case canonicalize existing of
        Some real \<Rightarrow> fold (\<lambda>seg out. join out [Normal seg]) tail real
      | None \<Rightarrow>
          (case file_name existing of
             None \<Rightarrow> whole
           | Some name \<Rightarrow>
               (case parent existing of
                  None \<Rightarrow> whole
                | Some p \<Rightarrow> canonicalize_loop canonicalize whole p (name # tail))))"
  by pat_completeness auto
termination
  by (relation "measure (\<lambda>(_, _, existing, _). length existing)") (auto split: if_splits)

declare canonicalize_loop.simps [simp del]

definition canonicalize_existing_prefix :: "(path \<Rightarrow> path option) \<Rightarrow> path \<Rightarrow> path" where
  "canonicalize_existing_prefix canonicalize p = canonicalize_loop canonicalize p p []"

definition entry_path :: "path \<Rightarrow> string \<Rightarrow> path" where
  "entry_path base entry =
     (let raw = components entry in if is_absolute raw then raw else join base raw)"

definition parse_path_entry ::
  "(path \<Rightarrow> path option) \<Rightarrow> path \<Rightarrow> string \<Rightarrow> path_list_error + path" where
  "parse_path_entry canonicalize base entry =
     (if entry = [] then Inl EmptyPath
      else Inr (canonicalize_existing_prefix canonicalize (entry_path base entry)))"

definition parse_paths ::
  "(path \<Rightarrow> path option) \<Rightarrow> path \<Rightarrow> string list \<Rightarrow> path_list_error + path_allowlist" where
  "parse_paths canonicalize base es =
     res_bind (res_map_list (parse_path_entry canonicalize base) es) (\<lambda>parsed.
       Inr \<lparr>subtrees = parsed\<rparr>)"

section \<open>The checks\<close>

definition roots_outside :: "path_allowlist \<Rightarrow> path \<Rightarrow> path list" where
  "roots_outside l root = filter (\<lambda>entry. \<not> starts_with entry root) (subtrees l)"

definition permits_real :: "path_allowlist \<Rightarrow> path \<Rightarrow> bool" where
  "permits_real l real \<longleftrightarrow> list_ex (\<lambda>entry. starts_with real entry) (subtrees l)"

datatype jail_refusal = Escape bool | NotAllowed access | Root

definition check_real :: "path_allowlist \<Rightarrow> path \<Rightarrow> access \<Rightarrow> jail_refusal + unit" where
  "check_real l real access = (if permits_real l real then Inr () else Inl (NotAllowed access))"

interpretation subtree_list: closed_allowlist
  "\<lambda>entry real. starts_with real entry"
  "\<lambda>es real. permits_real \<lparr>subtrees = es\<rparr> real"
  starts_with
  by unfold_locales (auto simp: permits_real_def list_ex_iff intro: starts_with_trans)

section \<open>Laws\<close>

lemma fold_join_Normal: "fold (\<lambda>seg out. join out [Normal seg]) tail real = real @ map Normal tail"
  by (induction tail arbitrary: real) (simp_all add: join_def)

lemma file_name_parent:
  "file_name p = Some name \<Longrightarrow> parent p = Some q \<Longrightarrow> p = q @ [Normal name]"
  by (auto simp: file_name_def split: if_splits component.splits)
     (metis append_butlast_last_id)

lemma file_name_has_parent: "file_name p = Some name \<Longrightarrow> \<exists>q. parent p = Some q"
  by (auto simp: file_name_def split: if_splits component.splits)

text \<open>
  Which prefix was resolved: the longest one that exists, with only plain names after it; or
  nothing, when climbing met the root or a \<open>..\<close>.
\<close>

lemma canonicalize_loop_spec:
  "(\<exists>pre names real. existing = pre @ map Normal names \<and> canonicalize pre = Some real \<and>
      (\<forall>k\<in>{1..length names}. canonicalize (pre @ map Normal (take k names)) = None) \<and>
      canonicalize_loop canonicalize whole existing tail = real @ map Normal (names @ tail)) \<or>
   canonicalize_loop canonicalize whole existing tail = whole"
proof (induction canonicalize whole existing tail rule: canonicalize_loop.induct)
  case (1 canonicalize whole existing tail)
  show ?case
  proof (cases "canonicalize existing")
    case (Some real)
    then show ?thesis
      by (intro disjI1 exI [of _ existing] exI [of _ "[]"] exI [of _ real])
         (simp add: canonicalize_loop.simps fold_join_Normal)
  next
    case gone: None
    show ?thesis
    proof (cases "file_name existing")
      case None
      with gone show ?thesis by (simp add: canonicalize_loop.simps)
    next
      case (Some name)
      then obtain p where p: "parent existing = Some p" using file_name_has_parent by blast
      have ex: "existing = p @ [Normal name]" using Some p by (rule file_name_parent)
      have step: "canonicalize_loop canonicalize whole existing tail =
          canonicalize_loop canonicalize whole p (name # tail)"
        using gone Some p by (subst canonicalize_loop.simps) simp
      from "1.IH" [OF gone Some p] show ?thesis
      proof
        assume "\<exists>pre names real. p = pre @ map Normal names \<and> canonicalize pre = Some real \<and>
            (\<forall>k\<in>{1..length names}. canonicalize (pre @ map Normal (take k names)) = None) \<and>
            canonicalize_loop canonicalize whole p (name # tail) = real @ map Normal (names @ name # tail)"
        then obtain pre names real where ih: "p = pre @ map Normal names" "canonicalize pre = Some real"
          "\<forall>k\<in>{1..length names}. canonicalize (pre @ map Normal (take k names)) = None"
          "canonicalize_loop canonicalize whole p (name # tail) = real @ map Normal (names @ name # tail)"
          by blast
        have "canonicalize (pre @ map Normal (take k (names @ [name]))) = None"
          if "k \<in> {1..length (names @ [name])}" for k
        proof (cases "k \<le> length names")
          case False
          with that have "k = length (names @ [name])" by simp
          with gone ex ih(1) show ?thesis by simp
        qed (use that ih(3) in simp)
        with ih ex step show ?thesis
          by (intro disjI1 exI [of _ pre] exI [of _ "names @ [name]"] exI [of _ real]) simp
      qed (use step in simp)
    qed
  qed
qed

lemma parse_paths_Inr:
  "parse_paths canonicalize base es = Inr l \<longleftrightarrow>
     [] \<notin> set es \<and> subtrees l = map (canonicalize_existing_prefix canonicalize \<circ> entry_path base) es"
proof -
  have one: "map (parse_path_entry canonicalize base) es = map Inr ps \<longleftrightarrow>
      [] \<notin> set es \<and> ps = map (canonicalize_existing_prefix canonicalize \<circ> entry_path base) es" for ps
  proof (induction es arbitrary: ps)
    case (Cons e es)
    then show ?case by (cases ps) (auto simp: parse_path_entry_def)
  qed auto
  have "parse_paths canonicalize base es = Inr l \<longleftrightarrow>
      res_map_list (parse_path_entry canonicalize base) es = Inr (subtrees l)"
    by (auto simp: parse_paths_def result_simps)
  then show ?thesis by (simp add: res_map_list_Inr one)
qed

text \<open>
  A path list grants exactly the subtrees of its canonical entries. A resolved path is
  permitted when it lies under the canonical form of some entry as typed, matched component by
  component, so an entry never admits a sibling with a longer name; the grant is closed under
  descending; and what it permits lies under the jail's root or under one of the entries that
  are outside it.
\<close>

theorem path_list_subtrees:
  assumes "parse_paths canonicalize base es = Inr l"
  shows "(permits_real l real \<longleftrightarrow>
      (\<exists>e\<in>set es. starts_with real (canonicalize_existing_prefix canonicalize (entry_path base e)))) \<and>
    (permits_real l real \<longrightarrow> permits_real l (real @ below)) \<and>
    (permits_real l real \<longrightarrow> within_root real root \<or>
       (\<exists>r\<in>set (roots_outside l root). within_root real r))"
proof -
  have l: "\<lparr>subtrees = subtrees l\<rparr> = l" by (cases l) simp
  have "permits_real l (real @ below)" if "permits_real l real"
    using subtree_list.permits_below [of "subtrees l" real "real @ below"] that by (simp add: l)
  moreover have "within_root real root \<or> (\<exists>r\<in>set (roots_outside l root). within_root real r)"
    if "permits_real l real"
    using that by (auto simp: permits_real_def roots_outside_def within_root_def list_ex_iff
        intro: starts_with_trans)
  moreover have "permits_real l real \<longleftrightarrow>
      (\<exists>e\<in>set es. starts_with real (canonicalize_existing_prefix canonicalize (entry_path base e)))"
    using assms by (auto simp: parse_paths_Inr permits_real_def list_ex_iff)
  ultimately show ?thesis by blast
qed

text \<open>\<open>/srv/app\<close> admits what is below it and not \<open>/srv/app-secrets\<close>.\<close>

theorem path_list_subtrees_witness:
  "\<exists>l. parse_paths Some [RootDir] [''/srv/app''] = Inr l \<and>
     permits_real l (components ''/srv/app/config.json'') \<and>
     \<not> permits_real l (components ''/srv/app-secrets'')"
proof -
  let ?l = "\<lparr>subtrees = [components ''/srv/app'']\<rparr>"
  have p: "parse_paths Some [RootDir] [''/srv/app''] = Inr ?l"
    by (simp add: parse_paths_Inr canonicalize_existing_prefix_def canonicalize_loop.simps
        entry_path_def components_def is_absolute_def)
  have "permits_real ?l (components ''/srv/app/config.json'')"
    "\<not> permits_real ?l (components ''/srv/app-secrets'')"
    unfolding path_list_subtrees [OF p, THEN conjunct1]
    by (simp_all add: canonicalize_existing_prefix_def canonicalize_loop.simps
        entry_path_def components_def is_absolute_def starts_with_def)
  with p show ?thesis by blast
qed

end
