(* ===== verification/Permissions.thy ===== *)
theory Permissions
  imports Capability HostAllowlist PathAllowlist
begin

text \<open>
  \<open>crates/cli-common/src/permissions.rs\<close>: the grammar of the \<open>--deny-*\<close> and \<open>--allow-*\<close> flags.
  Flags are recorded one by one and resolved, once the command line has been seen, into a
  capability set and the scope lists. An error message is a value that holds what it quotes.
\<close>

section \<open>Signals\<close>

datatype signal = SigInt | SigTerm | SigHup | SigUsr1 | SigUsr2 | SigBreak | SigKill | SigQuit

fun signal_name :: "signal \<Rightarrow> string" where
  "signal_name SigInt = ''SIGINT''"
| "signal_name SigTerm = ''SIGTERM''"
| "signal_name SigHup = ''SIGHUP''"
| "signal_name SigUsr1 = ''SIGUSR1''"
| "signal_name SigUsr2 = ''SIGUSR2''"
| "signal_name SigBreak = ''SIGBREAK''"
| "signal_name SigKill = ''SIGKILL''"
| "signal_name SigQuit = ''SIGQUIT''"

definition signal_from_name :: "string \<Rightarrow> signal option" where
  "signal_from_name name =
     (if name = ''SIGINT'' then Some SigInt
      else if name = ''SIGTERM'' then Some SigTerm
      else if name = ''SIGHUP'' then Some SigHup
      else if name = ''SIGUSR1'' then Some SigUsr1
      else if name = ''SIGUSR2'' then Some SigUsr2
      else if name = ''SIGBREAK'' then Some SigBreak
      else if name = ''SIGKILL'' then Some SigKill
      else if name = ''SIGQUIT'' then Some SigQuit
      else None)"

fun signal_exit_code :: "signal \<Rightarrow> int" where
  "signal_exit_code SigInt = 130"
| "signal_exit_code SigTerm = 143"
| "signal_exit_code SigHup = 129"
| "signal_exit_code SigUsr1 = 138"
| "signal_exit_code SigUsr2 = 140"
| "signal_exit_code SigBreak = 149"
| "signal_exit_code SigKill = 137"
| "signal_exit_code SigQuit = 131"

section \<open>Trimming\<close>

text \<open>The UTF-8 encodings of the characters \<open>str::trim\<close> takes for white space.\<close>

definition WHITE_SPACE :: "string list" where
  "WHITE_SPACE =
     [[CHR 0x09], [CHR 0x0A], [CHR 0x0B], [CHR 0x0C], [CHR 0x0D], [CHR 0x20],
      [CHR 0xC2, CHR 0x85], [CHR 0xC2, CHR 0xA0], [CHR 0xE1, CHR 0x9A, CHR 0x80],
      [CHR 0xE2, CHR 0x80, CHR 0x80], [CHR 0xE2, CHR 0x80, CHR 0x81], [CHR 0xE2, CHR 0x80, CHR 0x82],
      [CHR 0xE2, CHR 0x80, CHR 0x83], [CHR 0xE2, CHR 0x80, CHR 0x84], [CHR 0xE2, CHR 0x80, CHR 0x85],
      [CHR 0xE2, CHR 0x80, CHR 0x86], [CHR 0xE2, CHR 0x80, CHR 0x87], [CHR 0xE2, CHR 0x80, CHR 0x88],
      [CHR 0xE2, CHR 0x80, CHR 0x89], [CHR 0xE2, CHR 0x80, CHR 0x8A], [CHR 0xE2, CHR 0x80, CHR 0xA8],
      [CHR 0xE2, CHR 0x80, CHR 0xA9], [CHR 0xE2, CHR 0x80, CHR 0xAF], [CHR 0xE2, CHR 0x81, CHR 0x9F],
      [CHR 0xE3, CHR 0x80, CHR 0x80]]"

definition strip_any :: "string list \<Rightarrow> string \<Rightarrow> string option" where
  "strip_any ws s =
     (case List.map_filter (\<lambda>w. strip_prefix w s) ws of [] \<Rightarrow> None | r # _ \<Rightarrow> Some r)"

lemma strip_any_shorter:
  "strip_any ws s = Some r \<Longrightarrow> [] \<notin> set ws \<Longrightarrow> length r < length s"
proof -
  assume "strip_any ws s = Some r" and ne: "[] \<notin> set ws"
  then have "r \<in> set (List.map_filter (\<lambda>w. strip_prefix w s) ws)"
    by (auto simp: strip_any_def split: list.splits)
  then obtain w where "w \<in> set ws" "s = w @ r"
    by (auto simp: in_set_map_filter strip_prefix_iff)
  with ne show ?thesis by (cases w) auto
qed

function trim_start :: "string list \<Rightarrow> string \<Rightarrow> string" where
  "trim_start ws s =
     (if [] \<in> set ws then s else case strip_any ws s of Some r \<Rightarrow> trim_start ws r | None \<Rightarrow> s)"
  by pat_completeness auto
termination
  by (relation "measure (\<lambda>(_, s). length s)") (auto intro: strip_any_shorter)

declare trim_start.simps [simp del]

definition trim :: "string \<Rightarrow> string" where
  "trim s = rev (trim_start (map rev WHITE_SPACE) (rev (trim_start WHITE_SPACE s)))"

section \<open>Flags\<close>

datatype perm_error =
    UnknownOption string bool
  | DenialTakesNoValue string string string
  | ImportsTakesNoValue string string
  | ScopingNotImplemented string string string
  | EmptyValue string
  | EmptyEntry string string
  | BadAddress string entry_error
  | NotASignal string string
  | MixedScope string string
  | AllFlagsDisagree
  | CannotCombine string string
  | RequiresAll string string

type_synonym scopes = "capability \<rightharpoonup> string list"

fun scope_hint :: "capability \<Rightarrow> string option" where
  "scope_hint Run = Some ''program names, e.g. --allow-run=git,ls''"
| "scope_hint Env = Some ''variable names, e.g. --allow-env=HOME,PATH''"
| "scope_hint Net = Some ''hosts, e.g. --allow-net=api.example.com,db.internal:5432''"
| "scope_hint NetListen = Some ''bind addresses, e.g. --allow-listen=127.0.0.1:8080,8443''"
| "scope_hint FileRead = Some ''paths, e.g. --allow-read=./data,/etc/ssl/certs''"
| "scope_hint FileWrite = Some ''paths, e.g. --allow-read=./data,/etc/ssl/certs''"
| "scope_hint Signals = Some ''signal names, e.g. --allow-signals=SIGTERM,SIGINT''"
| "scope_hint _ = None"

datatype baseline = Nothing | Everything

record allow_flag =
  al_flag :: string
  al_cap :: capability
  al_values :: "string list option"

record permissions =
  pm_baseline :: baseline
  pm_deny_all :: bool
  pm_allow_all :: bool
  pm_denied :: "(string \<times> capability) list"
  pm_allowed :: "allow_flag list"

definition new_permissions :: "baseline \<Rightarrow> permissions" where
  "new_permissions b =
     \<lparr>pm_baseline = b, pm_deny_all = False, pm_allow_all = False, pm_denied = [], pm_allowed = []\<rparr>"

definition deny_all :: "permissions \<Rightarrow> permissions" where
  "deny_all p = p\<lparr>pm_deny_all := True\<rparr>"

definition allow_all :: "permissions \<Rightarrow> permissions" where
  "allow_all p = p\<lparr>pm_allow_all := True\<rparr>"

definition permissive :: "permissions \<Rightarrow> bool" where
  "permissive p =
     (if pm_allow_all p then True else if pm_deny_all p then False else pm_baseline p = Everything)"

definition is_permission_flag :: "string \<Rightarrow> bool" where
  "is_permission_flag flag \<longleftrightarrow>
     list_ex (\<lambda>pre. case strip_prefix pre flag of
         Some name \<Rightarrow> from_flag_name name \<noteq> None | None \<Rightarrow> False) [''--deny-'', ''--allow-'']"

fun parse_entries :: "string \<Rightarrow> string \<Rightarrow> string list \<Rightarrow> string list \<Rightarrow> perm_error + string list" where
  "parse_entries flag value [] seen = Inr seen"
| "parse_entries flag value (e # es) seen =
     (let entry = trim e
      in if entry = [] then Inl (EmptyEntry flag value)
         else parse_entries flag value es (if entry \<in> set seen then seen else seen @ [entry]))"

definition parse_scope_list :: "string \<Rightarrow> string \<Rightarrow> perm_error + string list" where
  "parse_scope_list flag value =
     (if value = [] then Inl (EmptyValue flag) else parse_entries flag value (split_on CHR '','' value) [])"

definition check_signals :: "string \<Rightarrow> string list \<Rightarrow> perm_error + unit" where
  "check_signals flag es =
     (case find (\<lambda>e. signal_from_name e = None) es of
        Some e \<Rightarrow> Inl (NotASignal flag e) | None \<Rightarrow> Inr ())"

definition scope_values ::
  "string \<Rightarrow> string \<Rightarrow> capability \<Rightarrow> string \<Rightarrow> perm_error + string list" where
  "scope_values flag name cap value =
     (if scope_hint cap = None then
        Inl (if cap = FileSystem then ImportsTakesNoValue flag value
             else ScopingNotImplemented flag value name)
      else
        res_bind (parse_scope_list flag value) (\<lambda>entries.
        res_bind (if cap = Net \<or> cap = NetListen
                  then res_map_err (BadAddress flag) (res_bind (parse_hosts entries) (\<lambda>_. Inr ()))
                  else Inr ()) (\<lambda>_.
        res_bind (if cap = Signals then check_signals flag entries else Inr ()) (\<lambda>_.
          Inr entries))))"

definition record_flag ::
  "string \<Rightarrow> string \<Rightarrow> bool \<Rightarrow> string option \<Rightarrow> permissions \<Rightarrow> perm_error + permissions" where
  "record_flag flag name allow value p =
     res_bind (ok_or (UnknownOption flag allow) (from_flag_name name)) (\<lambda>cap.
       if \<not> allow then
         (case value of
            Some v \<Rightarrow> Inl (DenialTakesNoValue flag v name)
          | None \<Rightarrow> Inr (p\<lparr>pm_denied := pm_denied p @ [(flag, cap)]\<rparr>))
       else
         res_bind (case value of
             None \<Rightarrow> Inr None
           | Some v \<Rightarrow> res_bind (scope_values flag name cap v) (\<lambda>es. Inr (Some es))) (\<lambda>values.
           Inr (p\<lparr>pm_allowed := pm_allowed p @
             [\<lparr>al_flag = (case value of Some v \<Rightarrow> flag @ ''='' @ v | None \<Rightarrow> flag),
               al_cap = cap, al_values = values\<rparr>]\<rparr>)))"

section \<open>Resolution\<close>

definition first_scoped_flag :: "permissions \<Rightarrow> capability \<Rightarrow> string" where
  "first_scoped_flag p cap =
     (case find (\<lambda>a. al_cap a = cap \<and> al_values a \<noteq> None) (pm_allowed p) of
        Some a \<Rightarrow> al_flag a | None \<Rightarrow> [])"

definition push_new :: "string list \<Rightarrow> string list \<Rightarrow> string list" where
  "push_new values seen =
     fold (\<lambda>v seen. if v \<in> set seen then seen else seen @ [v]) values seen"

fun scopes_loop ::
  "permissions \<Rightarrow> allow_flag list \<Rightarrow> scopes \<Rightarrow> (capability \<rightharpoonup> string) \<Rightarrow> perm_error + scopes" where
  "scopes_loop p [] scopes whole = Inr scopes"
| "scopes_loop p (a # as) scopes whole =
     (case al_values a of
        None \<Rightarrow>
          (if scopes (al_cap a) \<noteq> None
           then Inl (MixedScope (first_scoped_flag p (al_cap a)) (al_flag a))
           else scopes_loop p as scopes (whole(al_cap a \<mapsto> al_flag a)))
      | Some values \<Rightarrow>
          (case whole (al_cap a) of
             Some w \<Rightarrow> Inl (MixedScope (al_flag a) w)
           | None \<Rightarrow>
               (let entries = (case scopes (al_cap a) of Some es \<Rightarrow> es | None \<Rightarrow> [])
                in scopes_loop p as (scopes(al_cap a \<mapsto> push_new values entries)) whole)))"

definition scopes_of :: "permissions \<Rightarrow> perm_error + scopes" where
  "scopes_of p = scopes_loop p (pm_allowed p) Map.empty Map.empty"

definition wrong_direction :: "permissions \<Rightarrow> string \<Rightarrow> bool \<Rightarrow> perm_error" where
  "wrong_direction p flag allowing =
     (let needed = (if allowing then ''--deny-all'' else ''--allow-all'');
          mode_flag = (if allowing then ''--allow-all'' else ''--deny-all'')
      in if (allowing \<and> pm_allow_all p) \<or> (\<not> allowing \<and> pm_deny_all p)
         then CannotCombine mode_flag flag else RequiresAll flag needed)"

definition resolve :: "permissions \<Rightarrow> perm_error + capability_set" where
  "resolve p =
     (if pm_allow_all p \<and> pm_deny_all p then Inl AllFlagsDisagree
      else if permissive p then
        (case pm_allowed p of
           a # _ \<Rightarrow> Inl (wrong_direction p (al_flag a) True)
         | [] \<Rightarrow> Inr (fold (\<lambda>(_, cap) caps. revoke cap caps) (pm_denied p) all_caps))
      else
        (case pm_denied p of
           (flag, _) # _ \<Rightarrow> Inl (wrong_direction p flag False)
         | [] \<Rightarrow> Inr (fold (\<lambda>a caps. grant (al_cap a) caps) (pm_allowed p) (without_host_access all_caps))))"

definition signal_scope :: "scopes \<Rightarrow> signal list option" where
  "signal_scope sc = map_option (List.map_filter signal_from_name) (sc Signals)"

definition path_scope ::
  "(path \<Rightarrow> path option) \<Rightarrow> scopes \<Rightarrow> capability \<Rightarrow> path \<Rightarrow> path_list_error + path_allowlist option" where
  "path_scope canonicalize sc cap base =
     (case sc cap of None \<Rightarrow> Inr None
      | Some es \<Rightarrow> res_bind (parse_paths canonicalize base es) (\<lambda>l. Inr (Some l)))"

definition address_scope :: "scopes \<Rightarrow> capability \<Rightarrow> entry_error + host_allowlist option" where
  "address_scope sc cap =
     (case sc cap of None \<Rightarrow> Inr None | Some es \<Rightarrow> res_bind (parse_hosts es) (\<lambda>l. Inr (Some l)))"

section \<open>What a command line grants\<close>

lemma fold_grants: "fold (\<lambda>a caps. grant (al_cap a) caps) as = fold grant (map al_cap as)"
  by (induction as) (simp_all add: fun_eq_iff)

lemma fold_revokes: "fold (\<lambda>(_, cap) caps. revoke cap caps) ds = fold revoke (map snd ds)"
  by (induction ds) (auto simp: fun_eq_iff)

text \<open>
  C5: a command line grants exactly what it says. It resolves unless it holds both
  \<open>--all\<close> flags or a flag against its direction, and then, started from everything, it grants
  all but the capabilities denied; started from nothing, no host-facing capability but the
  allowed ones and what these imply. No flag overrides another: only which flags there are
  matters, not their order.
\<close>

theorem resolve_exact:
  "(case resolve p of
      Inl _ \<Rightarrow> (pm_allow_all p \<and> pm_deny_all p) \<or> (permissive p \<and> pm_allowed p \<noteq> []) \<or>
        (\<not> permissive p \<and> pm_denied p \<noteq> [])
    | Inr caps \<Rightarrow> \<not> (pm_allow_all p \<and> pm_deny_all p) \<and>
        (if permissive p
         then pm_allowed p = [] \<and> (\<forall>c. contains caps c \<longleftrightarrow> c \<notin> snd ` set (pm_denied p))
         else pm_denied p = [] \<and> (\<forall>c. contains caps c \<longleftrightarrow> c \<notin> set HOST_FACING \<or>
           (\<exists>a\<in>set (pm_allowed p). c = al_cap a \<or> c \<in> implied (al_cap a)))))"
proof (cases "pm_allow_all p \<and> pm_deny_all p")
  case False
  show ?thesis
  proof (cases "permissive p")
    case True
    with False show ?thesis
      by (cases "pm_allowed p") (simp_all add: resolve_def fold_revokes capability_simps)
  next
    case restrictive: False
    with False show ?thesis
      by (cases "pm_denied p") (auto simp add: resolve_def fold_grants capability_simps)
  qed
qed (simp add: resolve_def)

theorem resolve_exact_witness:
  "\<exists>caps. resolve ((new_permissions Nothing)\<lparr>pm_allowed :=
       [\<lparr>al_flag = ''--allow-diagnostics-detail'', al_cap = DiagnosticsDetail, al_values = None\<rparr>]\<rparr>) = Inr caps \<and>
     contains caps DiagnosticsObserve \<and> contains caps Clock \<and> \<not> contains caps Net"
proof -
  let ?p = "(new_permissions Nothing)\<lparr>pm_allowed :=
       [\<lparr>al_flag = ''--allow-diagnostics-detail'', al_cap = DiagnosticsDetail, al_values = None\<rparr>]\<rparr>"
  obtain caps where "resolve ?p = Inr caps"
    by (simp add: resolve_def permissive_def new_permissions_def)
  with resolve_exact [of ?p] show ?thesis
    by (simp add: permissive_def new_permissions_def HOST_FACING_def implied_def)
qed

text \<open>
  Denying diagnostics does not deny their detail. \<open>--allow-all --deny-diagnostics\<close>
  resolves, to a set that holds \<open>DiagnosticsDetail\<close> without the narrower capability it implies,
  while granting the detail always grants the narrower one.
\<close>

theorem denied_diagnostics_keep_detail:
  "\<exists>p caps. record_flag ''--deny-diagnostics'' ''diagnostics'' False None
       (allow_all (new_permissions b)) = Inr p \<and> resolve p = Inr caps \<and>
     \<not> contains caps DiagnosticsObserve \<and> require caps DiagnosticsDetail = Inr ()"
proof -
  let ?p = "(allow_all (new_permissions b))\<lparr>pm_denied := [(''--deny-diagnostics'', DiagnosticsObserve)]\<rparr>"
  have rec: "record_flag ''--deny-diagnostics'' ''diagnostics'' False None
      (allow_all (new_permissions b)) = Inr ?p"
    by (simp add: record_flag_def from_flag_name_def HOST_FACING_def allow_all_def new_permissions_def)
  have "resolve ?p = Inr (revoke DiagnosticsObserve all_caps)"
    by (simp add: resolve_def permissive_def allow_all_def new_permissions_def)
  with rec show ?thesis
    by (intro exI [of _ ?p] exI [of _ "revoke DiagnosticsObserve all_caps"])
       (simp add: capability_simps require_def)
qed

section \<open>Scope lists\<close>

lemma push_new_append: "push_new (us @ vs) es = push_new vs (push_new us es)"
  by (simp add: push_new_def)

lemma set_push_new: "set (push_new vs es) = set vs \<union> set es"
  by (induction vs arbitrary: es) (auto simp: push_new_def)

lemma push_new_snoc:
  "push_new (vs @ [v]) es = (if v \<in> set (push_new vs es) then push_new vs es else push_new vs es @ [v])"
  by (simp add: push_new_def)

text \<open>Starting from nothing, the first occurrence of each value is kept, in order.\<close>

lemma push_new_first: "push_new vs [] = rev (remdups (rev vs))"
proof (induction vs rule: rev_induct)
  case (snoc v vs)
  then show ?case using set_push_new [of vs "[]"] by (simp add: push_new_snoc)
qed (simp add: push_new_def)

lemma parse_entries_Inr:
  "parse_entries flag v es seen = Inr r \<longleftrightarrow> (\<forall>e\<in>set es. trim e \<noteq> []) \<and> r = push_new (map trim es) seen"
  by (induction flag v es seen rule: parse_entries.induct)
     (auto simp: push_new_def Let_def)

lemma parse_scope_list_Inr:
  "parse_scope_list flag value = Inr es \<longleftrightarrow> value \<noteq> [] \<and>
     (\<forall>e\<in>set (split_on CHR '','' value). trim e \<noteq> []) \<and>
     es = rev (remdups (rev (map trim (split_on CHR '','' value))))"
  by (auto simp: parse_scope_list_def parse_entries_Inr push_new_first)

definition narrowed :: "allow_flag list \<Rightarrow> capability \<Rightarrow> string list list" where
  "narrowed as cap = List.map_filter al_values (filter (\<lambda>a. al_cap a = cap) as)"

definition whole_in :: "allow_flag list \<Rightarrow> capability \<Rightarrow> bool" where
  "whole_in as cap \<longleftrightarrow> (\<exists>a\<in>set as. al_cap a = cap \<and> al_values a = None)"

lemma narrowed_simps [simp]:
  "narrowed [] cap = []"
  "narrowed (a # as) cap = (if al_cap a = cap then (case al_values a of Some vs \<Rightarrow> [vs] | None \<Rightarrow> []) else [])
     @ narrowed as cap"
  by (auto simp: narrowed_def List.map_filter_simps split: option.split)

lemma whole_in_simps [simp]:
  "\<not> whole_in [] cap"
  "whole_in (a # as) cap \<longleftrightarrow> (al_cap a = cap \<and> al_values a = None) \<or> whole_in as cap"
  by (auto simp: whole_in_def)

definition merged :: "string list list \<Rightarrow> string list option \<Rightarrow> string list option" where
  "merged vss old =
     (if vss = [] then old else Some (push_new (concat vss) (case old of Some es \<Rightarrow> es | None \<Rightarrow> [])))"

lemma merged_Cons: "merged (vs # vss) old = merged vss (Some (push_new vs (case old of Some es \<Rightarrow> es | None \<Rightarrow> [])))"
  by (simp add: merged_def push_new_append push_new_def)

lemma scopes_loop_spec:
  assumes "\<forall>c. \<not> (sc c \<noteq> None \<and> wh c \<noteq> None)"
  shows "case scopes_loop p as sc wh of
      Inl _ \<Rightarrow> \<exists>c. (narrowed as c \<noteq> [] \<or> sc c \<noteq> None) \<and> (whole_in as c \<or> wh c \<noteq> None)
    | Inr m \<Rightarrow> (\<forall>c. \<not> ((narrowed as c \<noteq> [] \<or> sc c \<noteq> None) \<and> (whole_in as c \<or> wh c \<noteq> None))) \<and>
        (\<forall>c. m c = merged (narrowed as c) (sc c))"
  using assms
proof (induction as arbitrary: sc wh)
  case Nil
  then show ?case by (simp add: merged_def)
next
  case (Cons a as)
  show ?case
  proof (cases "al_values a")
    case whole: None
    show ?thesis
    proof (cases "sc (al_cap a)")
      case None
      have "\<forall>c. \<not> (sc c \<noteq> None \<and> (wh(al_cap a \<mapsto> al_flag a)) c \<noteq> None)"
        using Cons.prems None by simp
      note ih = Cons.IH [OF this]
      show ?thesis
      proof (cases "scopes_loop p as sc (wh(al_cap a \<mapsto> al_flag a))")
        case (Inl e)
        with ih [unfolded Inl sum.case] whole None show ?thesis by (auto split: if_splits)
      next
        case (Inr m)
        with ih [unfolded Inr sum.case] whole None show ?thesis by (auto split: if_splits) (metis option.distinct(1))+
      qed
    next
      case (Some es)
      with whole show ?thesis by auto
    qed
  next
    case (Some vs)
    show ?thesis
    proof (cases "wh (al_cap a)")
      case None
      let ?new = "push_new vs (case sc (al_cap a) of Some es \<Rightarrow> es | None \<Rightarrow> [])"
      have "\<forall>c. \<not> ((sc(al_cap a \<mapsto> ?new)) c \<noteq> None \<and> wh c \<noteq> None)"
        using Cons.prems None by simp
      note ih = Cons.IH [OF this]
      show ?thesis
      proof (cases "scopes_loop p as (sc(al_cap a \<mapsto> ?new)) wh")
        case (Inl e)
        with ih [unfolded Inl sum.case] Some None show ?thesis by (auto simp: Let_def split: if_splits)
      next
        case (Inr m)
        with ih [unfolded Inr sum.case] Some None show ?thesis by (auto simp: Let_def merged_Cons split: if_splits) (metis option.distinct(1))+
      qed
    next
      case (Some w)
      with \<open>al_values a = Some vs\<close> show ?thesis by auto
    qed
  qed
qed

text \<open>
  C6: scope lists add up and nothing overrides. They are refused exactly when some capability
  was both granted whole and narrowed, in whatever order the flags came; otherwise a
  capability's list is the entries of all its scoped flags, first occurrences in the order
  written, and a capability no flag narrowed has none.
\<close>

theorem scopes_exact:
  "case scopes_of p of
      Inl _ \<Rightarrow> \<exists>c. narrowed (pm_allowed p) c \<noteq> [] \<and> whole_in (pm_allowed p) c
    | Inr m \<Rightarrow> (\<forall>c. \<not> (narrowed (pm_allowed p) c \<noteq> [] \<and> whole_in (pm_allowed p) c)) \<and>
        (\<forall>c. m c = (if narrowed (pm_allowed p) c = [] then None
                    else Some (rev (remdups (rev (concat (narrowed (pm_allowed p) c)))))))"
  using scopes_loop_spec [of Map.empty Map.empty "pm_allowed p" p]
  by (simp add: scopes_of_def merged_def push_new_first cong: sum.case_cong split: sum.splits)

section \<open>Recorded command lines\<close>

inductive recorded :: "permissions \<Rightarrow> bool" where
  "recorded (new_permissions b)"
| "recorded p \<Longrightarrow> recorded (deny_all p)"
| "recorded p \<Longrightarrow> recorded (allow_all p)"
| "recorded p \<Longrightarrow> record_flag flag name allow value p = Inr q \<Longrightarrow> recorded q"

definition good_entry :: "capability \<Rightarrow> string \<Rightarrow> bool" where
  "good_entry cap e \<longleftrightarrow> e \<noteq> [] \<and>
     (cap = Net \<or> cap = NetListen \<longrightarrow> (\<exists>x. parse_entry e = Inr x)) \<and>
     (cap = Signals \<longrightarrow> signal_from_name e \<noteq> None)"

lemma scope_values_good:
  assumes "scope_values flag name cap value = Inr es"
  shows "scope_hint cap \<noteq> None \<and> (\<forall>e\<in>set es. good_entry cap e)"
proof -
  from assms have hint: "scope_hint cap \<noteq> None" by (auto simp: scope_values_def split: if_splits)
  with assms have list: "parse_scope_list flag value = Inr es"
    and net: "cap = Net \<or> cap = NetListen \<Longrightarrow> \<exists>l. parse_hosts es = Inr l"
    and sig: "cap = Signals \<Longrightarrow> check_signals flag es = Inr ()"
    by (auto simp: scope_values_def result_simps split: if_splits)
  have "e \<noteq> []" if "e \<in> set es" for e
    using list that by (auto simp: parse_scope_list_Inr)
  moreover have "\<exists>x. parse_entry e = Inr x" if "cap = Net \<or> cap = NetListen" "e \<in> set es" for e
    using net [OF that(1)] that(2) by (auto simp: parse_hosts_Inr dest: map_Inr_member)
  moreover have "signal_from_name e \<noteq> None" if "cap = Signals" "e \<in> set es" for e
    using sig [OF that(1)] that(2) by (auto simp: check_signals_def find_None_iff split: option.splits)
  ultimately show ?thesis using hint by (simp add: good_entry_def)
qed

lemma recorded_good:
  "recorded p \<Longrightarrow> a \<in> set (pm_allowed p) \<Longrightarrow> al_values a = Some vs \<Longrightarrow>
     scope_hint (al_cap a) \<noteq> None \<and> (\<forall>e\<in>set vs. good_entry (al_cap a) e)"
proof (induction rule: recorded.induct)
  case (4 p flag name allow v q)
  show ?case
  proof (cases "a \<in> set (pm_allowed p)")
    case False
    with 4 obtain v where "al_cap a = the (from_flag_name name)" "scope_values flag name (al_cap a) v = Inr vs"
      by (auto simp: record_flag_def result_simps split: if_splits option.splits)
    then show ?thesis using scope_values_good by blast
  qed (use 4 in blast)
qed (simp_all add: new_permissions_def deny_all_def allow_all_def)

lemma find_narrowed: "vs \<in> set (narrowed as c) \<Longrightarrow> \<exists>a\<in>set as. al_cap a = c \<and> al_values a = Some vs"
  by (auto simp: narrowed_def in_set_map_filter)

lemma recorded_scopes:
  assumes "recorded p" and "scopes_of p = Inr m" and "m c = Some es" and "e \<in> set es"
  shows "good_entry c e"
proof -
  have "es = rev (remdups (rev (concat (narrowed (pm_allowed p) c))))"
    using scopes_loop_spec [of Map.empty Map.empty "pm_allowed p" p] assms(2,3)
    by (simp add: scopes_of_def merged_def push_new_first split: if_splits)
  with assms(4) obtain vs where "vs \<in> set (narrowed (pm_allowed p) c)" "e \<in> set vs" by auto
  with find_narrowed recorded_good [OF assms(1)] show ?thesis by blast
qed

lemma parse_hosts_accepts: "\<forall>e\<in>set es. \<exists>x. parse_entry e = Inr x \<Longrightarrow> \<exists>l. parse_hosts es = Inr l"
proof (induction es)
  case Nil
  show ?case by (simp add: parse_hosts_def)
next
  case (Cons e es)
  then obtain x l where "parse_entry e = Inr x" "parse_hosts es = Inr l" by auto
  then have "parse_hosts (e # es) = Inr \<lparr>entries = x # entries l\<rparr>" by (simp add: parse_hosts_Inr)
  then show ?case by blast
qed

lemma signals_kept:
  "\<forall>n\<in>set ns. signal_from_name n \<noteq> None \<Longrightarrow> map signal_name (List.map_filter signal_from_name ns) = ns"
proof (induction ns)
  case (Cons n ns)
  then obtain g where g: "signal_from_name n = Some g" by auto
  then have "signal_name g = n" by (auto simp: signal_from_name_def split: if_splits)
  with Cons g show ?case by (simp add: List.map_filter_simps)
qed (simp add: List.map_filter_simps)

lemma parse_paths_accepts: "[] \<notin> set es \<Longrightarrow> \<exists>l. parse_paths canonicalize base es = Inr l"
proof -
  assume "[] \<notin> set es"
  then have "map (parse_path_entry canonicalize base) es =
      map Inr (map (\<lambda>e. canonicalize_existing_prefix canonicalize (entry_path base e)) es)"
    by (auto simp: parse_path_entry_def)
  then have "res_map_list (parse_path_entry canonicalize base) es =
      Inr (map (\<lambda>e. canonicalize_existing_prefix canonicalize (entry_path base e)) es)"
    unfolding res_map_list_Inr .
  then show ?thesis by (simp add: parse_paths_def)
qed

text \<open>
  What was validated when a flag was read never fails when the run is wired. The lists of
  any command line recorded flag by flag parse again as addresses and as paths, and the signal
  list drops no name the user wrote.
\<close>

theorem recorded_lists_parse:
  assumes "recorded p" and "scopes_of p = Inr m"
  shows "(\<exists>r. address_scope m Net = Inr r) \<and> (\<exists>r. address_scope m NetListen = Inr r) \<and>
    (\<exists>r. path_scope canonicalize m c base = Inr r) \<and>
    map_option (map signal_name) (signal_scope m) = m Signals"
proof -
  note good = recorded_scopes [OF assms, unfolded good_entry_def]
  have addr: "\<exists>r. address_scope m c = Inr r" if "c = Net \<or> c = NetListen" for c
  proof (cases "m c")
    case (Some es)
    with good that have "\<forall>e\<in>set es. \<exists>x. parse_entry e = Inr x" by blast
    then obtain l where "parse_hosts es = Inr l" using parse_hosts_accepts by blast
    with Some show ?thesis by (simp add: address_scope_def)
  qed (simp add: address_scope_def)
  have "\<exists>r. path_scope canonicalize m c base = Inr r"
  proof (cases "m c")
    case (Some es)
    with good have "[] \<notin> set es" by blast
    then obtain l where "parse_paths canonicalize base es = Inr l" using parse_paths_accepts by blast
    with Some show ?thesis by (simp add: path_scope_def)
  qed (simp add: path_scope_def)
  moreover have "map_option (map signal_name) (signal_scope m) = m Signals"
  proof (cases "m Signals")
    case (Some ns)
    with good have "\<forall>n\<in>set ns. signal_from_name n \<noteq> None" by blast
    with Some signals_kept show ?thesis by (simp add: signal_scope_def)
  qed (simp add: signal_scope_def)
  ultimately show ?thesis using addr by blast
qed

theorem recorded_lists_parse_witness:
  "\<exists>p m. record_flag ''--allow-signals'' ''signals'' True (Some '' SIGTERM,SIGKILL '') (new_permissions Nothing) = Inr p \<and>
     scopes_of p = Inr m \<and> map_option (map signal_name) (signal_scope m) = Some [''SIGTERM'', ''SIGKILL'']"
proof -
  let ?p = "(new_permissions Nothing)\<lparr>pm_allowed := [\<lparr>al_flag = ''--allow-signals= SIGTERM,SIGKILL '',
      al_cap = Signals, al_values = Some [''SIGTERM'', ''SIGKILL'']\<rparr>]\<rparr>"
  have rec: "record_flag ''--allow-signals'' ''signals'' True (Some '' SIGTERM,SIGKILL '') (new_permissions Nothing) = Inr ?p"
    by (simp add: record_flag_def from_flag_name_def HOST_FACING_def scope_values_def parse_scope_list_def
        trim_def trim_start.simps strip_any_def WHITE_SPACE_def List.map_filter_simps check_signals_def
        signal_from_name_def new_permissions_def Let_def)
  have sc: "scopes_of ?p = Inr [Signals \<mapsto> [''SIGTERM'', ''SIGKILL'']]"
    by (simp add: scopes_of_def new_permissions_def push_new_def)
  have "recorded ?p" using rec recorded.intros(1,4) by blast
  from recorded_lists_parse [OF this sc] rec sc show ?thesis by auto
qed

end
