(* ===== verification/Jail.thy ===== *)
theory Jail
  imports PathAllowlist
begin

text \<open>
  \<open>crates/default-providers/src/jail.rs\<close> and \<open>refusal.rs\<close>: the one resolution every door onto
  the file system goes through. The file system is two parameters, \<open>canonicalize\<close> (the real
  path of an existing one) and \<open>metadata\<close> (whether an existing path is a directory). Pinning
  the answer by descriptor (\<open>jail/anchor.rs\<close>, \<open>jail/tree.rs\<close>) is the operating system's and is
  not modelled.
\<close>

section \<open>Refusals\<close>

datatype error_code = JailEscape | PermissionDenied | InvalidPath | NotDirectory

text \<open>
  A path as an error names it: what the program wrote and, relative to a base below the root,
  where that lands in the project.
\<close>

datatype shown_path = AsWritten string | InProject string path

datatype jail_error =
    EscapesRoot shown_path
  | EscapesRootAndGrants shown_path
  | NotAllowedPath shown_path access
  | RefusingRoot shown_path
  | EmptyPathArgument
  | TrailingSeparator string

fun error_code_of :: "jail_error \<Rightarrow> error_code" where
  "error_code_of (EscapesRoot _) = JailEscape"
| "error_code_of (EscapesRootAndGrants _) = JailEscape"
| "error_code_of (NotAllowedPath _ _) = PermissionDenied"
| "error_code_of (RefusingRoot _) = InvalidPath"
| "error_code_of EmptyPathArgument = InvalidPath"
| "error_code_of (TrailingSeparator _) = NotDirectory"

fun named :: "shown_path \<Rightarrow> jail_refusal \<Rightarrow> jail_error" where
  "named shown (Escape granted) = (if granted then EscapesRootAndGrants shown else EscapesRoot shown)"
| "named shown (NotAllowed access) = NotAllowedPath shown access"
| "named shown Root = RefusingRoot shown"

section \<open>The jail\<close>

record jail =
  base :: path
  root :: path
  allow_read :: "path_allowlist option"
  allow_write :: "path_allowlist option"
  read_roots :: "path list"
  write_roots :: "path list"

definition canonical_or :: "(path \<Rightarrow> path option) \<Rightarrow> path \<Rightarrow> path" where
  "canonical_or canonicalize p = (case canonicalize p of Some real \<Rightarrow> real | None \<Rightarrow> p)"

definition new_jail :: "(path \<Rightarrow> path option) \<Rightarrow> path \<Rightarrow> path \<Rightarrow> jail" where
  "new_jail canonicalize b r =
     (let r' = canonical_or canonicalize r; b' = canonical_or canonicalize b
      in \<lparr>base = b', root = r', allow_read = None, allow_write = None,
          read_roots = [r'], write_roots = [r']\<rparr>)"

definition roots_with :: "path \<Rightarrow> path_allowlist \<Rightarrow> path list" where
  "roots_with r allow = r # roots_outside allow r"

definition with_read_allowlist :: "path_allowlist \<Rightarrow> jail \<Rightarrow> jail" where
  "with_read_allowlist allow j =
     j\<lparr>read_roots := roots_with (root j) allow, allow_read := Some allow\<rparr>"

definition with_write_allowlist :: "path_allowlist \<Rightarrow> jail \<Rightarrow> jail" where
  "with_write_allowlist allow j =
     j\<lparr>write_roots := roots_with (root j) allow, allow_write := Some allow\<rparr>"

fun roots :: "jail \<Rightarrow> access \<Rightarrow> path list" where
  "roots j Read = read_roots j"
| "roots j Write = write_roots j"

fun allowlist_for :: "jail \<Rightarrow> access \<Rightarrow> path_allowlist option" where
  "allowlist_for j Read = allow_read j"
| "allowlist_for j Write = allow_write j"

definition scoped :: "jail \<Rightarrow> path \<Rightarrow> access \<Rightarrow> jail_refusal + path" where
  "scoped j real access =
     (case allowlist_for j access of
        Some allow \<Rightarrow> res_bind (check_real allow real access) (\<lambda>_. Inr real)
      | None \<Rightarrow> Inr real)"

definition escape :: "path list \<Rightarrow> jail_refusal" where
  "escape rs = Escape (length rs > 1)"

text \<open>\<open>confine\<close>'s loop: climb to what exists, judge that, put the literal tail back.\<close>

definition confine_found :: "path list \<Rightarrow> path \<Rightarrow> string list \<Rightarrow> jail_refusal + path" where
  "confine_found rs real tail =
     (case find (\<lambda>r. within_root real r) rs of
        None \<Rightarrow> Inl (escape rs)
      | Some r \<Rightarrow>
          (let out = fold (\<lambda>seg out. join out [Normal seg]) tail real
           in if \<not> starts_with out r then Inl (escape rs) else Inr out))"

function confine_loop ::
  "(path \<Rightarrow> path option) \<Rightarrow> path list \<Rightarrow> path \<Rightarrow> string list \<Rightarrow> jail_refusal + path" where
  "confine_loop canonicalize rs existing tail =
     (case canonicalize existing of
        Some real \<Rightarrow> confine_found rs real tail
      | None \<Rightarrow>
          (case file_name existing of
             Some name \<Rightarrow>
               (case parent existing of
                  Some p \<Rightarrow> confine_loop canonicalize rs p (name # tail)
                | None \<Rightarrow> Inl (escape rs))
           | None \<Rightarrow> Inl (escape rs)))"
  by pat_completeness auto
termination
  by (relation "measure (\<lambda>(_, _, existing, _). length existing)") (auto split: if_splits)

declare confine_loop.simps [simp del]

definition confine :: "(path \<Rightarrow> path option) \<Rightarrow> path \<Rightarrow> path list \<Rightarrow> jail_refusal + path" where
  "confine canonicalize p rs = confine_loop canonicalize rs p []"

definition reject_root_mutation :: "path \<Rightarrow> path list \<Rightarrow> access \<Rightarrow> jail_refusal + path" where
  "reject_root_mutation resolved rs access =
     (if access = Write \<and> resolved \<in> set rs then Inl Root else Inr resolved)"

definition admit :: "(path \<Rightarrow> path option) \<Rightarrow> jail \<Rightarrow> path \<Rightarrow> access \<Rightarrow> jail_refusal + path" where
  "admit canonicalize j p access =
     res_bind (confine canonicalize p (roots j access)) (\<lambda>resolved.
     res_bind (reject_root_mutation resolved (roots j access) access) (\<lambda>resolved.
       scoped j resolved access))"

section \<open>Resolving what the program wrote\<close>

definition reject_empty :: "string \<Rightarrow> jail_error + path" where
  "reject_empty p = (if p = [] then Inl EmptyPathArgument else Inr (components p))"

definition absolute_in :: "jail \<Rightarrow> path \<Rightarrow> path" where
  "absolute_in j raw = (if is_absolute raw then raw else join (base j) raw)"

definition has_trailing_separator :: "string \<Rightarrow> bool" where
  "has_trailing_separator p \<longleftrightarrow> p \<noteq> [] \<and> last p = CHR ''/''"

definition reject_trailing_slash_on_a_file ::
  "(path \<Rightarrow> bool option) \<Rightarrow> string \<Rightarrow> path \<Rightarrow> jail_error + unit" where
  "reject_trailing_slash_on_a_file metadata input resolved =
     (if \<not> has_trailing_separator input then Inr ()
      else (case metadata resolved of
              Some is_dir \<Rightarrow> if \<not> is_dir then Inl (TrailingSeparator input) else Inr ()
            | None \<Rightarrow> Inr ()))"

text \<open>A path joined for an error message: \<open>..\<close> is popped, \<open>.\<close> skipped, the rest pushed.\<close>

fun spell_step :: "component \<Rightarrow> path \<Rightarrow> path" where
  "spell_step CurDir joined = joined"
| "spell_step ParentDir joined = pop joined"
| "spell_step c joined = join joined [c]"

definition spelled :: "jail \<Rightarrow> string \<Rightarrow> shown_path" where
  "spelled j p =
     (let raw = components p
      in if is_absolute raw \<or> base j = root j then AsWritten p
         else (case strip_prefix (root j) (fold spell_step raw (base j)) of
                 Some rel \<Rightarrow> if rel \<noteq> [] \<and> rel \<noteq> raw then InProject p rel else AsWritten p
               | None \<Rightarrow> AsWritten p))"

definition jailed_as ::
  "(path \<Rightarrow> path option) \<Rightarrow> (path \<Rightarrow> bool option) \<Rightarrow> jail \<Rightarrow> string \<Rightarrow> string \<Rightarrow> access \<Rightarrow> jail_error + path"
where
  "jailed_as canonicalize metadata j p shown access =
     res_bind (reject_empty p) (\<lambda>raw.
     res_bind (res_map_err (named (spelled j shown)) (admit canonicalize j (absolute_in j raw) access)) (\<lambda>resolved.
     res_bind (reject_trailing_slash_on_a_file metadata p resolved) (\<lambda>_. Inr resolved)))"

definition jailed ::
  "(path \<Rightarrow> path option) \<Rightarrow> (path \<Rightarrow> bool option) \<Rightarrow> jail \<Rightarrow> string \<Rightarrow> access \<Rightarrow> jail_error + path" where
  "jailed canonicalize metadata j p access = jailed_as canonicalize metadata j p p access"

text \<open>Without following the final component: its parent is confined, the name put back.\<close>

definition resolve_nofollow ::
  "(path \<Rightarrow> path option) \<Rightarrow> jail \<Rightarrow> string \<Rightarrow> path \<Rightarrow> access \<Rightarrow> jail_refusal + path" where
  "resolve_nofollow canonicalize j name up access =
     res_bind (confine canonicalize up (roots j access)) (\<lambda>par.
     res_bind (reject_root_mutation (join par [Normal name]) (roots j access) access) (\<lambda>resolved.
       scoped j resolved access))"

definition root_itself :: "(path \<Rightarrow> path option) \<Rightarrow> jail \<Rightarrow> path \<Rightarrow> access \<Rightarrow> path option" where
  "root_itself canonicalize j full access =
     (case canonicalize full of
        Some real \<Rightarrow> if real \<in> set (roots j access) then Some real else None
      | None \<Rightarrow> None)"

definition jailed_nofollow_as ::
  "(path \<Rightarrow> path option) \<Rightarrow> (path \<Rightarrow> bool option) \<Rightarrow> jail \<Rightarrow> string \<Rightarrow> string \<Rightarrow> access \<Rightarrow> jail_error + path"
where
  "jailed_nofollow_as canonicalize metadata j p shown access =
     res_bind (reject_empty p) (\<lambda>raw.
     let full = absolute_in j raw
     in case root_itself canonicalize j full access of
          Some real \<Rightarrow>
            res_map_err (named (spelled j shown))
              (res_bind (reject_root_mutation real (roots j access) access) (\<lambda>real. scoped j real access))
        | None \<Rightarrow>
            (case (parent full, file_name full) of
               (Some up, Some name) \<Rightarrow>
                 res_bind (res_map_err (named (spelled j shown)) (resolve_nofollow canonicalize j name up access))
                   (\<lambda>resolved.
                   res_bind (reject_trailing_slash_on_a_file metadata p resolved) (\<lambda>_. Inr resolved))
             | _ \<Rightarrow> res_map_err (named (spelled j shown)) (admit canonicalize j full access)))"

definition temp_base ::
  "(path \<Rightarrow> path option) \<Rightarrow> (path \<Rightarrow> bool option) \<Rightarrow> jail \<Rightarrow> string \<Rightarrow> access \<Rightarrow> jail_error + path" where
  "temp_base canonicalize metadata j dir access =
     (if dir = [] then
        res_map_err (named (AsWritten ''.''))
          (res_bind (confine canonicalize (base j) (roots j access)) (\<lambda>real. scoped j real access))
      else jailed canonicalize metadata j dir access)"

text \<open>\<open>open_tree\<close>, up to pinning: the directory's own name is not followed, a root may be pinned.\<close>

definition open_tree :: "(path \<Rightarrow> path option) \<Rightarrow> jail \<Rightarrow> string \<Rightarrow> access \<Rightarrow> jail_error + path" where
  "open_tree canonicalize j p access =
     res_bind (reject_empty p) (\<lambda>raw.
     let full = absolute_in j raw
     in res_map_err (named (spelled j p))
          (res_bind
            (case root_itself canonicalize j full access of
               Some real \<Rightarrow> Inr real
             | None \<Rightarrow>
                 (case (parent full, file_name full) of
                    (Some up, Some name) \<Rightarrow>
                      res_bind (confine canonicalize up (roots j access)) (\<lambda>par. Inr (join par [Normal name]))
                  | _ \<Rightarrow> confine canonicalize full (roots j access)))
            (\<lambda>real. scoped j real access)))"

section \<open>Confinement\<close>

lemma confine_found_Inr:
  "confine_found rs real tail = Inr out \<longleftrightarrow>
     (\<exists>r\<in>set rs. within_root real r) \<and> out = real @ map Normal tail"
proof (cases "find (\<lambda>r. within_root real r) rs")
  case None
  then have "confine_found rs real tail = Inl (escape rs)" by (simp add: confine_found_def)
  moreover have "\<not> (\<exists>r\<in>set rs. within_root real r)" using None by (auto simp: find_None_iff)
  ultimately show ?thesis by simp
next
  case (Some r)
  then have "r \<in> set rs" "within_root real r" by (auto simp: find_Some_iff)
  with Some show ?thesis
    by (auto simp: confine_found_def fold_join_Normal within_root_def Let_def dest: starts_with_extend)
qed

text \<open>What \<open>confine\<close> returns: the longest existing prefix, resolved, and the names after it.\<close>

definition resolves_to :: "(path \<Rightarrow> path option) \<Rightarrow> path \<Rightarrow> path \<Rightarrow> path \<Rightarrow> bool" where
  "resolves_to canonicalize p real out \<longleftrightarrow>
     (\<exists>pre names. p = pre @ map Normal names \<and> canonicalize pre = Some real \<and>
        (\<forall>k\<in>{1..length names}. canonicalize (pre @ map Normal (take k names)) = None) \<and>
        out = real @ map Normal names)"

lemma confine_loop_sound:
  "confine_loop canonicalize rs existing tail = Inr out \<Longrightarrow>
     \<exists>pre names real. existing = pre @ map Normal names \<and> canonicalize pre = Some real \<and>
       (\<forall>k\<in>{1..length names}. canonicalize (pre @ map Normal (take k names)) = None) \<and>
       (\<exists>r\<in>set rs. within_root real r) \<and> out = real @ map Normal (names @ tail)"
proof (induction canonicalize rs existing tail rule: confine_loop.induct)
  case (1 canonicalize rs existing tail)
  show ?case
  proof (cases "canonicalize existing")
    case (Some real)
    with "1.prems" have "confine_found rs real tail = Inr out" by (simp add: confine_loop.simps)
    with Some show ?thesis
      by (intro exI [of _ existing] exI [of _ "[]"] exI [of _ real]) (simp add: confine_found_Inr)
  next
    case gone: None
    with "1.prems" obtain name p where up: "file_name existing = Some name" "parent existing = Some p"
      by (subst (asm) confine_loop.simps) (auto split: option.splits simp del: parent.simps)
    with gone "1.prems" have "confine_loop canonicalize rs p (name # tail) = Inr out"
      by (subst (asm) confine_loop.simps) simp
    from "1.IH" [OF gone up this] obtain pre names real where ih:
      "p = pre @ map Normal names" "canonicalize pre = Some real"
      "\<forall>k\<in>{1..length names}. canonicalize (pre @ map Normal (take k names)) = None"
      "\<exists>r\<in>set rs. within_root real r" "out = real @ map Normal (names @ name # tail)"
      by blast
    have ex: "existing = p @ [Normal name]" using up by (rule file_name_parent)
    have "canonicalize (pre @ map Normal (take k (names @ [name]))) = None"
      if "k \<in> {1..length (names @ [name])}" for k
    proof (cases "k \<le> length names")
      case False
      with that have "k = length (names @ [name])" by simp
      with gone ex ih(1) show ?thesis by simp
    qed (use that ih(3) in simp)
    with ih ex show ?thesis
      by (intro exI [of _ pre] exI [of _ "names @ [name]"] exI [of _ real]) simp
  qed
qed

lemma confine_sound:
  assumes "confine canonicalize p rs = Inr out"
  shows "\<exists>real. resolves_to canonicalize p real out \<and> (\<exists>r\<in>set rs. within_root real r \<and> within_root out r)"
proof -
  from confine_loop_sound [OF assms [unfolded confine_def]] obtain pre names real where
    "p = pre @ map Normal names" "canonicalize pre = Some real"
    "\<forall>k\<in>{1..length names}. canonicalize (pre @ map Normal (take k names)) = None"
    and r: "\<exists>r\<in>set rs. within_root real r" and out: "out = real @ map Normal names"
    by auto
  then have "resolves_to canonicalize p real out" by (auto simp: resolves_to_def)
  moreover have "\<exists>r\<in>set rs. within_root real r \<and> within_root out r"
    using r out by (metis starts_with_append starts_with_trans within_root_def)
  ultimately show ?thesis by blast
qed

lemma confine_existing:
  "canonicalize p = Some real \<Longrightarrow> confine canonicalize p rs = confine_found rs real []"
  by (simp add: confine_def confine_loop.simps)

lemma scoped_Inr:
  "scoped j real access = Inr out \<longleftrightarrow>
     out = real \<and> (\<forall>l. allowlist_for j access = Some l \<longrightarrow> permits_real l real)"
  by (auto simp: scoped_def check_real_def split: option.split)

lemma reject_root_Inr:
  "reject_root_mutation p rs access = Inr out \<longleftrightarrow> out = p \<and> \<not> (access = Write \<and> p \<in> set rs)"
  by (auto simp: reject_root_mutation_def)

lemma reject_trailing_Inr:
  "reject_trailing_slash_on_a_file metadata input p = Inr () \<longleftrightarrow>
     \<not> (has_trailing_separator input \<and> metadata p = Some False)"
  by (auto simp: reject_trailing_slash_on_a_file_def split: option.splits)

section \<open>The contract of a door\<close>

text \<open>The jail's roots are its own and what its lists add; every way of building one keeps that.\<close>

definition wf_jail :: "jail \<Rightarrow> bool" where
  "wf_jail j \<longleftrightarrow>
     (\<forall>access. roots j access =
        (case allowlist_for j access of None \<Rightarrow> [root j] | Some l \<Rightarrow> roots_with (root j) l))"

lemma wf_jail_iff:
  "wf_jail j \<longleftrightarrow>
     read_roots j = (case allow_read j of None \<Rightarrow> [root j] | Some l \<Rightarrow> roots_with (root j) l) \<and>
     write_roots j = (case allow_write j of None \<Rightarrow> [root j] | Some l \<Rightarrow> roots_with (root j) l)"
proof
  assume "wf_jail j"
  then have "\<And>a. roots j a =
      (case allowlist_for j a of None \<Rightarrow> [root j] | Some l \<Rightarrow> roots_with (root j) l)"
    by (simp add: wf_jail_def)
  from this [of Read] this [of Write] show
    "read_roots j = (case allow_read j of None \<Rightarrow> [root j] | Some l \<Rightarrow> roots_with (root j) l) \<and>
     write_roots j = (case allow_write j of None \<Rightarrow> [root j] | Some l \<Rightarrow> roots_with (root j) l)"
    by simp
next
  assume eqs: "read_roots j = (case allow_read j of None \<Rightarrow> [root j] | Some l \<Rightarrow> roots_with (root j) l) \<and>
     write_roots j = (case allow_write j of None \<Rightarrow> [root j] | Some l \<Rightarrow> roots_with (root j) l)"
  have "roots j a = (case allowlist_for j a of None \<Rightarrow> [root j] | Some l \<Rightarrow> roots_with (root j) l)" for a
    using eqs by (cases a) simp_all
  then show "wf_jail j" by (simp add: wf_jail_def)
qed

lemma wf_new_jail: "wf_jail (new_jail canonicalize b r)"
  by (simp add: wf_jail_iff new_jail_def Let_def)

lemma wf_with_read: "wf_jail j \<Longrightarrow> wf_jail (with_read_allowlist l j)"
  by (simp add: wf_jail_iff with_read_allowlist_def split: option.splits)

lemma wf_with_write: "wf_jail j \<Longrightarrow> wf_jail (with_write_allowlist l j)"
  by (simp add: wf_jail_iff with_write_allowlist_def split: option.splits)

type_synonym file_system = "(path \<Rightarrow> path option) \<times> (path \<Rightarrow> bool option)"

text \<open>
  A door resolves what the program wrote; whatever it answers lies under one of the jail's
  roots and inside the scope list of the access. A door for changes never answers a root.
\<close>

locale door =
  fixes resolve :: "file_system \<Rightarrow> jail \<Rightarrow> string \<Rightarrow> access \<Rightarrow> jail_error + path"
  assumes under_a_root: "resolve fs j p a = Inr real \<Longrightarrow> \<exists>r\<in>set (roots j a). within_root real r"
    and in_scope: "resolve fs j p a = Inr real \<Longrightarrow> allowlist_for j a = Some l \<Longrightarrow> permits_real l real"
begin

lemma confined:
  assumes "wf_jail j" and "resolve fs j p a = Inr real"
  shows "(case allowlist_for j a of
      None \<Rightarrow> within_root real (root j)
    | Some l \<Rightarrow> (\<exists>e\<in>set (subtrees l). starts_with real e \<and>
        (within_root real (root j) \<or> \<not> starts_with e (root j))))"
proof (cases "allowlist_for j a")
  case None
  with assms(1) under_a_root [OF assms(2)] show ?thesis by (simp add: wf_jail_def)
next
  case (Some l)
  with in_scope [OF assms(2)] obtain e where "e \<in> set (subtrees l)" "starts_with real e"
    by (auto simp: permits_real_def list_ex_iff)
  with Some show ?thesis
    by (auto simp: within_root_def intro: starts_with_trans)
qed

end

locale mutation_door = door +
  assumes never_a_root: "resolve fs j p Write = Inr real \<Longrightarrow> real \<notin> set (roots j Write)"
begin

lemma root_survives: "wf_jail j \<Longrightarrow> resolve fs j p Write = Inr real \<Longrightarrow> real \<noteq> root j"
  using never_a_root [of fs j p real]
  by (auto simp: wf_jail_iff roots_with_def split: option.splits)

end

lemma admit_Inr:
  "admit canonicalize j p a = Inr out \<longleftrightarrow>
     confine canonicalize p (roots j a) = Inr out \<and> \<not> (a = Write \<and> out \<in> set (roots j a)) \<and>
     (\<forall>l. allowlist_for j a = Some l \<longrightarrow> permits_real l out)"
  by (auto simp: admit_def result_simps scoped_Inr reject_root_Inr)

lemma jailed_Inr:
  "jailed canonicalize metadata j p a = Inr out \<longleftrightarrow>
     p \<noteq> [] \<and> admit canonicalize j (absolute_in j (components p)) a = Inr out \<and>
     \<not> (has_trailing_separator p \<and> metadata out = Some False)"
  by (auto simp: jailed_def jailed_as_def reject_empty_def result_simps reject_trailing_Inr)

lemma resolve_nofollow_Inr:
  assumes "resolve_nofollow canonicalize j name up a = Inr out"
  shows "(\<exists>r\<in>set (roots j a). within_root out r) \<and> \<not> (a = Write \<and> out \<in> set (roots j a)) \<and>
     (\<forall>l. allowlist_for j a = Some l \<longrightarrow> permits_real l out)"
proof -
  from assms obtain par where par: "confine canonicalize up (roots j a) = Inr par"
    and out: "out = par @ [Normal name]" "\<not> (a = Write \<and> out \<in> set (roots j a))"
    "\<forall>l. allowlist_for j a = Some l \<longrightarrow> permits_real l out"
    by (auto simp: resolve_nofollow_def result_simps scoped_Inr reject_root_Inr join_def simp del: roots.simps)
  from confine_sound [OF par] obtain r where "r \<in> set (roots j a)" "within_root par r" by blast
  with out(1) have "\<exists>r\<in>set (roots j a). within_root out r"
    unfolding within_root_def by (blast intro: starts_with_extend)
  with out show ?thesis by blast
qed

lemma admit_under:
  assumes "admit canonicalize j p a = Inr out"
  shows "(\<exists>r\<in>set (roots j a). within_root out r) \<and> \<not> (a = Write \<and> out \<in> set (roots j a)) \<and>
     (\<forall>l. allowlist_for j a = Some l \<longrightarrow> permits_real l out)"
  using assms confine_sound [of canonicalize p "roots j a" out] unfolding admit_Inr by blast

lemma nofollow_Inr:
  assumes "jailed_nofollow_as canonicalize metadata j p p a = Inr out"
  shows "(\<exists>r\<in>set (roots j a). within_root out r) \<and> \<not> (a = Write \<and> out \<in> set (roots j a)) \<and>
     (\<forall>l. allowlist_for j a = Some l \<longrightarrow> permits_real l out)"
proof -
  let ?abs = "absolute_in j (components p)"
  have "p \<noteq> []" using assms by (auto simp: jailed_nofollow_as_def reject_empty_def)
  show ?thesis
  proof (cases "root_itself canonicalize j ?abs a")
    case (Some real)
    with assms \<open>p \<noteq> []\<close> have "reject_root_mutation real (roots j a) a = Inr real" "scoped j real a = Inr out"
      by (auto simp: jailed_nofollow_as_def reject_empty_def result_simps reject_root_Inr)
    moreover have "real \<in> set (roots j a)"
      using Some by (auto simp: root_itself_def split: option.splits if_splits)
    ultimately show ?thesis unfolding scoped_Inr reject_root_Inr within_root_def
      using starts_with_refl by blast
  next
    case None
    show ?thesis
    proof (cases "\<exists>up name. parent ?abs = Some up \<and> file_name ?abs = Some name")
      case True
      with assms \<open>p \<noteq> []\<close> None obtain up name where "resolve_nofollow canonicalize j name up a = Inr out"
        by (auto simp: jailed_nofollow_as_def reject_empty_def result_simps simp del: parent.simps)
      then show ?thesis by (rule resolve_nofollow_Inr)
    next
      case False
      with assms \<open>p \<noteq> []\<close> None have "admit canonicalize j ?abs a = Inr out"
        by (auto simp: jailed_nofollow_as_def reject_empty_def Let_def simp del: parent.simps split: option.splits)
      then show ?thesis by (rule admit_under)
    qed
  qed
qed

interpretation following: mutation_door
  "\<lambda>(canonicalize, metadata) j p a. jailed canonicalize metadata j p a"
  by unfold_locales (use confine_sound in \<open>force simp: jailed_Inr admit_Inr\<close>)+

interpretation nofollow: mutation_door
  "\<lambda>(canonicalize, metadata) j p a. jailed_nofollow_as canonicalize metadata j p p a"
  by unfold_locales (force dest: nofollow_Inr)+

lemma temp_base_Inr:
  "temp_base canonicalize metadata j dir a = Inr out \<Longrightarrow>
     (\<exists>r\<in>set (roots j a). within_root out r) \<and>
     (\<forall>l. allowlist_for j a = Some l \<longrightarrow> permits_real l out)"
  using following.under_a_root [of "(canonicalize, metadata)" j dir a out]
    following.in_scope [of "(canonicalize, metadata)" j dir a out] confine_sound
  by (force simp: temp_base_def result_simps scoped_Inr split: if_splits)

interpretation temporary: door
  "\<lambda>(canonicalize, metadata) j dir a. temp_base canonicalize metadata j dir a"
  by unfold_locales (force dest: temp_base_Inr)+

lemma join_Normal: "join p [Normal n] = p @ [Normal n]"
  by (simp add: join_def is_absolute_def)

lemma open_tree_Inr:
  assumes "open_tree canonicalize j p a = Inr out"
  shows "(\<exists>r\<in>set (roots j a). within_root out r) \<and>
     (\<forall>l. allowlist_for j a = Some l \<longrightarrow> permits_real l out)"
proof -
  let ?full = "absolute_in j (components p)"
  define found where "found = (case root_itself canonicalize j ?full a of
               Some real \<Rightarrow> Inr real
             | None \<Rightarrow>
                 (case (parent ?full, file_name ?full) of
                    (Some up, Some name) \<Rightarrow>
                      res_bind (confine canonicalize up (roots j a)) (\<lambda>par. Inr (join par [Normal name]))
                  | _ \<Rightarrow> confine canonicalize ?full (roots j a)))"
  from assms have "found = Inr out" and list: "\<forall>l. allowlist_for j a = Some l \<longrightarrow> permits_real l out"
    by (auto simp: open_tree_def found_def reject_empty_def result_simps scoped_Inr Let_def
        simp del: parent.simps split: if_splits)
  have "\<exists>r\<in>set (roots j a). within_root out r"
  proof (cases "root_itself canonicalize j ?full a")
    case (Some real)
    with \<open>found = Inr out\<close> have "out \<in> set (roots j a)"
      by (auto simp: found_def root_itself_def split: option.splits if_splits)
    then show ?thesis unfolding within_root_def using starts_with_refl by blast
  next
    case None
    with \<open>found = Inr out\<close> consider "confine canonicalize ?full (roots j a) = Inr out"
      | up par name where "confine canonicalize up (roots j a) = Inr par" "out = join par [Normal name]"
      by (auto simp: found_def result_simps simp del: parent.simps split: option.splits)
    then show ?thesis
    proof cases
      case 1
      then show ?thesis using confine_sound by blast
    next
      case (2 up par name)
      from confine_sound [OF this(1)] obtain r where "r \<in> set (roots j a)" "starts_with par r"
        by (auto simp: within_root_def)
      with 2(2) show ?thesis unfolding within_root_def join_Normal by (blast intro: starts_with_extend)
    qed
  qed
  with list show ?thesis by blast
qed

interpretation pinned: door
  "\<lambda>(canonicalize, metadata) j dir a. open_tree canonicalize j dir a"
  by unfold_locales (force dest: open_tree_Inr)+

text \<open>
  C3: nothing resolves outside the jail. For every door onto the file system (following links,
  not following the last one, the directory of a temporary file, a tree to be pinned), whatever
  the program writes and whatever links the file system holds, an answer without a scope list
  lies under the project root; with one it lies under an entry of the list, and outside the root
  only under an entry that is itself outside it, so a grant inside the root never leads out of
  it. A resolved path that is to be changed is never the root itself.
\<close>

theorem jail_confines:
  assumes "wf_jail j"
    and "jailed canonicalize metadata j p a = Inr real \<or>
      jailed_nofollow_as canonicalize metadata j p p a = Inr real \<or>
      temp_base canonicalize metadata j p a = Inr real \<or> open_tree canonicalize j p a = Inr real"
  shows "(case allowlist_for j a of
      None \<Rightarrow> within_root real (root j)
    | Some l \<Rightarrow> (\<exists>e\<in>set (subtrees l). starts_with real e \<and>
        (within_root real (root j) \<or> \<not> starts_with e (root j)))) \<and>
    (a = Write \<and> (jailed canonicalize metadata j p a = Inr real \<or>
      jailed_nofollow_as canonicalize metadata j p p a = Inr real) \<longrightarrow> real \<noteq> root j)"
  using assms following.confined [of j "(canonicalize, metadata)" p a real]
    nofollow.confined [of j "(canonicalize, metadata)" p a real]
    temporary.confined [of j "(canonicalize, metadata)" p a real]
    pinned.confined [of j "(canonicalize, metadata)" p a real]
    following.root_survives [of j "(canonicalize, metadata)" p real]
    nofollow.root_survives [of j "(canonicalize, metadata)" p real]
  by auto

theorem jail_confines_witness:
  "within_root [RootDir, Normal ''srv'', Normal ''data'', Normal ''new''] [RootDir, Normal ''srv'']"
proof -
  let ?srv = "[RootDir, Normal ''srv'']"
  let ?link = "\<lambda>p. if p = ?srv @ [Normal ''link''] then Some (?srv @ [Normal ''data''])
      else if length p \<le> 2 then Some p else None"
  let ?j = "new_jail ?link ?srv ?srv"
  have j: "?j = \<lparr>base = ?srv, root = ?srv, allow_read = None, allow_write = None,
      read_roots = [?srv], write_roots = [?srv]\<rparr>"
    by (simp add: new_jail_def canonical_or_def Let_def)
  have "jailed ?link (\<lambda>_. None) ?j ''link/new'' Write = Inr (?srv @ [Normal ''data'', Normal ''new''])"
    unfolding jailed_Inr j
    by (simp add: components_def absolute_in_def is_absolute_def join_def admit_Inr confine_def
        confine_loop.simps file_name_def confine_found_Inr within_root_def starts_with_def
        has_trailing_separator_def)
  with jail_confines [where j = ?j and canonicalize = ?link and metadata = "\<lambda>_. None"
      and p = "''link/new''" and a = Write and real = "?srv @ [Normal ''data'', Normal ''new'']"]
    wf_new_jail [of ?link ?srv ?srv] j
  show ?thesis by simp
qed

text \<open>
  C4: what a door answers for a path that exists, on every branch and in this order: an escape
  when the real path is under no root, the refusal to touch a root, the scope list, the trailing
  separator on a file, and otherwise the real path itself. The refusal carries only the spelling
  of the program, and its code depends on the branch alone.
\<close>

theorem jailed_existing:
  assumes "p \<noteq> []" and "canonicalize (absolute_in j (components p)) = Some real"
  shows "jailed canonicalize metadata j p a =
    (if \<not> (\<exists>r\<in>set (roots j a). within_root real r)
       then Inl (named (spelled j p) (Escape (length (roots j a) > 1)))
     else if a = Write \<and> real \<in> set (roots j a) then Inl (RefusingRoot (spelled j p))
     else if \<exists>l. allowlist_for j a = Some l \<and> \<not> permits_real l real
       then Inl (NotAllowedPath (spelled j p) a)
     else if has_trailing_separator p \<and> metadata real = Some False then Inl (TrailingSeparator p)
     else Inr real)"
proof -
  have f: "confine canonicalize (absolute_in j (components p)) (roots j a) =
      (if \<exists>r\<in>set (roots j a). within_root real r then Inr real else Inl (Escape (length (roots j a) > 1)))"
  proof (cases "\<exists>r\<in>set (roots j a). within_root real r")
    case True
    then have "confine_found (roots j a) real [] = Inr real" by (simp add: confine_found_Inr)
    with True assms(2) show ?thesis by (simp add: confine_existing)
  next
    case False
    then have "find (within_root real) (roots j a) = None" by (auto simp: find_None_iff)
    then have "confine_found (roots j a) real [] = Inl (Escape (length (roots j a) > 1))"
      by (simp add: confine_found_def escape_def)
    with False assms(2) show ?thesis by (simp add: confine_existing)
  qed
  have trailing: "reject_trailing_slash_on_a_file metadata p real =
      (if has_trailing_separator p \<and> metadata real = Some False then Inl (TrailingSeparator p) else Inr ())"
    by (simp add: reject_trailing_slash_on_a_file_def split: option.split)
  show ?thesis
    using assms(1)
    by (auto simp: jailed_def jailed_as_def reject_empty_def admit_def f reject_root_mutation_def
        scoped_def check_real_def trailing simp del: roots.simps split: option.split)
qed

theorem jailed_existing_witness:
  "jailed Some (\<lambda>_. Some False) (new_jail Some [RootDir, Normal ''srv''] [RootDir, Normal ''srv''])
     ''/etc/passwd'' Read = Inl (EscapesRoot (AsWritten ''/etc/passwd''))"
proof -
  let ?srv = "[RootDir, Normal ''srv'']"
  let ?j = "new_jail Some ?srv ?srv"
  have j: "?j = \<lparr>base = ?srv, root = ?srv, allow_read = None, allow_write = None,
      read_roots = [?srv], write_roots = [?srv]\<rparr>"
    by (simp add: new_jail_def canonical_or_def Let_def)
  have abs: "absolute_in ?j (components ''/etc/passwd'') = [RootDir, Normal ''etc'', Normal ''passwd'']"
    by (simp add: components_def absolute_in_def is_absolute_def)
  have "spelled ?j ''/etc/passwd'' = AsWritten ''/etc/passwd''"
    by (simp add: spelled_def components_def is_absolute_def)
  with jailed_existing [of "''/etc/passwd''" Some ?j _ "\<lambda>_. Some False" Read, unfolded abs] show ?thesis
    unfolding j by (simp add: within_root_def starts_with_def)
qed

lemma doors_depend:
  assumes "roots j a = roots k a" "allowlist_for j a = allowlist_for k a" "base j = base k" "root j = root k"
  shows "jailed canonicalize metadata j p a = jailed canonicalize metadata k p a"
    and "jailed_nofollow_as canonicalize metadata j p shown a = jailed_nofollow_as canonicalize metadata k p shown a"
    and "open_tree canonicalize j p a = open_tree canonicalize k p a"
    and "temp_base canonicalize metadata j p a = temp_base canonicalize metadata k p a"
proof -
  have s: "spelled j = spelled k" unfolding spelled_def assms(3,4) by (rule refl)
  have ab: "absolute_in j = absolute_in k" by (rule ext) (simp add: absolute_in_def assms)
  have sc: "scoped j real a = scoped k real a" for real by (simp add: scoped_def assms)
  have ad: "admit canonicalize j q a = admit canonicalize k q a" for q by (simp add: admit_def assms sc)
  have ri: "root_itself canonicalize j q a = root_itself canonicalize k q a" for q
    unfolding root_itself_def assms(1) by (rule refl)
  have rn: "resolve_nofollow canonicalize j n up a = resolve_nofollow canonicalize k n up a" for n up
    by (simp add: resolve_nofollow_def assms sc)
  show jd: "jailed canonicalize metadata j p a = jailed canonicalize metadata k p a"
    unfolding jailed_def jailed_as_def s ab ad by (rule refl)
  show "jailed_nofollow_as canonicalize metadata j p shown a = jailed_nofollow_as canonicalize metadata k p shown a"
    unfolding jailed_nofollow_as_def s ab ad ri rn sc assms(1) by (rule refl)
  show "open_tree canonicalize j p a = open_tree canonicalize k p a"
    unfolding open_tree_def s ab ri sc assms(1) by (rule refl)
  show "temp_base canonicalize metadata j p a = temp_base canonicalize metadata k p a"
    unfolding temp_base_def jd sc assms(1,3) by (rule refl)
qed

text \<open>
  The two grants are independent. A read list changes no answer to a write, through any
  door, and a write list none to a read: naming \<open>/etc/certs\<close> readable never makes it writable.
\<close>

theorem grants_independent:
  "jailed canonicalize metadata (with_read_allowlist l j) p Write = jailed canonicalize metadata j p Write \<and>
   jailed_nofollow_as canonicalize metadata (with_read_allowlist l j) p shown Write
     = jailed_nofollow_as canonicalize metadata j p shown Write \<and>
   open_tree canonicalize (with_read_allowlist l j) p Write = open_tree canonicalize j p Write \<and>
   temp_base canonicalize metadata (with_read_allowlist l j) p Write = temp_base canonicalize metadata j p Write \<and>
   jailed canonicalize metadata (with_write_allowlist l j) p Read = jailed canonicalize metadata j p Read \<and>
   temp_base canonicalize metadata (with_write_allowlist l j) p Read = temp_base canonicalize metadata j p Read"
  by (intro conjI; rule doors_depend; simp add: with_read_allowlist_def with_write_allowlist_def)

end
