(* ===== verification/Timers.thy ===== *)
theory Timers
  imports Prelude "HOL-Library.Multiset" "HOL-Library.Sublist" "HOL-Library.Product_Lexorder" Complex_Main
begin

text \<open>
  Timers: the schedule of \<open>crates/runtime/src/timer.rs\<close>, the engine's table of them
  (\<open>crates/engine/src/op.rs\<close>: \<open>timer_set\<close>, \<open>timer_clear\<close>, \<open>timer_ref\<close>, \<open>fire_timer\<close>) and the part of
  \<open>Runtime::tick\<close> (\<open>crates/runtime/src/lib.rs\<close>) that drives them. The guest's code is a
  parameter: what timer calls a callback, the microtasks of a turn and the listeners at its end make,
  given the table they find. Deadlines are 64-bit and
  saturate; ids are naturals, since the counter behind them would have to hand out \<open>2 ^ 64\<close> to
  wrap.
\<close>

section \<open>A min-heap\<close>

text \<open>What the standard library's heap promises of \<open>push\<close>, \<open>peek\<close> and \<open>pop\<close>.\<close>

locale min_heap =
  fixes key :: "'a \<Rightarrow> 'k::linorder"
    and wf :: "'h \<Rightarrow> bool"
    and elems :: "'h \<Rightarrow> 'a multiset"
    and push :: "'a \<Rightarrow> 'h \<Rightarrow> 'h"
    and peek :: "'h \<Rightarrow> 'a option"
    and pop_min :: "'h \<Rightarrow> 'h"
  assumes wf_push: "wf h \<Longrightarrow> wf (push x h)"
    and elems_push: "elems (push x h) = add_mset x (elems h)"
    and peek_None: "wf h \<Longrightarrow> peek h = None \<longleftrightarrow> elems h = {#}"
    and peek_Some: "wf h \<Longrightarrow> peek h = Some x \<Longrightarrow> x \<in># elems h \<and> (\<forall>y\<in>#elems h. key x \<le> key y)"
    and wf_pop: "wf h \<Longrightarrow> wf (pop_min h)"
    and elems_pop: "wf h \<Longrightarrow> peek h = Some x \<Longrightarrow> elems h = add_mset x (elems (pop_min h))"
begin

text \<open>Popping while the front satisfies \<open>P\<close>: the popped elements and what is left.\<close>

inductive popped :: "('a \<Rightarrow> bool) \<Rightarrow> 'h \<Rightarrow> 'a list \<Rightarrow> 'h \<Rightarrow> bool" for P where
  stop: "(\<forall>x. peek h = Some x \<longrightarrow> \<not> P x) \<Longrightarrow> popped P h [] h"
| more: "peek h = Some x \<Longrightarrow> P x \<Longrightarrow> popped P (pop_min h) xs h' \<Longrightarrow> popped P h (x # xs) h'"

lemma popped_spec:
  assumes "popped P h xs h'" and "wf h"
  shows "wf h' \<and> elems h = mset xs + elems h' \<and> sorted (map key xs) \<and>
    (\<forall>x\<in>set xs. P x \<and> (\<forall>y\<in>#elems h'. key x \<le> key y)) \<and> (\<forall>x. peek h' = Some x \<longrightarrow> \<not> P x)"
  using assms
proof (induction rule: popped.induct)
  case (more h x xs h')
  note el = elems_pop [OF more.prems more.hyps(1)]
  from more.IH [OF wf_pop [OF more.prems]] have ih: "wf h'"
    "elems (pop_min h) = mset xs + elems h'" "sorted (map key xs)"
    "\<forall>x\<in>set xs. P x \<and> (\<forall>y\<in>#elems h'. key x \<le> key y)" "\<forall>x. peek h' = Some x \<longrightarrow> \<not> P x"
    by blast+
  from peek_Some [OF more.prems more.hyps(1)] have "\<forall>y\<in>#elems h. key x \<le> key y" by blast
  then have "\<forall>y\<in>set xs. key x \<le> key y" "\<forall>y\<in>#elems h'. key x \<le> key y"
    by (auto simp: el ih(2))
  with ih more.hyps(2) show ?case by (simp add: el)
qed simp

lemma popped_all:
  assumes "popped P h xs h'" and "wf h" and up: "\<And>x y. P y \<Longrightarrow> key x \<le> key y \<Longrightarrow> P x"
  shows "mset xs = filter_mset P (elems h) \<and> elems h' = filter_mset (\<lambda>x. \<not> P x) (elems h)"
proof -
  from popped_spec [OF assms(1,2)] have wf': "wf h'" and el: "elems h = mset xs + elems h'"
    and xs: "\<forall>x\<in>set xs. P x" and stop: "\<forall>x. peek h' = Some x \<longrightarrow> \<not> P x" by blast+
  have rest: "\<forall>y\<in>#elems h'. \<not> P y"
  proof (cases "peek h'")
    case None
    with peek_None [OF wf'] show ?thesis by simp
  next
    case (Some x)
    with stop peek_Some [OF wf' Some] up show ?thesis by blast
  qed
  have "filter_mset P (mset xs) = mset xs" "filter_mset P (elems h') = {#}"
    "filter_mset (\<lambda>x. \<not> P x) (mset xs) = {#}" "filter_mset (\<lambda>x. \<not> P x) (elems h') = elems h'"
    using xs rest by (auto simp: filter_mset_eq_conv)
  then show ?thesis by (simp add: el)
qed

end

section \<open>The schedule\<close>

type_synonym timer_id = nat

record scheduled =
  deadline_ms :: u64
  sched_id :: timer_id
  interval_ms :: u64
  sched_repeat :: bool

text \<open>\<open>Ord for Scheduled\<close>: by deadline, then id.\<close>

definition sched_key :: "scheduled \<Rightarrow> u64 \<times> timer_id" where
  "sched_key s = (deadline_ms s, sched_id s)"

type_synonym timer_queue = "scheduled list"

fun heap_peek :: "timer_queue \<Rightarrow> scheduled option" where
  "heap_peek [] = None"
| "heap_peek (s # _) = Some s"

definition heap_push :: "scheduled \<Rightarrow> timer_queue \<Rightarrow> timer_queue" where
  "heap_push = insort_key sched_key"

definition heap_pop :: "timer_queue \<Rightarrow> timer_queue" where
  "heap_pop h = tl h"

definition wf_queue :: "timer_queue \<Rightarrow> bool" where
  "wf_queue h \<longleftrightarrow> sorted (map sched_key h)"

interpretation schedule: min_heap sched_key wf_queue mset heap_push heap_peek heap_pop
proof
  fix h :: timer_queue and x
  show "wf_queue h \<Longrightarrow> wf_queue (heap_push x h)"
    by (simp add: wf_queue_def heap_push_def sorted_insort_key)
  show "mset (heap_push x h) = add_mset x (mset h)" by (simp add: heap_push_def)
  show "heap_peek h = None \<longleftrightarrow> mset h = {#}" by (cases h) simp_all
  show "wf_queue (heap_pop h)" if "wf_queue h"
    using that by (cases h) (simp_all add: wf_queue_def heap_pop_def)
  assume "wf_queue h" "heap_peek h = Some x"
  then show "x \<in># mset h \<and> (\<forall>y\<in>#mset h. sched_key x \<le> sched_key y)"
    and "mset h = add_mset x (mset (heap_pop h))"
    by (cases h; auto simp: wf_queue_def heap_pop_def)+
qed

definition schedule_timer :: "timer_id \<Rightarrow> u64 \<Rightarrow> u64 \<Rightarrow> bool \<Rightarrow> timer_queue \<Rightarrow> timer_queue" where
  "schedule_timer i now_ms delay rep q =
     heap_push \<lparr>deadline_ms = saturating_add64 now_ms delay, sched_id = i,
                interval_ms = delay, sched_repeat = rep\<rparr> q"

record due_timer =
  due_id :: timer_id
  due_interval :: u64
  due_repeat :: bool

definition due_of :: "scheduled \<Rightarrow> due_timer" where
  "due_of s = \<lparr>due_id = sched_id s, due_interval = interval_ms s, due_repeat = sched_repeat s\<rparr>"

function take_due :: "u64 \<Rightarrow> timer_queue \<Rightarrow> due_timer list \<times> timer_queue" where
  "take_due now_ms q =
     (case heap_peek q of
        None \<Rightarrow> ([], q)
      | Some front \<Rightarrow>
          if deadline_ms front > now_ms then ([], q)
          else (let (due, q') = take_due now_ms (heap_pop q) in (due_of front # due, q')))"
  by pat_completeness auto
termination
  by (relation "measure (\<lambda>(_, q). length q)") (auto simp: heap_pop_def neq_Nil_conv elim: heap_peek.elims)

function prune_cleared :: "(timer_id \<Rightarrow> bool) \<Rightarrow> timer_queue \<Rightarrow> timer_queue" where
  "prune_cleared active q =
     (case heap_peek q of
        None \<Rightarrow> q
      | Some front \<Rightarrow> if active (sched_id front) then q else prune_cleared active (heap_pop q))"
  by pat_completeness auto
termination
  by (relation "measure (\<lambda>(_, q). length q)") (auto simp: heap_pop_def neq_Nil_conv elim: heap_peek.elims)

declare take_due.simps [simp del] prune_cleared.simps [simp del]

definition next_deadline_ms :: "timer_queue \<Rightarrow> u64 option" where
  "next_deadline_ms q = map_option deadline_ms (heap_peek q)"

lemma take_due_popped:
  "take_due now q = (due, q') \<Longrightarrow>
     \<exists>ss. schedule.popped (\<lambda>s. deadline_ms s \<le> now) q ss q' \<and> due = map due_of ss"
proof (induction now q arbitrary: due q' rule: take_due.induct)
  case (1 now q)
  show ?case
  proof (cases "heap_peek q")
    case None
    with "1.prems" have "due = [] \<and> q' = q" by (subst (asm) take_due.simps) simp
    with None show ?thesis by (intro exI [of _ "[]"]) (auto intro: schedule.popped.stop)
  next
    case (Some front)
    show ?thesis
    proof (cases "deadline_ms front > now")
      case True
      with Some "1.prems" have "due = [] \<and> q' = q" by (subst (asm) take_due.simps) simp
      with Some True show ?thesis by (intro exI [of _ "[]"]) (auto intro: schedule.popped.stop)
    next
      case False
      obtain due' q'' where td: "take_due now (heap_pop q) = (due', q'')" by fastforce
      with Some False "1.prems" have eq: "due = due_of front # due'" "q' = q''"
        by (subst (asm) (2) take_due.simps, simp)+
      from "1.IH" [OF Some False td] obtain ss where
        "schedule.popped (\<lambda>s. deadline_ms s \<le> now) (heap_pop q) ss q''" "due' = map due_of ss" by blast
      with Some False eq show ?thesis
        by (intro exI [of _ "front # ss"]) (auto intro: schedule.popped.more)
    qed
  qed
qed

lemma prune_popped:
  "\<exists>ss. schedule.popped (\<lambda>s. \<not> active (sched_id s)) q ss (prune_cleared active q)"
proof (induction active q rule: prune_cleared.induct)
  case (1 active q)
  show ?case
  proof (cases "heap_peek q")
    case None
    then show ?thesis
      by (subst prune_cleared.simps) (auto intro!: exI [of _ "[]"] schedule.popped.stop)
  next
    case (Some front)
    show ?thesis
    proof (cases "active (sched_id front)")
      case True
      with Some show ?thesis
        by (subst prune_cleared.simps) (auto intro!: exI [of _ "[]"] schedule.popped.stop)
    next
      case False
      with Some "1.IH" show ?thesis
        by (subst prune_cleared.simps) (auto intro: schedule.popped.more)
    qed
  qed
qed

section \<open>The engine's table\<close>

text \<open>A number the guest passes, read as JavaScript reads one.\<close>

datatype js_number = NotANumber | Infinite bool | Finite rat

definition delay_of :: "js_number \<Rightarrow> u64" where
  "delay_of delay =
     (case delay of
        Finite r \<Rightarrow> if r \<le> 0 then 0 else if r > 2147483647 then 1 else word_of_nat (nat \<lfloor>r\<rfloor>)
      | _ \<Rightarrow> 0)"

text \<open>\<open>id as TimerId\<close>: the cast truncates and saturates.\<close>

fun as_timer_id :: "js_number \<Rightarrow> timer_id" where
  "as_timer_id NotANumber = 0"
| "as_timer_id (Infinite positive) = (if positive then 2 ^ 64 - 1 else 0)"
| "as_timer_id (Finite r) = min (nat \<lfloor>r\<rfloor>) (2 ^ 64 - 1)"

record 'c timer_entry =
  te_callback :: 'c
  te_repeat :: bool
  te_delay :: u64
  te_referenced :: bool

record 'c timer_table =
  timers :: "timer_id \<rightharpoonup> 'c timer_entry"
  new_timers :: "(timer_id \<times> u64 \<times> bool) list"
  next_timer_id :: timer_id

definition new_table :: "'c timer_table" where
  "new_table = \<lparr>timers = Map.empty, new_timers = [], next_timer_id = 1\<rparr>"

definition timer_set :: "'c \<Rightarrow> js_number \<Rightarrow> bool \<Rightarrow> 'c timer_table \<Rightarrow> 'c timer_table" where
  "timer_set callback delay rep t =
     (let i = next_timer_id t; d = delay_of delay
      in t\<lparr>next_timer_id := i + 1,
           timers := (timers t)(i \<mapsto> \<lparr>te_callback = callback, te_repeat = rep, te_delay = d,
                                       te_referenced = True\<rparr>),
           new_timers := new_timers t @ [(i, d, rep)]\<rparr>)"

definition timer_clear :: "js_number \<Rightarrow> 'c timer_table \<Rightarrow> 'c timer_table" where
  "timer_clear n t =
     (case n of
        Finite r \<Rightarrow> if r < 0 then t else t\<lparr>timers := (timers t)(as_timer_id n := None)\<rparr>
      | _ \<Rightarrow> t)"

definition timer_ref :: "js_number \<Rightarrow> bool \<Rightarrow> 'c timer_table \<Rightarrow> bool \<times> 'c timer_table" where
  "timer_ref n referenced t =
     (case timers t (as_timer_id n) of
        Some e \<Rightarrow> (True, t\<lparr>timers := (timers t)(as_timer_id n \<mapsto> e\<lparr>te_referenced := referenced\<rparr>)\<rparr>)
      | None \<Rightarrow> (False, t))"

definition timer_is_active :: "'c timer_table \<Rightarrow> timer_id \<Rightarrow> bool" where
  "timer_is_active t i \<longleftrightarrow> timers t i \<noteq> None"

definition take_new_timers :: "'c timer_table \<Rightarrow> (timer_id \<times> u64 \<times> bool) list \<times> 'c timer_table" where
  "take_new_timers t = (new_timers t, t\<lparr>new_timers := []\<rparr>)"

text \<open>The calls guest code makes on its timers, and what a callback makes of them.\<close>

datatype 'c guest_call = SetTimer 'c js_number bool | ClearTimer js_number | RefTimer js_number bool

fun guest_step :: "'c guest_call \<Rightarrow> 'c timer_table \<Rightarrow> 'c timer_table" where
  "guest_step (SetTimer c d r) t = timer_set c d r t"
| "guest_step (ClearTimer n) t = timer_clear n t"
| "guest_step (RefTimer n b) t = snd (timer_ref n b t)"

type_synonym 'c script = "'c \<Rightarrow> 'c timer_table \<Rightarrow> 'c guest_call list"

definition fire_timer :: "'c script \<Rightarrow> timer_id \<Rightarrow> 'c timer_table \<Rightarrow> bool \<times> 'c timer_table" where
  "fire_timer script i t =
     (case timers t i of
        None \<Rightarrow> (False, t)
      | Some e \<Rightarrow>
          (let t' = (if te_repeat e then t else t\<lparr>timers := (timers t)(i := None)\<rparr>)
           in (True, fold guest_step (script (te_callback e) t') t')))"

section \<open>A turn of the loop\<close>

definition drain_new_timers :: "u64 \<Rightarrow> 'c timer_table \<times> timer_queue \<Rightarrow> 'c timer_table \<times> timer_queue" where
  "drain_new_timers now_ms tq =
     (let (fresh, t) = take_new_timers (fst tq);
          q = fold (\<lambda>(i, delay, rep). schedule_timer i now_ms delay rep) fresh (snd tq)
      in (t, prune_cleared (timer_is_active t) q))"

fun fire_all ::
  "'c script \<Rightarrow> u64 \<Rightarrow> due_timer list \<Rightarrow> 'c timer_table \<times> timer_queue
     \<Rightarrow> timer_id list \<times> 'c timer_table \<times> timer_queue" where
  "fire_all script now_ms [] tq = ([], tq)"
| "fire_all script now_ms (d # ds) (t, q) =
     (let (fired, t') = fire_timer script (due_id d) t;
          q' = (if fired \<and> due_repeat d \<and> timer_is_active t' (due_id d)
                then schedule_timer (due_id d) now_ms (due_interval d) True q else q);
          (ids, tq') = fire_all script now_ms ds (t', q')
      in (if fired then due_id d # ids else ids, tq'))"

text \<open>
  \<open>Runtime::tick\<close>, as far as timers go; \<open>settle\<close> is what the async ops and microtasks of the turn
  run, \<open>listeners\<close> what the guest's listeners do to whom the turn's failures and diagnostics are
  handed at its end, when nothing is drained any more. The status reports \<open>next_deadline_ms\<close> of the
  schedule and \<open>has_referenced_timers\<close> of the table.
\<close>

type_synonym 'c reaction = "'c timer_table \<Rightarrow> 'c guest_call list"

definition tick ::
  "'c script \<Rightarrow> 'c reaction \<Rightarrow> 'c reaction \<Rightarrow> u64 \<Rightarrow> 'c timer_table \<times> timer_queue
     \<Rightarrow> timer_id list \<times> 'c timer_table \<times> timer_queue" where
  "tick script settle listeners now_ms tq =
     (let (t, q) = drain_new_timers now_ms tq;
          (due, q) = take_due now_ms q;
          (fired, tq) = fire_all script now_ms due (t, q);
          (t, q) = drain_new_timers now_ms tq;
          t = fold guest_step (settle t) t;
          (t, q) = drain_new_timers now_ms (t, q);
          t = fold guest_step (listeners t) t
      in (fired, t, q))"

definition has_referenced_timers :: "'c timer_table \<Rightarrow> bool" where
  "has_referenced_timers t \<longleftrightarrow> (\<exists>e \<in> ran (timers t). te_referenced e)"

section \<open>The invariant\<close>

text \<open>
  What is to come, \<open>(id, interval, repeats)\<close> for each entry: no id twice, none not yet handed
  out, and every active timer among them with its own delay and kind.
\<close>

type_synonym pending = "timer_id \<times> u64 \<times> bool"

definition wf_timers :: "'c timer_table \<Rightarrow> pending list \<Rightarrow> bool" where
  "wf_timers t X \<longleftrightarrow> distinct (map fst (X @ new_timers t)) \<and>
     (\<forall>p\<in>set (X @ new_timers t). fst p < next_timer_id t) \<and>
     (\<forall>i e. timers t i = Some e \<longrightarrow> (i, te_delay e, te_repeat e) \<in> set (X @ new_timers t))"

definition of_sched :: "scheduled \<Rightarrow> pending" where
  "of_sched s = (sched_id s, interval_ms s, sched_repeat s)"

definition of_due :: "due_timer \<Rightarrow> pending" where
  "of_due d = (due_id d, due_interval d, due_repeat d)"

lemma of_due_due_of [simp]: "of_due (due_of s) = of_sched s"
  by (simp add: of_due_def due_of_def of_sched_def)

lemma fst_of [simp]: "fst (of_sched s) = sched_id s" "fst (of_due d) = due_id d"
  by (simp_all add: of_sched_def of_due_def)

lemma wf_timersI:
  assumes "distinct (map fst (X @ new_timers t))"
    and "\<And>p. p \<in> set (X @ new_timers t) \<Longrightarrow> fst p < next_timer_id t"
    and "\<And>i e. timers t i = Some e \<Longrightarrow> (i, te_delay e, te_repeat e) \<in> set (X @ new_timers t)"
  shows "wf_timers t X"
  using assms unfolding wf_timers_def by blast

lemma wf_timersD:
  assumes "wf_timers t X"
  shows "distinct (map fst (X @ new_timers t))"
    and "p \<in> set (X @ new_timers t) \<Longrightarrow> fst p < next_timer_id t"
    and "timers t i = Some e \<Longrightarrow> (i, te_delay e, te_repeat e) \<in> set (X @ new_timers t)"
  using assms unfolding wf_timers_def by blast+

lemma wf_timers_perm:
  assumes "mset X = mset Y" and "wf_timers t X" shows "wf_timers t Y"
proof (rule wf_timersI)
  have eq: "mset (map fst (X @ new_timers t)) = mset (map fst (Y @ new_timers t))"
    using arg_cong [OF assms(1), of "image_mset fst"] by simp
  then show "distinct (map fst (Y @ new_timers t))"
    using wf_timersD(1) [OF assms(2)] mset_eq_imp_distinct_iff by blast
  have same: "set (X @ new_timers t) = set (Y @ new_timers t)"
    using mset_eq_setD [OF assms(1)] by simp
  show "fst p < next_timer_id t" if "p \<in> set (Y @ new_timers t)" for p
    using wf_timersD(2) [OF assms(2), of p] that same by blast
  show "(i, te_delay e, te_repeat e) \<in> set (Y @ new_timers t)" if "timers t i = Some e" for i e
    using wf_timersD(3) [OF assms(2) that] same by blast
qed

lemma wf_timers_clear:
  "wf_timers t X \<Longrightarrow> wf_timers (t\<lparr>timers := (timers t)(i := None)\<rparr>) X"
  by (simp add: wf_timers_def)

lemma wf_timer_set: assumes "wf_timers t X" shows "wf_timers (timer_set cb d r t) X"
proof (rule wf_timersI)
  note old = wf_timersD [OF assms]
  have "next_timer_id t \<notin> fst ` set (X @ new_timers t)" using old(2) by fastforce
  with old(1) show "distinct (map fst (X @ new_timers (timer_set cb d r t)))"
    by (auto simp: timer_set_def Let_def)
  show "fst p < next_timer_id (timer_set cb d r t)" if "p \<in> set (X @ new_timers (timer_set cb d r t))" for p
    using that old(2) [of p] by (auto simp: timer_set_def Let_def)
  show "(i, te_delay e, te_repeat e) \<in> set (X @ new_timers (timer_set cb d r t))"
    if "timers (timer_set cb d r t) i = Some e" for i e
    using that old(3) [of i e] by (auto simp: timer_set_def Let_def split: if_splits)
qed

lemma wf_timer_ref: assumes "wf_timers t X" shows "wf_timers (snd (timer_ref n b t)) X"
proof (cases "timers t (as_timer_id n)")
  case (Some e)
  show ?thesis
  proof (rule wf_timersI)
    note old = wf_timersD [OF assms]
    show "distinct (map fst (X @ new_timers (snd (timer_ref n b t))))"
      using old(1) Some by (simp add: timer_ref_def)
    show "fst p < next_timer_id (snd (timer_ref n b t))"
      if "p \<in> set (X @ new_timers (snd (timer_ref n b t)))" for p
      using old(2) [of p] that Some by (simp add: timer_ref_def)
    show "(i, te_delay f, te_repeat f) \<in> set (X @ new_timers (snd (timer_ref n b t)))"
      if "timers (snd (timer_ref n b t)) i = Some f" for i f
      using that old(3) [of i] Some by (cases "i = as_timer_id n") (auto simp: timer_ref_def)
  qed
qed (simp add: timer_ref_def assms)

lemma wf_guest_step: "wf_timers t X \<Longrightarrow> wf_timers (guest_step c t) X"
  by (cases c) (simp_all add: wf_timer_set wf_timer_ref timer_clear_def wf_timers_clear
      split: js_number.split)

lemma wf_guest: "wf_timers t X \<Longrightarrow> wf_timers (fold guest_step cs t) X"
  by (induction cs arbitrary: t) (simp_all add: wf_guest_step)

lemma wf_fire: "wf_timers t X \<Longrightarrow> wf_timers (snd (fire_timer script i t)) X"
  by (simp add: fire_timer_def Let_def wf_guest wf_timers_clear split: option.split)

text \<open>An entry whose timer is gone may be dropped.\<close>

lemma wf_timers_drop:
  assumes "wf_timers t (p # X)" and "timers t (fst p) = None"
  shows "wf_timers t X"
proof (rule wf_timersI)
  note old = wf_timersD [OF assms(1)]
  show "distinct (map fst (X @ new_timers t))" using old(1) by simp
  show "fst p' < next_timer_id t" if "p' \<in> set (X @ new_timers t)" for p'
    using old(2) [of p'] that by simp
  show "(i, te_delay e, te_repeat e) \<in> set (X @ new_timers t)" if "timers t i = Some e" for i e
    using old(3) [OF that] assms(2) that by (cases p) auto
qed

lemma of_schedule:
  "mset (map of_sched (schedule_timer i now d r q)) = add_mset (i, d, r) (mset (map of_sched q))"
  by (simp add: schedule_timer_def schedule.elems_push of_sched_def)

lemma wf_queue_schedule: "wf_queue q \<Longrightarrow> wf_queue (schedule_timer i now d r q)"
  by (simp add: schedule_timer_def schedule.wf_push)

lemma fold_schedule:
  "mset (map of_sched (fold (\<lambda>(i, d, r). schedule_timer i now d r) fresh q)) = mset (map of_sched q @ fresh)
   \<and> (wf_queue q \<longrightarrow> wf_queue (fold (\<lambda>(i, d, r). schedule_timer i now d r) fresh q))"
proof (induction fresh arbitrary: q)
  case (Cons p fresh)
  obtain i d r where p: "p = (i, d, r)" by (cases p) auto
  show ?case
    using Cons.IH [of "schedule_timer i now d r q"]
    by (simp add: p of_schedule wf_queue_schedule flip: mset_map)
qed simp

lemma wf_prune:
  assumes "wf_timers t (map of_sched q)" and "wf_queue q"
  shows "wf_timers t (map of_sched (prune_cleared (timer_is_active t) q)) \<and>
    wf_queue (prune_cleared (timer_is_active t) q) \<and>
    (\<forall>s. heap_peek (prune_cleared (timer_is_active t) q) = Some s \<longrightarrow> timer_is_active t (sched_id s))"
proof -
  obtain ss where "schedule.popped (\<lambda>s. \<not> timer_is_active t (sched_id s)) q ss (prune_cleared (timer_is_active t) q)"
    using prune_popped by blast
  note spec = schedule.popped_spec [OF this assms(2)]
  have wf: "wf_queue (prune_cleared (timer_is_active t) q)" by (rule spec [THEN conjunct1])
  have ms: "mset q = mset ss + mset (prune_cleared (timer_is_active t) q)"
    by (rule spec [THEN conjunct2, THEN conjunct1])
  have front: "\<forall>s. heap_peek (prune_cleared (timer_is_active t) q) = Some s \<longrightarrow> timer_is_active t (sched_id s)"
    using spec [THEN conjunct2, THEN conjunct2, THEN conjunct2, THEN conjunct2] by blast
  have gone: "\<forall>s\<in>set ss. timers t (sched_id s) = None"
    using spec [THEN conjunct2, THEN conjunct2, THEN conjunct2, THEN conjunct1] by (simp add: timer_is_active_def)
  have drop: "wf_timers t (map of_sched ss @ Y) \<Longrightarrow> wf_timers t Y" for Y
    using gone
  proof (induction ss)
    case (Cons s ss)
    from Cons.prems have "wf_timers t (map of_sched ss @ Y)"
      by (auto intro: wf_timers_drop [of t "of_sched s" "map of_sched ss @ Y"])
    with Cons show ?case by simp
  qed simp
  have "mset (map of_sched q) = mset (map of_sched ss @ map of_sched (prune_cleared (timer_is_active t) q))"
    using arg_cong [OF ms, of "image_mset of_sched"] by simp
  with assms(1) drop wf front show ?thesis by (blast intro: wf_timers_perm)
qed

lemma drain_wf:
  assumes "wf_timers t (map of_sched q)" and "wf_queue q" and "drain_new_timers now (t, q) = (t', q')"
  shows "wf_timers t' (map of_sched q')" and "wf_queue q'"
    and "\<forall>s. heap_peek q' = Some s \<longrightarrow> timer_is_active t' (sched_id s)"
    and "new_timers t' = []" and "timers t' = timers t" and "next_timer_id t' = next_timer_id t"
proof -
  define filled where "filled = fold (\<lambda>(i, d, r). schedule_timer i now d r) (new_timers t) q"
  have t': "t' = t\<lparr>new_timers := []\<rparr>" and q': "q' = prune_cleared (timer_is_active t') filled"
    using assms(3) unfolding filled_def drain_new_timers_def take_new_timers_def by auto
  have fs: "mset (map of_sched filled) = mset (map of_sched q @ new_timers t)" and wq: "wf_queue filled"
    using fold_schedule [of now "new_timers t" q] assms(2) unfolding filled_def by blast+
  have "wf_timers t' (map of_sched q @ new_timers t)"
    using assms(1) by (simp add: wf_timers_def t')
  then have "wf_timers t' (map of_sched filled)" by (rule wf_timers_perm [OF fs [symmetric]])
  from wf_prune [OF this wq] show "wf_timers t' (map of_sched q')" "wf_queue q'"
    "\<forall>s. heap_peek q' = Some s \<longrightarrow> timer_is_active t' (sched_id s)"
    unfolding q' by blast+
  show "new_timers t' = []" "timers t' = timers t" "next_timer_id t' = next_timer_id t"
    by (simp_all add: t')
qed

lemma take_due_spec:
  assumes "take_due now q = (due, q')" and "wf_queue q"
  shows "wf_queue q'" and "mset (map of_sched q) = mset (map of_due due @ map of_sched q')"
    and "\<exists>ss. due = map due_of ss \<and> sorted (map sched_key ss) \<and>
      mset ss = filter_mset (\<lambda>s. deadline_ms s \<le> now) (mset q) \<and>
      mset q' = filter_mset (\<lambda>s. \<not> deadline_ms s \<le> now) (mset q)"
proof -
  obtain ss where p: "schedule.popped (\<lambda>s. deadline_ms s \<le> now) q ss q'" and due: "due = map due_of ss"
    using take_due_popped [OF assms(1)] by blast
  note spec = schedule.popped_spec [OF p assms(2)]
  show "wf_queue q'" by (rule spec [THEN conjunct1])
  from spec have ms: "mset q = mset ss + mset q'" by blast
  have "image_mset of_sched (mset ss) = image_mset of_due (mset due)"
    by (simp add: due image_mset.compositionality comp_def)
  with arg_cong [OF ms, of "image_mset of_sched"]
  show "mset (map of_sched q) = mset (map of_due due @ map of_sched q')" by simp
  have "mset ss = filter_mset (\<lambda>s. deadline_ms s \<le> now) (mset q) \<and>
      mset q' = filter_mset (\<lambda>s. \<not> deadline_ms s \<le> now) (mset q)"
    by (rule schedule.popped_all [OF p assms(2)]) (auto simp: sched_key_def less_eq_prod_def)
  with due spec show "\<exists>ss. due = map due_of ss \<and> sorted (map sched_key ss) \<and>
      mset ss = filter_mset (\<lambda>s. deadline_ms s \<le> now) (mset q) \<and>
      mset q' = filter_mset (\<lambda>s. \<not> deadline_ms s \<le> now) (mset q)" by blast
qed

text \<open>An id once gone stays gone: the guest is only ever handed new ones.\<close>

lemma guest_gone:
  "i < next_timer_id t \<Longrightarrow> timers t i = None \<Longrightarrow>
     timers (fold guest_step cs t) i = None \<and> i < next_timer_id (fold guest_step cs t)"
proof (induction cs arbitrary: t)
  case (Cons c cs)
  have "timers (guest_step c t) i = None \<and> i < next_timer_id (guest_step c t)"
    using Cons.prems
    by (cases c) (auto simp: timer_set_def timer_clear_def timer_ref_def Let_def
        split: js_number.split option.split)
  with Cons.IH show ?case by simp
qed simp

lemma guest_next: "next_timer_id t \<le> next_timer_id (fold guest_step cs t)"
proof (induction cs arbitrary: t)
  case (Cons c cs)
  have "next_timer_id t \<le> next_timer_id (guest_step c t)"
    by (cases c) (auto simp: timer_set_def timer_clear_def timer_ref_def Let_def
        split: js_number.split option.split)
  with Cons.IH [of "guest_step c t"] show ?case by simp
qed simp

lemma fire_spent:
  assumes wf: "wf_timers t (of_due d # X)" and f: "fire_timer script (due_id d) t = (fired, t')"
    and over: "\<not> (fired \<and> due_repeat d)"
  shows "timers t' (due_id d) = None"
proof (cases "timers t (due_id d)")
  case None
  with f show ?thesis by (simp add: fire_timer_def)
next
  case (Some e)
  note D = wf_timersD [OF wf]
  have "(due_id d, te_delay e, te_repeat e) \<in> set (of_due d # X @ new_timers t)"
    using D(3) [OF Some] by simp
  moreover have "p = of_due d" if "p \<in> set (of_due d # X @ new_timers t)" "fst p = due_id d" for p
  proof -
    have "due_id d \<notin> fst ` set (X @ new_timers t)" using D(1) by (simp add: image_Un)
    moreover have "p = of_due d \<or> p \<in> set (X @ new_timers t)" using that(1) by simp
    ultimately show ?thesis using that(2) by (metis image_eqI)
  qed
  ultimately have "(due_id d, te_delay e, te_repeat e) = of_due d" by simp
  then have "te_repeat e = due_repeat d" by (simp add: of_due_def)
  with over Some f have "\<not> te_repeat e" by (auto simp: fire_timer_def Let_def)
  with Some f have t': "t' = fold guest_step (script (te_callback e) (t\<lparr>timers := (timers t)(due_id d := None)\<rparr>))
      (t\<lparr>timers := (timers t)(due_id d := None)\<rparr>)"
    by (simp add: fire_timer_def Let_def)
  have "due_id d < next_timer_id t" using D(2) [of "of_due d"] by simp
  then show ?thesis unfolding t' by (intro guest_gone [THEN conjunct1]) simp_all
qed

lemma fire_one:
  assumes wf: "wf_timers t (of_due d # X)" and f: "fire_timer script (due_id d) t = (fired, t')"
  shows "if fired \<and> due_repeat d \<and> timer_is_active t' (due_id d) then wf_timers t' (of_due d # X)
    else wf_timers t' X"
proof -
  have wf': "wf_timers t' (of_due d # X)"
    using wf_fire [OF wf, of script "due_id d"] f by simp
  moreover have "wf_timers t' X" if "timers t' (due_id d) = None"
    using wf_timers_drop [OF wf'] that by simp
  ultimately show ?thesis
    using fire_spent [OF wf f] unfolding timer_is_active_def by (cases "timers t' (due_id d)") auto
qed

definition rearmed :: "u64 \<Rightarrow> due_timer \<Rightarrow> bool \<Rightarrow> 'c timer_table \<Rightarrow> timer_queue \<Rightarrow> timer_queue" where
  "rearmed now d fired t q =
     (if fired \<and> due_repeat d \<and> timer_is_active t (due_id d)
      then schedule_timer (due_id d) now (due_interval d) True q else q)"

lemma fire_all_Cons:
  assumes "fire_all script now (d # ds) (t, q) = (fired, t', q')"
    and "fire_timer script (due_id d) t = (f, u)"
  obtains fs where "fire_all script now ds (u, rearmed now d f u q) = (fs, t', q')"
    and "fired = (if f then due_id d # fs else fs)"
  using assms by (auto simp: rearmed_def Let_def split: prod.splits)

lemma fire_step_wf:
  assumes wf: "wf_timers t (of_due d # map of_due ds @ map of_sched q)"
    and fire: "fire_timer script (due_id d) t = (f, u)" and "wf_queue q"
  shows "wf_timers u (map of_due ds @ map of_sched (rearmed now d f u q))"
    and "wf_queue (rearmed now d f u q)"
proof -
  show "wf_queue (rearmed now d f u q)" using assms(3) by (simp add: rearmed_def wf_queue_schedule)
  show "wf_timers u (map of_due ds @ map of_sched (rearmed now d f u q))"
  proof (cases "f \<and> due_repeat d \<and> timer_is_active u (due_id d)")
    case True
    then have "mset (of_due d # map of_due ds @ map of_sched q)
        = mset (map of_due ds @ map of_sched (rearmed now d f u q))"
      using of_schedule [of "due_id d" now "due_interval d" True q] by (simp add: rearmed_def of_due_def)
    moreover have "wf_timers u (of_due d # map of_due ds @ map of_sched q)"
      using fire_one [OF wf fire] True by simp
    ultimately show ?thesis by (rule wf_timers_perm)
  next
    case False
    moreover have "rearmed now d f u q = q" using False unfolding rearmed_def by (rule if_not_P)
    ultimately show ?thesis using fire_one [OF wf fire] by argo
  qed
qed

lemma fire_all_wf:
  assumes "fire_all script now ds (t, q) = (fired, t', q')"
    and "wf_timers t (map of_due ds @ map of_sched q)" and "wf_queue q"
  shows "wf_timers t' (map of_sched q') \<and> wf_queue q'"
  using assms
proof (induction ds arbitrary: t q fired t' q')
  case (Cons d ds)
  obtain f u where fire: "fire_timer script (due_id d) t = (f, u)" by fastforce
  obtain fs where rest: "fire_all script now ds (u, rearmed now d f u q) = (fs, t', q')"
    using fire_all_Cons [OF Cons.prems(1) fire] .
  have "wf_timers t (of_due d # map of_due ds @ map of_sched q)" using Cons.prems(2) by simp
  from Cons.IH [OF rest fire_step_wf [OF this fire Cons.prems(3)]] show ?case .
qed simp

lemma fire_gone:
  assumes "i < next_timer_id t" and "timers t i = None" and "fire_timer script j t = (f, u)"
  shows "timers u i = None" and "i < next_timer_id u"
  using assms guest_gone [of i "t\<lparr>timers := (timers t)(j := None)\<rparr>"] guest_gone [of i t]
  by (auto simp: fire_timer_def Let_def split: option.splits if_splits)

lemma wfire_next:
  assumes "wf_timers t (of_due d # X)" and "fire_timer script j t = (f, u)"
  shows "due_id d < next_timer_id u"
  using wf_timersD(2) [OF wf_fire [OF assms(1), of script j], of "of_due d"] assms(2) by simp

lemma fire_all_order:
  "fire_all script now ds (t, q) = (fired, t', q') \<Longrightarrow>
     subseq fired (map due_id ds) \<and> next_timer_id t \<le> next_timer_id t'"
proof (induction ds arbitrary: t q fired)
  case (Cons d ds)
  obtain f u where fire: "fire_timer script (due_id d) t = (f, u)" by fastforce
  obtain fs where rest: "fire_all script now ds (u, rearmed now d f u q) = (fs, t', q')"
    and fired: "fired = (if f then due_id d # fs else fs)"
    using fire_all_Cons [OF Cons.prems(1) fire] .
  have "next_timer_id t \<le> next_timer_id u"
    using fire guest_next [of t] guest_next [of "t\<lparr>timers := (timers t)(due_id d := None)\<rparr>"]
    by (auto simp: fire_timer_def Let_def split: option.splits if_splits)
  with Cons.IH [OF rest] fired show ?case by (auto intro: subseq_Cons')
qed simp

lemma fire_all_gone:
  "fire_all script now ds (t, q) = (fired, t', q') \<Longrightarrow> i < next_timer_id t \<Longrightarrow> timers t i = None \<Longrightarrow>
     timers t' i = None \<and> i < next_timer_id t'"
proof (induction ds arbitrary: t q fired)
  case (Cons d ds)
  obtain f u where fire: "fire_timer script (due_id d) t = (f, u)" by fastforce
  obtain fs where "fire_all script now ds (u, rearmed now d f u q) = (fs, t', q')"
    using fire_all_Cons [OF Cons.prems(1) fire] .
  from Cons.IH [OF this] fire_gone [OF Cons.prems(2,3) fire] show ?case by blast
qed simp

lemma set_rearmed: "set q \<subseteq> set (rearmed now d f u q)"
  by (auto simp: rearmed_def schedule_timer_def heap_push_def set_insort_key)

lemma fire_all_keeps: "fire_all script now ds (t, q) = (fired, t', q') \<Longrightarrow> set q \<subseteq> set q'"
proof (induction ds arbitrary: t q fired)
  case (Cons d ds)
  obtain f u where fire: "fire_timer script (due_id d) t = (f, u)" by fastforce
  obtain fs where "fire_all script now ds (u, rearmed now d f u q) = (fs, t', q')"
    using fire_all_Cons [OF Cons.prems fire] .
  from Cons.IH [OF this] set_rearmed show ?case by blast
qed simp

lemma fire_all_rearms:
  assumes "fire_all script now ds (t, q) = (fired, t', q')"
    and "wf_timers t (map of_due ds @ map of_sched q)" and "wf_queue q"
    and "i \<in> set fired" and "timers t' i \<noteq> None"
  shows "\<exists>s\<in>set q'. sched_id s = i \<and> deadline_ms s = saturating_add64 now (interval_ms s)"
  using assms
proof (induction ds arbitrary: t q fired)
  case (Cons d ds)
  obtain f u where fire: "fire_timer script (due_id d) t = (f, u)" by fastforce
  obtain fs where rest: "fire_all script now ds (u, rearmed now d f u q) = (fs, t', q')"
    and fired: "fired = (if f then due_id d # fs else fs)"
    using fire_all_Cons [OF Cons.prems(1) fire] .
  have wf: "wf_timers t (of_due d # map of_due ds @ map of_sched q)" using Cons.prems(2) by simp
  show ?case
  proof (cases "i \<in> set fs")
    case True
    from Cons.IH [OF rest fire_step_wf [OF wf fire Cons.prems(3)] True Cons.prems(5)]
    show ?thesis .
  next
    case False
    with Cons.prems(4) fired have i: "i = due_id d" and f by (auto split: if_splits)
    have "due_id d < next_timer_id u" using wfire_next [OF wf fire] .
    with Cons.prems(5) fire_all_gone [OF rest, of i] i have "timers u (due_id d) \<noteq> None" by metis
    with fire_spent [OF wf fire] \<open>f\<close> have "f \<and> due_repeat d \<and> timer_is_active u (due_id d)"
      by (auto simp: timer_is_active_def)
    then have "\<exists>s\<in>set (rearmed now d f u q). sched_id s = i \<and>
        deadline_ms s = saturating_add64 now (interval_ms s)"
      by (auto simp: rearmed_def schedule_timer_def heap_push_def set_insort_key i)
    with fire_all_keeps [OF rest] show ?thesis by blast
  qed
qed simp

section \<open>Reachable states\<close>

inductive reachable :: "'c script \<Rightarrow> 'c timer_table \<times> timer_queue \<Rightarrow> bool" for script where
  initial: "reachable script (new_table, [])"
| eval: "reachable script (t, q) \<Longrightarrow> reachable script (fold guest_step calls t, q)"
| turn: "reachable script tq \<Longrightarrow> tick script settle listeners now tq = (fired, tq') \<Longrightarrow> reachable script tq'"

lemma tick_phases:
  assumes "tick script settle listeners now (t, q) = (fired, t', q')"
  obtains t0 q0 due q1 t2 q2 t3 q3 t4 where
    "drain_new_timers now (t, q) = (t0, q0)" "take_due now q0 = (due, q1)"
    "fire_all script now due (t0, q1) = (fired, t2, q2)"
    "drain_new_timers now (t2, q2) = (t3, q3)"
    "drain_new_timers now (fold guest_step (settle t3) t3, q3) = (t4, q')"
    "t' = fold guest_step (listeners t4) t4"
  using assms by (auto simp: tick_def split: prod.splits)

text \<open>Before the listeners run, what is scheduled is what is active.\<close>

lemma tick_drained:
  assumes tick: "tick script settle listeners now (t, q) = (fired, t', q')"
    and wf: "wf_timers t (map of_sched q)" "wf_queue q"
  obtains t4 where "t' = fold guest_step (listeners t4) t4"
    and "wf_timers t4 (map of_sched q')" and "wf_queue q'" and "new_timers t4 = []"
    and "\<forall>s. heap_peek q' = Some s \<longrightarrow> timer_is_active t4 (sched_id s)"
proof -
  obtain t0 q0 due q1 t2 q2 t3 q3 t4 where ph: "drain_new_timers now (t, q) = (t0, q0)"
    "take_due now q0 = (due, q1)" "fire_all script now due (t0, q1) = (fired, t2, q2)"
    "drain_new_timers now (t2, q2) = (t3, q3)"
    "drain_new_timers now (fold guest_step (settle t3) t3, q3) = (t4, q')"
    "t' = fold guest_step (listeners t4) t4"
    using tick_phases [OF tick] .
  note d0 = drain_wf [OF wf ph(1)]
  note due = take_due_spec [OF ph(2) d0(2)]
  have "wf_timers t0 (map of_due due @ map of_sched q1)"
    using wf_timers_perm [OF due(2) d0(1)] .
  with fire_all_wf [OF ph(3) _ due(1)] have f: "wf_timers t2 (map of_sched q2)" "wf_queue q2" by blast+
  note d2 = drain_wf [OF f ph(4)]
  note d3 = drain_wf [OF wf_guest [OF d2(1)] d2(2) ph(5)]
  show thesis using that ph(6) d3(1-4) by blast
qed

lemma tick_wf:
  assumes tick: "tick script settle listeners now (t, q) = (fired, t', q')"
    and wf: "wf_timers t (map of_sched q)" "wf_queue q"
  shows "wf_timers t' (map of_sched q')" and "wf_queue q'"
  using tick_drained [OF tick wf] wf_guest by metis+

lemma reachable_wf:
  "reachable script tq \<Longrightarrow> wf_timers (fst tq) (map of_sched (snd tq)) \<and> wf_queue (snd tq)"
proof (induction rule: reachable.induct)
  case initial
  show ?case by (simp add: wf_timers_def new_table_def wf_queue_def)
next
  case (eval t q calls)
  then show ?case by (simp add: wf_guest)
next
  case (turn tq settle listeners now fired tq')
  then show ?case by (cases tq; cases tq') (simp add: tick_wf)
qed

lemma guest_keeps_active:
  "\<forall>n. ClearTimer n \<notin> set cs \<Longrightarrow> timer_is_active t i \<Longrightarrow> timer_is_active (fold guest_step cs t) i"
proof (induction cs arbitrary: t)
  case (Cons c cs)
  then have "timer_is_active (guest_step c t) i"
    by (cases c) (auto simp: timer_is_active_def timer_set_def timer_ref_def Let_def split: option.split)
  with Cons show ?case by simp
qed simp

lemma guest_sets_nothing:
  "\<forall>c d r. SetTimer c d r \<notin> set cs \<Longrightarrow> new_timers (fold guest_step cs t) = new_timers t"
proof (induction cs arbitrary: t)
  case (Cons c cs)
  then have "new_timers (guest_step c t) = new_timers t"
    by (cases c) (auto simp: timer_clear_def timer_ref_def split: js_number.split option.split)
  with Cons show ?case by simp
qed simp

text \<open>
  C7: the deadline a turn reports, although only the front of the schedule is pruned of cleared timers.
  After the turn every active timer is either scheduled, with its own interval, or, if a listener set it
  at the end of the turn, still to be drained by the next; none is both, none is there twice. The
  deadline reported is at most that of any scheduled timer, and there is none exactly if the schedule
  is empty, so no scheduled timer is slept through. If no listener clears a timer, the deadline is that
  of an active one; if none sets one, all active timers are scheduled; and if they do neither, there is
  a deadline exactly when a timer is active.
\<close>

theorem next_deadline_exact:
  assumes "reachable script (t, q)" and "tick script settle listeners now (t, q) = (fired, t', q')"
  shows "distinct (map sched_id q' @ map fst (new_timers t')) \<and>
    (\<forall>i e. timers t' i = Some e \<longrightarrow>
       (\<exists>s\<in>set q'. sched_id s = i \<and> interval_ms s = te_delay e \<and> sched_repeat s = te_repeat e) \<or>
       (i, te_delay e, te_repeat e) \<in> set (new_timers t')) \<and>
    (next_deadline_ms q' = None \<longleftrightarrow> q' = []) \<and>
    (\<forall>d. next_deadline_ms q' = Some d \<longrightarrow> d \<in> deadline_ms ` set q' \<and> (\<forall>s\<in>set q'. d \<le> deadline_ms s)) \<and>
    ((\<forall>u n. ClearTimer n \<notin> set (listeners u)) \<longrightarrow>
       (\<forall>d. next_deadline_ms q' = Some d \<longrightarrow> (\<exists>s\<in>set q'. deadline_ms s = d \<and> timer_is_active t' (sched_id s)))) \<and>
    ((\<forall>u c r rep. SetTimer c r rep \<notin> set (listeners u)) \<longrightarrow> new_timers t' = []) \<and>
    ((\<forall>u c r rep n. SetTimer c r rep \<notin> set (listeners u) \<and> ClearTimer n \<notin> set (listeners u)) \<longrightarrow>
       (next_deadline_ms q' = None \<longleftrightarrow> (\<forall>i. \<not> timer_is_active t' i)))"
proof -
  have wf0: "wf_timers t (map of_sched q)" "wf_queue q" using reachable_wf [OF assms(1)] by simp_all
  obtain t4 where t': "t' = fold guest_step (listeners t4) t4"
    and w4: "wf_timers t4 (map of_sched q')" "wf_queue q'" "new_timers t4 = []"
      "\<forall>s. heap_peek q' = Some s \<longrightarrow> timer_is_active t4 (sched_id s)"
    using tick_drained [OF assms(2) wf0] .
  have wf: "wf_timers t' (map of_sched q')" unfolding t' by (rule wf_guest [OF w4(1)])
  have "distinct (map sched_id q' @ map fst (new_timers t'))"
    using wf_timersD(1) [OF wf] by (simp add: comp_def)
  moreover have pending: "(\<exists>s\<in>set q'. sched_id s = i \<and> interval_ms s = te_delay e \<and> sched_repeat s = te_repeat e) \<or>
      (i, te_delay e, te_repeat e) \<in> set (new_timers t')" if "timers t' i = Some e" for i e
    using wf_timersD(3) [OF wf that] by (auto simp: of_sched_def)
  moreover have none: "next_deadline_ms q' = None \<longleftrightarrow> q' = []"
    by (cases q') (simp_all add: next_deadline_ms_def)
  moreover have "d \<in> deadline_ms ` set q' \<and> (\<forall>s\<in>set q'. d \<le> deadline_ms s)" if "next_deadline_ms q' = Some d" for d
    using that w4(2) by (cases q') (auto simp: next_deadline_ms_def wf_queue_def sched_key_def less_eq_prod_def)
  moreover have front: "\<exists>s\<in>set q'. deadline_ms s = d \<and> timer_is_active t' (sched_id s)"
    if "\<forall>u n. ClearTimer n \<notin> set (listeners u)" and "next_deadline_ms q' = Some d" for d
    using that w4(4) guest_keeps_active [of "listeners t4" t4] by (cases q') (auto simp: next_deadline_ms_def t')
  moreover have set_none: "new_timers t' = []" if "\<forall>u c r rep. SetTimer c r rep \<notin> set (listeners u)"
    using guest_sets_nothing [of "listeners t4" t4] that w4(3) by (simp add: t')
  moreover have "next_deadline_ms q' = None \<longleftrightarrow> (\<forall>i. \<not> timer_is_active t' i)"
    if neither: "\<forall>u c r rep n. SetTimer c r rep \<notin> set (listeners u) \<and> ClearTimer n \<notin> set (listeners u)"
  proof
    assume "next_deadline_ms q' = None"
    then show "\<forall>i. \<not> timer_is_active t' i"
      using none set_none neither pending by (fastforce simp: timer_is_active_def)
  next
    assume "\<forall>i. \<not> timer_is_active t' i"
    then show "next_deadline_ms q' = None"
      using front neither by (cases "next_deadline_ms q'") blast+
  qed
  ultimately show ?thesis by blast
qed

theorem next_deadline_exact_witness:
  "\<exists>fired t' q'. tick (\<lambda>_ _. []) (\<lambda>_. []) (\<lambda>_. []) 5
      (timer_set () (Finite 10) True (timer_set () (Finite 0) False new_table), []) = (fired, t', q') \<and>
    (next_deadline_ms q' = None \<longleftrightarrow> (\<forall>i. \<not> timer_is_active t' i))"
proof -
  let ?tq = "(timer_set () (Finite 10) True (timer_set () (Finite 0) False new_table), [])"
  have "?tq = (fold guest_step [SetTimer () (Finite 0) False, SetTimer () (Finite 10) True] new_table, [])"
    by simp
  then have r: "reachable (\<lambda>_ _. []) ?tq" using eval [OF initial] by metis
  obtain fired t' q' where t: "tick (\<lambda>_ _. []) (\<lambda>_. []) (\<lambda>_. []) 5 ?tq = (fired, t', q')" by (metis prod_cases3)
  note exact = next_deadline_exact [OF r t]
  have "next_deadline_ms q' = None \<longleftrightarrow> (\<forall>i. \<not> timer_is_active t' i)"
    using exact [THEN conjunct2, THEN conjunct2, THEN conjunct2, THEN conjunct2, THEN conjunct2, THEN conjunct2]
    by (rule mp) simp
  with t show ?thesis by (intro exI conjI)
qed

lemma fold_schedule_keeps: "set q \<subseteq> set (fold (\<lambda>(i, d, r). schedule_timer i now d r) fresh q)"
proof (induction fresh arbitrary: q)
  case (Cons p fresh)
  have "set q \<subseteq> set (case p of (i, d, r) \<Rightarrow> schedule_timer i now d r q)"
    by (cases p) (auto simp: schedule_timer_def heap_push_def set_insort_key)
  with Cons.IH [of "case p of (i, d, r) \<Rightarrow> schedule_timer i now d r q"] show ?case by (cases p) auto
qed simp

lemma drain_keeps:
  assumes "drain_new_timers now (t, q) = (t', q')" and "wf_queue q"
    and "s \<in> set q" and "timers t' (sched_id s) \<noteq> None"
  shows "s \<in> set q'"
proof -
  define filled where "filled = fold (\<lambda>(i, d, r). schedule_timer i now d r) (new_timers t) q"
  have q': "q' = prune_cleared (timer_is_active t') filled"
    using assms(1) unfolding filled_def drain_new_timers_def take_new_timers_def by auto
  have "wf_queue filled" using fold_schedule assms(2) unfolding filled_def by blast
  obtain ss where pop: "schedule.popped (\<lambda>s. \<not> timer_is_active t' (sched_id s)) filled ss q'"
    unfolding q' using prune_popped by blast
  note spec = schedule.popped_spec [OF pop \<open>wf_queue filled\<close>]
  have "s \<in> set filled" using assms(3) fold_schedule_keeps unfolding filled_def by blast
  moreover have "set filled = set ss \<union> set q'"
    using arg_cong [OF spec [THEN conjunct2, THEN conjunct1], of set_mset] by simp
  moreover have "s \<notin> set ss" using spec assms(4) unfolding timer_is_active_def by blast
  ultimately show ?thesis by blast
qed

lemma same_pending:
  assumes "wf_timers t (map of_sched q)" and "s \<in> set q" and "timers t (sched_id s) = Some e"
  shows "interval_ms s = te_delay e"
proof -
  note D = wf_timersD [OF assms(1)]
  have in1: "of_sched s \<in> set (map of_sched q @ new_timers t)" using assms(2) by simp
  have in2: "(sched_id s, te_delay e, te_repeat e) \<in> set (map of_sched q @ new_timers t)"
    using D(3) [OF assms(3)] .
  have "inj_on fst (set (map of_sched q @ new_timers t))" using D(1) by (rule distinct_map [THEN iffD1, THEN conjunct2])
  from inj_onD [OF this _ in1 in2] have "of_sched s = (sched_id s, te_delay e, te_repeat e)" by simp
  then show ?thesis by (simp add: of_sched_def)
qed

text \<open>
  An interval is re-armed from the turn that fired it. A timer that fired in a turn and is
  still active after it stands in the schedule with the deadline \<open>now + delay\<close>, saturating: one
  that fell behind owes no burst of catch-up firings, and none is lost.
\<close>

theorem intervals_reanchor:
  assumes "reachable script (t, q)" and tick: "tick script settle listeners now (t, q) = (fired, t', q')"
    and "i \<in> set fired" and "timers t' i = Some e"
  shows "\<exists>s\<in>set q'. sched_id s = i \<and> deadline_ms s = saturating_add64 now (te_delay e)"
proof -
  have wf: "wf_timers t (map of_sched q)" "wf_queue q" using reachable_wf [OF assms(1)] by simp_all
  obtain t0 q0 due q1 t2 q2 t3 q3 t4 where ph: "drain_new_timers now (t, q) = (t0, q0)"
    "take_due now q0 = (due, q1)" "fire_all script now due (t0, q1) = (fired, t2, q2)"
    "drain_new_timers now (t2, q2) = (t3, q3)"
    "drain_new_timers now (fold guest_step (settle t3) t3, q3) = (t4, q')"
    and t': "t' = fold guest_step (listeners t4) t4"
    using tick_phases [OF tick] .
  note d0 = drain_wf [OF wf ph(1)]
  note due = take_due_spec [OF ph(2) d0(2)]
  have w1: "wf_timers t0 (map of_due due @ map of_sched q1)"
    using wf_timers_perm [OF due(2) d0(1)] .
  with fire_all_wf [OF ph(3) _ due(1)] have f: "wf_timers t2 (map of_sched q2)" "wf_queue q2" by blast+
  note d2 = drain_wf [OF f ph(4)]
  note d3 = drain_wf [OF wf_guest [OF d2(1)] d2(2) ph(5)]
  have early: "i < next_timer_id t2 \<Longrightarrow> timers t2 i \<noteq> None"
    using guest_gone [of i t3 "settle t3"] guest_gone [of i t4 "listeners t4"] d2(5,6) d3(5,6) assms(4)
    unfolding t' by force
  have "i < next_timer_id t2" 
  proof -
    have "subseq fired (map due_id due)" using fire_all_order [OF ph(3)] by blast
    from list_emb_set [OF this assms(3)] obtain d where "d \<in> set due" "due_id d = i" by auto
    with wf_timersD(2) [OF w1, of "of_due d"] fire_all_order [OF ph(3)] show ?thesis by auto
  qed
  with early have live: "timers t2 i \<noteq> None" by blast
  then obtain s where s: "s \<in> set q2" "sched_id s = i" "deadline_ms s = saturating_add64 now (interval_ms s)"
    using fire_all_rearms [OF ph(3) w1 due(1) assms(3)] by blast
  have "s \<in> set q3" using drain_keeps [OF ph(4) f(2) s(1)] live s(2) d2(5) by simp
  moreover have "timers t4 i \<noteq> None"
  proof -
    have "i < next_timer_id t4"
      using \<open>i < next_timer_id t2\<close> d2(6) guest_next [of t3 "settle t3"] d3(6) by simp
    then show ?thesis using guest_gone [of i t4 "listeners t4"] d3(5) assms(4) unfolding t' by force
  qed
  ultimately have "s \<in> set q'" using drain_keeps [OF ph(5) d2(2)] s(2) by simp
  moreover from same_pending [OF wf_guest [OF d3(1), of "listeners t4", folded t'] this] s(2) assms(4) have "interval_ms s = te_delay e" by simp
  ultimately show ?thesis using s by auto
qed

lemmas tick_eval =
  tick_def drain_new_timers_def take_new_timers_def timer_set_def new_table_def delay_of_def Let_def
  schedule_timer_def heap_push_def sched_key_def less_eq_prod_def saturating_add64_def timer_is_active_def
  take_due.simps prune_cleared.simps heap_pop_def due_of_def fire_timer_def

theorem intervals_reanchor_witness:
  "\<exists>s\<in>set (snd (snd (tick (\<lambda>_ _. []) (\<lambda>_. []) (\<lambda>_. []) 25
      (snd (tick (\<lambda>_ _. []) (\<lambda>_. []) (\<lambda>_. []) 5 (timer_set () (Finite 10) True new_table, [])))))).
     sched_id s = 1 \<and> deadline_ms s = 35"
proof -
  let ?t = "timer_set () (Finite 10) True new_table"
  have "reachable (\<lambda>_ _. []) (?t, [])"
    using eval [OF initial, where calls = "[SetTimer () (Finite 10) True]"] by simp
  moreover define a where "a = tick (\<lambda>_ _. []) (\<lambda>_. []) (\<lambda>_. []) 5 (?t, [])"
  ultimately have r: "reachable (\<lambda>_ _. []) (snd a)"
    by (metis prod.collapse turn)
  have a: "snd a = (\<lparr>timers = [1 \<mapsto> \<lparr>te_callback = (), te_repeat = True, te_delay = 10, te_referenced = True\<rparr>],
      new_timers = [], next_timer_id = 2\<rparr>,
      [\<lparr>deadline_ms = 15, sched_id = 1, interval_ms = 10, sched_repeat = True\<rparr>])"
    by (simp add: a_def tick_eval)
  obtain fired t' q' where b: "tick (\<lambda>_ _. []) (\<lambda>_. []) (\<lambda>_. []) 25 (snd a) = (fired, t', q')" by (metis prod_cases3)
  then have "fired = [1] \<and> timers t' = [1 \<mapsto> \<lparr>te_callback = (), te_repeat = True, te_delay = 10, te_referenced = True\<rparr>]"
    unfolding a by (auto simp add: tick_eval)
  with intervals_reanchor [of "\<lambda>_ _. []" "fst (snd a)" "snd (snd a)" "\<lambda>_. []" "\<lambda>_. []" 25 fired t' q' 1] r b
  show ?thesis unfolding a_def by (simp add: saturating_add64_def)
qed

text \<open>Without a callback that clears one, every active timer that is due fires.\<close>

definition clears_nothing :: "'c script \<Rightarrow> bool" where
  "clears_nothing script \<longleftrightarrow> (\<forall>c t n. ClearTimer n \<notin> set (script c t))"

lemma guest_same_active:
  assumes "\<forall>n. ClearTimer n \<notin> set cs" and "i < next_timer_id t"
  shows "timer_is_active (fold guest_step cs t) i \<longleftrightarrow> timer_is_active t i"
  using guest_keeps_active [OF assms(1), of t i] guest_gone [OF assms(2), of cs]
  unfolding timer_is_active_def by metis

lemma fire_other:
  assumes "clears_nothing script" and "fire_timer script j t = (f, u)" and "i \<noteq> j"
    and "i < next_timer_id t"
  shows "timer_is_active u i \<longleftrightarrow> timer_is_active t i"
proof -
  have n: "\<forall>n. ClearTimer n \<notin> set (script c t)" for c t
    using assms(1) by (simp add: clears_nothing_def)
  let ?t = "t\<lparr>timers := (timers t)(j := None)\<rparr>"
  have "timer_is_active ?t i = timer_is_active t i" using assms(3) by (simp add: timer_is_active_def)
  then show ?thesis
    using assms(2,4) guest_same_active [OF n, of i t] guest_same_active [OF n, of i ?t]
    by (cases "timers t j") (auto simp: fire_timer_def Let_def split: if_splits)
qed

lemma fire_all_exact:
  assumes "clears_nothing script" and "fire_all script now ds (t, q) = (fired, t', q')"
    and "distinct (map due_id ds)" and "\<forall>d\<in>set ds. due_id d < next_timer_id t"
  shows "fired = filter (timer_is_active t) (map due_id ds)"
  using assms(2-)
proof (induction ds arbitrary: t q fired)
  case (Cons d ds)
  obtain f u where fire: "fire_timer script (due_id d) t = (f, u)" by fastforce
  obtain fs where rest: "fire_all script now ds (u, rearmed now d f u q) = (fs, t', q')"
    and fired: "fired = (if f then due_id d # fs else fs)"
    using fire_all_Cons [OF Cons.prems(1) fire] .
  have "next_timer_id t \<le> next_timer_id u"
    using fire guest_next [of t] guest_next [of "t\<lparr>timers := (timers t)(due_id d := None)\<rparr>"]
    by (auto simp: fire_timer_def Let_def split: option.splits if_splits)
  then have "\<forall>d\<in>set ds. due_id d < next_timer_id u" using Cons.prems(3) by fastforce
  with Cons.IH [OF rest] Cons.prems(2) have fs: "fs = filter (timer_is_active u) (map due_id ds)" by simp
  have "timer_is_active u i = timer_is_active t i" if "i \<in> set (map due_id ds)" for i
  proof -
    have "i \<noteq> due_id d" using that Cons.prems(2) by (metis distinct.simps(2) list.map(2))
    moreover have "i < next_timer_id t" using that Cons.prems(3) by auto
    ultimately show ?thesis by (rule fire_other [OF assms(1) fire])
  qed
  then have "fs = filter (timer_is_active t) (map due_id ds)" unfolding fs by (rule filter_cong [OF refl])
  moreover have "f = timer_is_active t (due_id d)"
    using fire by (auto simp: fire_timer_def timer_is_active_def Let_def split: option.splits)
  ultimately show ?case using fired by simp
qed simp

text \<open>
  C8: what fires in a turn. The timers due at \<open>now\<close> are taken from the schedule in the order
  of their deadlines, ids deciding ties; the ones that fire are among these, in that order, each
  once and none created during the turn, so a zero-delay timer cannot starve the loop. If no
  callback clears a timer, those that fire are all of the due ones that are active.
\<close>

theorem tick_fires:
  assumes "reachable script (t, q)" and tick: "tick script settle listeners now (t, q) = (fired, t', q')"
    and "drain_new_timers now (t, q) = (t0, q0)"
  shows "\<exists>due. sorted (map sched_key due) \<and> mset due = filter_mset (\<lambda>s. deadline_ms s \<le> now) (mset q0) \<and>
    subseq fired (map sched_id due) \<and> distinct fired \<and> (\<forall>i\<in>set fired. i < next_timer_id t) \<and>
    (clears_nothing script \<longrightarrow> fired = filter (timer_is_active t0) (map sched_id due))"
proof -
  have wf: "wf_timers t (map of_sched q)" "wf_queue q" using reachable_wf [OF assms(1)] by simp_all
  obtain due q1 t2 q2 where ph: "take_due now q0 = (due, q1)"
    "fire_all script now due (t0, q1) = (fired, t2, q2)"
    using tick_phases [OF tick] assms(3) by (metis prod.inject)
  note d0 = drain_wf [OF wf assms(3)]
  note spec = take_due_spec [OF ph(1) d0(2)]
  obtain ss where ss: "due = map due_of ss" "sorted (map sched_key ss)"
    "mset ss = filter_mset (\<lambda>s. deadline_ms s \<le> now) (mset q0)"
    using spec(3) by blast
  have ids: "map due_id due = map sched_id ss" by (simp add: ss(1) due_of_def)
  have w1: "wf_timers t0 (map of_due due @ map of_sched q1)"
    using wf_timers_perm [OF spec(2) d0(1)] .
  have dist: "distinct (map due_id due)" using wf_timersD(1) [OF w1] by (simp add: comp_def)
  have old: "\<forall>d\<in>set due. due_id d < next_timer_id t0"
  proof
    fix d assume "d \<in> set due"
    with wf_timersD(2) [OF w1, of "of_due d"] show "due_id d < next_timer_id t0" by simp
  qed
  have sub: "subseq fired (map due_id due)" using fire_all_order [OF ph(2)] by blast
  moreover have "distinct fired" using subseqs_distinctD [of fired] sub dist by simp
  moreover have "\<forall>i\<in>set fired. i < next_timer_id t"
  proof
    fix i assume "i \<in> set fired"
    from list_emb_set [OF sub this] obtain d where "d \<in> set due" "i = due_id d" by auto
    with old d0(6) show "i < next_timer_id t" by simp
  qed
  moreover have "clears_nothing script \<longrightarrow> fired = filter (timer_is_active t0) (map due_id due)"
    using fire_all_exact [OF _ ph(2) dist old] by blast
  ultimately show ?thesis using ss(2,3) unfolding ids by (intro exI [of _ ss] conjI)
qed

theorem tick_fires_witness:
  "fst (tick (\<lambda>c _. if c then [SetTimer False (Finite 0) False] else []) (\<lambda>_. []) (\<lambda>_. []) 5
      (timer_set True (Finite 0) False (timer_set False (Finite 3) False new_table), [])) = [2]"
proof -
  let ?script = "\<lambda>c (_ :: bool timer_table). if c then [SetTimer False (Finite 0) False] else []"
  let ?t = "timer_set True (Finite 0) False (timer_set False (Finite 3) False new_table)"
  have r: "reachable ?script (?t, [])"
    using eval [OF initial, where calls = "[SetTimer False (Finite 3) False, SetTimer True (Finite 0) False]"]
    by simp
  obtain fired t' q' where tick: "tick ?script (\<lambda>_. []) (\<lambda>_. []) 5 (?t, []) = (fired, t', q')" by (metis prod_cases3)
  obtain t0 q0 where drain: "drain_new_timers 5 (?t, []) = (t0, q0)" by fastforce
  have c: "clears_nothing ?script" by (simp add: clears_nothing_def)
  from drain have q0: "map sched_id q0 = [2, 1] \<and> map deadline_ms q0 = [5, 8] \<and> timer_is_active t0 2"
    by (auto simp: tick_eval)
  from tick_fires [OF r tick drain] c obtain due where
    "mset due = filter_mset (\<lambda>s. deadline_ms s \<le> 5) (mset q0)"
    "fired = filter (timer_is_active t0) (map sched_id due)" by blast
  moreover obtain a b where "q0 = [a, b]" "sched_id a = 2" "deadline_ms a = 5" "deadline_ms b = 8"
    using q0 by (auto simp: Cons_eq_map_conv)
  ultimately have "fired = [2]" using q0 by simp
  with tick show ?thesis by simp
qed

text \<open>
  A timer that a listener sets at the end of a turn is in no deadline: with an interval of three
  seconds running and nothing else, the loop is told to sleep for them, and the next turn only
  then counts the ten milliseconds from its own time.
\<close>

definition late_timers :: "unit timer_table \<times> timer_queue" where
  "late_timers = (\<lparr>timers = [1 \<mapsto> \<lparr>te_callback = (), te_repeat = True, te_delay = 3000, te_referenced = True\<rparr>,
        2 \<mapsto> \<lparr>te_callback = (), te_repeat = False, te_delay = 10, te_referenced = True\<rparr>],
      new_timers = [(2, 10, False)], next_timer_id = 3\<rparr>,
    [\<lparr>deadline_ms = 3000, sched_id = 1, interval_ms = 3000, sched_repeat = True\<rparr>])"

lemma listener_timer_slept_through:
  "tick (\<lambda>_ _. []) (\<lambda>_. []) (\<lambda>_. [SetTimer () (Finite 10) False]) 0
     (timer_set () (Finite 3000) True new_table, []) = ([], late_timers)"
  "next_deadline_ms (snd late_timers) = Some 3000" "timer_is_active (fst late_timers) 2"
  "has_referenced_timers (fst late_timers)"
  "next_deadline_ms (snd (drain_new_timers 3000 late_timers)) = Some 3000"
  "map (\<lambda>s. (sched_id s, deadline_ms s)) (snd (drain_new_timers 3000 late_timers)) = [(1, 3000), (2, 3010)]"
proof -
  show "tick (\<lambda>_ _. []) (\<lambda>_. []) (\<lambda>_. [SetTimer () (Finite 10) False]) 0
     (timer_set () (Finite 3000) True new_table, []) = ([], late_timers)"
    by (simp add: tick_eval late_timers_def) (simp add: numeral_2_eq_2)
  have "timers (fst late_timers) 1 = Some \<lparr>te_callback = (), te_repeat = True, te_delay = 3000, te_referenced = True\<rparr>"
    by (simp add: late_timers_def)
  then show "has_referenced_timers (fst late_timers)"
    unfolding has_referenced_timers_def by (intro bexI [OF _ ranI]) simp_all
qed (simp_all add: tick_eval late_timers_def next_deadline_ms_def)

end
