(* ===== verification/Ownership.thy ===== *)
theory Ownership
  imports Prelude
begin

text \<open>
  Who may use a host handle. \<open>crates/runtime/src/handles.rs\<close>: the ids one agent obtained, and the
  inventory made of them; \<open>crates/runtime/src/db_conns.rs\<close>: database connections, checked out by
  one op at a time, and connects in flight under a ticket. A process of several agents over one
  shared id counter is a step relation over the first, the life of a connection one over the
  second.
\<close>

section \<open>A registry of ids\<close>

locale id_registry =
  fixes holds :: "'s \<Rightarrow> 'i \<Rightarrow> bool"
    and put :: "'i \<Rightarrow> 's \<Rightarrow> 's"
    and drop :: "'i \<Rightarrow> 's \<Rightarrow> 's"
  assumes holds_put: "holds (put i s) j \<longleftrightarrow> j = i \<or> holds s j"
    and holds_drop: "holds (drop i s) j \<longleftrightarrow> j \<noteq> i \<and> holds s j"
begin

text \<open>After a run of puts (\<open>True\<close>) and drops, an id is held when its last one was a put.\<close>

lemma holds_run:
  "holds (fold (\<lambda>(b, i). if b then put i else drop i) es s) j \<longleftrightarrow>
     (case filter (\<lambda>(b, i). i = j) es of [] \<Rightarrow> holds s j | _ \<Rightarrow> fst (last (filter (\<lambda>(b, i). i = j) es)))"
proof (induction es arbitrary: s rule: rev_induct)
  case (snoc e es)
  obtain b i where e: "e = (b, i)" by (cases e)
  from snoc.IH [of s] show ?case
    by (cases "filter (\<lambda>(b, i). i = j) es") (auto simp: e holds_put holds_drop)
qed simp

end

section \<open>Handles\<close>

record handles =
  kind :: string
  ids :: "u64 set"

datatype handle_error = ForeignHandle string u64

definition new_handles :: "string \<Rightarrow> handles" where
  "new_handles k = \<lparr>kind = k, ids = {}\<rparr>"

definition own :: "u64 \<Rightarrow> handles \<Rightarrow> u64 \<times> handles" where
  "own i h = (i, h\<lparr>ids := insert i (ids h)\<rparr>)"

definition check :: "u64 \<Rightarrow> handles \<Rightarrow> handle_error + u64" where
  "check i h = (if i \<in> ids h then Inr i else Inl (ForeignHandle (kind h) i))"

definition release :: "u64 \<Rightarrow> handles \<Rightarrow> handles" where
  "release i h = h\<lparr>ids := ids h - {i}\<rparr>"

definition check_and_release :: "u64 \<Rightarrow> handles \<Rightarrow> (handle_error + u64) \<times> handles" where
  "check_and_release i h =
     (case check i h of Inr i \<Rightarrow> (Inr i, release i h) | Inl e \<Rightarrow> (Inl e, h))"

definition ids_sorted :: "handles \<Rightarrow> u64 list" where
  "ids_sorted h = sorted_list_of_set (ids h)"

interpretation owned: id_registry "\<lambda>h i. i \<in> ids h" "\<lambda>i h. snd (own i h)" release
  by unfold_locales (auto simp: own_def release_def)

text \<open>
  The inventory. A registry is shared between the list and the ops that use it, so the
  registries are cells of a store and the list holds their addresses.
\<close>

record inventory =
  store :: "handles list"
  registries :: "nat list"

definition track :: "handles \<Rightarrow> inventory \<Rightarrow> nat \<times> inventory" where
  "track h v = (length (store v), v\<lparr>store := store v @ [h], registries := registries v @ [length (store v)]\<rparr>)"

definition at_handles :: "nat \<Rightarrow> (handles \<Rightarrow> handles) \<Rightarrow> inventory \<Rightarrow> inventory" where
  "at_handles a f v = (if a < length (store v) then v\<lparr>store := (store v)[a := f (store v ! a)]\<rparr> else v)"

definition snapshot_entry :: "handles \<Rightarrow> (string \<times> nat \<times> u64 list) option" where
  "snapshot_entry h =
     (let is = ids_sorted h in if is = [] then None else Some (kind h, length is, is))"

definition snapshot :: "inventory \<Rightarrow> (string \<times> nat \<times> u64 list) list" where
  "snapshot v = List.map_filter (\<lambda>a. snapshot_entry (store v ! a)) (registries v)"

section \<open>Several agents, one counter\<close>

text \<open>
  Providers are shared and number their resources upwards; each agent has a registry. An event
  is a resource minted for an agent, or an agent's op that ends the life of an id it names.
\<close>

datatype 'a event = Minted 'a u64 | Ended 'a u64

record 'a process =
  counter :: nat
  agents :: "'a \<Rightarrow> handles"

inductive process_run :: "string \<Rightarrow> 'a event list \<Rightarrow> 'a process \<Rightarrow> bool" for k where
  start: "process_run k [] \<lparr>counter = 1, agents = (\<lambda>_. new_handles k)\<rparr>"
| mint: "process_run k es p \<Longrightarrow> counter p < 2 ^ 64 \<Longrightarrow>
    process_run k (es @ [Minted a (word_of_nat (counter p))])
      (p\<lparr>counter := counter p + 1,
         agents := (agents p)(a := snd (own (word_of_nat (counter p)) (agents p a)))\<rparr>)"
| finish: "process_run k es p \<Longrightarrow> check_and_release i (agents p a) = (Inr i, h) \<Longrightarrow>
    process_run k (es @ [Ended a i]) (p\<lparr>agents := (agents p)(a := h)\<rparr>)"
| refused: "process_run k es p \<Longrightarrow> check_and_release i (agents p a) = (Inl e, h) \<Longrightarrow>
    process_run k es (p\<lparr>agents := (agents p)(a := h)\<rparr>)"

lemma check_Inr [simp]: "check i h = Inr j \<longleftrightarrow> j = i \<and> i \<in> ids h"
  by (auto simp: check_def)

lemma check_and_release_eq:
  "check_and_release i h = (if i \<in> ids h then (Inr i, release i h) else (Inl (ForeignHandle (kind h) i), h))"
  by (simp add: check_and_release_def check_def)

text \<open>What an agent holds is what was minted for it and not ended since; nothing is minted twice.\<close>

definition live :: "'a event list \<Rightarrow> 'a \<Rightarrow> u64 \<Rightarrow> bool" where
  "live es a i \<longleftrightarrow> Minted a i \<in> set es \<and> Ended a i \<notin> set es"

lemma process_run_inv:
  "process_run k es p \<Longrightarrow>
     (\<forall>a i. i \<in> ids (agents p a) \<longleftrightarrow> live es a i) \<and>
     (\<forall>a i. Minted a i \<in> set es \<longrightarrow> unat i < counter p) \<and>
     (\<forall>a b i. Minted a i \<in> set es \<longrightarrow> Minted b i \<in> set es \<longrightarrow> a = b) \<and>
     (\<forall>a i. Ended a i \<in> set es \<longrightarrow> Minted a i \<in> set es) \<and> (\<forall>a. kind (agents p a) = k) \<and> 0 < counter p"
proof (induction rule: process_run.induct)
  case start
  show ?case by (simp add: new_handles_def live_def)
next
  case (mint es p a)
  let ?n = "word_of_nat (counter p) :: u64"
  have n: "unat ?n = counter p"
    using mint.hyps by (simp add: unsigned_of_nat take_bit_nat_eq_self)
  have fresh: "Minted b ?n \<notin> set es" "Ended b ?n \<notin> set es" for b
    using mint.IH n by (metis less_irrefl)+
  have bound: "Minted b i \<in> set es \<Longrightarrow> unat i < counter p + 1" for b i
    using mint.IH less_SucI by fastforce
  show ?case
  proof (intro conjI allI impI)
    fix b i
    show "i \<in> ids (agents (p\<lparr>counter := counter p + 1,
         agents := (agents p)(a := snd (own ?n (agents p a)))\<rparr>) b) \<longleftrightarrow> live (es @ [Minted a ?n]) b i"
      using mint.IH fresh by (auto simp: own_def live_def)
  qed (use mint.IH fresh bound n in \<open>auto simp: own_def\<close>)
next
  case (finish es p i a h)
  then have i: "i \<in> ids (agents p a)" and h: "h = release i (agents p a)"
    by (auto simp: check_and_release_eq split: if_splits)
  then have "Minted a i \<in> set es" using finish.IH by (auto simp: live_def)
  with finish.IH i show ?case by (auto simp: h release_def live_def)
next
  case (refused es p i a e h)
  then show ?case by (auto simp: check_and_release_eq split: if_splits)
qed

text \<open>
  C9: an id is authority only for the agent that minted it. In every run of a process of
  agents over one shared counter, a check succeeds exactly when the id was minted for that very
  agent and its life has not ended since, and is refused, naming the kind, for every other
  agent; an ended id is never authority again.
\<close>

theorem handle_is_authority:
  assumes "process_run k es p"
  shows "(check i (agents p a) = Inr i \<longleftrightarrow> live es a i) \<and>
    (Minted a i \<in> set es \<and> b \<noteq> a \<longrightarrow> check i (agents p b) = Inl (ForeignHandle k i)) \<and>
    (Ended a i \<in> set es \<longrightarrow> check i (agents p b) = Inl (ForeignHandle k i))"
proof -
  note inv = process_run_inv [OF assms]
  have other: "i \<notin> ids (agents p b)" if "Minted a i \<in> set es" "b \<noteq> a" for b
    using inv that unfolding live_def by metis
  have gone: "i \<notin> ids (agents p b)" if "Ended a i \<in> set es" for b
    using inv that unfolding live_def by metis
  have kinds: "kind (agents p b) = k" for b using inv by blast
  have "check i (agents p a) = Inr i \<longleftrightarrow> live es a i" using inv by (auto simp: check_def)
  moreover have "check i (agents p b) = Inl (ForeignHandle k i)" if "i \<notin> ids (agents p b)" for b
    using that kinds by (simp add: check_def)
  ultimately show ?thesis using other gone by metis
qed

theorem handle_is_authority_witness:
  "\<exists>p. process_run ''socket'' [Minted True 1] p \<and> check 1 (agents p True) = Inr 1 \<and>
     check 1 (agents p False) = Inl (ForeignHandle ''socket'' 1)"
proof -
  let ?p = "\<lparr>counter = 1, agents = (\<lambda>_. new_handles ''socket'')\<rparr> :: bool process"
  let ?q = "?p\<lparr>counter := counter ?p + 1,
      agents := (agents ?p)(True := snd (own (word_of_nat (counter ?p)) (agents ?p True)))\<rparr> :: bool process"
  have "process_run ''socket'' ([] @ [Minted True (word_of_nat (counter ?p))]) ?q"
    by (rule mint [OF start]) simp
  then have "process_run ''socket'' [Minted True 1] ?q" by simp
  from handle_is_authority [OF this, where a = True and b = False and i = 1] this show ?thesis
    by (intro exI [of _ ?q]) (simp add: live_def)
qed

text \<open>
  The inventory lists what the registries hold. Its snapshot has one entry per tracked
  kind that owns anything, with the ids ascending and their exact count, and follows every use
  of a registry through its shared cell.
\<close>

theorem inventory_snapshot:
  assumes "track h v = (a, v')" and "finite (ids (f h))" and "set (registries v) \<subseteq> {..<length (store v)}"
  shows "snapshot (at_handles a f v') = snapshot v @
      (if ids (f h) = {} then [] else [(kind (f h), card (ids (f h)), sorted_list_of_set (ids (f h)))])"
proof -
  have a: "a = length (store v)" and v': "v' = v\<lparr>store := store v @ [h], registries := registries v @ [a]\<rparr>"
    using assms(1) by (auto simp: track_def)
  have "snapshot_entry ((store v @ [f h]) ! b) = snapshot_entry (store v ! b)" if "b \<in> set (registries v)" for b
    using that assms(3) by (auto simp: nth_append)
  then have "List.map_filter (\<lambda>b. snapshot_entry ((store v @ [f h]) ! b)) (registries v) = snapshot v"
    unfolding snapshot_def by (simp add: List.map_filter_def cong: filter_cong map_cong)
  moreover have "snapshot_entry (f h) = (if ids (f h) = {} then None
      else Some (kind (f h), card (ids (f h)), sorted_list_of_set (ids (f h))))"
    using assms(2) by (simp add: snapshot_entry_def ids_sorted_def Let_def)
  ultimately show ?thesis
    by (simp add: v' at_handles_def snapshot_def a List.map_filter_def)
qed

theorem inventory_snapshot_witness:
  "snapshot (at_handles 0 (\<lambda>h. snd (own 7 (snd (own 9 h))))
      (snd (track (new_handles ''fd'') \<lparr>store = [], registries = []\<rparr>))) = [(''fd'', 2, [7, 9])]"
  using inventory_snapshot [of "new_handles ''fd''" "\<lparr>store = [], registries = []\<rparr>" 0 _
      "\<lambda>h. snd (own 7 (snd (own 9 h)))"]
  by (simp add: track_def own_def new_handles_def snapshot_def List.map_filter_simps)

section \<open>Database connections\<close>

record 'c registry =
  slots :: "u64 \<rightharpoonup> 'c option"
  next_id :: u64
  cells :: "u64 option list"
  connecting_to :: "u64 \<rightharpoonup> nat"

datatype conn_error = AlreadyRunning | ConnectionClosed

definition new_registry :: "'c registry" where
  "new_registry = \<lparr>slots = Map.empty, next_id = 1, cells = [], connecting_to = Map.empty\<rparr>"

definition insert_conn :: "'c \<Rightarrow> 'c registry \<Rightarrow> u64 \<times> 'c registry" where
  "insert_conn c r =
     (next_id r, r\<lparr>next_id := next_id r + 1, slots := (slots r)(next_id r \<mapsto> Some c)\<rparr>)"

definition checkout :: "u64 \<Rightarrow> 'c registry \<Rightarrow> (conn_error + 'c) \<times> 'c registry" where
  "checkout i r =
     (case slots r i of
        Some (Some c) \<Rightarrow> (Inr c, r\<lparr>slots := (slots r)(i \<mapsto> None)\<rparr>)
      | Some None \<Rightarrow> (Inl AlreadyRunning, r)
      | None \<Rightarrow> (Inl ConnectionClosed, r))"

definition checkin :: "u64 \<Rightarrow> 'c \<Rightarrow> 'c registry \<Rightarrow> 'c registry" where
  "checkin i c r = (case slots r i of Some _ \<Rightarrow> r\<lparr>slots := (slots r)(i \<mapsto> Some c)\<rparr> | None \<Rightarrow> r)"

definition remove_conn :: "u64 \<Rightarrow> 'c registry \<Rightarrow> 'c option option \<times> 'c registry" where
  "remove_conn i r = (slots r i, r\<lparr>slots := (slots r)(i := None)\<rparr>)"

text \<open>
  A connect in flight: its cell is shared with the driver that opens the socket, so it is an
  address into the store of cells.
\<close>

definition connecting :: "u64 \<Rightarrow> 'c registry \<Rightarrow> nat \<times> 'c registry" where
  "connecting ticket r =
     (length (cells r), r\<lparr>cells := cells r @ [None], connecting_to := (connecting_to r)(ticket \<mapsto> length (cells r))\<rparr>)"

definition set_opened :: "nat \<Rightarrow> u64 \<Rightarrow> 'c registry \<Rightarrow> 'c registry" where
  "set_opened a socket r = r\<lparr>cells := (cells r)[a := Some socket]\<rparr>"

definition connected :: "u64 \<Rightarrow> 'c registry \<Rightarrow> 'c registry" where
  "connected ticket r = r\<lparr>connecting_to := (connecting_to r)(ticket := None)\<rparr>"

definition connecting_socket :: "u64 \<Rightarrow> 'c registry \<Rightarrow> u64 option" where
  "connecting_socket ticket r =
     (case connecting_to r ticket of Some a \<Rightarrow> cells r ! a | None \<Rightarrow> None)"

interpretation opened: id_registry "\<lambda>r i. slots r i \<noteq> None"
  "\<lambda>i r. r\<lparr>slots := (slots r)(i \<mapsto> None)\<rparr>" "\<lambda>i r. snd (remove_conn i r)"
  by unfold_locales (auto simp: remove_conn_def)

text \<open>
  The ops of a program over one registry: \<open>out\<close> is what ops have taken out, \<open>closed\<close> the ids
  removed so far.
\<close>

record 'c usage =
  reg :: "'c registry"
  out :: "(u64 \<times> 'c) list"
  closed :: "u64 set"

inductive usage_run :: "'c usage \<Rightarrow> bool" where
  "usage_run \<lparr>reg = new_registry, out = [], closed = {}\<rparr>"
| "usage_run u \<Longrightarrow> unat (next_id (reg u)) < 2 ^ 64 - 1 \<Longrightarrow> insert_conn c (reg u) = (i, r) \<Longrightarrow>
    usage_run (u\<lparr>reg := r\<rparr>)"
| "usage_run u \<Longrightarrow> checkout i (reg u) = (Inr c, r) \<Longrightarrow> usage_run (u\<lparr>reg := r, out := (i, c) # out u\<rparr>)"
| "usage_run u \<Longrightarrow> checkout i (reg u) = (Inl e, r) \<Longrightarrow> usage_run (u\<lparr>reg := r\<rparr>)"
| "usage_run u \<Longrightarrow> (i, c) \<in> set (out u) \<Longrightarrow>
    usage_run (u\<lparr>reg := checkin i c (reg u), out := remove1 (i, c) (out u)\<rparr>)"
| "usage_run u \<Longrightarrow> remove_conn i (reg u) = (x, r) \<Longrightarrow>
    usage_run (u\<lparr>reg := r, closed := (if x = None then closed u else insert i (closed u))\<rparr>)"

definition conn_inv :: "'c registry \<Rightarrow> u64 list \<Rightarrow> u64 set \<Rightarrow> bool" where
  "conn_inv r is cl \<longleftrightarrow> distinct is \<and>
     (\<forall>i c. slots r i = Some (Some c) \<longrightarrow> i \<notin> set is) \<and>
     (\<forall>i. slots r i = Some None \<longrightarrow> i \<in> set is) \<and>
     (\<forall>i\<in>cl. slots r i = None) \<and>
     (\<forall>i. slots r i \<noteq> None \<or> i \<in> set is \<or> i \<in> cl \<longrightarrow> i < next_id r)"

lemma conn_inv_insert:
  assumes "conn_inv r is cl" and "unat (next_id r) < 2 ^ 64 - 1"
  shows "conn_inv (snd (insert_conn c r)) is cl"
proof -
  have up: "next_id r < next_id r + 1"
    using assms(2) by (simp add: word_less_nat_alt unat_word_ariths)
  have "slots r (next_id r) = None" "next_id r \<notin> set is" "next_id r \<notin> cl"
    using assms(1) unfolding conn_inv_def by blast+
  moreover have "j < next_id r \<Longrightarrow> j < next_id r + 1" for j
    using up by (rule less_trans [rotated])
  ultimately show ?thesis
    using assms(1) up unfolding conn_inv_def insert_conn_def by auto
qed

lemma conn_inv_checkout:
  "conn_inv r is cl \<Longrightarrow> checkout i r = (Inr c, r') \<Longrightarrow> conn_inv r' (i # is) cl"
  by (auto simp: conn_inv_def checkout_def split: option.splits if_splits)

lemma conn_inv_checkin:
  "conn_inv r is cl \<Longrightarrow> i \<in> set is \<Longrightarrow> distinct js \<Longrightarrow> set js = set is - {i} \<Longrightarrow>
     conn_inv (checkin i c r) js cl"
  by (auto simp: conn_inv_def checkin_def split: option.splits if_splits)

lemma conn_inv_remove:
  "conn_inv r is cl \<Longrightarrow> remove_conn i r = (x, r') \<Longrightarrow> conn_inv r' is (if x = None then cl else insert i cl)"
  by (auto simp: conn_inv_def remove_conn_def split: if_splits)

lemma remove1_fst:
  "distinct (map fst xs) \<Longrightarrow> (i, c) \<in> set xs \<Longrightarrow>
     set (map fst (remove1 (i, c) xs)) = set (map fst xs) - {i} \<and> distinct (map fst (remove1 (i, c) xs))"
proof (induction xs)
  case (Cons x xs)
  show ?case
  proof (cases "x = (i, c)")
    case False
    then have "(i, c) \<in> set xs" using Cons.prems(2) by simp
    then have "i \<in> fst ` set xs" by (metis fst_conv image_eqI)
    then have "fst x \<noteq> i" using Cons.prems(1) by auto
    with False Cons \<open>(i, c) \<in> set xs\<close> show ?thesis by auto
  qed (use Cons.prems in auto)
qed simp

lemma usage_run_inv: "usage_run u \<Longrightarrow> conn_inv (reg u) (map fst (out u)) (closed u)"
proof (induction rule: usage_run.induct)
  case 1
  show ?case by (simp add: conn_inv_def new_registry_def)
next
  case (2 u c i r)
  with conn_inv_insert [OF 2(4) 2(2), of c] show ?case by simp
next
  case (3 u i c r)
  with conn_inv_checkout [OF 3(3) 3(2)] show ?case by simp
next
  case (4 u i e r)
  then show ?case by (auto simp: checkout_def split: option.splits)
next
  case (5 u i c)
  have "distinct (map fst (out u))" using 5(3) by (simp add: conn_inv_def)
  from remove1_fst [OF this 5(2)] have put:
    "set (map fst (remove1 (i, c) (out u))) = set (map fst (out u)) - {i}"
    "distinct (map fst (remove1 (i, c) (out u)))" by blast+
  have "i \<in> set (map fst (out u))" using 5(2) by force
  from conn_inv_checkin [OF 5(3) this put(2,1)] show ?case by simp
next
  case (6 u i x r)
  with conn_inv_remove [OF 6(3) 6(2)] show ?case by simp
qed

text \<open>
  C10: a connection is in one hand at a time. In every run of ops over a registry, no id is out
  twice, so an op that finds one out is refused rather than given the same conversation; a
  connection in its slot is out nowhere; and an id that was removed stays removed, whatever is
  checked in under it later, since its id is never handed out again.
\<close>

theorem connection_exclusive:
  assumes "usage_run u"
  shows "distinct (map fst (out u)) \<and>
    (i \<in> fst ` set (out u) \<longrightarrow> fst (checkout i (reg u)) \<in> {Inl AlreadyRunning, Inl ConnectionClosed}) \<and>
    (i \<in> closed u \<longrightarrow> checkout i (reg u) = (Inl ConnectionClosed, reg u) \<and>
       checkin i c (reg u) = reg u \<and> fst (insert_conn c (reg u)) \<noteq> i)"
  using usage_run_inv [OF assms]
  by (auto simp: conn_inv_def checkout_def checkin_def insert_conn_def split: option.split)

theorem connection_exclusive_witness:
  "\<exists>u :: nat usage. usage_run u \<and> out u = [(1, 42)] \<and>
     fst (checkout 1 (reg u)) \<in> {Inl AlreadyRunning, Inl ConnectionClosed}"
proof -
  let ?u = "\<lparr>reg = new_registry, out = [], closed = {}\<rparr> :: nat usage"
  obtain r where r: "insert_conn 42 (reg ?u) = (1, r)" by (simp add: insert_conn_def new_registry_def)
  have 1: "usage_run (?u\<lparr>reg := r\<rparr>)"
    by (rule usage_run.intros(2) [OF usage_run.intros(1) _ r]) (simp add: new_registry_def)
  obtain r' where r': "checkout 1 r = (Inr 42, r')"
    using r by (auto simp: insert_conn_def new_registry_def checkout_def)
  have 2: "usage_run (?u\<lparr>reg := r', out := [(1, 42)]\<rparr>)"
    using usage_run.intros(3) [OF 1, of 1 42 r'] r' by simp
  from connection_exclusive [OF this, of 1 0] 2 show ?thesis
    by (intro exI [of _ "?u\<lparr>reg := r', out := [(1, 42)]\<rparr>"]) simp
qed

definition wf_tickets :: "'c registry \<Rightarrow> bool" where
  "wf_tickets r \<longleftrightarrow> inj_on (connecting_to r) (dom (connecting_to r)) \<and> ran (connecting_to r) \<subseteq> {..<length (cells r)}"

text \<open>
  A ticket finds the socket of its own connect. After \<open>connecting\<close>, the driver's cell is
  what \<open>connecting_socket\<close> reads under that ticket, until the connect is over; the cell of an
  earlier connect under the same ticket, or of another ticket, is no longer or never seen there.
\<close>

theorem ticket_finds_its_socket:
  assumes "wf_tickets r" and "connecting t r = (a, r')" and "b < length (cells r)"
  shows "wf_tickets r' \<and> connecting_socket t r' = None \<and>
    connecting_socket t (set_opened a s r') = Some s \<and>
    connecting_socket t (set_opened b s r') = None \<and>
    connecting_socket t (connected t r') = None \<and>
    (t' \<noteq> t \<longrightarrow> connecting_socket t' (set_opened a s r') = connecting_socket t' r \<and>
       connecting_socket t' (connected t r') = connecting_socket t' r)"
proof -
  have a: "a = length (cells r)" and r': "r' = r\<lparr>cells := cells r @ [None],
      connecting_to := (connecting_to r)(t \<mapsto> length (cells r))\<rparr>"
    using assms(2) by (auto simp: connecting_def)
  have bound: "connecting_to r x = Some y \<Longrightarrow> y < length (cells r)" for x y
    using assms(1) by (auto simp: wf_tickets_def ran_def)
  have "wf_tickets r'"
    using assms(1) bound bound [OF sym] unfolding wf_tickets_def r'
    by (auto simp: inj_on_def ran_def less_Suc_eq dest: bound bound [OF sym] split: if_splits)
  moreover have "connecting_socket t' (set_opened a s r') = connecting_socket t' r"
    "connecting_socket t' (connected t r') = connecting_socket t' r" if "t' \<noteq> t"
    using that bound
    by (auto simp: connecting_socket_def set_opened_def connected_def r' a nth_append dest: bound split: option.splits)
  ultimately show ?thesis
    using assms(3) by (auto simp: connecting_socket_def set_opened_def connected_def r' a nth_append)
qed

theorem ticket_finds_its_socket_witness:
  "\<exists>r'. connecting 5 (snd (connecting 4 (new_registry :: nat registry))) = (1, r') \<and>
     connecting_socket 5 (set_opened 1 80 r') = Some 80 \<and> connecting_socket 4 (set_opened 1 80 r') = None"
proof -
  let ?r = "snd (connecting 4 (new_registry :: nat registry))"
  have "wf_tickets ?r" by (simp add: connecting_def new_registry_def wf_tickets_def)
  moreover obtain r' where "connecting 5 ?r = (1, r')" by (simp add: connecting_def new_registry_def)
  moreover have "0 < length (cells ?r)" by (simp add: connecting_def new_registry_def)
  moreover have "connecting_socket 4 ?r = None"
    by (simp add: connecting_socket_def connecting_def new_registry_def)
  ultimately show ?thesis using ticket_finds_its_socket [of ?r 5 1 r' 0 80 4] by auto
qed

end
