(* ===== verification/Codec.thy ===== *)
theory Codec
  imports Prelude
begin

text \<open>
  Bytes on the wire. Fixed-width integers in little-endian order (Rust's \<open>to_le_bytes\<close> and
  \<open>from_le_bytes\<close>), the contract of such a codec as a locale, the two's complement reading of a
  length, and which byte sequences \<open>str::from_utf8\<close> accepts. Text in binary formats is its UTF-8
  bytes.
\<close>

type_synonym utf8 = "u8 list"

section \<open>The contract of a fixed-width codec\<close>

locale fixed_codec =
  fixes width :: nat
    and enc :: "'a \<Rightarrow> u8 list"
    and dec :: "u8 list \<Rightarrow> 'a"
  assumes enc_length: "length (enc x) = width"
    and dec_enc: "dec (enc x) = x"
    and enc_dec: "length bs = width \<Longrightarrow> enc (dec bs) = bs"
begin

lemma enc_inject: "enc x = enc y \<longleftrightarrow> x = y"
  by (metis dec_enc)

lemma enc_prefix: "take width (enc x @ rest) = enc x" "drop width (enc x @ rest) = rest"
  by (simp_all add: enc_length)

lemma dec_take: "dec (take width (enc x @ rest)) = x"
  by (simp only: enc_prefix dec_enc)

lemma split_unique: "enc x @ r = enc y @ s \<longleftrightarrow> x = y \<and> r = s"
  by (metis append_eq_append_conv enc_inject enc_length)

lemma decodes: "length bs \<ge> width \<Longrightarrow> \<exists>x rest. bs = enc x @ rest"
  using enc_dec [of "take width bs"] by (metis append_take_drop_id length_take min.absorb2)

end

section \<open>Little endian\<close>

fun le_bytes :: "nat \<Rightarrow> nat \<Rightarrow> u8 list" where
  "le_bytes 0 n = []"
| "le_bytes (Suc k) n = word_of_nat n # le_bytes k (n div 256)"

fun le_nat :: "u8 list \<Rightarrow> nat" where
  "le_nat [] = 0"
| "le_nat (b # bs) = unat b + 256 * le_nat bs"

lemma length_le_bytes [simp]: "length (le_bytes k n) = k"
  by (induction k n rule: le_bytes.induct) simp_all

lemma unat_u8_of_nat: "unat (word_of_nat n :: u8) = n mod 256"
  by (simp add: unsigned_of_nat take_bit_eq_mod)

lemma le_nat_bytes: "le_nat (le_bytes k n) = n mod 256 ^ k"
proof (induction k n rule: le_bytes.induct)
  case (2 k n)
  have "n mod 256 + 256 * (n div 256 mod 256 ^ k) = n mod (256 * 256 ^ k)"
    by (simp add: mod_mult2_eq)
  with 2 show ?case by (simp add: unat_u8_of_nat)
qed simp

lemma le_nat_bound: "le_nat bs < 256 ^ length bs"
proof (induction bs)
  case (Cons b bs)
  have "unat b < 256" using unat_bound [of b] by simp
  with Cons show ?case by simp
qed simp

lemma le_bytes_nat: "le_bytes (length bs) (le_nat bs) = bs"
proof (induction bs)
  case (Cons b bs)
  have "unat b < 256" using unat_bound [of b] by simp
  then have "(unat b + 256 * le_nat bs) div 256 = le_nat bs"
    "unat (word_of_nat (unat b + 256 * le_nat bs) :: u8) = unat b"
    by (simp, simp only: unat_u8_of_nat, simp)
  then have "(unat b + 256 * le_nat bs) div 256 = le_nat bs"
    "(word_of_nat (unat b + 256 * le_nat bs) :: u8) = b"
    by (simp, simp only: word_unat_eq_iff)
  with Cons show ?case by simp
qed simp

definition le32 :: "u32 \<Rightarrow> u8 list" where
  "le32 w = le_bytes 4 (unat w)"

definition of_le32 :: "u8 list \<Rightarrow> u32" where
  "of_le32 bs = word_of_nat (le_nat bs)"

definition le64 :: "u64 \<Rightarrow> u8 list" where
  "le64 w = le_bytes 8 (unat w)"

definition of_le64 :: "u8 list \<Rightarrow> u64" where
  "of_le64 bs = word_of_nat (le_nat bs)"

interpretation le32: fixed_codec 4 le32 of_le32
proof
  show "length (le32 x) = 4" for x by (simp add: le32_def)
  show "of_le32 (le32 x) = x" for x
    using unat_bound [of x] by (simp add: le32_def of_le32_def le_nat_bytes)
  show "le32 (of_le32 bs) = bs" if "length bs = 4" for bs
    using le_nat_bound [of bs] le_bytes_nat [of bs] that
    by (simp add: le32_def of_le32_def unsigned_of_nat take_bit_nat_eq_self)
qed

interpretation le64: fixed_codec 8 le64 of_le64
proof
  show "length (le64 x) = 8" for x by (simp add: le64_def)
  show "of_le64 (le64 x) = x" for x
    using unat_bound [of x] by (simp add: le64_def of_le64_def le_nat_bytes)
  show "le64 (of_le64 bs) = bs" if "length bs = 8" for bs
    using le_nat_bound [of bs] le_bytes_nat [of bs] that
    by (simp add: le64_def of_le64_def unsigned_of_nat take_bit_nat_eq_self)
qed

section \<open>Lengths in an i32\<close>

text \<open>\<open>i32::try_from\<close> of a \<open>usize\<close> and \<open>usize::try_from\<close> of an \<open>i32\<close>.\<close>

definition i32_of_len :: "nat \<Rightarrow> u32 option" where
  "i32_of_len n = (if n < 2 ^ 31 then Some (word_of_nat n) else None)"

definition len_of_i32 :: "u32 \<Rightarrow> nat option" where
  "len_of_i32 w = (if sint w < 0 then None else Some (nat (sint w)))"

lemma sint_u32_of_nat: "n < 2 ^ 31 \<Longrightarrow> sint (word_of_nat n :: u32) = int n"
  by (simp add: signed_of_nat signed_take_bit_int_eq_self)

lemma len_of_i32_of_len [simp]: "i32_of_len n = Some w \<Longrightarrow> len_of_i32 w = Some n"
  by (auto simp: i32_of_len_def len_of_i32_def sint_u32_of_nat split: if_splits)

lemma len_of_i32_small: "n < 2 ^ 31 \<Longrightarrow> len_of_i32 (word_of_nat n) = Some n"
  by (simp add: len_of_i32_def sint_u32_of_nat)

section \<open>UTF-8\<close>

definition continuation :: "u8 \<Rightarrow> bool" where
  "continuation b \<longleftrightarrow> 0x80 \<le> b \<and> b \<le> 0xBF"

text \<open>What is left after one character, if one starts here.\<close>

fun utf8_next :: "u8 list \<Rightarrow> u8 list option" where
  "utf8_next [] = None"
| "utf8_next (b # bs) =
     (if b < 0x80 then Some bs
      else if 0xC2 \<le> b \<and> b \<le> 0xDF then
        (case bs of c # cs \<Rightarrow> if continuation c then Some cs else None | [] \<Rightarrow> None)
      else if 0xE0 \<le> b \<and> b \<le> 0xEF then
        (case bs of
           c # d # ds \<Rightarrow>
             if continuation c \<and> continuation d \<and> (b = 0xE0 \<longrightarrow> 0xA0 \<le> c) \<and> (b = 0xED \<longrightarrow> c \<le> 0x9F)
             then Some ds else None
         | _ \<Rightarrow> None)
      else if 0xF0 \<le> b \<and> b \<le> 0xF4 then
        (case bs of
           c # d # e # es \<Rightarrow>
             if continuation c \<and> continuation d \<and> continuation e \<and>
                (b = 0xF0 \<longrightarrow> 0x90 \<le> c) \<and> (b = 0xF4 \<longrightarrow> c \<le> 0x8F)
             then Some es else None
         | _ \<Rightarrow> None)
      else None)"

lemma utf8_next_char: "utf8_next bs = Some r \<Longrightarrow> \<exists>ch. ch \<noteq> [] \<and> bs = ch @ r \<and> utf8_next ch = Some []"
proof (cases bs)
  case (Cons b cs)
  assume n: "utf8_next bs = Some r"
  with Cons consider "r = cs" | c where "cs = c # r" | c d where "cs = c # d # r"
    | c d e where "cs = c # d # e # r"
    by (auto split: if_splits list.splits)
  then show ?thesis
  proof cases
    case 1
    with Cons n show ?thesis by (intro exI [of _ "[b]"]) (auto split: if_splits list.splits)
  next
    case (2 c)
    with Cons n show ?thesis by (intro exI [of _ "[b, c]"]) (auto split: if_splits list.splits)
  next
    case (3 c d)
    with Cons n show ?thesis by (intro exI [of _ "[b, c, d]"]) (auto split: if_splits list.splits)
  next
    case (4 c d e)
    with Cons n show ?thesis by (intro exI [of _ "[b, c, d, e]"]) (auto split: if_splits list.splits)
  qed
qed simp

lemma utf8_next_suffix: "utf8_next bs = Some r \<Longrightarrow> \<exists>ch. ch \<noteq> [] \<and> bs = ch @ r"
  using utf8_next_char by blast

lemma utf8_next_shorter: "utf8_next bs = Some r \<Longrightarrow> length r < length bs"
  by (auto dest!: utf8_next_suffix)

lemma utf8_next_append: "utf8_next bs = Some r \<Longrightarrow> utf8_next (bs @ cs) = Some (r @ cs)"
  by (cases bs) (auto split: if_splits list.splits)

function utf8_valid :: "u8 list \<Rightarrow> bool" where
  "utf8_valid bs \<longleftrightarrow> bs = [] \<or> (case utf8_next bs of Some r \<Rightarrow> utf8_valid r | None \<Rightarrow> False)"
  by pat_completeness auto
termination by (relation "measure length") (auto intro: utf8_next_shorter)

declare utf8_valid.simps [simp del]

lemma utf8_valid_Nil [simp]: "utf8_valid []"
  by (simp add: utf8_valid.simps)

lemma utf8_valid_append: "utf8_valid xs \<Longrightarrow> utf8_valid ys \<Longrightarrow> utf8_valid (xs @ ys)"
proof (induction xs rule: utf8_valid.induct)
  case (1 xs)
  show ?case
  proof (cases "xs = []")
    case False
    with "1.prems"(1) obtain r where r: "utf8_next xs = Some r" "utf8_valid r"
      by (subst (asm) utf8_valid.simps) (auto split: option.splits)
    with "1.IH" [OF r(1)] "1.prems"(2) have "utf8_valid (r @ ys)" by blast
    with utf8_next_append [OF r(1)] show ?thesis by (subst utf8_valid.simps) simp
  qed (use "1.prems" in simp)
qed

lemma utf8_valid_ascii: "\<forall>b\<in>set bs. b < 0x80 \<Longrightarrow> utf8_valid bs"
  by (induction bs) (simp_all add: utf8_valid.simps)

end
