(* ===== verification/Bson.thy ===== *)
theory Bson
  imports Codec "HOL-Library.List_Lexorder"
begin

text \<open>
  \<open>crates/bson/src\<close>: the writer (\<open>writer.rs\<close>), the checked reader (\<open>reader.rs\<close>) and hexadecimal
  (\<open>lib.rs\<close>). A document is its bytes; a text is its UTF-8 bytes; a double is its 64 bits.
  Decimal128's text form (\<open>decimal128.rs\<close>) is not modelled here: the format carries its 16 bytes.
\<close>

definition MAX_DEPTH :: nat where
  "MAX_DEPTH = 256"

section \<open>Hexadecimal\<close>

definition hex_digit :: "u8 \<Rightarrow> u8" where
  "hex_digit n = (if n < 10 then 48 + n else 87 + n)"

fun to_hex :: "u8 list \<Rightarrow> utf8" where
  "to_hex [] = []"
| "to_hex (b # bs) = hex_digit (drop_bit 4 b) # hex_digit (take_bit 4 b) # to_hex bs"

definition nibble :: "u8 \<Rightarrow> u8 option" where
  "nibble d =
     (if 48 \<le> d \<and> d \<le> 57 then Some (d - 48)
      else if 97 \<le> d \<and> d \<le> 102 then Some (d - 97 + 10)
      else if 65 \<le> d \<and> d \<le> 70 then Some (d - 65 + 10)
      else None)"

fun from_hex_pairs :: "utf8 \<Rightarrow> u8 list option" where
  "from_hex_pairs (high # low # rest) =
     (case (nibble high, nibble low) of
        (Some h, Some l) \<Rightarrow> map_option ((#) (or (push_bit 4 h) l)) (from_hex_pairs rest)
      | _ \<Rightarrow> None)"
| "from_hex_pairs _ = Some []"

definition from_hex :: "nat \<Rightarrow> utf8 \<Rightarrow> u8 list option" where
  "from_hex n s = (if length s \<noteq> n * 2 then None else from_hex_pairs s)"

section \<open>Writing\<close>

record writer =
  buf :: "u8 list"
  opened :: "nat list"

datatype write_error =
    WriteTooDeep | NoDocumentOpen | DocumentTooLarge | NulInName utf8 | StringTooLarge
  | BinaryTooLarge | NulInRegex | NoCodeOpen | LeftOpen

definition new_writer :: writer where
  "new_writer = \<lparr>buf = [], opened = []\<rparr>"

definition depth :: "writer \<Rightarrow> nat" where
  "depth w = length (opened w)"

definition raw :: "u8 list \<Rightarrow> writer \<Rightarrow> writer" where
  "raw bs w = w\<lparr>buf := buf w @ bs\<rparr>"

definition start_document :: "writer \<Rightarrow> write_error + writer" where
  "start_document w =
     (if length (opened w) \<ge> MAX_DEPTH then Inl WriteTooDeep
      else Inr (raw [0, 0, 0, 0] (w\<lparr>opened := opened w @ [length (buf w)]\<rparr>)))"

definition patch_len :: "nat \<Rightarrow> writer \<Rightarrow> write_error + writer" where
  "patch_len start w =
     (case i32_of_len (length (buf w) - start) of
        None \<Rightarrow> Inl DocumentTooLarge
      | Some len \<Rightarrow>
          Inr (w\<lparr>buf := take start (buf w) @ le32 len @ drop (start + 4) (buf w)\<rparr>))"

definition end_document :: "writer \<Rightarrow> write_error + writer" where
  "end_document w =
     (if opened w = [] then Inl NoDocumentOpen
      else patch_len (last (opened w)) (raw [0] (w\<lparr>opened := butlast (opened w)\<rparr>)))"

definition key :: "u8 \<Rightarrow> utf8 \<Rightarrow> writer \<Rightarrow> write_error + writer" where
  "key tag name w =
     (if 0 \<in> set name then Inl (NulInName name) else Inr (raw [0] (raw name (raw [tag] w))))"

text \<open>A \<open>usize\<close> in decimal digits.\<close>

fun decimal :: "nat \<Rightarrow> utf8" where
  "decimal n = (if n < 10 then [48 + word_of_nat n] else decimal (n div 10) @ [48 + word_of_nat (n mod 10)])"

declare decimal.simps [simp del]

definition index_key :: "u8 \<Rightarrow> nat \<Rightarrow> writer \<Rightarrow> writer" where
  "index_key tag i w = raw [0] (raw (decimal i) (raw [tag] w))"

definition w_double :: "u64 \<Rightarrow> writer \<Rightarrow> writer" where "w_double v = raw (le64 v)"
definition w_int32 :: "u32 \<Rightarrow> writer \<Rightarrow> writer" where "w_int32 v = raw (le32 v)"
definition w_int64 :: "u64 \<Rightarrow> writer \<Rightarrow> writer" where "w_int64 v = raw (le64 v)"
definition w_timestamp :: "u64 \<Rightarrow> writer \<Rightarrow> writer" where "w_timestamp v = raw (le64 v)"
definition w_boolean :: "bool \<Rightarrow> writer \<Rightarrow> writer" where "w_boolean v = raw [if v then 1 else 0]"

definition w_string :: "utf8 \<Rightarrow> writer \<Rightarrow> write_error + writer" where
  "w_string s w =
     (case i32_of_len (length s + 1) of
        None \<Rightarrow> Inl StringTooLarge
      | Some len \<Rightarrow> Inr (raw [0] (raw s (raw (le32 len) w))))"

definition w_binary :: "u8 \<Rightarrow> u8 list \<Rightarrow> writer \<Rightarrow> write_error + writer" where
  "w_binary subtype bs w =
     (let extra = (if subtype = 2 then 4 else 0)
      in case i32_of_len (length bs + extra) of
           None \<Rightarrow> Inl BinaryTooLarge
         | Some size32 \<Rightarrow>
             Inr (raw bs (raw (if subtype = 2 then le32 (size32 - 4) else []) (raw [subtype] (raw (le32 size32) w)))))"

text \<open>The characters of a text, each its bytes.\<close>

function utf8_chars :: "utf8 \<Rightarrow> utf8 list" where
  "utf8_chars s =
     (if s = [] then []
      else case utf8_next s of
        Some r \<Rightarrow> take (length s - length r) s # utf8_chars r
      | None \<Rightarrow> [s])"
  by pat_completeness auto
termination by (relation "measure length") (auto intro: utf8_next_shorter)

declare utf8_chars.simps [simp del]

definition w_regex :: "utf8 \<Rightarrow> utf8 \<Rightarrow> writer \<Rightarrow> write_error + writer" where
  "w_regex pattern options w =
     (if 0 \<in> set pattern \<or> 0 \<in> set options then Inl NulInRegex
      else Inr (raw [0] (raw (concat (sort (utf8_chars options))) (raw [0] (raw pattern w)))))"

definition start_code_with_scope :: "utf8 \<Rightarrow> writer \<Rightarrow> write_error + writer" where
  "start_code_with_scope js w =
     w_string js (raw [0, 0, 0, 0] (w\<lparr>opened := opened w @ [length (buf w)]\<rparr>))"

definition end_code_with_scope :: "writer \<Rightarrow> write_error + writer" where
  "end_code_with_scope w =
     (if opened w = [] then Inl NoCodeOpen
      else patch_len (last (opened w)) (w\<lparr>opened := butlast (opened w)\<rparr>))"

definition finish :: "writer \<Rightarrow> write_error + u8 list" where
  "finish w = (if opened w \<noteq> [] then Inl LeftOpen else Inr (buf w))"

section \<open>Reading\<close>

datatype read_error =
    GivenLength nat nat | ParentOverrun nat | TooShort nat | NoTerminator nat
  | NoLengthPrefix nat | NegativeLength nat int | NameOverrun nat | NameNotTerminated nat
  | NameNotUtf8 nat | ElementOverrun nat | StringLength nat int | StringNotTerminated nat
  | StringNotUtf8 nat | BinaryLength nat int | BinaryTooShort nat | BinaryMismatch nat int nat
  | CodeLength nat int | CodeOverrun nat | CodeMismatch nat | BadBoolean nat u8
  | UnknownElement nat u8 | ReadTooDeep

datatype element =
    Double u64 | String utf8 | Document "u8 list" | Array "u8 list" | Binary u8 "u8 list"
  | Undefined | ObjectId "u8 list" | Boolean bool | DateTime u64 | Null | Regex utf8 utf8
  | DbPointer utf8 "u8 list" | Code utf8 | Symbol utf8 | CodeWithScope utf8 "u8 list"
  | Int32 u32 | Timestamp u64 | Int64 u64 | Decimal128 "u8 list" | MinKey | MaxKey

definition read_len :: "u8 list \<Rightarrow> nat \<Rightarrow> read_error + nat" where
  "read_len bs offset =
     (if length bs < 4 then Inl (NoLengthPrefix offset)
      else let len = of_le32 (take 4 bs)
           in ok_or (NegativeLength offset (sint len)) (len_of_i32 len))"

definition framed :: "u8 list \<Rightarrow> nat \<Rightarrow> read_error + u8 list" where
  "framed bs offset =
     (if length bs < 5 then Inl (TooShort offset)
      else if last bs \<noteq> 0 then Inl (NoTerminator (offset + length bs - 1))
      else Inr bs)"

definition new_document :: "u8 list \<Rightarrow> read_error + u8 list" where
  "new_document bs =
     res_bind (read_len bs 0) (\<lambda>declared.
       if declared \<noteq> length bs then Inl (GivenLength declared (length bs)) else framed bs 0)"

definition prefix_document :: "u8 list \<Rightarrow> nat \<Rightarrow> read_error + u8 list" where
  "prefix_document bs offset =
     res_bind (read_len bs offset) (\<lambda>declared.
       if declared > length bs then Inl (ParentOverrun offset) else framed (take declared bs) offset)"

definition cstring :: "u8 list \<Rightarrow> nat \<Rightarrow> nat \<Rightarrow> read_error + utf8 \<times> nat" where
  "cstring bs start stop =
     (if \<not> (start \<le> stop \<and> stop \<le> length bs) then Inl (NameOverrun start)
      else let region = drop start (take stop bs); name = takeWhile (\<lambda>b. b \<noteq> 0) region
           in if 0 \<notin> set region then Inl (NameNotTerminated start)
              else if utf8_valid name then Inr (name, start + length name + 1)
              else Inl (NameNotUtf8 start))"

record cursor =
  cbytes :: "u8 list"
  cpos :: nat
  cend :: nat

text \<open>A step of the cursor: a result and the cursor after it.\<close>

definition slice :: "nat \<Rightarrow> cursor \<Rightarrow> read_error + u8 list \<times> cursor" where
  "slice len c =
     res_bind (ok_or (ElementOverrun (cpos c)) (opt_filter (\<lambda>stop. stop \<le> cend c) (checked_add_usize (cpos c) len)))
       (\<lambda>stop. Inr (drop (cpos c) (take stop (cbytes c)), c\<lparr>cpos := stop\<rparr>))"

definition take_i32 :: "cursor \<Rightarrow> read_error + u32 \<times> cursor" where
  "take_i32 c = res_bind (slice 4 c) (\<lambda>(bs, c). Inr (of_le32 bs, c))"

definition take_u64 :: "cursor \<Rightarrow> read_error + u64 \<times> cursor" where
  "take_u64 c = res_bind (slice 8 c) (\<lambda>(bs, c). Inr (of_le64 bs, c))"

definition read_string :: "cursor \<Rightarrow> read_error + utf8 \<times> cursor" where
  "read_string c =
     res_bind (take_i32 c) (\<lambda>(len32, c1).
     res_bind (ok_or (StringLength (cpos c) (sint len32)) (opt_filter (\<lambda>len. len \<ge> 1) (len_of_i32 len32))) (\<lambda>len.
     res_bind (slice len c1) (\<lambda>(bs, c2).
       if drop (len - 1) bs \<noteq> [0] then Inl (StringNotTerminated (cpos c))
       else if utf8_valid (take (len - 1) bs) then Inr (take (len - 1) bs, c2)
       else Inl (StringNotUtf8 (cpos c)))))"

definition read_document :: "cursor \<Rightarrow> read_error + u8 list \<times> cursor" where
  "read_document c =
     res_bind (prefix_document (drop (cpos c) (take (cend c) (cbytes c))) (cpos c)) (\<lambda>doc.
       Inr (doc, c\<lparr>cpos := cpos c + length doc\<rparr>))"

definition binary_payload :: "nat \<Rightarrow> u8 \<Rightarrow> u8 list \<Rightarrow> read_error + element" where
  "binary_payload at subtype bs =
     (if subtype = 2 then
        (if length bs < 4 then Inl (BinaryTooShort at)
         else let inner = of_le32 (take 4 bs)
              in if len_of_i32 inner \<noteq> Some (length bs - 4)
                 then Inl (BinaryMismatch at (sint inner) (length bs))
                 else Inr (Binary subtype (drop 4 bs)))
      else Inr (Binary subtype bs))"

definition read_binary :: "cursor \<Rightarrow> read_error + element \<times> cursor" where
  "read_binary c =
     res_bind (take_i32 c) (\<lambda>(len32, c1).
     res_bind (ok_or (BinaryLength (cpos c) (sint len32)) (len_of_i32 len32)) (\<lambda>len.
     res_bind (slice 1 c1) (\<lambda>(tag, c2).
     res_bind (slice len c2) (\<lambda>(bs, c3).
     res_bind (binary_payload (cpos c) (hd tag) bs) (\<lambda>v. Inr (v, c3))))))"

definition read_code_with_scope :: "cursor \<Rightarrow> read_error + element \<times> cursor" where
  "read_code_with_scope c =
     res_bind (take_i32 c) (\<lambda>(len32, c1).
     res_bind (ok_or (CodeLength (cpos c) (sint len32)) (opt_filter (\<lambda>n. n \<ge> 14) (len_of_i32 len32))) (\<lambda>extent.
     res_bind (ok_or (CodeOverrun (cpos c)) (opt_filter (\<lambda>stop. stop \<le> cend c) (checked_add_usize (cpos c) extent))) (\<lambda>stop.
     res_bind (read_string (c1\<lparr>cend := stop\<rparr>)) (\<lambda>(js, inner).
     res_bind (read_document inner) (\<lambda>(scope, inner).
       if cpos inner \<noteq> stop then Inl (CodeMismatch (cpos c))
       else Inr (CodeWithScope js scope, c\<lparr>cpos := stop\<rparr>))))))"

text \<open>One element's value, by its type byte; \<open>start\<close> is where the element begins.\<close>

definition take_value :: "nat \<Rightarrow> (u8 list \<Rightarrow> element) \<Rightarrow> cursor \<Rightarrow> read_error + element \<times> cursor" where
  "take_value n f c = res_bind (slice n c) (\<lambda>(bs, c). Inr (f bs, c))"

definition read_value :: "nat \<Rightarrow> u8 \<Rightarrow> cursor \<Rightarrow> read_error + element \<times> cursor" where
  "read_value start tag c =
     (if tag = 0x01 then take_value 8 (\<lambda>bs. Double (of_le64 bs)) c
      else if tag = 0x02 then res_bind (read_string c) (\<lambda>(s, c). Inr (String s, c))
      else if tag = 0x03 then res_bind (read_document c) (\<lambda>(d, c). Inr (Document d, c))
      else if tag = 0x04 then res_bind (read_document c) (\<lambda>(d, c). Inr (Array d, c))
      else if tag = 0x05 then read_binary c
      else if tag = 0x06 then Inr (Undefined, c)
      else if tag = 0x07 then take_value 12 ObjectId c
      else if tag = 0x08 then
        res_bind (slice 1 c) (\<lambda>(bs, c).
          if hd bs = 0 then Inr (Boolean False, c)
          else if hd bs = 1 then Inr (Boolean True, c)
          else Inl (BadBoolean (cpos c - 1) (hd bs)))
      else if tag = 0x09 then take_value 8 (\<lambda>bs. DateTime (of_le64 bs)) c
      else if tag = 0x0A then Inr (Null, c)
      else if tag = 0x0B then
        res_bind (cstring (cbytes c) (cpos c) (cend c)) (\<lambda>(pattern, pos).
        res_bind (cstring (cbytes c) pos (cend c)) (\<lambda>(options, pos).
          Inr (Regex pattern options, c\<lparr>cpos := pos\<rparr>)))
      else if tag = 0x0C then
        res_bind (read_string c) (\<lambda>(namespace, c). take_value 12 (DbPointer namespace) c)
      else if tag = 0x0D then res_bind (read_string c) (\<lambda>(s, c). Inr (Code s, c))
      else if tag = 0x0E then res_bind (read_string c) (\<lambda>(s, c). Inr (Symbol s, c))
      else if tag = 0x0F then read_code_with_scope c
      else if tag = 0x10 then take_value 4 (\<lambda>bs. Int32 (of_le32 bs)) c
      else if tag = 0x11 then take_value 8 (\<lambda>bs. Timestamp (of_le64 bs)) c
      else if tag = 0x12 then take_value 8 (\<lambda>bs. Int64 (of_le64 bs)) c
      else if tag = 0x13 then take_value 16 Decimal128 c
      else if tag = 0xFF then Inr (MinKey, c)
      else if tag = 0x7F then Inr (MaxKey, c)
      else Inl (UnknownElement start tag))"

definition read_element :: "u8 list \<Rightarrow> nat \<Rightarrow> read_error + (utf8 \<times> element) \<times> nat" where
  "read_element bs start =
     res_bind (cstring bs (start + 1) (length bs - 1)) (\<lambda>(name, after).
     res_bind (read_value start (bs ! start) \<lparr>cbytes = bs, cpos = after, cend = length bs - 1\<rparr>) (\<lambda>(v, c).
       Inr ((name, v), cpos c)))"

subsection \<open>Every step moves forward and stays inside\<close>

named_theorems cursor_steps \<open>a reading step moves the cursor forward within its bounds\<close>

definition steps_ok :: "cursor \<Rightarrow> cursor \<Rightarrow> bool" where
  "steps_ok c d \<longleftrightarrow> cbytes d = cbytes c \<and> cend d = cend c \<and> cpos c \<le> cpos d \<and>
     (cpos c \<le> cend c \<longrightarrow> cpos d \<le> cend c)"

lemma steps_ok_refl [simp]: "steps_ok c c"
  by (simp add: steps_ok_def)

lemma steps_ok_trans: "steps_ok c d \<Longrightarrow> steps_ok d e \<Longrightarrow> steps_ok c e"
  by (auto simp: steps_ok_def)

lemma slice_Inr:
  "slice n c = Inr (bs, d) \<longleftrightarrow> cpos c + n < 2 ^ 64 \<and> cpos c + n \<le> cend c \<and>
     bs = drop (cpos c) (take (cpos c + n) (cbytes c)) \<and> d = c\<lparr>cpos := cpos c + n\<rparr>"
  by (auto simp: slice_def checked_add_usize_def result_simps)

lemma slice_steps [cursor_steps]: "slice n c = Inr (bs, d) \<Longrightarrow> steps_ok c d \<and> cpos d = cpos c + n"
  by (auto simp: slice_Inr steps_ok_def)

lemma slice_length: "slice n c = Inr (bs, d) \<Longrightarrow> cend c \<le> length (cbytes c) \<Longrightarrow> length bs = n"
  by (auto simp: slice_Inr)

lemma take_i32_steps [cursor_steps]: "take_i32 c = Inr (w, d) \<Longrightarrow> steps_ok c d \<and> cpos d = cpos c + 4"
  by (auto simp: take_i32_def result_simps dest: slice_steps)

lemma take_value_steps [cursor_steps]: "take_value n f c = Inr (v, d) \<Longrightarrow> steps_ok c d"
  by (auto simp: take_value_def result_simps dest: slice_steps)

lemma read_string_steps [cursor_steps]: "read_string c = Inr (s, d) \<Longrightarrow> steps_ok c d"
  by (auto simp: read_string_def result_simps split: option.splits if_splits
      dest!: take_i32_steps slice_steps intro: steps_ok_trans)

lemma prefix_document_length:
  "prefix_document bs offset = Inr doc \<Longrightarrow> 5 \<le> length doc \<and> length doc \<le> length bs"
  by (auto simp: prefix_document_def framed_def result_simps split: if_splits)

lemma read_document_steps:
  "read_document c = Inr (doc, d) \<Longrightarrow> cend c \<le> length (cbytes c) \<Longrightarrow>
     steps_ok c d \<and> 5 \<le> length doc \<and> length doc \<le> cend c - cpos c"
  by (auto simp: read_document_def steps_ok_def result_simps dest!: prefix_document_length)

lemma read_binary_steps [cursor_steps]: "read_binary c = Inr (v, d) \<Longrightarrow> steps_ok c d"
  by (auto simp: read_binary_def result_simps Let_def split: option.splits if_splits
      dest!: take_i32_steps slice_steps intro: steps_ok_trans)

lemma read_code_steps:
  assumes "read_code_with_scope c = Inr (v, d)" and "cend c \<le> length (cbytes c)"
  shows "steps_ok c d \<and> (\<exists>js scope. v = CodeWithScope js scope \<and> length scope < cend c - cpos c)"
proof -
  from assms(1) obtain len32 c1 extent stop js inner scope inner' where s:
    "take_i32 c = Inr (len32, c1)" "14 \<le> extent" "checked_add_usize (cpos c) extent = Some stop" "stop \<le> cend c"
    "read_string (c1\<lparr>cend := stop\<rparr>) = Inr (js, inner)" "read_document inner = Inr (scope, inner')"
    "v = CodeWithScope js scope" "d = c\<lparr>cpos := stop\<rparr>"
    by (auto simp: read_code_with_scope_def result_simps split: if_splits)
  then have "cbytes inner = cbytes c \<and> cend inner = stop \<and> cpos c + 4 \<le> cpos inner"
    by (auto dest!: take_i32_steps read_string_steps simp: steps_ok_def)
  moreover have "stop = cpos c + extent" using s(3) by (auto simp: checked_add_usize_def split: if_splits)
  ultimately show ?thesis
    using assms(2) s(2,4,7,8) read_document_steps [OF s(6)] by (auto simp: steps_ok_def)
qed

lemma cstring_Inr:
  "cstring bs start stop = Inr (name, pos) \<longleftrightarrow> start \<le> stop \<and> stop \<le> length bs \<and>
     0 \<notin> set name \<and> utf8_valid name \<and> (\<exists>rest. drop start (take stop bs) = name @ 0 # rest) \<and>
     pos = start + length name + 1"
proof -
  have split: "name = takeWhile (\<lambda>b. b \<noteq> 0) region \<and> 0 \<in> set region \<longleftrightarrow>
      0 \<notin> set name \<and> (\<exists>rest. region = name @ 0 # rest)" for name region :: "u8 list"
  proof
    assume l: "name = takeWhile (\<lambda>b. b \<noteq> 0) region \<and> 0 \<in> set region"
    then have "dropWhile (\<lambda>b. b \<noteq> 0) region \<noteq> []" by (auto simp: dropWhile_eq_Nil_conv)
    then obtain z rest where d: "dropWhile (\<lambda>b. b \<noteq> 0) region = z # rest" by (meson neq_Nil_conv)
    then have "z = 0" using hd_dropWhile [of "\<lambda>b. b \<noteq> 0" region] by simp
    with l d have "region = name @ 0 # rest" by (metis takeWhile_dropWhile_id)
    moreover have "0 \<notin> set name" using l by (metis set_takeWhileD)
    ultimately show "0 \<notin> set name \<and> (\<exists>rest. region = name @ 0 # rest)" by blast
  next
    assume "0 \<notin> set name \<and> (\<exists>rest. region = name @ 0 # rest)"
    then obtain rest where r: "region = name @ 0 # rest" and z: "0 \<notin> set name" by blast
    have "\<forall>b\<in>set name. b \<noteq> 0" using z by blast
    then have "takeWhile (\<lambda>b. b \<noteq> 0) (name @ 0 # rest) = name" by (induction name) auto
    with r show "name = takeWhile (\<lambda>b. b \<noteq> 0) region \<and> 0 \<in> set region" by simp
  qed
  show ?thesis
    using split [of name "drop start (take stop bs)"] by (auto simp: cstring_def Let_def)
qed

lemma cstring_pos:
  "cstring bs start stop = Inr (name, pos) \<Longrightarrow> start < pos \<and> pos \<le> stop"
proof -
  assume "cstring bs start stop = Inr (name, pos)"
  then obtain rest where "start \<le> stop" "stop \<le> length bs" "drop start (take stop bs) = name @ 0 # rest"
    "pos = start + length name + 1" by (auto simp: cstring_Inr)
  moreover from this have "stop - start = length name + 1 + length rest"
    by (metis (no_types, lifting) One_nat_def add.right_neutral add_Suc_right length_append length_drop
        length_take list.size(4) min.absorb2 add.assoc add.commute)
  ultimately show ?thesis by linarith
qed

lemma cursor_facts:
  assumes "cend c \<le> length (cbytes c)" and "cpos c \<le> cend c" and "steps_ok c d"
  shows "cend d \<le> length (cbytes d) \<and> cpos c \<le> cpos d \<and> cpos d \<le> cend c \<and> cend d = cend c \<and> cbytes d = cbytes c"
  using assms by (auto simp: steps_ok_def)

text \<open>The documents inside a value.\<close>

fun nested :: "element \<Rightarrow> u8 list option" where
  "nested (Document d) = Some d"
| "nested (Array d) = Some d"
| "nested (CodeWithScope _ d) = Some d"
| "nested _ = None"

definition reads_inside :: "cursor \<Rightarrow> read_error + element \<times> cursor \<Rightarrow> bool" where
  "reads_inside c r \<longleftrightarrow> (cend c \<le> length (cbytes c) \<and> cpos c \<le> cend c \<longrightarrow>
     (\<forall>v d. r = Inr (v, d) \<longrightarrow> cpos c \<le> cpos d \<and> cpos d \<le> cend c \<and>
       (\<forall>doc. nested v = Some doc \<longrightarrow> length doc \<le> cend c - cpos c)))"

lemma reads_insideI:
  assumes "\<And>v d. cend c \<le> length (cbytes c) \<Longrightarrow> cpos c \<le> cend c \<Longrightarrow> r = Inr (v, d) \<Longrightarrow>
      steps_ok c d \<and> (\<forall>doc. nested v = Some doc \<longrightarrow> length doc \<le> cend c - cpos c)"
  shows "reads_inside c r"
  using assms unfolding reads_inside_def steps_ok_def by blast

lemma inside_if: "reads_inside c a \<Longrightarrow> reads_inside c b \<Longrightarrow> reads_inside c (if p then a else b)"
  by simp

lemma inside_error: "reads_inside c (Inl e)"
  by (simp add: reads_inside_def)

lemma inside_none: "nested v = None \<Longrightarrow> reads_inside c (Inr (v, c))"
  by (rule reads_insideI) simp

lemma inside_value: "(\<And>bs. nested (f bs) = None) \<Longrightarrow> reads_inside c (take_value n f c)"
  by (rule reads_insideI) (auto simp: take_value_def result_simps dest: slice_steps)

lemma inside_string: "(\<And>s. nested (f s) = None) \<Longrightarrow>
    reads_inside c (res_bind (read_string c) (\<lambda>(s, c). Inr (f s, c)))"
  by (rule reads_insideI) (auto simp: result_simps dest: read_string_steps)

lemma inside_pointer: "reads_inside c (res_bind (read_string c) (\<lambda>(s, c). take_value n (DbPointer s) c))"
  by (rule reads_insideI)
     (auto simp: take_value_def result_simps dest!: read_string_steps slice_steps intro: steps_ok_trans)

lemma inside_document: "(\<And>d. nested (f d) = Some d) \<Longrightarrow>
    reads_inside c (res_bind (read_document c) (\<lambda>(d, c). Inr (f d, c)))"
  by (rule reads_insideI) (auto simp: result_simps dest!: read_document_steps)

lemma binary_payload_plain: "binary_payload at tag bs = Inr v \<Longrightarrow> nested v = None"
  by (auto simp: binary_payload_def Let_def split: if_splits)

lemma inside_binary: "reads_inside c (read_binary c)"
proof (rule reads_insideI)
  fix v d assume r: "read_binary c = Inr (v, d)"
  have "nested v = None"
    using r by (auto simp: read_binary_def result_simps dest!: binary_payload_plain)
  with read_binary_steps [OF r]
  show "steps_ok c d \<and> (\<forall>doc. nested v = Some doc \<longrightarrow> length doc \<le> cend c - cpos c)" by simp
qed

lemma inside_boolean:
  "reads_inside c (res_bind (slice 1 c) (\<lambda>(bs, c).
     if hd bs = 0 then Inr (Boolean False, c) else if hd bs = 1 then Inr (Boolean True, c)
     else Inl (BadBoolean (cpos c - 1) (hd bs))))"
  by (rule reads_insideI) (auto simp: result_simps dest: slice_steps split: if_splits)

lemma inside_code: "reads_inside c (read_code_with_scope c)"
  by (rule reads_insideI) (auto dest!: read_code_steps)

lemma inside_regex:
  "reads_inside c (res_bind (cstring (cbytes c) (cpos c) (cend c)) (\<lambda>(pattern, pos).
     res_bind (cstring (cbytes c) pos (cend c)) (\<lambda>(options, pos). Inr (Regex pattern options, c\<lparr>cpos := pos\<rparr>))))"
  by (rule reads_insideI) (auto simp: result_simps steps_ok_def dest!: cstring_pos)

lemma read_value_inside: "reads_inside c (read_value start tag c)"
  unfolding read_value_def
  by (intro inside_if inside_value inside_string inside_document inside_binary inside_none inside_boolean
      inside_regex inside_pointer inside_code inside_error) simp_all

lemma read_element_steps:
  assumes "read_element bs start = Inr ((name, v), pos)"
  shows "start + 1 < pos \<and> pos \<le> length bs - 1 \<and> (\<forall>doc. nested v = Some doc \<longrightarrow> length doc < length bs)"
proof -
  from assms obtain after c where n: "cstring bs (start + 1) (length bs - 1) = Inr (name, after)"
    and r: "read_value start (bs ! start) \<lparr>cbytes = bs, cpos = after, cend = length bs - 1\<rparr> = Inr (v, c)"
    and pos: "pos = cpos c"
    by (auto simp: read_element_def result_simps)
  from cstring_pos [OF n] have "start + 1 < after" "after \<le> length bs - 1" by auto
  with read_value_inside [of "\<lparr>cbytes = bs, cpos = after, cend = length bs - 1\<rparr>" start "bs ! start"] r
  show ?thesis by (auto simp: reads_inside_def pos)
qed

section \<open>The elements of a document\<close>

record elements =
  ebytes :: "u8 list"
  epos :: nat
  edone :: bool

definition iter :: "u8 list \<Rightarrow> elements" where
  "iter doc = \<lparr>ebytes = doc, epos = 4, edone = False\<rparr>"

definition next_element :: "elements \<Rightarrow> (read_error + utf8 \<times> element) option \<times> elements" where
  "next_element st =
     (if edone st then (None, st)
      else if epos st = length (ebytes st) - 1 then (None, st\<lparr>edone := True\<rparr>)
      else (case read_element (ebytes st) (epos st) of
              Inl e \<Rightarrow> (Some (Inl e), st\<lparr>edone := True\<rparr>)
            | Inr (item, pos) \<Rightarrow> (Some (Inr item), st\<lparr>epos := pos\<rparr>)))"

text \<open>What a \<open>for\<close> loop over the elements sees before its first error.\<close>

function collect :: "elements \<Rightarrow> read_error + (utf8 \<times> element) list" where
  "collect st =
     (case next_element st of
        (None, _) \<Rightarrow> Inr []
      | (Some (Inl e), _) \<Rightarrow> Inl e
      | (Some (Inr item), st') \<Rightarrow> res_bind (collect st') (\<lambda>items. Inr (item # items)))"
  by pat_completeness auto
termination
proof (relation "measure (\<lambda>st. length (ebytes st) - epos st)")
  fix st :: elements and x st' y item
  assume "(x, st') = next_element st" "x = Some y" "y = Inr item"
  then obtain pos where "read_element (ebytes st) (epos st) = Inr (item, pos)" "st' = st\<lparr>epos := pos\<rparr>"
    by (auto simp: next_element_def split: if_splits sum.splits prod.splits)
  moreover from this read_element_steps [of "ebytes st" "epos st" "fst item" "snd item" pos]
  have "epos st + 1 < pos" "pos \<le> length (ebytes st) - 1" by simp_all
  then have "length (ebytes st) - pos < length (ebytes st) - epos st" by linarith
  ultimately show "(st', st) \<in> measure (\<lambda>st. length (ebytes st) - epos st)" by simp
qed simp

declare collect.simps [simp del]

text \<open>\<open>Document::get\<close>: the first element of that name, an error met on the way coming first.\<close>

function get_from :: "utf8 \<Rightarrow> elements \<Rightarrow> read_error + element option" where
  "get_from name st =
     (case next_element st of
        (None, _) \<Rightarrow> Inr None
      | (Some (Inl e), _) \<Rightarrow> Inl e
      | (Some (Inr (k, v)), st') \<Rightarrow> if k = name then Inr (Some v) else get_from name st')"
  by pat_completeness auto
termination
proof (relation "measure (\<lambda>(_, st). length (ebytes st) - epos st)")
  fix name :: utf8 and st :: elements and x st' y item k v
  assume "(x, st') = next_element st" "x = Some y" "y = Inr item" "(k, v) = item"
  then obtain pos where "read_element (ebytes st) (epos st) = Inr (item, pos)" "st' = st\<lparr>epos := pos\<rparr>"
    by (auto simp: next_element_def split: if_splits sum.splits prod.splits)
  moreover from this read_element_steps [of "ebytes st" "epos st" "fst item" "snd item" pos]
  have "epos st + 1 < pos" "pos \<le> length (ebytes st) - 1" by simp_all
  then have "length (ebytes st) - pos < length (ebytes st) - epos st" by linarith
  ultimately show "((name, st'), (name, st)) \<in> measure (\<lambda>(_, st). length (ebytes st) - epos st)" by simp
qed simp

declare get_from.simps [simp del]

definition get :: "u8 list \<Rightarrow> utf8 \<Rightarrow> read_error + element option" where
  "get doc name = get_from name (iter doc)"

section \<open>Validation\<close>

lemma next_element_nested:
  assumes "next_element st = (Some (Inr (k, v)), st')"
  shows "ebytes st' = ebytes st \<and> length (ebytes st') - epos st' < length (ebytes st) - epos st \<and>
    (\<forall>doc. nested v = Some doc \<longrightarrow> length doc < length (ebytes st))"
proof -
  from assms obtain pos where r: "read_element (ebytes st) (epos st) = Inr ((k, v), pos)" "st' = st\<lparr>epos := pos\<rparr>"
    by (auto simp: next_element_def split: if_splits sum.splits prod.splits)
  from read_element_steps [OF r(1)] have "epos st + 1 < pos" "pos \<le> length (ebytes st) - 1"
    "\<forall>doc. nested v = Some doc \<longrightarrow> length doc < length (ebytes st)" by blast+
  moreover from this have "length (ebytes st) - pos < length (ebytes st) - epos st" by linarith
  ultimately show ?thesis using r(2) by simp
qed

function walk :: "u8 list \<Rightarrow> nat \<Rightarrow> read_error + unit"
  and walk_elements :: "elements \<Rightarrow> nat \<Rightarrow> read_error + unit" where
  "walk doc d = (if d > MAX_DEPTH then Inl ReadTooDeep else walk_elements (iter doc) d)"
| "walk_elements st d =
     (case next_element st of
        (None, _) \<Rightarrow> Inr ()
      | (Some (Inl e), _) \<Rightarrow> Inl e
      | (Some (Inr (_, v)), st') \<Rightarrow>
          (case nested v of
             Some inner \<Rightarrow> res_bind (walk inner (d + 1)) (\<lambda>_. walk_elements st' d)
           | None \<Rightarrow> walk_elements st' d))"
  by pat_completeness auto
termination
  by (relation "inv_image (less_than <*lex*> less_than)
        (\<lambda>x. case x of Inl (doc, _) \<Rightarrow> (length doc, Suc (length doc))
           | Inr (st, _) \<Rightarrow> (length (ebytes st), length (ebytes st) - epos st))")
     (auto simp: iter_def dest!: next_element_nested [OF sym])

declare walk.simps [simp del] walk_elements.simps [simp del]

definition validate :: "u8 list \<Rightarrow> read_error + unit" where
  "validate bs = res_bind (new_document bs) (\<lambda>doc. walk doc 1)"

fun well_nested :: "nat \<Rightarrow> u8 list \<Rightarrow> bool" where
  "well_nested 0 doc \<longleftrightarrow> False"
| "well_nested (Suc n) doc \<longleftrightarrow>
     (case collect (iter doc) of
        Inl _ \<Rightarrow> False
      | Inr items \<Rightarrow> list_all (\<lambda>item. case nested (snd item) of Some d \<Rightarrow> well_nested n d | None \<Rightarrow> True) items)"

lemma walk_iff:
  "walk doc d = Inr () \<longleftrightarrow> well_nested (MAX_DEPTH + 1 - d) doc"
  "walk_elements st d = Inr () \<longleftrightarrow>
     (case collect st of
        Inl _ \<Rightarrow> False
      | Inr items \<Rightarrow> list_all (\<lambda>item. case nested (snd item) of
            Some i \<Rightarrow> well_nested (MAX_DEPTH - d) i | None \<Rightarrow> True) items)"
proof (induction doc d and st d rule: walk_walk_elements.induct)
  case (1 doc d)
  show ?case
  proof (cases "d > MAX_DEPTH")
    case False
    then have "MAX_DEPTH + 1 - d = Suc (MAX_DEPTH - d)" by simp
    with "1.IH" [OF False] False show ?thesis by (simp add: walk.simps)
  qed (simp add: walk.simps)
next
  case (2 st d)
  obtain r st' where n: "next_element st = (r, st')" by fastforce
  show ?case
  proof (cases r)
    case None
    with n show ?thesis by (simp add: walk_elements.simps [of st] collect.simps [of st])
  next
    case (Some x)
    show ?thesis
    proof (cases x)
      case (Inl e)
      with n Some show ?thesis by (simp add: walk_elements.simps [of st] collect.simps [of st])
    next
      case (Inr item)
      obtain k v where kv: "item = (k, v)" by (cases item)
      show ?thesis
      proof (cases "nested v")
        case None
        with "2.IH"(1) [OF n [symmetric] Some Inr kv [symmetric] None] n Some Inr kv show ?thesis
          by (simp add: walk_elements.simps [of st] collect.simps [of st] split: sum.split)
      next
        case inner: (Some i)
        note ih = "2.IH"(2) [OF n [symmetric] Some Inr kv [symmetric] inner]
          "2.IH"(3) [OF n [symmetric] Some Inr kv [symmetric] inner]
        show ?thesis
        proof (cases "walk i (d + 1)")
          case (Inl e)
          with ih n Some Inr kv inner \<open>x = Inr item\<close> show ?thesis
            by (auto simp: result_simps walk_elements.simps [of st] collect.simps [of st] split: sum.split)
        next
          case (Inr u)
          with ih n Some kv inner \<open>x = Inr item\<close> show ?thesis
            by (simp add: walk_elements.simps [of st] collect.simps [of st] split: sum.split)
        qed
      qed
    qed
  qed
qed

text \<open>
  C11: validation is exactly what it says. It accepts bytes that frame one document, whose
  elements all read, and whose nested documents, to a depth of \<open>MAX_DEPTH\<close>, do so too; it always
  returns, on any input.
\<close>

theorem validate_iff:
  "validate bs = Inr () \<longleftrightarrow> new_document bs = Inr bs \<and> well_nested MAX_DEPTH bs"
proof -
  have "new_document bs = Inr doc \<Longrightarrow> doc = bs" for doc
    by (auto simp: new_document_def framed_def result_simps split: if_splits)
  then show ?thesis
    by (auto simp: validate_def result_simps walk_iff)
qed

section \<open>The format\<close>

text \<open>A document as a tree, and its bytes as the specification of BSON gives them.\<close>

datatype bval =
    BDouble u64 | BString utf8 | BDocument "(utf8 \<times> bval) list" | BArray "bval list"
  | BBinary u8 "u8 list" | BUndefined | BObjectId "u8 list" | BBoolean bool | BDateTime u64 | BNull
  | BRegex utf8 utf8 | BCode utf8 | BSymbol utf8 | BCodeWithScope utf8 "(utf8 \<times> bval) list"
  | BInt32 u32 | BTimestamp u64 | BInt64 u64 | BDecimal128 "u8 list" | BMinKey | BMaxKey

fun tag_of :: "bval \<Rightarrow> u8" where
  "tag_of (BDouble _) = 0x01" | "tag_of (BString _) = 0x02" | "tag_of (BDocument _) = 0x03"
| "tag_of (BArray _) = 0x04" | "tag_of (BBinary _ _) = 0x05" | "tag_of BUndefined = 0x06"
| "tag_of (BObjectId _) = 0x07" | "tag_of (BBoolean _) = 0x08" | "tag_of (BDateTime _) = 0x09"
| "tag_of BNull = 0x0A" | "tag_of (BRegex _ _) = 0x0B" | "tag_of (BCode _) = 0x0D"
| "tag_of (BSymbol _) = 0x0E" | "tag_of (BCodeWithScope _ _) = 0x0F" | "tag_of (BInt32 _) = 0x10"
| "tag_of (BTimestamp _) = 0x11" | "tag_of (BInt64 _) = 0x12" | "tag_of (BDecimal128 _) = 0x13"
| "tag_of BMinKey = 0xFF" | "tag_of BMaxKey = 0x7F"

definition enc_string :: "utf8 \<Rightarrow> u8 list" where
  "enc_string s = le32 (word_of_nat (length s + 1)) @ s @ [0]"

definition frame :: "u8 list \<Rightarrow> u8 list" where
  "frame body = le32 (word_of_nat (length body + 5)) @ body @ [0]"

definition sorted_options :: "utf8 \<Rightarrow> utf8" where
  "sorted_options o' = concat (sort (utf8_chars o'))"

fun enc_val :: "bval \<Rightarrow> u8 list"
  and enc_fields :: "(utf8 \<times> bval) list \<Rightarrow> u8 list"
  and enc_items :: "nat \<Rightarrow> bval list \<Rightarrow> u8 list" where
  "enc_val (BDouble v) = le64 v"
| "enc_val (BString s) = enc_string s"
| "enc_val (BDocument fs) = frame (enc_fields fs)"
| "enc_val (BArray vs) = frame (enc_items 0 vs)"
| "enc_val (BBinary t bs) =
     (if t = 2 then le32 (word_of_nat (length bs + 4)) @ [t] @ le32 (word_of_nat (length bs)) @ bs
      else le32 (word_of_nat (length bs)) @ [t] @ bs)"
| "enc_val BUndefined = []"
| "enc_val (BObjectId bs) = bs"
| "enc_val (BBoolean b) = [if b then 1 else 0]"
| "enc_val (BDateTime v) = le64 v"
| "enc_val BNull = []"
| "enc_val (BRegex p o') = p @ [0] @ sorted_options o' @ [0]"
| "enc_val (BCode s) = enc_string s"
| "enc_val (BSymbol s) = enc_string s"
| "enc_val (BCodeWithScope s fs) =
     (let rest = enc_string s @ frame (enc_fields fs) in le32 (word_of_nat (length rest + 4)) @ rest)"
| "enc_val (BInt32 v) = le32 v"
| "enc_val (BTimestamp v) = le64 v"
| "enc_val (BInt64 v) = le64 v"
| "enc_val (BDecimal128 bs) = bs"
| "enc_val BMinKey = []"
| "enc_val BMaxKey = []"
| "enc_fields [] = []"
| "enc_fields ((k, v) # fs) = [tag_of v] @ k @ [0] @ enc_val v @ enc_fields fs"
| "enc_items i [] = []"
| "enc_items i (v # vs) = [tag_of v] @ decimal i @ [0] @ enc_val v @ enc_items (i + 1) vs"

text \<open>The same tree driven through the writer, call by call.\<close>

fun wr_val :: "bval \<Rightarrow> writer \<Rightarrow> write_error + writer"
  and wr_fields :: "(utf8 \<times> bval) list \<Rightarrow> writer \<Rightarrow> write_error + writer"
  and wr_items :: "nat \<Rightarrow> bval list \<Rightarrow> writer \<Rightarrow> write_error + writer" where
  "wr_val (BDouble v) w = Inr (w_double v w)"
| "wr_val (BString s) w = w_string s w"
| "wr_val (BDocument fs) w =
     res_bind (start_document w) (\<lambda>w. res_bind (wr_fields fs w) end_document)"
| "wr_val (BArray vs) w =
     res_bind (start_document w) (\<lambda>w. res_bind (wr_items 0 vs w) end_document)"
| "wr_val (BBinary t bs) w = w_binary t bs w"
| "wr_val BUndefined w = Inr w"
| "wr_val (BObjectId bs) w = Inr (raw bs w)"
| "wr_val (BBoolean b) w = Inr (w_boolean b w)"
| "wr_val (BDateTime v) w = Inr (w_int64 v w)"
| "wr_val BNull w = Inr w"
| "wr_val (BRegex p o') w = w_regex p o' w"
| "wr_val (BCode s) w = w_string s w"
| "wr_val (BSymbol s) w = w_string s w"
| "wr_val (BCodeWithScope s fs) w =
     res_bind (start_code_with_scope s w) (\<lambda>w.
     res_bind (start_document w) (\<lambda>w.
     res_bind (wr_fields fs w) (\<lambda>w.
     res_bind (end_document w) end_code_with_scope)))"
| "wr_val (BInt32 v) w = Inr (w_int32 v w)"
| "wr_val (BTimestamp v) w = Inr (w_timestamp v w)"
| "wr_val (BInt64 v) w = Inr (w_int64 v w)"
| "wr_val (BDecimal128 bs) w = Inr (raw bs w)"
| "wr_val BMinKey w = Inr w"
| "wr_val BMaxKey w = Inr w"
| "wr_fields [] w = Inr w"
| "wr_fields ((k, v) # fs) w =
     res_bind (key (tag_of v) k w) (\<lambda>w. res_bind (wr_val v w) (\<lambda>w. wr_fields fs w))"
| "wr_items i [] w = Inr w"
| "wr_items i (v # vs) w =
     res_bind (wr_val v (index_key (tag_of v) i w)) (\<lambda>w. wr_items (i + 1) vs w)"

text \<open>
  What can be written with \<open>n\<close> documents already open: names and patterns without NUL, raw parts
  of their width, and no document nested past the bound.
\<close>

fun writable :: "nat \<Rightarrow> bval \<Rightarrow> bool"
  and writable_fields :: "nat \<Rightarrow> (utf8 \<times> bval) list \<Rightarrow> bool"
  and writable_items :: "nat \<Rightarrow> bval list \<Rightarrow> bool" where
  "writable n (BString s) \<longleftrightarrow> utf8_valid s"
| "writable n (BDocument fs) \<longleftrightarrow> n < MAX_DEPTH \<and> writable_fields (n + 1) fs"
| "writable n (BArray vs) \<longleftrightarrow> n < MAX_DEPTH \<and> writable_items (n + 1) vs"
| "writable n (BObjectId bs) \<longleftrightarrow> length bs = 12"
| "writable n (BDecimal128 bs) \<longleftrightarrow> length bs = 16"
| "writable n (BRegex p o') \<longleftrightarrow> 0 \<notin> set p \<and> 0 \<notin> set o' \<and> utf8_valid p \<and> utf8_valid o'"
| "writable n (BCode s) \<longleftrightarrow> utf8_valid s"
| "writable n (BSymbol s) \<longleftrightarrow> utf8_valid s"
| "writable n (BCodeWithScope s fs) \<longleftrightarrow> utf8_valid s \<and> n + 1 < MAX_DEPTH \<and> writable_fields (n + 2) fs"
| "writable n _ \<longleftrightarrow> True"
| "writable_fields n [] \<longleftrightarrow> True"
| "writable_fields n ((k, v) # fs) \<longleftrightarrow> 0 \<notin> set k \<and> utf8_valid k \<and> writable n v \<and> writable_fields n fs"
| "writable_items n [] \<longleftrightarrow> True"
| "writable_items n (v # vs) \<longleftrightarrow> writable n v \<and> writable_items n vs"

lemma raw_simps [simp]:
  "raw a (raw b w) = raw (b @ a) w" "opened (raw a w) = opened w" "buf (raw a w) = buf w @ a"
  "raw [] w = w"
  by (simp_all add: raw_def)

lemma length_frame [simp]: "length (frame body) = length body + 5"
  by (simp add: frame_def le32.enc_length)

lemma length_enc_string [simp]: "length (enc_string s) = length s + 5"
  by (simp add: enc_string_def le32.enc_length)

lemma w_string_enc: "length s + 1 < 2 ^ 31 \<Longrightarrow> w_string s w = Inr (raw (enc_string s) w)"
  by (simp add: w_string_def i32_of_len_def enc_string_def)

text \<open>Closing a document: the four bytes reserved at its start become its length.\<close>

lemma patched:
  "length body + 4 < 2 ^ 31 \<Longrightarrow>
   patch_len (length (buf w)) (raw ([0, 0, 0, 0] @ body) (w\<lparr>opened := os\<rparr>)) =
     Inr (raw (le32 (word_of_nat (length body + 4)) @ body) (w\<lparr>opened := os\<rparr>))"
  by (simp add: patch_len_def i32_of_len_def raw_def add.commute)

lemma end_document_enc:
  assumes "length body + 5 < 2 ^ 31"
  shows "end_document (raw ([0, 0, 0, 0] @ body) (w\<lparr>opened := opened w @ [length (buf w)]\<rparr>)) = Inr (raw (frame body) w)"
  using patched [of "body @ [0]" w "opened w"] assms
  by (simp add: end_document_def frame_def raw_def add.commute)

lemma start_document_enc:
  "length (opened w) < MAX_DEPTH \<Longrightarrow>
   start_document w = Inr (raw [0, 0, 0, 0] (w\<lparr>opened := opened w @ [length (buf w)]\<rparr>))"
  by (simp add: start_document_def)

lemma wr_enc:
  "writable n v \<Longrightarrow> length (opened w) = n \<Longrightarrow> length (enc_val v) < 2 ^ 31 \<Longrightarrow>
     wr_val v w = Inr (raw (enc_val v) w)"
  "writable_fields n fs \<Longrightarrow> length (opened w) = n \<Longrightarrow> length (enc_fields fs) < 2 ^ 31 \<Longrightarrow>
     wr_fields fs w = Inr (raw (enc_fields fs) w)"
  "writable_items n vs \<Longrightarrow> length (opened w) = n \<Longrightarrow> length (enc_items i vs) < 2 ^ 31 \<Longrightarrow>
     wr_items i vs w = Inr (raw (enc_items i vs) w)"
proof (induction v and fs and i vs arbitrary: n w and n w and n w rule: enc_val_enc_fields_enc_items.induct)
  case (3 fs)
  let ?w = "w\<lparr>opened := opened w @ [length (buf w)]\<rparr>"
  have "start_document w = Inr (raw [0, 0, 0, 0] ?w)" using 3 by (intro start_document_enc) simp
  moreover have "wr_fields fs (raw [0, 0, 0, 0] ?w) = Inr (raw (enc_fields fs) (raw [0, 0, 0, 0] ?w))"
    using 3 by (intro "3.IH" [of "n + 1"]) auto
  ultimately show ?case using end_document_enc [of "enc_fields fs" w] 3 by simp
next
  case (4 vs)
  let ?w = "w\<lparr>opened := opened w @ [length (buf w)]\<rparr>"
  have "start_document w = Inr (raw [0, 0, 0, 0] ?w)" using 4 by (intro start_document_enc) simp
  moreover have "wr_items 0 vs (raw [0, 0, 0, 0] ?w) = Inr (raw (enc_items 0 vs) (raw [0, 0, 0, 0] ?w))"
    using 4 by (intro "4.IH" [of "n + 1"]) auto
  ultimately show ?case using end_document_enc [of "enc_items 0 vs" w] 4 by simp
next
  case (5 t bs)
  then show ?case
    by (cases "t = 2") (simp_all add: w_binary_def i32_of_len_def le32.enc_length Let_def)
next
  case (14 s fs)
  let ?w = "w\<lparr>opened := opened w @ [length (buf w)]\<rparr>"
  let ?c = "raw ([0, 0, 0, 0] @ enc_string s) ?w"
  have len: "length s + length (enc_fields fs) + 14 < 2 ^ 31" using 14 by (simp add: Let_def le32.enc_length)
  have "start_code_with_scope s w = Inr ?c"
    using w_string_enc [of s "raw [0, 0, 0, 0] ?w"] len by (simp add: start_code_with_scope_def)
  moreover have "start_document ?c = Inr (raw [0, 0, 0, 0] (?c\<lparr>opened := opened ?c @ [length (buf ?c)]\<rparr>))"
    using 14 by (intro start_document_enc) simp
  moreover have "wr_fields fs (raw [0, 0, 0, 0] (?c\<lparr>opened := opened ?c @ [length (buf ?c)]\<rparr>)) =
      Inr (raw (enc_fields fs) (raw [0, 0, 0, 0] (?c\<lparr>opened := opened ?c @ [length (buf ?c)]\<rparr>)))"
    using 14 len by (intro "14.IH" [of "n + 2"]) auto
  moreover have "end_document (raw ([0, 0, 0, 0] @ enc_fields fs) (?c\<lparr>opened := opened ?c @ [length (buf ?c)]\<rparr>))
      = Inr (raw (frame (enc_fields fs)) ?c)"
    using len by (intro end_document_enc) simp
  moreover have "end_code_with_scope (raw (frame (enc_fields fs)) ?c) =
      Inr (raw (le32 (word_of_nat (length (enc_string s @ frame (enc_fields fs)) + 4)) @
        enc_string s @ frame (enc_fields fs)) w)"
    using patched [of "enc_string s @ frame (enc_fields fs)" w "opened w"] len
    by (simp add: end_code_with_scope_def raw_def)
  ultimately show ?case by (simp add: Let_def)
next
  case (22 k v fs)
  then have "wr_val v (raw [0] (raw k (raw [tag_of v] w))) = Inr (raw (enc_val v) (raw [0] (raw k (raw [tag_of v] w))))"
    by (intro "22.IH"(1) [of n]) auto
  moreover have "wr_fields fs w' = Inr (raw (enc_fields fs) w')" if "opened w' = opened w" for w'
    using 22 that by (intro "22.IH"(2) [of n]) auto
  ultimately show ?case using 22 by (simp add: key_def)
next
  case (24 i v vs)
  then have "wr_val v (index_key (tag_of v) i w) = Inr (raw (enc_val v) (index_key (tag_of v) i w))"
    by (intro "24.IH"(1) [of n]) (auto simp: index_key_def)
  moreover have "wr_items (i + 1) vs w' = Inr (raw (enc_items (i + 1) vs) w')" if "opened w' = opened w" for w'
    using 24 that by (intro "24.IH"(2) [of n]) auto
  ultimately show ?case by (simp add: index_key_def)
qed (simp_all add: w_string_enc w_double_def w_int64_def w_int32_def w_timestamp_def w_boolean_def
    w_binary_def i32_of_len_def w_regex_def sorted_options_def Let_def)

text \<open>
  C12: the writer writes BSON. Driven through any tree it can hold, it patches every length in
  place and leaves exactly the bytes the specification gives the tree, without an error, and
  every document it opened is closed.
\<close>

theorem writer_writes_format:
  assumes "writable 0 (BDocument fs)" and "length (enc_val (BDocument fs)) < 2 ^ 31"
  shows "res_bind (wr_val (BDocument fs) new_writer) finish = Inr (enc_val (BDocument fs))"
proof -
  have "wr_val (BDocument fs) new_writer = Inr (raw (enc_val (BDocument fs)) new_writer)"
    by (rule wr_enc(1) [of 0]) (use assms in \<open>simp_all add: new_writer_def\<close>)
  then show ?thesis by (simp add: finish_def new_writer_def)
qed

section \<open>Reading what was written\<close>

text \<open>What the reader sees of a value.\<close>

fun view :: "bval \<Rightarrow> element" where
  "view (BDouble v) = Double v"
| "view (BString s) = String s"
| "view (BDocument fs) = Document (enc_val (BDocument fs))"
| "view (BArray vs) = Array (enc_val (BArray vs))"
| "view (BBinary t bs) = Binary t bs"
| "view BUndefined = Undefined"
| "view (BObjectId bs) = ObjectId bs"
| "view (BBoolean b) = Boolean b"
| "view (BDateTime v) = DateTime v"
| "view BNull = Null"
| "view (BRegex p o') = Regex p (sorted_options o')"
| "view (BCode s) = Code s"
| "view (BSymbol s) = Symbol s"
| "view (BCodeWithScope s fs) = CodeWithScope s (frame (enc_fields fs))"
| "view (BInt32 v) = Int32 v"
| "view (BTimestamp v) = Timestamp v"
| "view (BInt64 v) = Int64 v"
| "view (BDecimal128 bs) = Decimal128 bs"
| "view BMinKey = MinKey"
| "view BMaxKey = MaxKey"

text \<open>What lies ahead of a cursor.\<close>

definition ahead :: "cursor \<Rightarrow> u8 list \<Rightarrow> bool" where
  "ahead c xs \<longleftrightarrow> (\<exists>pre post. cbytes c = pre @ xs @ post \<and> cpos c = length pre \<and>
     cend c = length pre + length xs \<and> cend c < 2 ^ 64)"

definition advance :: "nat \<Rightarrow> cursor \<Rightarrow> cursor" where
  "advance n c = c\<lparr>cpos := cpos c + n\<rparr>"

lemma advance_simps [simp]:
  "cpos (advance n c) = cpos c + n" "cend (advance n c) = cend c" "cbytes (advance n c) = cbytes c"
  "advance m (advance n c) = advance (n + m) c" "advance 0 c = c"
  by (simp_all add: advance_def add.assoc)

lemma ahead_advance: "ahead c (x @ r) \<Longrightarrow> length x = n \<Longrightarrow> ahead (advance n c) r"
  unfolding ahead_def by (elim exE conjE, rule exI [of _ "_ @ x"]) auto

lemma slice_ahead: "ahead c (x @ r) \<Longrightarrow> length x = n \<Longrightarrow> slice n c = Inr (x, advance n c)"
  by (auto simp: ahead_def slice_Inr advance_def)

lemma take_i32_ahead: "ahead c (le32 w @ r) \<Longrightarrow> take_i32 c = Inr (w, advance 4 c)"
  by (simp add: take_i32_def slice_ahead le32.enc_length le32.dec_enc)

lemma take_value_ahead: "ahead c (x @ r) \<Longrightarrow> length x = n \<Longrightarrow> take_value n f c = Inr (f x, advance n c)"
  by (simp add: take_value_def slice_ahead)

lemma read_string_ahead:
  assumes "ahead c (enc_string s @ r)" and "utf8_valid s" and "length s + 1 < 2 ^ 31"
  shows "read_string c = Inr (s, advance (length s + 5) c)"
proof -
  have a: "ahead c (le32 (word_of_nat (length s + 1)) @ ((s @ [0]) @ r))"
    using assms(1) by (simp add: enc_string_def)
  have b: "ahead (advance 4 c) ((s @ [0]) @ r)" using ahead_advance [OF a] le32.enc_length by blast
  have "len_of_i32 (word_of_nat (length s + 1)) = Some (length s + 1)"
    using assms(3) by (intro len_of_i32_small) simp
  moreover have "slice (length s + 1) (advance 4 c) = Inr (s @ [0], advance (length s + 1) (advance 4 c))"
    using slice_ahead [OF b] by simp
  ultimately show ?thesis
    using assms(2) by (simp add: read_string_def take_i32_ahead [OF a])
qed

lemma read_len_frame:
  "length body + 5 < 2 ^ 31 \<Longrightarrow> read_len (frame body @ r) offset = Inr (length body + 5)"
  using len_of_i32_small [of "length body + 5"]
  by (simp add: read_len_def Let_def le32.enc_length le32.dec_enc frame_def)

lemma framed_frame: "framed (frame body) offset = Inr (frame body)"
  by (simp add: framed_def) (simp add: frame_def)

lemma prefix_frame:
  "length body + 5 < 2 ^ 31 \<Longrightarrow> prefix_document (frame body @ r) offset = Inr (frame body)"
  by (simp add: prefix_document_def read_len_frame framed_frame)

lemma read_document_ahead:
  "ahead c (frame body @ r) \<Longrightarrow> length body + 5 < 2 ^ 31 \<Longrightarrow>
     read_document c = Inr (frame body, advance (length body + 5) c)"
  by (auto simp: read_document_def ahead_def prefix_frame advance_def)

lemma new_document_frame: "length body + 5 < 2 ^ 31 \<Longrightarrow> new_document (frame body) = Inr (frame body)"
  using read_len_frame [of body "[]" 0] by (simp add: new_document_def framed_frame)

lemma cstring_ahead:
  assumes "ahead c (s @ 0 # r)" and "0 \<notin> set s" and "utf8_valid s"
  shows "cstring (cbytes c) (cpos c) (cend c) = Inr (s, cpos (advance (length s + 1) c))"
  using assms by (auto simp: cstring_Inr ahead_def)

text \<open>Sorting the options keeps their characters.\<close>

lemma concat_utf8_chars: "concat (utf8_chars s) = s"
proof (induction s rule: utf8_chars.induct)
  case (1 s)
  show ?case
  proof (cases "utf8_next s")
    case (Some r)
    then obtain ch where ch: "ch \<noteq> []" "s = ch @ r" using utf8_next_suffix by blast
    then have "s \<noteq> []" by simp
    with "1.IH" [OF this Some] Some have "concat (utf8_chars s) = take (length s - length r) s @ r"
      by (subst utf8_chars.simps) simp
    with ch show ?thesis by simp
  qed (simp add: utf8_chars.simps)
qed

lemma utf8_chars_valid: "utf8_valid s \<Longrightarrow> c \<in> set (utf8_chars s) \<Longrightarrow> utf8_next c = Some []"
proof (induction s rule: utf8_chars.induct)
  case (1 s)
  show ?case
  proof (cases "s = []")
    case False
    with "1.prems"(1) obtain r where r: "utf8_next s = Some r" "utf8_valid r"
      by (subst (asm) utf8_valid.simps) (auto split: option.splits)
    obtain ch where ch: "s = ch @ r" "utf8_next ch = Some []" using utf8_next_char [OF r(1)] by blast
    have "utf8_chars s = take (length s - length r) s # utf8_chars r"
      using False r(1) by (subst utf8_chars.simps) simp
    also have "take (length s - length r) s = ch" using ch(1) by simp
    finally show ?thesis using "1.prems"(2) "1.IH" [OF False r] ch(2) by auto
  qed (use "1.prems" in \<open>simp add: utf8_chars.simps\<close>)
qed

lemma utf8_valid_chars: "\<forall>c\<in>set cs. utf8_next c = Some [] \<Longrightarrow> utf8_valid (concat cs)"
proof (induction cs)
  case (Cons c cs)
  then have "utf8_valid c" by (subst utf8_valid.simps) simp
  with Cons show ?case by (simp add: utf8_valid_append)
qed simp

lemma sorted_options_valid: "utf8_valid s \<Longrightarrow> utf8_valid (sorted_options s)"
  unfolding sorted_options_def by (rule utf8_valid_chars) (auto dest: utf8_chars_valid)

lemma set_sorted_options: "set (sorted_options s) = set s"
proof -
  have "set (sorted_options s) = set (concat (utf8_chars s))" by (simp add: sorted_options_def)
  then show ?thesis by (simp only: concat_utf8_chars)
qed

lemma read_binary_ahead:
  assumes "ahead c (enc_val (BBinary t bs) @ r)" and "length (enc_val (BBinary t bs)) < 2 ^ 31"
  shows "read_binary c = Inr (Binary t bs, advance (length (enc_val (BBinary t bs))) c)"
proof -
  define body where "body = (if t = 2 then le32 (word_of_nat (length bs)) @ bs else bs)"
  have enc: "enc_val (BBinary t bs) = le32 (word_of_nat (length body)) @ [t] @ body"
    by (simp add: body_def le32.enc_length add.commute)
  have len: "length body < 2 ^ 31" using assms(2) unfolding enc by (simp add: le32.enc_length)
  have 1: "ahead c (le32 (word_of_nat (length body)) @ [t] @ body @ r)" using assms(1) unfolding enc by simp
  have 2: "ahead (advance 4 c) ([t] @ body @ r)" using ahead_advance [OF 1] le32.enc_length by blast
  have 3: "ahead (advance 5 c) (body @ r)" using ahead_advance [OF 2, of 1] by simp
  have "binary_payload (cpos c) t body = Inr (Binary t bs)"
    using len len_of_i32_small [of "length bs"]
    by (auto simp: binary_payload_def body_def le32.enc_length le32.dec_enc Let_def)
  moreover have "slice 1 (advance 4 c) = Inr ([t], advance 5 c)" using slice_ahead [OF 2, of 1] by simp
  moreover have "slice (length body) (advance 5 c) = Inr (body, advance (5 + length body) c)"
    using slice_ahead [OF 3] by simp
  ultimately show ?thesis
    using len_of_i32_small [OF len] unfolding enc
    by (simp add: read_binary_def take_i32_ahead [OF 1] le32.enc_length add.commute)
qed

lemma read_regex_ahead:
  assumes "ahead c (p @ [0] @ o' @ [0] @ r)" and "0 \<notin> set p" "0 \<notin> set o'" "utf8_valid p" "utf8_valid o'"
  shows "cstring (cbytes c) (cpos c) (cend c) = Inr (p, cpos c + length p + 1)"
    and "cstring (cbytes c) (cpos c + length p + 1) (cend c) = Inr (o', cpos c + length p + length o' + 2)"
proof -
  show "cstring (cbytes c) (cpos c) (cend c) = Inr (p, cpos c + length p + 1)"
    using cstring_ahead [of c p] assms by simp
  have "ahead (advance (length p + 1) c) (o' @ 0 # r)"
    using ahead_advance [of c "p @ [0]"] assms(1) by simp
  from cstring_ahead [OF this assms(3,5)]
  show "cstring (cbytes c) (cpos c + length p + 1) (cend c) = Inr (o', cpos c + length p + length o' + 2)"
    by (simp add: add.assoc)
qed

lemma read_code_ahead:
  assumes "ahead c (enc_val (BCodeWithScope s fs) @ r)" and "length (enc_val (BCodeWithScope s fs)) < 2 ^ 31"
    and "utf8_valid s"
  shows "read_code_with_scope c =
    Inr (CodeWithScope s (frame (enc_fields fs)), advance (length (enc_val (BCodeWithScope s fs))) c)"
proof -
  define body where "body = enc_string s @ frame (enc_fields fs)"
  have enc: "enc_val (BCodeWithScope s fs) = le32 (word_of_nat (length body + 4)) @ body"
    by (simp add: body_def Let_def)
  have lb: "length body = length s + length (enc_fields fs) + 10" by (simp add: body_def)
  have len: "length body + 4 < 2 ^ 31" using assms(2) unfolding enc by (simp add: le32.enc_length)
  have 1: "ahead c (le32 (word_of_nat (length body + 4)) @ body @ r)" using assms(1) unfolding enc by simp
  have 2: "ahead (advance 4 c) (body @ r)" using ahead_advance [OF 1] le32.enc_length by blast
  let ?c = "(advance 4 c)\<lparr>cend := cpos c + (length body + 4)\<rparr>"
  have 3: "ahead ?c (enc_string s @ frame (enc_fields fs) @ [])"
    using 2 unfolding ahead_def body_def by (elim exE conjE) (auto simp: lb body_def)
  have stop: "checked_add_usize (cpos c) (length body + 4) = Some (cpos c + (length body + 4))"
    "cpos c + (length body + 4) \<le> cend c"
    using 1 by (auto simp: ahead_def checked_add_usize_def le32.enc_length)
  have s1: "read_string ?c = Inr (s, advance (length s + 5) ?c)"
    using read_string_ahead [OF 3 assms(3)] len lb by simp
  have 4: "ahead (advance (length s + 5) ?c) (frame (enc_fields fs) @ [])"
    using ahead_advance [OF 3] by simp
  have s2: "read_document (advance (length s + 5) ?c) =
      Inr (frame (enc_fields fs), advance (length (enc_fields fs) + 5) (advance (length s + 5) ?c))"
    using read_document_ahead [OF 4] len lb by simp
  show ?thesis
    using len_of_i32_small [OF len] stop s1 s2 lb unfolding enc
    by (simp add: read_code_with_scope_def take_i32_ahead [OF 1] le32.enc_length advance_def)
qed

lemma read_value_ahead:
  assumes "writable n v" and "length (enc_val v) < 2 ^ 31" and "ahead c (enc_val v @ r)"
  shows "read_value start (tag_of v) c = Inr (view v, advance (length (enc_val v)) c)"
proof (cases v)
  case (BString s)
  with assms read_string_ahead [of c s r] show ?thesis by (simp add: read_value_def)
next
  case (BCode s)
  with assms read_string_ahead [of c s r] show ?thesis by (simp add: read_value_def)
next
  case (BSymbol s)
  with assms read_string_ahead [of c s r] show ?thesis by (simp add: read_value_def)
next
  case (BDocument fs)
  with assms read_document_ahead [of c "enc_fields fs" r] show ?thesis by (simp add: read_value_def)
next
  case (BArray vs)
  with assms read_document_ahead [of c "enc_items 0 vs" r] show ?thesis by (simp add: read_value_def)
next
  case (BBinary t bs)
  with assms read_binary_ahead [of c t bs r] show ?thesis by (simp add: read_value_def)
next
  case (BCodeWithScope s fs)
  with assms read_code_ahead [of c s fs r] show ?thesis by (simp add: read_value_def)
next
  case (BRegex p o')
  with assms have w: "0 \<notin> set p" "0 \<notin> set (sorted_options o')" "utf8_valid p" "utf8_valid (sorted_options o')"
    by (simp_all add: set_sorted_options sorted_options_valid)
  from BRegex assms(3) have "ahead c (p @ [0] @ sorted_options o' @ [0] @ r)" by simp
  from read_regex_ahead [OF this w] BRegex show ?thesis by (simp add: read_value_def advance_def)
next
  case (BBoolean b)
  with assms(3) slice_ahead [of c "[if b then 1 else 0]" r 1] show ?thesis
    by (cases b) (simp_all add: read_value_def)
qed (use assms take_value_ahead [OF assms(3) refl] in
    \<open>simp_all add: read_value_def le32.enc_length le64.enc_length le32.dec_enc le64.dec_enc\<close>)

lemma read_element_ahead:
  assumes "bs = pre @ (tag_of v # k @ 0 # enc_val v @ rest) @ [0]" and "length bs < 2 ^ 31"
    and "0 \<notin> set k" "utf8_valid k" "writable n v"
  shows "read_element bs (length pre) = Inr ((k, view v), length pre + length k + length (enc_val v) + 2)"
proof -
  let ?c = "\<lparr>cbytes = bs, cpos = length pre + 1, cend = length bs - 1\<rparr>"
  have 1: "ahead ?c ((k @ [0]) @ enc_val v @ rest)"
    unfolding ahead_def using assms(1,2)
    by (intro exI [of _ "pre @ [tag_of v]"] exI [of _ "[0]"]) simp
  have 2: "ahead (advance (length k + 1) ?c) (enc_val v @ rest)"
    using ahead_advance [OF 1] by simp
  have "cstring bs (length pre + 1) (length bs - 1) = Inr (k, length pre + length k + 2)"
    using cstring_ahead [of ?c k "enc_val v @ rest"] 1 assms(3,4) by simp
  moreover have "length (enc_val v) < 2 ^ 31" using assms(1,2) by simp
  moreover have "bs ! length pre = tag_of v" using assms(1) by simp
  ultimately show ?thesis
    using read_value_ahead [OF assms(5) _ 2] by (simp add: read_element_def advance_def)
qed

lemma collect_step:
  assumes "read_element bs p = Inr (item, p')" and "p \<noteq> length bs - 1"
  shows "collect \<lparr>ebytes = bs, epos = p, edone = False\<rparr> =
    res_bind (collect \<lparr>ebytes = bs, epos = p', edone = False\<rparr>) (\<lambda>items. Inr (item # items))"
  using assms by (subst collect.simps) (simp add: next_element_def)

lemma collect_end: "collect \<lparr>ebytes = bs, epos = length bs - 1, edone = False\<rparr> = Inr []"
  by (subst collect.simps) (simp add: next_element_def)

lemma collect_fields:
  "bs = pre @ enc_fields fs @ [0] \<Longrightarrow> length bs < 2 ^ 31 \<Longrightarrow> writable_fields n fs \<Longrightarrow>
     collect \<lparr>ebytes = bs, epos = length pre, edone = False\<rparr> = Inr (map (\<lambda>(k, v). (k, view v)) fs)"
proof (induction fs arbitrary: pre)
  case Nil
  then show ?case using collect_end [of bs] by simp
next
  case (Cons f fs)
  obtain k v where f: "f = (k, v)" by (cases f)
  let ?pre = "pre @ tag_of v # k @ 0 # enc_val v"
  have w: "0 \<notin> set k" "utf8_valid k" "writable n v" "writable_fields n fs" using Cons.prems(3) f by simp_all
  have bs: "bs = pre @ (tag_of v # k @ 0 # enc_val v @ enc_fields fs) @ [0]" using Cons.prems(1) f by simp
  have "read_element bs (length pre) = Inr ((k, view v), length ?pre)"
    using read_element_ahead [OF bs Cons.prems(2) w(1-3)] by (simp add: add.assoc)
  moreover have "length pre \<noteq> length bs - 1" by (simp add: bs)
  moreover have "collect \<lparr>ebytes = bs, epos = length ?pre, edone = False\<rparr> = Inr (map (\<lambda>(k, v). (k, view v)) fs)"
    using bs Cons.prems(2) w(4) by (intro Cons.IH) simp_all
  ultimately show ?case using f collect_step by simp
qed

lemma decimal_name: "0 \<notin> set (decimal i) \<and> utf8_valid (decimal i)"
proof -
  have digit: "48 + word_of_nat d \<noteq> (0 :: u8) \<and> 48 + word_of_nat d < (0x80 :: u8)" if "d < 10" for d
  proof -
    have "d \<in> {0, 1, 2, 3, 4, 5, 6, 7, 8, 9}" using that by auto
    then show ?thesis by auto
  qed
  have "\<forall>b\<in>set (decimal i). b \<noteq> 0 \<and> b < 0x80"
  proof (induction i rule: decimal.induct)
    case (1 n)
    have "n mod 10 < 10" by simp
    from digit [OF this] digit [of n] 1 show ?case by (subst decimal.simps) auto
  qed
  then show ?thesis using utf8_valid_ascii by blast
qed

lemma collect_items:
  "bs = pre @ enc_items i vs @ [0] \<Longrightarrow> length bs < 2 ^ 31 \<Longrightarrow> writable_items n vs \<Longrightarrow>
     collect \<lparr>ebytes = bs, epos = length pre, edone = False\<rparr> =
       Inr (zip (map decimal [i..<i + length vs]) (map view vs))"
proof (induction vs arbitrary: pre i)
  case Nil
  then show ?case using collect_end [of bs] by simp
next
  case (Cons v vs)
  let ?pre = "pre @ tag_of v # decimal i @ 0 # enc_val v"
  have w: "0 \<notin> set (decimal i)" "utf8_valid (decimal i)" "writable n v" "writable_items n vs"
    using Cons.prems(3) decimal_name [of i] by simp_all
  have bs: "bs = pre @ (tag_of v # decimal i @ 0 # enc_val v @ enc_items (i + 1) vs) @ [0]"
    using Cons.prems(1) by simp
  have "read_element bs (length pre) = Inr ((decimal i, view v), length ?pre)"
    using read_element_ahead [OF bs Cons.prems(2) w(1-3)] by (simp add: add.assoc)
  moreover have "length pre \<noteq> length bs - 1" by (simp add: bs)
  moreover have "collect \<lparr>ebytes = bs, epos = length ?pre, edone = False\<rparr> =
      Inr (zip (map decimal [i + 1..<i + 1 + length vs]) (map view vs))"
    using bs Cons.prems(2) w(4) by (intro Cons.IH) simp_all
  ultimately show ?case using collect_step by (simp add: upt_conv_Cons del: upt_Suc)
qed

lemma frame_split: "length body + 5 < 2 ^ 31 \<Longrightarrow> frame body = le32 (word_of_nat (length body + 5)) @ body @ [0]"
  by (simp add: frame_def)

text \<open>
  C13: what is written reads back. The bytes the format gives a document frame it, and a loop
  over its elements sees its fields, in order, each with its name and value, nested documents
  as their own bytes, which read back in turn; an array's elements come with their indices for
  names.
\<close>

theorem format_reads_back:
  assumes "length (frame body) < 2 ^ 31"
  shows "(body = enc_fields fs \<and> writable_fields n fs \<longrightarrow>
      new_document (frame body) = Inr (frame body) \<and>
      collect (iter (frame body)) = Inr (map (\<lambda>(k, v). (k, view v)) fs)) \<and>
    (body = enc_items 0 vs \<and> writable_items n vs \<longrightarrow>
      new_document (frame body) = Inr (frame body) \<and>
      collect (iter (frame body)) = Inr (zip (map decimal [0..<length vs]) (map view vs)))"
proof -
  have len: "length body + 5 < 2 ^ 31" using assms by simp
  let ?head = "le32 (word_of_nat (length body + 5))"
  have f: "frame body = ?head @ body @ [0]" by (rule frame_split [OF len])
  have h: "length ?head = 4" by (rule le32.enc_length)
  have "collect (iter (frame body)) = Inr (map (\<lambda>(k, v). (k, view v)) fs)"
    if "body = enc_fields fs" "writable_fields n fs"
    using collect_fields [of "frame body" ?head fs n] f that assms h by (simp add: iter_def)
  moreover have "collect (iter (frame body)) = Inr (zip (map decimal [0..<length vs]) (map view vs))"
    if "body = enc_items 0 vs" "writable_items n vs"
    using collect_items [of "frame body" ?head 0 vs n] f that assms h by (simp add: iter_def)
  ultimately show ?thesis using new_document_frame [OF len] by blast
qed

theorem writer_writes_format_witness:
  "res_bind (wr_val (BDocument [([97], BInt32 1), ([98], BArray [BNull, BBoolean True])]) new_writer) finish =
     Inr (le32 27 @ [0x10, 97, 0] @ le32 1 @ [0x04, 98, 0] @ le32 12 @ [0x0A, 48, 0, 0x08, 49, 0, 1, 0, 0])"
proof -
  let ?fs = "[([97], BInt32 1), ([98], BArray [BNull, BBoolean True])]"
  have "writable 0 (BDocument ?fs)" by (simp add: MAX_DEPTH_def utf8_valid.simps)
  moreover have "length (enc_val (BDocument ?fs)) < 2 ^ 31"
    by (simp add: le32.enc_length decimal.simps)
  moreover have "enc_val (BDocument ?fs) =
      le32 27 @ [0x10, 97, 0] @ le32 1 @ [0x04, 98, 0] @ le32 12 @ [0x0A, 48, 0, 0x08, 49, 0, 1, 0, 0]"
    by (simp add: frame_def le32.enc_length decimal.simps)
  ultimately show ?thesis using writer_writes_format [of ?fs] by (simp only:)
qed

theorem format_reads_back_witness:
  "collect (iter (frame (enc_fields [([97], BInt32 7)]))) = Inr [([97], Int32 7)]"
  using format_reads_back [of "enc_fields [([97], BInt32 7)]" "[([97], BInt32 7)]" 1 "[]"]
  by (simp add: le32.enc_length utf8_valid.simps)

inductive iterating :: "u8 list \<Rightarrow> elements \<Rightarrow> bool" for doc where
  "iterating doc (iter doc)"
| "iterating doc st \<Longrightarrow> iterating doc (snd (next_element st))"

text \<open>
  Reading stays inside the bytes. From a framed document, however often its iterator is
  asked, its position is behind the length prefix and at most at the terminator, so no index
  and no slice of the reader is out of range; after an error or the end it yields nothing more.
\<close>

theorem reader_stays_inside:
  assumes "new_document bs = Inr doc" and "iterating doc st"
  shows "4 \<le> epos st \<and> epos st < length (ebytes st) \<and> ebytes st = doc \<and>
    (edone st \<longrightarrow> next_element st = (None, st)) \<and>
    (\<forall>e. fst (next_element st) = Some (Inl e) \<longrightarrow> edone (snd (next_element st)))"
proof -
  have len: "5 \<le> length doc"
    using assms(1) by (auto simp: new_document_def framed_def result_simps split: if_splits)
  from assms(2) have "4 \<le> epos st \<and> epos st < length (ebytes st) \<and> ebytes st = doc"
  proof (induction rule: iterating.induct)
    case 1
    show ?case using len by (simp add: iter_def)
  next
    case (2 st)
    show ?case
    proof (cases "edone st \<or> epos st = length (ebytes st) - 1")
      case True
      with 2 show ?thesis by (auto simp: next_element_def)
    next
      case False
      show ?thesis
      proof (cases "read_element (ebytes st) (epos st)")
        case (Inl e)
        with 2 False show ?thesis by (auto simp: next_element_def)
      next
        case (Inr r)
        obtain k v pos where r: "r = ((k, v), pos)" by (metis prod.collapse)
        have "0 < length (ebytes st)" using 2 by auto
        with read_element_steps [OF Inr [unfolded r]] 2 False Inr r show ?thesis
          by (auto simp: next_element_def)
      qed
    qed
  qed
  then show ?thesis by (auto simp: next_element_def split: sum.splits prod.splits if_splits)
qed

theorem reader_stays_inside_witness:
  "\<exists>st. iterating [5, 0, 0, 0, 0] st \<and> edone st \<and> epos st < length (ebytes st)"
proof -
  have d: "new_document [5, 0, 0, 0, 0] = Inr [5, 0, 0, 0, 0]"
    by (simp add: new_document_def read_len_def of_le32_def len_of_i32_def framed_def)
  have "iterating [5, 0, 0, 0, 0] (snd (next_element (iter [5, 0, 0, 0, 0])))"
    by (intro iterating.intros)
  moreover have "edone (snd (next_element (iter [5, 0, 0, 0, 0])))"
    by (simp add: next_element_def iter_def)
  ultimately show ?thesis using reader_stays_inside [OF d] by blast
qed

section \<open>Hexadecimal round trip\<close>

lemma nibble_cases: "(n :: u8) < 16 \<Longrightarrow> n \<in> {0, 1, 2, 3, 4, 5, 6, 7, 8, 9, 10, 11, 12, 13, 14, 15}"
proof -
  assume "n < 16"
  then have "unat n < 16" by (simp add: word_less_nat_alt)
  then have "unat n = 0 \<or> unat n = 1 \<or> unat n = 2 \<or> unat n = 3 \<or> unat n = 4 \<or> unat n = 5 \<or>
      unat n = 6 \<or> unat n = 7 \<or> unat n = 8 \<or> unat n = 9 \<or> unat n = 10 \<or> unat n = 11 \<or>
      unat n = 12 \<or> unat n = 13 \<or> unat n = 14 \<or> unat n = 15" by presburger
  then show ?thesis by (simp add: word_unat_eq_iff)
qed

lemma nibble_hex_digit: "n < 16 \<Longrightarrow> nibble (hex_digit n) = Some n"
  by (drule nibble_cases, elim insertE emptyE) (simp_all add: nibble_def hex_digit_def)

lemma halves_small: "drop_bit 4 b < (16 :: u8)" "take_bit 4 b < (16 :: u8)"
proof -
  have "unat (drop_bit 4 b) < 16" using unat_bound [of b] by (simp add: drop_bit_eq_div unat_div)
  then show "drop_bit 4 b < 16" by (simp add: word_less_nat_alt)
  have "unat (take_bit 4 b) < 16" by (simp add: take_bit_eq_mod unat_mod)
  then show "take_bit 4 b < 16" by (simp add: word_less_nat_alt)
qed

lemma halves_join: "or (push_bit 4 (drop_bit 4 b)) (take_bit 4 b) = (b :: u8)"
proof (rule bit_word_eqI)
  fix n assume "n < LENGTH(8)"
  then show "bit (or (push_bit 4 (drop_bit 4 b)) (take_bit 4 b)) n \<longleftrightarrow> bit b n"
    by (cases "n < 4") (simp_all add: bit_or_iff bit_push_bit_iff bit_drop_bit_eq bit_take_bit_iff)
qed

lemma from_hex_pairs_to_hex: "from_hex_pairs (to_hex bs) = Some bs"
  by (induction bs) (simp_all add: nibble_hex_digit halves_small halves_join)

lemma length_to_hex: "length (to_hex bs) = 2 * length bs"
  by (induction bs) simp_all

lemma from_hex_pairs_length: "from_hex_pairs s = Some bs \<Longrightarrow> even (length s) \<Longrightarrow> length s = 2 * length bs"
  by (induction s arbitrary: bs rule: from_hex_pairs.induct) (auto split: option.splits)

text \<open>
  Hexadecimal is exact. Every sequence of \<open>n\<close> bytes reads back from its text, a text read as
  \<open>n\<close> bytes is twice as long and holds nothing but hex digits, and equal texts are equal bytes.
\<close>

theorem hex_roundtrip:
  "from_hex (length bs) (to_hex bs) = Some bs \<and>
   (\<forall>n s cs. from_hex n s = Some cs \<longrightarrow> length cs = n \<and> length s = 2 * n \<and> (\<forall>d\<in>set s. nibble d \<noteq> None)) \<and>
   (to_hex bs = to_hex cs \<longleftrightarrow> bs = cs)"
proof -
  have digits: "from_hex_pairs s = Some cs \<Longrightarrow> even (length s) \<Longrightarrow> \<forall>d\<in>set s. nibble d \<noteq> None" for s cs
    by (induction s arbitrary: cs rule: from_hex_pairs.induct) (auto split: option.splits)
  have "length cs = n \<and> length s = 2 * n \<and> (\<forall>d\<in>set s. nibble d \<noteq> None)"
    if "from_hex n s = Some cs" for n s cs
  proof -
    from that have l: "length s = n * 2" and p: "from_hex_pairs s = Some cs"
      by (auto simp: from_hex_def split: if_splits)
    have "even (length s)" using l by simp
    with digits [OF p] from_hex_pairs_length [OF p] l show ?thesis by simp
  qed
  moreover have "to_hex bs = to_hex cs \<longleftrightarrow> bs = cs" by (metis from_hex_pairs_to_hex option.inject)
  moreover have "from_hex (length bs) (to_hex bs) = Some bs"
    by (simp add: from_hex_def length_to_hex from_hex_pairs_to_hex)
  ultimately show ?thesis by blast
qed

theorem hex_roundtrip_witness: "from_hex 2 (to_hex [0xAB, 0x09]) = Some [0xAB, 0x09]"
  using hex_roundtrip [of "[0xAB, 0x09]" "[]"] by (simp add: numeral_2_eq_2)

end
