(* ===== verification/Btree.thy ===== *)
theory Btree
  imports Prelude "HOL-Library.List_Lexorder"
begin

text \<open>
  Rust's ordered map, \<open>BTreeMap\<close>: an association list in ascending key order, which is the order
  its iterators have. The contract its users rely on is the locale \<open>ordered_map\<close>, which the
  association lists meet. Text keys are byte lists, ordered lexicographically as Rust orders
  strings.
\<close>

section \<open>The contract\<close>

locale ordered_map =
  fixes lookup :: "'m \<Rightarrow> 'k::linorder \<Rightarrow> 'v option"
    and insert :: "'k \<Rightarrow> 'v \<Rightarrow> 'm \<Rightarrow> 'm"
    and remove :: "'k \<Rightarrow> 'm \<Rightarrow> 'm"
    and items :: "'m \<Rightarrow> ('k \<times> 'v) list"
    and ok :: "'m \<Rightarrow> bool"
  assumes lookup_insert: "lookup (insert k v m) = (lookup m)(k \<mapsto> v)"
    and lookup_remove: "lookup (remove k m) = (lookup m)(k := None)"
    and items_lookup: "ok m \<Longrightarrow> (k, v) \<in> set (items m) \<longleftrightarrow> lookup m k = Some v"
    and items_ascend: "ok m \<Longrightarrow> sorted_wrt (<) (List.map fst (items m))"
    and ok_insert: "ok m \<Longrightarrow> ok (insert k v m)"
    and ok_remove: "ok m \<Longrightarrow> ok (remove k m)"
begin

lemma keys_of_items: "ok m \<Longrightarrow> fst ` set (items m) = dom (lookup m)"
  using items_lookup by force

lemma distinct_keys: "ok m \<Longrightarrow> distinct (List.map fst (items m))"
  using items_ascend strict_sorted_iff by blast

lemma finite_dom: "ok m \<Longrightarrow> finite (dom (lookup m))"
  using keys_of_items by (metis List.finite_set finite_imageI)

text \<open>Two maps with the same bindings list them alike: iteration order is no hidden state.\<close>

lemma items_unique:
  assumes "ok m" "ok n" and same: "lookup m = lookup n"
  shows "items m = items n"
proof -
  have sets: "set (items m) = set (items n)"
    using items_lookup [OF assms(1)] items_lookup [OF assms(2)] same by auto
  have keys: "List.map fst (items m) = List.map fst (items n)"
  proof (rule sorted_distinct_set_unique)
    show "set (List.map fst (items m)) = set (List.map fst (items n))" using sets by simp
  qed (use items_ascend [OF assms(1)] items_ascend [OF assms(2)] strict_sorted_iff in blast)+
  show ?thesis
  proof (rule nth_equalityI)
    show len: "length (items m) = length (items n)" using keys by (metis length_map)
    fix i assume i: "i < length (items m)"
    then have "fst (items m ! i) = fst (items n ! i)" using keys len by (metis nth_map)
    moreover have "items m ! i \<in> set (items n)" "items n ! i \<in> set (items n)"
      using i len sets nth_mem by metis+
    ultimately show "items m ! i = items n ! i"
      using distinct_keys [OF assms(2)] by (metis eq_key_imp_eq_value prod.collapse)
  qed
qed

end

section \<open>Association lists in key order\<close>

type_synonym ('k, 'v) btree = "('k \<times> 'v) list"

fun bt_insert :: "'k::linorder \<Rightarrow> 'v \<Rightarrow> ('k, 'v) btree \<Rightarrow> ('k, 'v) btree" where
  "bt_insert k v [] = [(k, v)]"
| "bt_insert k v ((k', v') # m) =
     (if k < k' then (k, v) # (k', v') # m
      else if k = k' then (k, v) # m
      else (k', v') # bt_insert k v m)"

definition bt_remove :: "'k \<Rightarrow> ('k, 'v) btree \<Rightarrow> ('k, 'v) btree" where
  "bt_remove k m = filter (\<lambda>(k', _). k' \<noteq> k) m"

text \<open>\<open>get_mut\<close> followed by a change of the value found.\<close>

definition bt_modify :: "'k::linorder \<Rightarrow> ('v \<Rightarrow> 'v) \<Rightarrow> ('k, 'v) btree \<Rightarrow> ('k, 'v) btree" where
  "bt_modify k f m = (case map_of m k of None \<Rightarrow> m | Some v \<Rightarrow> bt_insert k (f v) m)"

definition bt_ok :: "('k::linorder, 'v) btree \<Rightarrow> bool" where
  "bt_ok m \<longleftrightarrow> sorted_wrt (<) (map fst m)"

lemma map_of_bt_insert [simp]: "map_of (bt_insert k v m) = (map_of m)(k \<mapsto> v)"
  by (induction m) (auto simp: fun_eq_iff)

lemma map_of_bt_remove [simp]: "map_of (bt_remove k m) = (map_of m)(k := None)"
  unfolding bt_remove_def by (induction m) (auto simp: fun_eq_iff)

lemma map_of_bt_modify: "map_of (bt_modify k f m) = (map_of m)(k := map_option f (map_of m k))"
  by (auto simp: bt_modify_def fun_eq_iff split: option.splits)

lemma keys_bt_insert: "fst ` set (bt_insert k v m) = insert k (fst ` set m)"
proof (induction m)
  case (Cons b m)
  then show ?case by (cases b) (simp add: insert_commute)
qed simp

lemma bt_ok_Nil [simp]: "bt_ok []"
  by (simp add: bt_ok_def)

lemma bt_ok_insert [simp]: "bt_ok m \<Longrightarrow> bt_ok (bt_insert k v m)"
proof (induction m)
  case (Cons b m)
  obtain k' v' where b: "b = (k', v')" by (cases b)
  have "\<forall>x \<in> fst ` set (bt_insert k v m). k' < x" if "\<not> k < k'" "k \<noteq> k'"
    using Cons.prems b that by (auto simp: keys_bt_insert bt_ok_def)
  with Cons b show ?case by (auto simp: bt_ok_def intro: less_trans)
qed (simp add: bt_ok_def)

lemma bt_ok_remove [simp]: "bt_ok m \<Longrightarrow> bt_ok (bt_remove k m)"
  by (induction m) (auto simp: bt_ok_def bt_remove_def)

lemma bt_ok_modify [simp]: "bt_ok m \<Longrightarrow> bt_ok (bt_modify k f m)"
  by (simp add: bt_modify_def split: option.splits)

lemma bt_ok_distinct: "bt_ok m \<Longrightarrow> distinct (map fst m)"
  unfolding bt_ok_def using strict_sorted_iff by blast

interpretation bt: ordered_map map_of bt_insert bt_remove "\<lambda>m. m" bt_ok
proof unfold_locales
  fix m :: "('a \<times> 'b) list" and k v
  assume "bt_ok m"
  then show "(k, v) \<in> set m \<longleftrightarrow> map_of m k = Some v"
    using bt_ok_distinct by (metis map_of_eq_Some_iff)
qed (simp_all only: map_of_bt_insert map_of_bt_remove bt_ok_insert bt_ok_remove, simp only: bt_ok_def)

lemma bt_values: "bt_ok m \<Longrightarrow> v \<in> snd ` set m \<longleftrightarrow> (\<exists>k. map_of m k = Some v)"
  using bt.items_lookup by force

end
