(* ===== verification/Float64.thy ===== *)
theory Float64
  imports Prelude
begin

text \<open>
  A 64-bit float as its bits. What only reads the bits is defined here: the test against zero and
  Rust's saturating cast to \<open>i64\<close>. The arithmetic of the hardware (addition, multiplication,
  minimum, comparison) is an argument of the definitions that use it, the record \<open>float_ops\<close>.
\<close>

type_synonym f64 = u64

record float_ops =
  f_add :: "f64 \<Rightarrow> f64 \<Rightarrow> f64"
  f_mul :: "f64 \<Rightarrow> f64 \<Rightarrow> f64"
  f_min :: "f64 \<Rightarrow> f64 \<Rightarrow> f64"
  f_le :: "f64 \<Rightarrow> f64 \<Rightarrow> bool"

definition f64_infinity :: f64 where "f64_infinity = 0x7FF0000000000000"

definition f64_one :: f64 where "f64_one = 0x3FF0000000000000"

text \<open>\<open>n != 0.0\<close>: both zeros are equal to it, a NaN is not.\<close>

definition f64_nonzero :: "f64 \<Rightarrow> bool" where
  "f64_nonzero x \<longleftrightarrow> x \<noteq> 0 \<and> x \<noteq> 0x8000000000000000"

text \<open>
  \<open>n as i64\<close>: toward zero, saturating, a NaN to zero. The magnitude is the significand shifted by
  the exponent; below an exponent of 1023 it is less than one.
\<close>

definition f64_as_i64 :: "f64 \<Rightarrow> int" where
  "f64_as_i64 x =
     (let e = uint (drop_bit 52 x) mod 2048;
          f = uint x mod 2 ^ 52;
          n = (2 ^ 52 + f) * 2 ^ nat (e - 1023) div 2 ^ 52
      in if e = 2047 \<and> f \<noteq> 0 then 0
         else if e < 1023 then 0
         else if bit x 63 then max (- (2 ^ 63)) (- n)
         else min (2 ^ 63 - 1) n)"

lemma saturate_range: "0 \<le> (n :: int) \<Longrightarrow>
    - (2 ^ 63) \<le> (if a then 0 else if b then 0 else if c then max (- (2 ^ 63)) (- n) else min (2 ^ 63 - 1) n) \<and>
    (if a then 0 else if b then 0 else if c then max (- (2 ^ 63)) (- n) else min (2 ^ 63 - 1) n) < 2 ^ 63"
  by auto

lemma f64_as_i64_range: "- (2 ^ 63) \<le> f64_as_i64 x \<and> f64_as_i64 x < 2 ^ 63"
  unfolding f64_as_i64_def Let_def by (rule saturate_range) (simp add: pos_imp_zdiv_nonneg_iff)

end
