(* ===== verification/Sdam.thy ===== *)
theory Sdam
  imports Bson Btree Float64
begin

text \<open>
  MongoDB server discovery and monitoring (\<open>crates/runtime/src/mongodb/sdam.rs\<close>): what the driver
  believes about each server and about the deployment, and how a \<open>hello\<close> reply or an operation's
  error changes it. Texts are their UTF-8 bytes, \<open>i32\<close> and \<open>i64\<close> values integers read from the
  wire (they are compared, never added, here), round trips the bits of a float whose arithmetic is
  an argument.
\<close>

section \<open>Types\<close>

datatype server_type =
  S_Unknown | S_Standalone | S_Mongos | S_PossiblePrimary | S_RsPrimary | S_RsSecondary
| S_RsArbiter | S_RsOther | S_RsGhost

fun server_type_name :: "server_type \<Rightarrow> string" where
  "server_type_name S_Unknown = ''Unknown''"
| "server_type_name S_Standalone = ''Standalone''"
| "server_type_name S_Mongos = ''Mongos''"
| "server_type_name S_PossiblePrimary = ''PossiblePrimary''"
| "server_type_name S_RsPrimary = ''RSPrimary''"
| "server_type_name S_RsSecondary = ''RSSecondary''"
| "server_type_name S_RsArbiter = ''RSArbiter''"
| "server_type_name S_RsOther = ''RSOther''"
| "server_type_name S_RsGhost = ''RSGhost''"

definition data_bearing :: "server_type \<Rightarrow> bool" where
  "data_bearing k \<longleftrightarrow> k \<in> {S_Standalone, S_Mongos, S_RsPrimary, S_RsSecondary}"

datatype topology_type =
  T_Unknown | T_Single | T_ReplicaSetNoPrimary | T_ReplicaSetWithPrimary | T_Sharded

fun topology_type_name :: "topology_type \<Rightarrow> string" where
  "topology_type_name T_Unknown = ''Unknown''"
| "topology_type_name T_Single = ''Single''"
| "topology_type_name T_ReplicaSetNoPrimary = ''ReplicaSetNoPrimary''"
| "topology_type_name T_ReplicaSetWithPrimary = ''ReplicaSetWithPrimary''"
| "topology_type_name T_Sharded = ''Sharded''"

record topology_version =
  process_id :: "u8 list"
  counter :: int

definition at_least_as_new :: "topology_version option \<Rightarrow> topology_version option \<Rightarrow> bool" where
  "at_least_as_new current incoming =
     (case (current, incoming) of
        (Some c, Some i) \<Rightarrow> if process_id c = process_id i then counter i \<ge> counter c else True
      | _ \<Rightarrow> True)"

record server =
  s_address :: utf8
  s_kind :: server_type
  s_error :: "utf8 option"
  avg_rtt :: "f64 option"
  last_write_date :: "int option"
  last_update_time :: int
  min_wire :: int
  max_wire :: int
  s_me :: "utf8 option"
  s_members :: "utf8 list"
  s_tags :: "(utf8 \<times> utf8) list"
  s_set_name :: "utf8 option"
  election_id :: "u8 list option"
  set_version :: "int option"
  s_primary :: "utf8 option"
  s_session_timeout :: "int option"
  s_topology_version :: "topology_version option"

definition unknown :: "utf8 \<Rightarrow> server" where
  "unknown address =
     \<lparr>s_address = address, s_kind = S_Unknown, s_error = None, avg_rtt = None, last_write_date = None,
      last_update_time = 0, min_wire = 0, max_wire = 0, s_me = None, s_members = [], s_tags = [],
      s_set_name = None, election_id = None, set_version = None, s_primary = None,
      s_session_timeout = None, s_topology_version = None\<rparr>"

definition failed :: "utf8 \<Rightarrow> utf8 \<Rightarrow> topology_version option \<Rightarrow> server" where
  "failed address err tv = (unknown address)\<lparr>s_error := Some err, s_topology_version := tv\<rparr>"

section \<open>Reading a hello reply\<close>

definition field :: "u8 list \<Rightarrow> utf8 \<Rightarrow> element option" where
  "field doc name = (case get doc name of Inr (Some e) \<Rightarrow> Some e | _ \<Rightarrow> None)"

definition truthy :: "u8 list \<Rightarrow> utf8 \<Rightarrow> bool" where
  "truthy doc name =
     (case field doc name of
        Some (Boolean b) \<Rightarrow> b
      | Some (Int32 n) \<Rightarrow> n \<noteq> 0
      | Some (Int64 n) \<Rightarrow> n \<noteq> 0
      | Some (Double n) \<Rightarrow> f64_nonzero n
      | _ \<Rightarrow> False)"

definition text_field :: "u8 list \<Rightarrow> utf8 \<Rightarrow> utf8 option" where
  "text_field doc name = (case field doc name of Some (String s) \<Rightarrow> Some s | _ \<Rightarrow> None)"

definition long_field :: "u8 list \<Rightarrow> utf8 \<Rightarrow> int option" where
  "long_field doc name =
     (case field doc name of
        Some (Int32 n) \<Rightarrow> Some (sint n)
      | Some (Int64 n) \<Rightarrow> Some (sint n)
      | Some (Double n) \<Rightarrow> Some (f64_as_i64 n)
      | _ \<Rightarrow> None)"

definition int_field :: "u8 list \<Rightarrow> utf8 \<Rightarrow> int option" where
  "int_field doc name = opt_filter (\<lambda>n. - (2 ^ 31) \<le> n \<and> n < 2 ^ 31) (long_field doc name)"

fun contains_seq :: "'a list \<Rightarrow> 'a list \<Rightarrow> bool" where
  "contains_seq p [] = (p = [])"
| "contains_seq p (x # xs) = (take (length p) (x # xs) = p \<or> contains_seq p xs)"

definition lower_byte :: "u8 \<Rightarrow> u8" where
  "lower_byte b = (if 65 \<le> b \<and> b \<le> 90 then b + 32 else b)"

definition normalize :: "utf8 \<Rightarrow> utf8" where
  "normalize address =
     (let address = map lower_byte address;
          with_port = address @ bytes_of '':27017''
      in if take 1 address = bytes_of ''['' then
           (if contains_seq (bytes_of '']:'') address then address else with_port)
         else if contains_seq (bytes_of '':'') address then address
         else with_port)"

text \<open>\<open>doc.iter().flatten()\<close>: the elements that read, an error ending the iteration.\<close>

function readable :: "elements \<Rightarrow> (utf8 \<times> element) list" where
  "readable st =
     (case next_element st of
        (None, _) \<Rightarrow> []
      | (Some (Inl e), _) \<Rightarrow> []
      | (Some (Inr item), st') \<Rightarrow> item # readable st')"
  by pat_completeness auto
termination
proof (relation "measure (\<lambda>st. length (ebytes st) - epos st)")
  fix st :: elements and x st' y item
  assume "(x, st') = next_element st" "x = Some y" "y = Inr item"
  then have "next_element st = (Some (Inr (fst item, snd item)), st')" by simp
  from next_element_nested [OF this] show "(st', st) \<in> measure (\<lambda>st. length (ebytes st) - epos st)"
    by (metis in_measure)
qed simp

declare readable.simps [simp del]

definition texts_in :: "u8 list \<Rightarrow> (utf8 \<times> utf8) list" where
  "texts_in doc = List.map_filter (\<lambda>(k, v). case v of String s \<Rightarrow> Some (k, s) | _ \<Rightarrow> None) (readable (iter doc))"

definition hosts_in :: "u8 list \<Rightarrow> utf8 \<Rightarrow> utf8 list" where
  "hosts_in hello name =
     (case field hello name of Some (Array list) \<Rightarrow> map (normalize \<circ> snd) (texts_in list) | _ \<Rightarrow> [])"

definition read_topology_version :: "u8 list \<Rightarrow> topology_version option" where
  "read_topology_version doc =
     (case field doc (bytes_of ''topologyVersion'') of
        Some (Document tv) \<Rightarrow>
          (case get tv (bytes_of ''processId'') of
             Inr (Some (ObjectId process)) \<Rightarrow>
               Some \<lparr>process_id = process,
                     counter = (case long_field tv (bytes_of ''counter'') of Some n \<Rightarrow> n | None \<Rightarrow> 0)\<rparr>
           | _ \<Rightarrow> None)
      | _ \<Rightarrow> None)"

definition hello_kind :: "u8 list \<Rightarrow> utf8 option \<Rightarrow> server_type" where
  "hello_kind hello set_name =
     (let writable = (if field hello (bytes_of ''isWritablePrimary'') \<noteq> None
                      then truthy hello (bytes_of ''isWritablePrimary'')
                      else truthy hello (bytes_of ''ismaster''))
      in if text_field hello (bytes_of ''msg'') = Some (bytes_of ''isdbgrid'') then S_Mongos
         else if set_name \<noteq> None then
           (if truthy hello (bytes_of ''hidden'') then S_RsOther
            else if writable then S_RsPrimary
            else if truthy hello (bytes_of ''secondary'') then S_RsSecondary
            else if truthy hello (bytes_of ''arbiterOnly'') then S_RsArbiter
            else S_RsOther)
         else if truthy hello (bytes_of ''isreplicaset'') then S_RsGhost
         else S_Standalone)"

definition from_hello :: "utf8 \<Rightarrow> u8 list \<Rightarrow> f64 option \<Rightarrow> int \<Rightarrow> server" where
  "from_hello address hello rtt now =
     (let d = (unknown address)\<lparr>last_update_time := now\<rparr>
      in if \<not> truthy hello (bytes_of ''ok'') then
           d\<lparr>s_error := Some (case text_field hello (bytes_of ''errmsg'') of
                                Some m \<Rightarrow> m | None \<Rightarrow> bytes_of ''the server's hello failed'')\<rparr>
         else
           (let set_name = text_field hello (bytes_of ''setName'') in
            d\<lparr>s_kind := hello_kind hello set_name,
              avg_rtt := rtt,
              min_wire := (case int_field hello (bytes_of ''minWireVersion'') of Some n \<Rightarrow> n | None \<Rightarrow> 0),
              max_wire := (case int_field hello (bytes_of ''maxWireVersion'') of Some n \<Rightarrow> n | None \<Rightarrow> 0),
              s_me := map_option normalize (text_field hello (bytes_of ''me'')),
              s_members := concat (map (\<lambda>k. hosts_in hello (bytes_of k)) [''hosts'', ''passives'', ''arbiters'']),
              s_tags := (case field hello (bytes_of ''tags'') of Some (Document tags) \<Rightarrow> texts_in tags | _ \<Rightarrow> []),
              s_set_name := set_name,
              election_id := (case field hello (bytes_of ''electionId'') of Some (ObjectId i) \<Rightarrow> Some i | _ \<Rightarrow> None),
              set_version := long_field hello (bytes_of ''setVersion''),
              s_primary := map_option normalize (text_field hello (bytes_of ''primary'')),
              s_session_timeout := long_field hello (bytes_of ''logicalSessionTimeoutMinutes''),
              last_write_date :=
                (case field hello (bytes_of ''lastWrite'') of
                   Some (Document written) \<Rightarrow>
                     (case get written (bytes_of ''lastWriteDate'') of
                        Inr (Some (DateTime date)) \<Rightarrow> Some (sint date) | _ \<Rightarrow> None)
                 | _ \<Rightarrow> None),
              s_topology_version := read_topology_version hello\<rparr>))"

section \<open>The deployment\<close>

datatype compatibility_error =
  NeedsNewerClient utf8 int
| NeedsNewerServer utf8 int

definition CLIENT_MIN_WIRE :: int where "CLIENT_MIN_WIRE = 21"

definition CLIENT_MAX_WIRE :: int where "CLIENT_MAX_WIRE = 30"

record effects =
  e_added :: "utf8 list"
  e_removed :: "utf8 list"
  e_clear :: "utf8 list"
  e_check :: "utf8 list"

definition no_effects :: effects where
  "no_effects = \<lparr>e_added = [], e_removed = [], e_clear = [], e_check = []\<rparr>"

record topology =
  t_kind :: topology_type
  t_set_name :: "utf8 option"
  max_election_id :: "u8 list option"
  max_set_version :: "int option"
  servers :: "(utf8, server) btree"
  compatibility :: "compatibility_error option"
  t_session_timeout :: "int option"
  generations :: "(utf8, nat) btree"
  seeds :: nat

definition new_topology :: "utf8 list \<Rightarrow> bool \<Rightarrow> utf8 option \<Rightarrow> topology" where
  "new_topology hosts direct set_name =
     (let ss = foldl (\<lambda>m s. bt_insert (normalize s) (unknown (normalize s)) m) [] hosts in
      \<lparr>t_kind = (if direct then T_Single else if set_name \<noteq> None then T_ReplicaSetNoPrimary else T_Unknown),
       t_set_name = set_name, max_election_id = None, max_set_version = None,
       servers = ss, compatibility = None, t_session_timeout = None,
       generations = map (\<lambda>(a, _). (a, 0)) ss, seeds = length hosts\<rparr>)"

definition has_primary :: "topology \<Rightarrow> bool" where
  "has_primary t \<longleftrightarrow> (\<exists>b \<in> set (servers t). s_kind (snd b) = S_RsPrimary)"

section \<open>Transitions\<close>

type_synonym step = "topology \<times> effects"

definition put_server :: "utf8 \<Rightarrow> server \<Rightarrow> topology \<Rightarrow> topology" where
  "put_server a s t = t\<lparr>servers := bt_insert a s (servers t)\<rparr>"

definition remove_server :: "utf8 \<Rightarrow> step \<Rightarrow> step" where
  "remove_server a = (\<lambda>(t, e).
     if map_of (servers t) a \<noteq> None
     then (t\<lparr>servers := bt_remove a (servers t), generations := bt_remove a (generations t)\<rparr>,
           e\<lparr>e_removed := e_removed e @ [a]\<rparr>)
     else (t, e))"

definition add_member :: "utf8 \<Rightarrow> step \<Rightarrow> step" where
  "add_member a = (\<lambda>(t, e).
     if map_of (servers t) a = None
     then (t\<lparr>servers := bt_insert a (unknown a) (servers t),
             generations := (if map_of (generations t) a = None then bt_insert a 0 (generations t)
                             else generations t)\<rparr>,
           e\<lparr>e_added := e_added e @ [a]\<rparr>)
     else (t, e))"

definition add_members :: "utf8 list \<Rightarrow> step \<Rightarrow> step" where
  "add_members = fold add_member"

definition check_if_has_primary :: "topology \<Rightarrow> topology" where
  "check_if_has_primary t =
     t\<lparr>t_kind := (if has_primary t then T_ReplicaSetWithPrimary else T_ReplicaSetNoPrimary)\<rparr>"

definition update_unknown_with_standalone :: "utf8 \<Rightarrow> step \<Rightarrow> step" where
  "update_unknown_with_standalone a = (\<lambda>(t, e).
     if seeds t = 1 then (t\<lparr>t_kind := T_Single\<rparr>, e) else remove_server a (t, e))"

text \<open>What a member says of the primary: a server not heard from yet is possibly it.\<close>

definition note_possible_primary :: "utf8 option \<Rightarrow> topology \<Rightarrow> topology" where
  "note_possible_primary primary t =
     (case primary of
        None \<Rightarrow> t
      | Some p \<Rightarrow> t\<lparr>servers := bt_modify p (\<lambda>s. if s_kind s = S_Unknown then s\<lparr>s_kind := S_PossiblePrimary\<rparr> else s)
                      (servers t)\<rparr>)"

definition other_me :: "server \<Rightarrow> bool" where
  "other_me d \<longleftrightarrow> s_me d \<noteq> None \<and> s_me d \<noteq> Some (s_address d)"

definition update_rs_without_primary :: "server \<Rightarrow> step \<Rightarrow> step" where
  "update_rs_without_primary d = (\<lambda>(t, e).
     if t_set_name t \<noteq> None \<and> t_set_name t \<noteq> s_set_name d then remove_server (s_address d) (t, e)
     else
       (let t = (if t_set_name t = None then t\<lparr>t_set_name := s_set_name d\<rparr> else t);
            (t, e) = add_members (s_members d) (t, e);
            t = note_possible_primary (s_primary d) t
        in if other_me d then remove_server (s_address d) (t, e) else (t, e)))"

definition update_rs_with_primary_from_member :: "server \<Rightarrow> step \<Rightarrow> step" where
  "update_rs_with_primary_from_member d = (\<lambda>(t, e).
     if t_set_name t \<noteq> s_set_name d \<or> other_me d then
       (let (t, e) = remove_server (s_address d) (t, e) in (check_if_has_primary t, e))
     else if \<not> has_primary t then
       (note_possible_primary (s_primary d) (t\<lparr>t_kind := T_ReplicaSetNoPrimary\<rparr>), e)
     else (t, e))"

text \<open>
  Whether a primary is one the deployment has moved past, and the marks it leaves when it is not.
  From wire version 17 the election comes first, then the set version; before, the other way.
\<close>

definition i64_min :: int where "i64_min = - (2 ^ 63)"

definition or_min :: "int option \<Rightarrow> int" where
  "or_min v = (case v of Some n \<Rightarrow> n | None \<Rightarrow> i64_min)"

definition not_older :: "server \<Rightarrow> topology \<Rightarrow> bool" where
  "not_older d t =
     (let by_version = or_min (set_version d) \<ge> or_min (max_set_version t) \<or>
            set_version d = None \<and> max_set_version t = None
      in case (election_id d, max_election_id t) of
           (Some e, Some m) \<Rightarrow> if e \<noteq> m then e > m else by_version
         | (None, Some _) \<Rightarrow> False
         | (Some _, None) \<Rightarrow> True
         | (None, None) \<Rightarrow> by_version)"

definition older_by_version :: "int \<Rightarrow> u8 list \<Rightarrow> topology \<Rightarrow> bool" where
  "older_by_version v e t =
     (case (max_set_version t, max_election_id t) of
        (Some max_v, Some max_e) \<Rightarrow> max_v > v \<or> max_v = v \<and> max_e > e
      | _ \<Rightarrow> False)"

definition note_set_version :: "int option \<Rightarrow> topology \<Rightarrow> topology" where
  "note_set_version v t =
     (case v of
        None \<Rightarrow> t
      | Some n \<Rightarrow> if (case max_set_version t of None \<Rightarrow> True | Some m \<Rightarrow> n > m)
                  then t\<lparr>max_set_version := Some n\<rparr> else t)"

definition stale_primary :: "server \<Rightarrow> topology \<Rightarrow> bool \<times> topology" where
  "stale_primary d t =
     (if max_wire d \<ge> 17 then
        (if not_older d t
         then (False, t\<lparr>max_election_id := election_id d, max_set_version := set_version d\<rparr>)
         else (True, t))
      else
        (case (set_version d, election_id d) of
           (Some v, Some e) \<Rightarrow>
             if older_by_version v e t then (True, t)
             else (False, note_set_version (set_version d) (t\<lparr>max_election_id := Some e\<rparr>))
         | _ \<Rightarrow> (False, note_set_version (set_version d) t)))"

definition stale_election :: utf8 where
  "stale_election = bytes_of ''primary marked stale due to electionId/setVersion mismatch''"

definition stale_newer :: utf8 where
  "stale_newer = bytes_of ''primary marked stale due to discovery of newer primary''"

definition demote :: "utf8 \<Rightarrow> step \<Rightarrow> step" where
  "demote a = (\<lambda>(t, e). (put_server a (failed a stale_newer None) t, e\<lparr>e_check := e_check e @ [a]\<rparr>))"

definition accept_primary :: "server \<Rightarrow> step \<Rightarrow> step" where
  "accept_primary d = (\<lambda>(t, e).
     let others = map (s_address \<circ> snd)
           (filter (\<lambda>(_, s). s_address s \<noteq> s_address d \<and> s_kind s = S_RsPrimary) (servers t));
         (t, e) = fold demote others (t, e);
         (t, e) = add_members (s_members d) (t, e);
         gone = filter (\<lambda>a. a \<notin> set (s_members d)) (map fst (servers t));
         (t, e) = fold remove_server gone (t, e)
     in (check_if_has_primary t, e))"

definition update_rs_from_primary :: "server \<Rightarrow> step \<Rightarrow> step" where
  "update_rs_from_primary d = (\<lambda>(t, e).
     if t_set_name t \<noteq> None \<and> t_set_name t \<noteq> s_set_name d then
       (let (t, e) = remove_server (s_address d) (t, e) in (check_if_has_primary t, e))
     else
       (let t = (if t_set_name t = None then t\<lparr>t_set_name := s_set_name d\<rparr> else t);
            (stale, t) = stale_primary d t
        in if stale
           then (check_if_has_primary (put_server (s_address d) (failed (s_address d) stale_election None) t), e)
           else accept_primary d (t, e)))"

text \<open>What depends on every server: wire compatibility and the session timeout.\<close>

fun first_incompatible :: "server list \<Rightarrow> compatibility_error option" where
  "first_incompatible [] = None"
| "first_incompatible (s # ss) =
     (if s_kind s = S_Unknown then first_incompatible ss
      else if min_wire s > CLIENT_MAX_WIRE then Some (NeedsNewerClient (s_address s) (min_wire s))
      else if max_wire s < CLIENT_MIN_WIRE then Some (NeedsNewerServer (s_address s) (max_wire s))
      else first_incompatible ss)"

fun session_timeout :: "int option option \<Rightarrow> server list \<Rightarrow> int option option" where
  "session_timeout acc [] = acc"
| "session_timeout acc (s # ss) =
     session_timeout
       (Some (case (acc, s_session_timeout s) of
                (Some None, _) \<Rightarrow> None
              | (_, None) \<Rightarrow> None
              | (None, Some n) \<Rightarrow> Some n
              | (Some (Some m), Some n) \<Rightarrow> Some (min m n))) ss"

definition refresh :: "topology \<Rightarrow> topology" where
  "refresh t =
     t\<lparr>compatibility := first_incompatible (map snd (servers t)),
       t_session_timeout :=
         (case session_timeout None (filter (data_bearing \<circ> s_kind) (map snd (servers t))) of
            Some r \<Rightarrow> r | None \<Rightarrow> None)\<rparr>"

definition average_rtt :: "float_ops \<Rightarrow> f64 \<Rightarrow> f64 \<Rightarrow> f64" where
  "average_rtt ops old new = f_add ops (f_mul ops 0x3FC999999999999A new) (f_mul ops 0x3FE999999999999A old)"

definition keep_rtt :: "float_ops \<Rightarrow> server \<Rightarrow> server \<Rightarrow> server" where
  "keep_rtt ops current incoming =
     (if s_kind incoming = S_Unknown then incoming\<lparr>avg_rtt := None\<rparr>
      else (case (avg_rtt current, avg_rtt incoming) of
              (Some old, Some new) \<Rightarrow> incoming\<lparr>avg_rtt := Some (average_rtt ops old new)\<rparr>
            | _ \<Rightarrow> incoming))"

definition not_a_member :: "utf8 \<Rightarrow> utf8" where
  "not_a_member expected = bytes_of ''the server is not a member of replica set '' @ expected"

definition single_server :: "topology \<Rightarrow> server \<Rightarrow> server" where
  "single_server t incoming =
     (case t_set_name t of
        Some expected \<Rightarrow>
          if s_set_name incoming \<noteq> Some expected \<and> s_kind incoming \<noteq> S_Unknown
          then failed (s_address incoming) (not_a_member expected) None
          else incoming
      | None \<Rightarrow> incoming)"

text \<open>The transition table, the server's new description already in place.\<close>

definition transition :: "server \<Rightarrow> step \<Rightarrow> step" where
  "transition d = (\<lambda>(t, e).
     (case t_kind t of
        T_Unknown \<Rightarrow>
          (case s_kind d of
             S_Standalone \<Rightarrow> update_unknown_with_standalone (s_address d) (t, e)
           | S_Mongos \<Rightarrow> (t\<lparr>t_kind := T_Sharded\<rparr>, e)
           | S_RsPrimary \<Rightarrow> update_rs_from_primary d (t\<lparr>t_kind := T_ReplicaSetWithPrimary\<rparr>, e)
           | S_RsSecondary \<Rightarrow> update_rs_without_primary d (t\<lparr>t_kind := T_ReplicaSetNoPrimary\<rparr>, e)
           | S_RsArbiter \<Rightarrow> update_rs_without_primary d (t\<lparr>t_kind := T_ReplicaSetNoPrimary\<rparr>, e)
           | S_RsOther \<Rightarrow> update_rs_without_primary d (t\<lparr>t_kind := T_ReplicaSetNoPrimary\<rparr>, e)
           | S_Unknown \<Rightarrow> (t, e)
           | S_RsGhost \<Rightarrow> (t, e)
           | S_PossiblePrimary \<Rightarrow> (t, e))
      | T_ReplicaSetNoPrimary \<Rightarrow>
          (case s_kind d of
             S_RsPrimary \<Rightarrow> update_rs_from_primary d (t\<lparr>t_kind := T_ReplicaSetWithPrimary\<rparr>, e)
           | S_RsSecondary \<Rightarrow> update_rs_without_primary d (t, e)
           | S_RsArbiter \<Rightarrow> update_rs_without_primary d (t, e)
           | S_RsOther \<Rightarrow> update_rs_without_primary d (t, e)
           | S_Unknown \<Rightarrow> (t, e)
           | S_RsGhost \<Rightarrow> (t, e)
           | S_Standalone \<Rightarrow> remove_server (s_address d) (t, e)
           | S_Mongos \<Rightarrow> remove_server (s_address d) (t, e)
           | S_PossiblePrimary \<Rightarrow> (t, e))
      | T_ReplicaSetWithPrimary \<Rightarrow>
          (case s_kind d of
             S_RsPrimary \<Rightarrow> update_rs_from_primary d (t\<lparr>t_kind := T_ReplicaSetWithPrimary\<rparr>, e)
           | S_RsSecondary \<Rightarrow> update_rs_with_primary_from_member d (t, e)
           | S_RsArbiter \<Rightarrow> update_rs_with_primary_from_member d (t, e)
           | S_RsOther \<Rightarrow> update_rs_with_primary_from_member d (t, e)
           | S_Standalone \<Rightarrow> (let (t, e) = remove_server (s_address d) (t, e) in (check_if_has_primary t, e))
           | S_Mongos \<Rightarrow> (let (t, e) = remove_server (s_address d) (t, e) in (check_if_has_primary t, e))
           | S_Unknown \<Rightarrow> (check_if_has_primary t, e)
           | S_RsGhost \<Rightarrow> (check_if_has_primary t, e)
           | S_PossiblePrimary \<Rightarrow> (t, e))
      | T_Sharded \<Rightarrow>
          (case s_kind d of
             S_Unknown \<Rightarrow> (t, e)
           | S_Mongos \<Rightarrow> (t, e)
           | _ \<Rightarrow> remove_server (s_address d) (t, e))
      | T_Single \<Rightarrow> (t, e)))"

definition update :: "float_ops \<Rightarrow> server \<Rightarrow> topology \<Rightarrow> step" where
  "update ops incoming t =
     (case map_of (servers t) (s_address incoming) of
        None \<Rightarrow> (t, no_effects)
      | Some current \<Rightarrow>
          if \<not> at_least_as_new (s_topology_version current) (s_topology_version incoming) then (t, no_effects)
          else
            (let incoming = keep_rtt ops current incoming in
             if t_kind t = T_Single then
               (refresh (put_server (s_address incoming) (single_server t incoming) t), no_effects)
             else
               (let (t, e) = transition incoming (put_server (s_address incoming) incoming t, no_effects)
                in (refresh t, e))))"

section \<open>Errors of operations\<close>

datatype app_error_kind =
  Network utf8
| Timeout
| Command "int option" utf8 "topology_version option"

record app_error =
  a_generation :: nat
  completed_handshake :: bool
  a_kind :: app_error_kind

definition RECOVERING :: "int list" where "RECOVERING = [11600, 11602, 13436, 189, 91]"

definition NOT_WRITABLE_PRIMARY :: "int list" where "NOT_WRITABLE_PRIMARY = [10107, 13435, 10058]"

definition is_recovering :: "int option \<Rightarrow> utf8 \<Rightarrow> bool" where
  "is_recovering errno message =
     (case errno of
        Some c \<Rightarrow> c \<in> set RECOVERING
      | None \<Rightarrow> contains_seq (bytes_of ''not master or secondary'') message \<or>
                contains_seq (bytes_of ''node is recovering'') message)"

definition is_not_writable_primary :: "int option \<Rightarrow> utf8 \<Rightarrow> bool" where
  "is_not_writable_primary errno message =
     (case errno of
        Some c \<Rightarrow> c \<in> set NOT_WRITABLE_PRIMARY
      | None \<Rightarrow> \<not> is_recovering None message \<and> contains_seq (bytes_of ''not master'') message)"

definition generation_of :: "topology \<Rightarrow> utf8 \<Rightarrow> nat" where
  "generation_of t a = (case map_of (generations t) a of Some g \<Rightarrow> g | None \<Rightarrow> 0)"

text \<open>\<open>*generations.entry(address).or_insert(0) += 1\<close>\<close>

definition next_generation :: "utf8 \<Rightarrow> topology \<Rightarrow> topology" where
  "next_generation a t = t\<lparr>generations := bt_insert a (generation_of t a + 1) (generations t)\<rparr>"

definition network_unknown :: "float_ops \<Rightarrow> utf8 \<Rightarrow> utf8 \<Rightarrow> step \<Rightarrow> step" where
  "network_unknown ops a message = (\<lambda>(t, e).
     let (t, changes) = update ops (failed a message None) t
     in (next_generation a t,
         e\<lparr>e_removed := e_removed e @ e_removed changes, e_clear := e_clear e @ [a]\<rparr>))"

definition stale_version :: "topology_version option \<Rightarrow> topology_version option \<Rightarrow> bool" where
  "stale_version current incoming =
     (case (current, incoming) of
        (Some c, Some i) \<Rightarrow> process_id c = process_id i \<and> counter c \<ge> counter i
      | _ \<Rightarrow> False)"

definition application_error :: "float_ops \<Rightarrow> utf8 \<Rightarrow> app_error \<Rightarrow> topology \<Rightarrow> step" where
  "application_error ops a err t =
     (case map_of (servers t) a of
        None \<Rightarrow> (t, no_effects)
      | Some current \<Rightarrow>
          if a_generation err < generation_of t a then (t, no_effects)
          else
            (case a_kind err of
               Command errno message tv \<Rightarrow>
                 if \<not> (is_recovering errno message \<or> is_not_writable_primary errno message) then
                   (if \<not> completed_handshake err then network_unknown ops a message (t, no_effects)
                    else (t, no_effects))
                 else if stale_version (s_topology_version current) tv then (t, no_effects)
                 else
                   (let (t, changes) = update ops (failed a message tv) t;
                        e = no_effects\<lparr>e_removed := e_removed changes\<rparr>;
                        (t, e) = (if errno = Some 11600 \<or> errno = Some 91
                                  then (next_generation a t, e\<lparr>e_clear := e_clear e @ [a]\<rparr>) else (t, e))
                    in (t, e\<lparr>e_check := e_check e @ [a]\<rparr>))
             | Network message \<Rightarrow> network_unknown ops a message (t, no_effects)
             | Timeout \<Rightarrow> (t, no_effects)))"

end
