(* ===== verification/SdamInvariant.thy ===== *)
theory SdamInvariant
  imports Sdam
begin

text \<open>
  What every transition of the deployment's description keeps: each server under its own address
  with a pool generation beside it, server kinds that fit the deployment's type, a primary exactly
  when the type says so and never two, and effects that say exactly which servers came and went.
\<close>

section \<open>What each change does to the map of servers\<close>

abbreviation at :: "topology \<Rightarrow> utf8 \<Rightarrow> server option" where
  "at t \<equiv> map_of (servers t)"

named_theorems at_simps \<open>the servers known after a change\<close>
named_theorems keeps \<open>changes that leave a field or a property alone\<close>

lemma at_put [at_simps]: "at (put_server a s t) = (at t)(a \<mapsto> s)"
  by (simp add: put_server_def)

lemma at_remove [at_simps]: "at (fst (remove_server a (t, e))) = (at t)(a := None)"
  by (auto simp: remove_server_def fun_eq_iff)

lemma at_add_member [at_simps]:
  "at (fst (add_member a (t, e))) = (if at t a = None then (at t)(a \<mapsto> unknown a) else at t)"
  by (simp add: add_member_def)

lemma at_add_members [at_simps]:
  "at (fst (add_members as st)) b =
     (case at (fst st) b of Some s \<Rightarrow> Some s | None \<Rightarrow> if b \<in> set as then Some (unknown b) else None)"
proof (induction as arbitrary: st)
  case Nil
  then show ?case by (simp add: add_members_def split: option.split)
next
  case (Cons a as)
  obtain t e where st: "st = (t, e)" by (cases st)
  have "at (fst (add_members (a # as) st)) b = at (fst (add_members as (add_member a st))) b"
    by (simp add: add_members_def)
  then show ?case
    by (auto simp: Cons.IH st at_add_member split: option.split)
qed

lemma at_fold_remove [at_simps]: "at (fst (fold remove_server as st)) = (at (fst st)) |` (- set as)"
proof (induction as arbitrary: st)
  case (Cons a as)
  obtain t e where st: "st = (t, e)" by (cases st)
  show ?case by (auto simp: Cons.IH st at_remove restrict_map_def fun_eq_iff)
qed (simp add: restrict_map_def)

lemma at_demote: "at (fst (demote a (t, e))) = (at t)(a \<mapsto> failed a stale_newer None)"
  by (simp add: demote_def at_put)

lemma at_fold_demote [at_simps]:
  "at (fst (fold demote as st)) b = (if b \<in> set as then Some (failed b stale_newer None) else at (fst st) b)"
proof (induction as arbitrary: st)
  case (Cons a as)
  obtain t e where st: "st = (t, e)" by (cases st)
  show ?case by (auto simp: Cons.IH st at_demote)
qed simp

lemma at_note_possible_primary [at_simps]:
  "at (note_possible_primary p t) b =
     (if p = Some b
      then map_option (\<lambda>s. if s_kind s = S_Unknown then s\<lparr>s_kind := S_PossiblePrimary\<rparr> else s) (at t b)
      else at t b)"
  by (auto simp: note_possible_primary_def map_of_bt_modify split: option.split)

lemma at_check_if_has_primary [at_simps]: "servers (check_if_has_primary t) = servers t"
  by (simp add: check_if_has_primary_def)

lemma at_refresh [at_simps]: "servers (refresh t) = servers t" "t_kind (refresh t) = t_kind t"
  "generations (refresh t) = generations t" "max_election_id (refresh t) = max_election_id t"
  "max_set_version (refresh t) = max_set_version t" "t_set_name (refresh t) = t_set_name t"
  by (simp_all add: refresh_def)

lemma stale_primary_keeps [keeps]:
  "servers (snd (stale_primary d t)) = servers t" "t_kind (snd (stale_primary d t)) = t_kind t"
  "generations (snd (stale_primary d t)) = generations t" "t_set_name (snd (stale_primary d t)) = t_set_name t"
  by (auto simp: stale_primary_def note_set_version_def split: option.split)

section \<open>The invariant\<close>

definition keyed :: "topology \<Rightarrow> bool" where
  "keyed t \<longleftrightarrow> bt_ok (servers t) \<and> bt_ok (generations t) \<and>
     dom (map_of (generations t)) = dom (at t) \<and> (\<forall>a s. at t a = Some s \<longrightarrow> s_address s = a)"

definition primary_at :: "topology \<Rightarrow> utf8 \<Rightarrow> bool" where
  "primary_at t a \<longleftrightarrow> (\<exists>s. at t a = Some s \<and> s_kind s = S_RsPrimary)"

definition member_kinds :: "server_type set" where
  "member_kinds = {S_Unknown, S_PossiblePrimary, S_RsSecondary, S_RsArbiter, S_RsOther, S_RsGhost}"

fun allowed :: "topology_type \<Rightarrow> server_type set" where
  "allowed T_Unknown = {S_Unknown, S_RsGhost}"
| "allowed T_Single = UNIV"
| "allowed T_ReplicaSetNoPrimary = member_kinds"
| "allowed T_ReplicaSetWithPrimary = insert S_RsPrimary member_kinds"
| "allowed T_Sharded = {S_Unknown, S_Mongos, S_RsGhost}"

definition kinds_in :: "server_type set \<Rightarrow> topology \<Rightarrow> bool" where
  "kinds_in K t \<longleftrightarrow> (\<forall>a s. at t a = Some s \<longrightarrow> s_kind s \<in> K)"

definition coherent :: "topology \<Rightarrow> bool" where
  "coherent t \<longleftrightarrow> kinds_in (allowed (t_kind t)) t \<and>
     (t_kind t = T_ReplicaSetWithPrimary \<longrightarrow> (\<exists>!a. primary_at t a))"

definition one_at_most :: "topology \<Rightarrow> bool" where
  "one_at_most t \<longleftrightarrow> (\<forall>a b. primary_at t a \<longrightarrow> primary_at t b \<longrightarrow> a = b)"

lemma kind_set [simp]: "primary_at (t\<lparr>t_kind := k\<rparr>) = primary_at t" "kinds_in K (t\<lparr>t_kind := k\<rparr>) = kinds_in K t"
  by (simp_all add: primary_at_def kinds_in_def fun_eq_iff)

lemma has_primary_iff: "keyed t \<Longrightarrow> has_primary t \<longleftrightarrow> (\<exists>a. primary_at t a)"
proof -
  assume k: "keyed t"
  then have ok: "bt_ok (servers t)" by (simp add: keyed_def)
  have "has_primary t \<longleftrightarrow> (\<exists>a s. (a, s) \<in> set (servers t) \<and> s_kind s = S_RsPrimary)"
    by (force simp: has_primary_def)
  then show ?thesis by (simp add: bt.items_lookup [OF ok] primary_at_def)
qed

lemma keyed_put [keeps]: "keyed t \<Longrightarrow> at t a \<noteq> None \<Longrightarrow> s_address s = a \<Longrightarrow> keyed (put_server a s t)"
  by (auto simp: keyed_def put_server_def)

lemma keyed_remove [keeps]: "keyed t \<Longrightarrow> keyed (fst (remove_server a (t, e)))"
  by (auto simp: keyed_def remove_server_def)

lemma unknown_fields [simp]: "s_address (unknown a) = a" "s_kind (unknown a) = S_Unknown"
  by (simp_all add: unknown_def)

lemma failed_fields [simp]: "s_address (failed a m tv) = a" "s_kind (failed a m tv) = S_Unknown"
  "s_topology_version (failed a m tv) = tv"
  by (simp_all add: failed_def)

lemma keyed_add_member [keeps]: "keyed t \<Longrightarrow> keyed (fst (add_member a (t, e)))"
  by (auto simp: keyed_def add_member_def)

lemma keyed_add_members [keeps]: "keyed (fst st) \<Longrightarrow> keyed (fst (add_members as st))"
proof (induction as arbitrary: st)
  case (Cons a as)
  have "add_members (a # as) st = add_members as (add_member a st)" by (simp add: add_members_def)
  with Cons show ?case by (metis keyed_add_member prod.collapse)
qed (simp add: add_members_def)

lemma keyed_fold_remove [keeps]: "keyed (fst st) \<Longrightarrow> keyed (fst (fold remove_server as st))"
proof (induction as arbitrary: st)
  case (Cons a as)
  then show ?case by (metis fold_simps(2) keyed_remove prod.collapse)
qed simp

lemma keyed_fold_demote [keeps]:
  "keyed (fst st) \<Longrightarrow> \<forall>a \<in> set as. at (fst st) a \<noteq> None \<Longrightarrow> keyed (fst (fold demote as st))"
proof (induction as arbitrary: st)
  case (Cons a as)
  obtain t e where st: "st = (t, e)" by (cases st)
  have "keyed (fst (demote a (t, e)))"
    using Cons.prems by (simp add: demote_def st keyed_put)
  moreover have "\<forall>b \<in> set as. at (fst (demote a (t, e))) b \<noteq> None"
    using Cons.prems by (simp add: at_demote st)
  ultimately show ?case using Cons.IH by (simp add: st)
qed simp

lemma keyed_note_possible_primary [keeps]: "keyed t \<Longrightarrow> keyed (note_possible_primary p t)"
proof -
  assume k: "keyed t"
  have "dom (at (note_possible_primary p t)) = dom (at t)"
    by (auto simp: at_note_possible_primary split: if_splits)
  moreover have "\<forall>a s. at (note_possible_primary p t) a = Some s \<longrightarrow> s_address s = a"
    using k by (auto simp: at_note_possible_primary keyed_def split: if_splits)
  moreover have "bt_ok (servers (note_possible_primary p t))"
    "generations (note_possible_primary p t) = generations t"
    using k by (simp_all add: note_possible_primary_def keyed_def split: option.split)
  ultimately show ?thesis using k by (simp add: keyed_def)
qed

lemma keyed_same: "keyed t \<Longrightarrow> servers u = servers t \<Longrightarrow> generations u = generations t \<Longrightarrow> keyed u"
  by (simp add: keyed_def)

lemma check_if_has_primary_fields [keeps]: "generations (check_if_has_primary t) = generations t"
  "max_election_id (check_if_has_primary t) = max_election_id t"
  "max_set_version (check_if_has_primary t) = max_set_version t"
  by (simp_all add: check_if_has_primary_def)

lemma coherent_check:
  assumes "keyed t" "kinds_in (insert S_RsPrimary member_kinds) t" "one_at_most t"
  shows "coherent (check_if_has_primary t)"
proof -
  have "kinds_in member_kinds t" if "\<not> has_primary t"
    using that assms has_primary_iff [OF assms(1)] by (fastforce simp: kinds_in_def primary_at_def)
  then show ?thesis
    using assms has_primary_iff [OF assms(1)]
    by (auto simp: coherent_def check_if_has_primary_def one_at_most_def)
qed

section \<open>Each transition keeps it\<close>

lemma in_member_kinds [simp]: "S_Unknown \<in> member_kinds" "S_PossiblePrimary \<in> member_kinds"
  "S_RsSecondary \<in> member_kinds" "S_RsArbiter \<in> member_kinds" "S_RsOther \<in> member_kinds"
  "S_RsGhost \<in> member_kinds" "S_RsPrimary \<notin> member_kinds"
  by (simp_all add: member_kinds_def)

lemma kinds_in_remove: "kinds_in K t \<Longrightarrow> kinds_in K (fst (remove_server a (t, e)))"
  by (simp add: kinds_in_def at_remove)

lemma kinds_in_add: "kinds_in K (fst st) \<Longrightarrow> S_Unknown \<in> K \<Longrightarrow> kinds_in K (fst (add_members as st))"
  by (auto simp: kinds_in_def at_add_members split: option.splits if_splits)

lemma kinds_in_note: "kinds_in K t \<Longrightarrow> S_PossiblePrimary \<in> K \<Longrightarrow> kinds_in K (note_possible_primary p t)"
  by (auto simp: kinds_in_def at_note_possible_primary split: if_splits)

lemma t_kind_remove [keeps]: "t_kind (fst (remove_server a (t, e))) = t_kind t"
  by (simp add: remove_server_def)

lemma t_kind_add [keeps]: "t_kind (fst (add_members as st)) = t_kind (fst st)"
proof (induction as arbitrary: st)
  case (Cons a as)
  have "add_members (a # as) st = add_members as (add_member a st)" by (simp add: add_members_def)
  then show ?case by (simp add: Cons.IH add_member_def split: prod.split)
qed (simp add: add_members_def)

lemma t_kind_note [keeps]: "t_kind (note_possible_primary p t) = t_kind t"
  by (simp add: note_possible_primary_def split: option.split)

definition keeps_invariant :: "step \<Rightarrow> bool" where
  "keeps_invariant st \<longleftrightarrow> keyed (fst st) \<and> coherent (fst st)"

lemma coherent_no_primary:
  "t_kind t = T_ReplicaSetNoPrimary \<Longrightarrow> kinds_in member_kinds t \<Longrightarrow> coherent t"
  by (simp add: coherent_def)

lemma without_primary_keeps:
  assumes "keyed t" "t_kind t = T_ReplicaSetNoPrimary" "kinds_in member_kinds t"
  shows "keeps_invariant (update_rs_without_primary d (t, e))"
proof (cases "t_set_name t \<noteq> None \<and> t_set_name t \<noteq> s_set_name d")
  case True
  then show ?thesis
    using assms by (simp add: update_rs_without_primary_def keeps_invariant_def keyed_remove
        coherent_no_primary kinds_in_remove t_kind_remove)
next
  case False
  define t1 where "t1 = (if t_set_name t = None then t\<lparr>t_set_name := s_set_name d\<rparr> else t)"
  obtain t2 e2 where a: "add_members (s_members d) (t1, e) = (t2, e2)" by fastforce
  have t1: "keyed t1" "t_kind t1 = T_ReplicaSetNoPrimary" "kinds_in member_kinds t1"
    using assms by (auto simp: t1_def keyed_def kinds_in_def)
  have t2: "keyed t2" "t_kind t2 = T_ReplicaSetNoPrimary" "kinds_in member_kinds t2"
    using keyed_add_members [of "(t1, e)" "s_members d"] t_kind_add [of "s_members d" "(t1, e)"]
      kinds_in_add [of member_kinds "(t1, e)" "s_members d"] t1 by (simp_all add: a)
  have "keyed (note_possible_primary p t2)" "t_kind (note_possible_primary p t2) = T_ReplicaSetNoPrimary"
    "kinds_in member_kinds (note_possible_primary p t2)" for p
    using t2 by (simp_all add: keyed_note_possible_primary t_kind_note kinds_in_note)
  then show ?thesis
    using False a by (auto simp: update_rs_without_primary_def keeps_invariant_def Let_def
        keyed_remove t_kind_remove kinds_in_remove coherent_no_primary t1_def [symmetric])
qed

lemma one_at_most_remove: "one_at_most t \<Longrightarrow> one_at_most (fst (remove_server a (t, e)))"
  by (auto simp: one_at_most_def primary_at_def at_remove split: if_splits)

lemma remove_then_check_keeps:
  assumes "keyed t" "kinds_in (insert S_RsPrimary member_kinds) (fst (remove_server a (t, e)))"
    "one_at_most (fst (remove_server a (t, e)))"
  shows "keeps_invariant (let (t, e) = remove_server a (t, e) in (check_if_has_primary t, e))"
  using assms keyed_remove [OF assms(1), of a e] coherent_check [of "fst (remove_server a (t, e))"]
  by (cases "remove_server a (t, e)")
    (auto simp: keeps_invariant_def check_if_has_primary_def keyed_def)

lemma from_member_keeps:
  assumes "keyed t" "t_kind t = T_ReplicaSetWithPrimary" "kinds_in (insert S_RsPrimary member_kinds) t"
    "one_at_most t"
  shows "keeps_invariant (update_rs_with_primary_from_member d (t, e))"
proof (cases "t_set_name t \<noteq> s_set_name d \<or> other_me d")
  case True
  then show ?thesis
    using remove_then_check_keeps [of t "s_address d" e] assms
    by (simp add: update_rs_with_primary_from_member_def kinds_in_remove one_at_most_remove)
next
  case False
  show ?thesis
  proof (cases "has_primary t")
    case True
    then show ?thesis using False assms has_primary_iff [OF assms(1)]
      by (auto simp: update_rs_with_primary_from_member_def keeps_invariant_def coherent_def one_at_most_def)
  next
    case no: False
    let ?t = "t\<lparr>t_kind := T_ReplicaSetNoPrimary\<rparr>"
    have "kinds_in member_kinds ?t"
      using no assms has_primary_iff [OF assms(1)] by (fastforce simp: kinds_in_def primary_at_def)
    moreover have "keyed ?t" using assms(1) by (simp add: keyed_def)
    ultimately show ?thesis using False no
      by (simp add: update_rs_with_primary_from_member_def keeps_invariant_def keyed_note_possible_primary
          coherent_no_primary kinds_in_note t_kind_note)
  qed
qed

subsection \<open>Hearing from a primary\<close>

definition other_primaries :: "server \<Rightarrow> topology \<Rightarrow> utf8 list" where
  "other_primaries d t = map (s_address \<circ> snd)
     (filter (\<lambda>(_, s). s_address s \<noteq> s_address d \<and> s_kind s = S_RsPrimary) (servers t))"

lemma other_primaries_iff:
  assumes "keyed t"
  shows "a \<in> set (other_primaries d t) \<longleftrightarrow> a \<noteq> s_address d \<and> primary_at t a"
proof -
  have ok: "bt_ok (servers t)" and addr: "\<And>a s. at t a = Some s \<Longrightarrow> s_address s = a"
    using assms by (auto simp: keyed_def)
  have "a \<in> set (other_primaries d t) \<longleftrightarrow>
      (\<exists>k s. at t k = Some s \<and> s_address s = a \<and> a \<noteq> s_address d \<and> s_kind s = S_RsPrimary)"
    by (force simp: other_primaries_def bt.items_lookup [OF ok] image_iff)
  then show ?thesis using addr by (auto simp: primary_at_def)
qed

text \<open>After an accepted primary the deployment is its list, the other primaries demoted.\<close>

lemma at_accept_primary:
  assumes "keyed t"
  shows "at (fst (accept_primary d (t, e))) b =
     (if b \<notin> set (s_members d) then None
      else if b \<noteq> s_address d \<and> primary_at t b then Some (failed b stale_newer None)
      else (case at t b of Some s \<Rightarrow> Some s | None \<Rightarrow> Some (unknown b)))"
    "keyed (fst (accept_primary d (t, e)))"
proof -
  obtain t1 e1 where d: "fold demote (other_primaries d t) (t, e) = (t1, e1)" by fastforce
  obtain t2 e2 where a: "add_members (s_members d) (t1, e1) = (t2, e2)" by fastforce
  let ?gone = "filter (\<lambda>a. a \<notin> set (s_members d)) (map fst (servers t2))"
  obtain t3 e3 where r: "fold remove_server ?gone (t2, e2) = (t3, e3)" by fastforce
  have res: "accept_primary d (t, e) = (check_if_has_primary t3, e3)"
    using d a r by (simp add: accept_primary_def other_primaries_def)
  have t1: "at t1 b = (if b \<noteq> s_address d \<and> primary_at t b then Some (failed b stale_newer None) else at t b)" for b
    using at_fold_demote [of "other_primaries d t" "(t, e)" b] by (simp add: d other_primaries_iff [OF assms])
  have k1: "keyed t1"
  proof -
    have "\<forall>a \<in> set (other_primaries d t). at t a \<noteq> None"
      using other_primaries_iff [OF assms] by (auto simp: primary_at_def)
    then show ?thesis using keyed_fold_demote [of "(t, e)" "other_primaries d t"] assms by (simp add: d)
  qed
  have k2: "keyed t2" using keyed_add_members [of "(t1, e1)" "s_members d"] k1 by (simp add: a)
  have t2: "at t2 b = (case at t1 b of Some s \<Rightarrow> Some s | None \<Rightarrow> if b \<in> set (s_members d) then Some (unknown b) else None)" for b
    using at_add_members [of "s_members d" "(t1, e1)" b] by (simp add: a)
  have gone: "set ?gone = dom (at t2) - set (s_members d)"
  proof -
    have "set (map fst (servers t2)) = dom (at t2)"
      using k2 bt.keys_of_items [of "servers t2"] by (simp add: keyed_def)
    then show ?thesis by auto
  qed
  have t3: "at t3 = at t2 |` (- (dom (at t2) - set (s_members d)))"
    using at_fold_remove [of ?gone "(t2, e2)"] unfolding r gone by simp
  have k3: "keyed t3" using keyed_fold_remove [of "(t2, e2)" ?gone] k2 by (simp add: r)
  show "keyed (fst (accept_primary d (t, e)))"
    using keyed_same [OF k3, of "check_if_has_primary t3"]
    by (simp add: res at_check_if_has_primary check_if_has_primary_fields)
  show "at (fst (accept_primary d (t, e))) b =
     (if b \<notin> set (s_members d) then None
      else if b \<noteq> s_address d \<and> primary_at t b then Some (failed b stale_newer None)
      else (case at t b of Some s \<Rightarrow> Some s | None \<Rightarrow> Some (unknown b)))"
    by (auto simp: res at_check_if_has_primary t3 restrict_map_def t2 t1 split: option.splits)
qed

lemma accept_primary_checks: "\<exists>u. fst (accept_primary d st) = check_if_has_primary u"
  by (auto simp: accept_primary_def Let_def split: prod.split)

lemma coherent_checked:
  assumes "keyed (check_if_has_primary t)" "kinds_in (insert S_RsPrimary member_kinds) (check_if_has_primary t)"
    "one_at_most (check_if_has_primary t)"
  shows "coherent (check_if_has_primary t)"
  using coherent_check [of t] assms
  by (simp add: check_if_has_primary_def keyed_def one_at_most_def)

lemma accept_primary_keeps:
  assumes "keyed t" "kinds_in (insert S_RsPrimary member_kinds) t"
  shows "keeps_invariant (accept_primary d (t, e))"
proof -
  have "kinds_in (insert S_RsPrimary member_kinds) (fst (accept_primary d (t, e)))"
    using assms(2) by (auto simp: kinds_in_def at_accept_primary(1) [OF assms(1)] split: if_splits option.splits)
  moreover have "one_at_most (fst (accept_primary d (t, e)))"
    by (auto simp: one_at_most_def primary_at_def at_accept_primary(1) [OF assms(1)] split: if_splits option.splits)
  ultimately show ?thesis
    using accept_primary_checks [of d "(t, e)"] at_accept_primary(2) [OF assms(1)] coherent_checked
    by (metis keeps_invariant_def)
qed

definition one_besides :: "utf8 \<Rightarrow> topology \<Rightarrow> bool" where
  "one_besides a t \<longleftrightarrow> (\<forall>b c. primary_at t b \<longrightarrow> primary_at t c \<longrightarrow> b \<noteq> a \<longrightarrow> c \<noteq> a \<longrightarrow> b = c)"

lemma one_besides_remove: "one_besides a t \<Longrightarrow> one_at_most (fst (remove_server a (t, e)))"
  by (auto simp: one_besides_def one_at_most_def primary_at_def at_remove split: if_splits)

lemma from_primary_keeps:
  assumes "keyed t" "kinds_in (insert S_RsPrimary member_kinds) t" "one_besides (s_address d) t"
    "at t (s_address d) \<noteq> None"
  shows "keeps_invariant (update_rs_from_primary d (t, e))"
proof (cases "t_set_name t \<noteq> None \<and> t_set_name t \<noteq> s_set_name d")
  case True
  then show ?thesis
    using remove_then_check_keeps [of t "s_address d" e] assms
    by (simp add: update_rs_from_primary_def kinds_in_remove one_besides_remove)
next
  case False
  define t1 where "t1 = (if t_set_name t = None then t\<lparr>t_set_name := s_set_name d\<rparr> else t)"
  obtain stale t2 where st: "stale_primary d t1 = (stale, t2)" by fastforce
  have same: "servers t2 = servers t" "generations t2 = generations t"
  proof -
    have "servers t1 = servers t" "generations t1 = generations t" by (simp_all add: t1_def)
    then show "servers t2 = servers t" "generations t2 = generations t"
      using stale_primary_keeps(1,3) [of d t1] by (simp_all add: st)
  qed
  have k2: "keyed t2" using keyed_same [OF assms(1)] same by simp
  have kinds2: "kinds_in (insert S_RsPrimary member_kinds) t2" "primary_at t2 = primary_at t"
    using assms(2) same by (simp_all add: kinds_in_def primary_at_def fun_eq_iff)
  let ?s = "put_server (s_address d) (failed (s_address d) stale_election None) t2"
  have "keyed ?s" using keyed_put [OF k2] assms(4) same by simp
  moreover have "kinds_in (insert S_RsPrimary member_kinds) ?s"
    using kinds2 by (simp add: kinds_in_def at_put)
  moreover have "one_at_most ?s"
    using assms(3) same by (auto simp: one_besides_def one_at_most_def primary_at_def at_put split: if_splits)
  ultimately have "coherent (check_if_has_primary ?s)" "keyed (check_if_has_primary ?s)"
    using coherent_check [of ?s] keyed_same [of ?s "check_if_has_primary ?s"]
    by (simp_all add: at_check_if_has_primary check_if_has_primary_fields)
  then show ?thesis
    using False st accept_primary_keeps [OF k2 kinds2(1), of d e]
    by (auto simp: update_rs_from_primary_def keeps_invariant_def Let_def t1_def [symmetric])
qed

subsection \<open>The table, and updates\<close>

lemma single_keeps: "keyed t \<Longrightarrow> t_kind t = T_Single \<Longrightarrow> keeps_invariant (t, e)"
  by (simp add: keeps_invariant_def coherent_def kinds_in_def)

lemma one_at_most_none: "kinds_in K t \<Longrightarrow> S_RsPrimary \<notin> K \<Longrightarrow> \<not> primary_at t a"
  unfolding kinds_in_def primary_at_def by metis

lemma coherent_one: "coherent t \<Longrightarrow> t_kind t \<noteq> T_Single \<Longrightarrow> one_at_most t"
  by (cases "t_kind t") (auto simp: coherent_def one_at_most_def dest: one_at_most_none)

lemma kinds_in_mono: "kinds_in K t \<Longrightarrow> K \<subseteq> L \<Longrightarrow> kinds_in L t"
  by (auto simp: kinds_in_def)

lemma kinds_in_put: "kinds_in K t \<Longrightarrow> s_kind s \<in> K \<Longrightarrow> kinds_in K (put_server a s t)"
  by (auto simp: kinds_in_def at_put)

lemma one_besides_put: "one_at_most t \<Longrightarrow> one_besides a (put_server a s t)"
  by (auto simp: one_besides_def one_at_most_def primary_at_def at_put)

lemma kinds_in_put_remove:
  "kinds_in K t \<Longrightarrow> kinds_in K (fst (remove_server a (put_server a s t, e)))"
  by (auto simp: kinds_in_def at_put at_remove)

lemma put_fields [simp]: "t_kind (put_server a s t) = t_kind t" "seeds (put_server a s t) = seeds t"
  by (simp_all add: put_server_def)

lemma keeps_same: "keyed t \<Longrightarrow> coherent u \<Longrightarrow> servers u = servers t \<Longrightarrow> generations u = generations t \<Longrightarrow>
    keeps_invariant (u, e)"
  by (simp add: keeps_invariant_def keyed_def)

lemma put_keeps:
  assumes "keyed t" "at t a \<noteq> None" "s_address d = a" "coherent t"
    "s_kind d \<in> allowed k" "allowed (t_kind t) \<subseteq> allowed k" "k \<noteq> T_ReplicaSetWithPrimary"
  shows "keeps_invariant ((put_server a d t)\<lparr>t_kind := k\<rparr>, e)"
proof -
  have "kinds_in (allowed k) (put_server a d t)"
    using assms kinds_in_mono kinds_in_put by (auto simp: coherent_def)
  moreover have "keyed (put_server a d t)" using keyed_put assms by blast
  ultimately show ?thesis using assms(7) by (simp add: keeps_invariant_def keyed_def coherent_def)
qed

lemma remove_keeps:
  assumes "keyed t" "at t a \<noteq> None" "s_address d = a" "coherent t" "t_kind t \<noteq> T_ReplicaSetWithPrimary"
  shows "keeps_invariant (remove_server a (put_server a d t, e))"
proof -
  have "kinds_in (allowed (t_kind t)) (fst (remove_server a (put_server a d t, e)))"
    using assms by (simp add: kinds_in_put_remove coherent_def)
  then show ?thesis
    using keyed_remove [OF keyed_put [OF assms(1-3)]] assms
    by (simp add: keeps_invariant_def coherent_def t_kind_remove)
qed

lemma primary_keeps:
  assumes "keyed t" "at t a \<noteq> None" "s_address d = a" "coherent t" "s_kind d = S_RsPrimary"
    "t_kind t \<in> {T_Unknown, T_ReplicaSetNoPrimary, T_ReplicaSetWithPrimary}"
  shows "keeps_invariant (update_rs_from_primary d ((put_server a d t)\<lparr>t_kind := T_ReplicaSetWithPrimary\<rparr>, e))"
proof (rule from_primary_keeps)
  have "allowed (t_kind t) \<subseteq> insert S_RsPrimary member_kinds"
    using assms(6) by (auto simp: member_kinds_def)
  then have "kinds_in (insert S_RsPrimary member_kinds) t"
    using assms(4) unfolding coherent_def by (meson kinds_in_mono)
  then have "kinds_in (insert S_RsPrimary member_kinds) (put_server a d t)"
    using assms(5) by (simp add: kinds_in_put)
  then show "kinds_in (insert S_RsPrimary member_kinds) ((put_server a d t)\<lparr>t_kind := T_ReplicaSetWithPrimary\<rparr>)"
    by simp
  have "one_besides (s_address d) (put_server a d t)"
    using one_besides_put [OF coherent_one [OF assms(4)]] assms by auto
  then show "one_besides (s_address d) ((put_server a d t)\<lparr>t_kind := T_ReplicaSetWithPrimary\<rparr>)"
    by (simp add: one_besides_def)
  show "keyed ((put_server a d t)\<lparr>t_kind := T_ReplicaSetWithPrimary\<rparr>)"
    using keyed_same [OF keyed_put [OF assms(1-3)]] by simp
  show "at ((put_server a d t)\<lparr>t_kind := T_ReplicaSetWithPrimary\<rparr>) (s_address d) \<noteq> None"
    using assms by (simp add: at_put)
qed

lemma member_keeps:
  assumes "keyed t" "at t a \<noteq> None" "s_address d = a" "coherent t"
    "s_kind d \<in> {S_RsSecondary, S_RsArbiter, S_RsOther}"
  shows "t_kind t \<in> {T_Unknown, T_ReplicaSetNoPrimary} \<Longrightarrow>
      keeps_invariant (update_rs_without_primary d ((put_server a d t)\<lparr>t_kind := T_ReplicaSetNoPrimary\<rparr>, e))"
    and "t_kind t = T_ReplicaSetWithPrimary \<Longrightarrow>
      keeps_invariant (update_rs_with_primary_from_member d (put_server a d t, e))"
proof -
  have k: "keyed (put_server a d t)" using keyed_put assms(1-3) by blast
  have m: "s_kind d \<in> member_kinds" using assms(5) by auto
  {
    assume "t_kind t \<in> {T_Unknown, T_ReplicaSetNoPrimary}"
    then have "kinds_in member_kinds t"
      using assms(4) by (auto simp: coherent_def member_kinds_def intro: kinds_in_mono)
    then have "kinds_in member_kinds ((put_server a d t)\<lparr>t_kind := T_ReplicaSetNoPrimary\<rparr>)"
      using m by (simp add: kinds_in_put)
    then show "keeps_invariant (update_rs_without_primary d ((put_server a d t)\<lparr>t_kind := T_ReplicaSetNoPrimary\<rparr>, e))"
      using keyed_same [OF k] by (intro without_primary_keeps) simp_all
  }
  {
    assume w: "t_kind t = T_ReplicaSetWithPrimary"
    then have "kinds_in (insert S_RsPrimary member_kinds) (put_server a d t)"
      using assms(4) m by (intro kinds_in_put) (auto simp: coherent_def)
    moreover have "one_at_most (put_server a d t)"
      using coherent_one [OF assms(4)] w assms(5)
      by (auto simp: one_at_most_def primary_at_def at_put split: if_splits)
    ultimately show "keeps_invariant (update_rs_with_primary_from_member d (put_server a d t, e))"
      using from_member_keeps [OF k] w by simp
  }
qed

lemma checked_keeps:
  assumes "keyed t" "at t a \<noteq> None" "s_address d = a" "coherent t" "t_kind t = T_ReplicaSetWithPrimary"
  shows "s_kind d \<in> {S_Unknown, S_RsGhost} \<Longrightarrow> keeps_invariant (check_if_has_primary (put_server a d t), e)"
    and "keeps_invariant (let (u, e) = remove_server a (put_server a d t, e) in (check_if_has_primary u, e))"
proof -
  have k: "keyed (put_server a d t)" using keyed_put assms(1-3) by blast
  have kinds: "kinds_in (insert S_RsPrimary member_kinds) t" using assms(4,5) by (simp add: coherent_def)
  have one: "one_at_most t" using coherent_one assms(4,5) by simp
  {
    assume d: "s_kind d \<in> {S_Unknown, S_RsGhost}"
    then have "kinds_in (insert S_RsPrimary member_kinds) (put_server a d t)" using kinds by (intro kinds_in_put) auto
    moreover have "one_at_most (put_server a d t)"
      using one d by (auto simp: one_at_most_def primary_at_def at_put split: if_splits)
    ultimately show "keeps_invariant (check_if_has_primary (put_server a d t), e)"
      using coherent_check [OF k] keeps_same [OF k]
      by (simp add: at_check_if_has_primary check_if_has_primary_fields)
  }
  have "one_at_most (fst (remove_server a (put_server a d t, e)))"
    using one by (auto simp: one_at_most_def primary_at_def at_put at_remove split: if_splits)
  then show "keeps_invariant (let (u, e) = remove_server a (put_server a d t, e) in (check_if_has_primary u, e))"
    by (rule remove_then_check_keeps [OF k kinds_in_put_remove [OF kinds]])
qed

lemma standalone_keeps:
  assumes "keyed t" "at t a \<noteq> None" "s_address d = a" "coherent t" "t_kind t = T_Unknown"
  shows "keeps_invariant (update_unknown_with_standalone a (put_server a d t, e))"
proof (cases "seeds t = 1")
  case True
  have "keyed ((put_server a d t)\<lparr>t_kind := T_Single\<rparr>)"
    using keyed_same [OF keyed_put [OF assms(1-3)]] by simp
  then show ?thesis using True by (simp add: update_unknown_with_standalone_def single_keeps)
next
  case False
  then show ?thesis using remove_keeps [OF assms(1-4)] assms(5)
    by (simp add: update_unknown_with_standalone_def)
qed

lemma transition_keeps:
  assumes "keyed t" "at t (s_address d) \<noteq> None" "coherent t" "s_kind d \<noteq> S_PossiblePrimary"
    "t_kind t \<noteq> T_Single"
  shows "keeps_invariant (transition d (put_server (s_address d) d t, e))"
proof -
  note asm = assms(1,2) refl assms(3)
  have stays: "keeps_invariant (put_server (s_address d) d t, e)"
    if "s_kind d \<in> allowed (t_kind t)" "t_kind t \<noteq> T_ReplicaSetWithPrimary"
    using put_keeps [OF asm that(1) subset_refl that(2), of e] by (simp add: put_server_def)
  have sharded: "keeps_invariant ((put_server (s_address d) d t)\<lparr>t_kind := T_Sharded\<rparr>, e)"
    if "t_kind t = T_Unknown" "s_kind d = S_Mongos"
    using put_keeps [OF asm, where k = T_Sharded and e = e] that by simp
  show ?thesis
  proof (cases "t_kind t")
    case T_Unknown
    then show ?thesis
      using assms(4) stays sharded standalone_keeps [OF asm] primary_keeps [OF asm] member_keeps(1) [OF asm]
      by (cases "s_kind d") (simp_all add: transition_def)
  next
    case T_ReplicaSetNoPrimary
    have no: "(put_server (s_address d) d t)\<lparr>t_kind := T_ReplicaSetNoPrimary\<rparr> = put_server (s_address d) d t"
      using T_ReplicaSetNoPrimary by (simp add: put_server_def)
    show ?thesis
      using T_ReplicaSetNoPrimary assms(4) stays remove_keeps [OF asm] primary_keeps [OF asm]
        member_keeps(1) [OF asm, unfolded no]
      by (cases "s_kind d") (simp_all add: transition_def)
  next
    case T_ReplicaSetWithPrimary
    then show ?thesis
      using assms(4) primary_keeps [OF asm] member_keeps(2) [OF asm] checked_keeps [OF asm]
      by (cases "s_kind d") (simp_all add: transition_def)
  next
    case T_Sharded
    then show ?thesis
      using assms(4) stays remove_keeps [OF asm] by (cases "s_kind d") (simp_all add: transition_def)
  qed (use assms(5) in simp)
qed

lemma refresh_keeps: "keeps_invariant (t, e) \<Longrightarrow> keeps_invariant (refresh t, e)"
proof -
  have "primary_at (refresh t) = primary_at t" "kinds_in K (refresh t) = kinds_in K t" for K
    by (simp_all add: primary_at_def kinds_in_def at_refresh fun_eq_iff)
  then show "keeps_invariant (t, e) \<Longrightarrow> keeps_invariant (refresh t, e)"
    by (simp add: keeps_invariant_def keyed_def coherent_def at_refresh)
qed

lemma keep_rtt_fields [simp]: "s_address (keep_rtt ops c d) = s_address d" "s_kind (keep_rtt ops c d) = s_kind d"
  "s_set_name (keep_rtt ops c d) = s_set_name d" "election_id (keep_rtt ops c d) = election_id d"
  "set_version (keep_rtt ops c d) = set_version d" "max_wire (keep_rtt ops c d) = max_wire d"
  "s_members (keep_rtt ops c d) = s_members d" "s_topology_version (keep_rtt ops c d) = s_topology_version d"
  "s_me (keep_rtt ops c d) = s_me d"
  by (auto simp: keep_rtt_def split: option.split)

lemma single_server_address [simp]: "s_address (single_server t d) = s_address d"
  by (simp add: single_server_def split: option.split)

definition sound :: "topology \<Rightarrow> bool" where
  "sound t \<longleftrightarrow> keyed t \<and> coherent t"

lemma update_keeps:
  assumes "sound t" "s_kind d \<noteq> S_PossiblePrimary"
  shows "sound (fst (update ops d t))"
proof (cases "at t (s_address d)")
  case None
  then show ?thesis using assms by (simp add: update_def)
next
  case (Some c)
  let ?d = "keep_rtt ops c d"
  have k: "keyed t" "coherent t" "at t (s_address ?d) \<noteq> None" using assms(1) Some by (simp_all add: sound_def)
  show ?thesis
  proof (cases "at_least_as_new (s_topology_version c) (s_topology_version d)")
    case False
    then show ?thesis using assms(1) Some by (simp add: update_def)
  next
    case new: True
    show ?thesis
    proof (cases "t_kind t = T_Single")
      case True
      have "keyed (put_server (s_address ?d) (single_server t ?d) t)"
        using keyed_put [OF k(1) k(3)] by simp
      then have "keeps_invariant (refresh (put_server (s_address ?d) (single_server t ?d) t), no_effects)"
        using refresh_keeps single_keeps True by simp
      then show ?thesis using Some new True by (simp add: update_def sound_def keeps_invariant_def)
    next
      case False
      obtain u e where u: "transition ?d (put_server (s_address ?d) ?d t, no_effects) = (u, e)" by fastforce
      have "keeps_invariant (u, e)"
        using transition_keeps [OF k(1,3,2), of no_effects] assms(2) False unfolding u by simp
      from refresh_keeps [OF this] have "sound (refresh u)" by (simp add: sound_def keeps_invariant_def)
      then show ?thesis using Some new False u by (simp add: update_def)
    qed
  qed
qed

end
