(* ===== verification/SdamEffects.thy ===== *)
theory SdamEffects
  imports SdamInvariant "HOL-Library.Product_Lexorder" "HOL-Library.Option_ord"
begin

text \<open>
  What monitoring promises of the deployment's description: the effects of a change account for
  the servers that came and went, every run keeps the invariant, and the primaries accepted follow
  the order of their elections.
\<close>

section \<open>Effects\<close>

text \<open>The effects collected so far account for the servers that came and went since \<open>t0\<close>.\<close>

definition accounts :: "topology \<Rightarrow> step \<Rightarrow> bool" where
  "accounts t0 st \<longleftrightarrow>
     set (e_added (snd st)) = dom (at (fst st)) - dom (at t0) \<and> distinct (e_added (snd st)) \<and>
     set (e_removed (snd st)) = dom (at t0) - dom (at (fst st)) \<and> distinct (e_removed (snd st)) \<and>
     e_clear (snd st) = []"

named_theorems accounting \<open>changes the effects account for\<close>

lemma accounts_start [accounting]: "dom (at t) = dom (at t0) \<Longrightarrow> accounts t0 (t, no_effects)"
  by (simp add: accounts_def no_effects_def)

lemma accounts_same: "accounts t0 (t, e) \<Longrightarrow> dom (at u) = dom (at t) \<Longrightarrow> accounts t0 (u, e)"
  by (simp add: accounts_def)

lemma accounts_remove:
  assumes "accounts t0 (t, e)" "a \<in> dom (at t0) \<or> a \<notin> dom (at t)"
  shows "accounts t0 (remove_server a (t, e))"
proof (cases "at t a")
  case None
  then show ?thesis using assms(1) by (simp add: remove_server_def)
next
  case (Some s)
  then have "a \<notin> set (e_removed e)" "a \<in> dom (at t0)" using assms by (auto simp: accounts_def)
  with assms(1) Some show ?thesis by (auto simp: accounts_def remove_server_def)
qed

lemma accounts_add:
  assumes "accounts t0 (t, e)" "dom (at t0) \<subseteq> dom (at t)"
  shows "accounts t0 (add_member a (t, e))" "dom (at t0) \<subseteq> dom (at (fst (add_member a (t, e))))"
proof -
  show "dom (at t0) \<subseteq> dom (at (fst (add_member a (t, e))))"
    using assms(2) by (auto simp: at_add_member)
  show "accounts t0 (add_member a (t, e))"
  proof (cases "at t a")
    case None
    then have "a \<notin> set (e_added e)" "a \<notin> dom (at t0)" using assms by (auto simp: accounts_def)
    with assms None show ?thesis by (auto simp: accounts_def add_member_def)
  next
    case (Some s)
    then show ?thesis using assms(1) by (simp add: add_member_def)
  qed
qed

lemma accounts_add_members:
  assumes "accounts t0 st" "dom (at t0) \<subseteq> dom (at (fst st))"
  shows "accounts t0 (add_members as st)"
  using assms
proof (induction as arbitrary: st)
  case (Cons a as)
  obtain t e where st: "st = (t, e)" by (cases st)
  have "add_members (a # as) st = add_members as (add_member a st)" by (simp add: add_members_def)
  with Cons accounts_add [of t0 t e a] show ?case by (simp add: st)
qed (simp add: add_members_def)

lemma accounts_fold_remove:
  assumes "accounts t0 st" "\<forall>a \<in> set as. a \<in> dom (at t0) \<or> a \<notin> dom (at (fst st))"
  shows "accounts t0 (fold remove_server as st)"
  using assms
proof (induction as arbitrary: st)
  case (Cons a as)
  obtain t e where st: "st = (t, e)" by (cases st)
  have "accounts t0 (remove_server a (t, e))" using Cons.prems by (intro accounts_remove) (auto simp: st)
  moreover have "\<forall>b \<in> set as. b \<in> dom (at t0) \<or> b \<notin> dom (at (fst (remove_server a (t, e))))"
    using Cons.prems(2) by (auto simp: st at_remove)
  ultimately show ?case using Cons.IH by (simp add: st)
qed simp

lemma accounts_fold_demote:
  "accounts t0 st \<Longrightarrow> \<forall>a \<in> set as. a \<in> dom (at (fst st)) \<Longrightarrow>
    accounts t0 (fold demote as st) \<and> e_check (snd (fold demote as st)) = e_check (snd st) @ as"
proof (induction as arbitrary: st)
  case (Cons a as)
  obtain t e where st: "st = (t, e)" by (cases st)
  have "dom (at (put_server a s t)) = dom (at t)" for s using Cons.prems(2) by (auto simp: at_put st)
  then have "accounts t0 (demote a (t, e))" "dom (at (fst (demote a (t, e)))) = dom (at t)"
    using Cons.prems(1) by (simp_all add: accounts_def demote_def st)
  moreover have "e_check (snd (demote a (t, e))) = e_check e @ [a]" by (simp add: demote_def)
  ultimately show ?case using Cons.IH [of "demote a st"] Cons.prems(2) by (simp add: st)
qed simp

lemma remove_check_field [simp]: "e_check (snd (remove_server a st)) = e_check (snd st)"
  by (cases st) (simp add: remove_server_def)

lemma fold_remove_check [simp]: "e_check (snd (fold remove_server as st)) = e_check (snd st)"
  by (induction as arbitrary: st) simp_all

lemma add_members_check [simp]: "e_check (snd (add_members as st)) = e_check (snd st)"
proof (induction as arbitrary: st)
  case (Cons a as)
  have "add_members (a # as) st = add_members as (add_member a st)" by (simp add: add_members_def)
  then show ?case by (cases st) (simp add: Cons.IH add_member_def)
qed (simp add: add_members_def)

lemma dom_add_members: "dom (at (fst (add_members as st))) = dom (at (fst st)) \<union> set as"
  by (rule set_eqI) (simp add: domIff at_add_members split: option.split)

lemma dom_fold_demote: "dom (at (fst (fold demote as st))) = dom (at (fst st)) \<union> set as"
  by (rule set_eqI) (simp add: domIff at_fold_demote)

lemma accept_primary_accounts:
  assumes "keyed t" "accounts t0 (t, e)" "dom (at t) = dom (at t0)"
  shows "accounts t0 (accept_primary d (t, e))"
    "e_check (snd (accept_primary d (t, e))) = e_check e @ other_primaries d t"
proof -
  obtain t1 e1 where d: "fold demote (other_primaries d t) (t, e) = (t1, e1)" by fastforce
  obtain t2 e2 where a: "add_members (s_members d) (t1, e1) = (t2, e2)" by fastforce
  let ?gone = "filter (\<lambda>a. a \<notin> set (s_members d)) (map fst (servers t2))"
  obtain t3 e3 where r: "fold remove_server ?gone (t2, e2) = (t3, e3)" by fastforce
  have res: "accept_primary d (t, e) = (check_if_has_primary t3, e3)"
    using d a r by (simp add: accept_primary_def other_primaries_def)
  have others: "\<forall>a \<in> set (other_primaries d t). a \<in> dom (at t)"
    using other_primaries_iff [OF assms(1)] by (auto simp: primary_at_def)
  have 1: "accounts t0 (t1, e1)" "e_check e1 = e_check e @ other_primaries d t"
    using accounts_fold_demote [OF assms(2), of "other_primaries d t"] others by (simp_all add: d)
  have dom1: "dom (at t1) = dom (at t0)"
    using dom_fold_demote [of "other_primaries d t" "(t, e)"] others assms(3) by (auto simp: d)
  have 2: "accounts t0 (t2, e2)" using accounts_add_members [of t0 "(t1, e1)" "s_members d"] 1 dom1 by (simp add: a)
  have dom2: "dom (at t2) = dom (at t0) \<union> set (s_members d)"
    using dom_add_members [of "s_members d" "(t1, e1)"] dom1 by (simp add: a)
  have "\<forall>a \<in> set ?gone. a \<in> dom (at t0) \<or> a \<notin> dom (at t2)"
    using dom2 by auto
  then have 3: "accounts t0 (t3, e3)" using accounts_fold_remove [of t0 "(t2, e2)" ?gone] 2 by (simp add: r)
  then show "accounts t0 (accept_primary d (t, e))"
    using accounts_same by (simp add: res at_check_if_has_primary)
  have "e_check e3 = e_check e2" using fold_remove_check [of ?gone "(t2, e2)"] by (simp add: r)
  moreover have "e_check e2 = e_check e1" using add_members_check [of "s_members d" "(t1, e1)"] by (simp add: a)
  ultimately show "e_check (snd (accept_primary d (t, e))) = e_check e @ other_primaries d t"
    using 1 by (simp add: res)
qed

lemma dom_put [accounting]: "at t a \<noteq> None \<Longrightarrow> dom (at (put_server a s t)) = dom (at t)"
  by (auto simp: at_put)

lemma dom_note [accounting]: "dom (at (note_possible_primary p t)) = dom (at t)"
  by (auto simp: at_note_possible_primary split: if_splits)

lemma without_primary_accounts:
  assumes "accounts t0 (t, e)" "dom (at t) = dom (at t0)" "at t (s_address d) \<noteq> None"
  shows "accounts t0 (update_rs_without_primary d (t, e))"
proof (cases "t_set_name t \<noteq> None \<and> t_set_name t \<noteq> s_set_name d")
  case True
  then show ?thesis using accounts_remove [OF assms(1)] assms(2,3)
    by (auto simp: update_rs_without_primary_def)
next
  case False
  define t1 where "t1 = (if t_set_name t = None then t\<lparr>t_set_name := s_set_name d\<rparr> else t)"
  obtain t2 e2 where a: "add_members (s_members d) (t1, e) = (t2, e2)" by fastforce
  have "accounts t0 (t1, e)" "dom (at t1) = dom (at t0)" "at t1 = at t"
    using accounts_same [OF assms(1), of t1] assms(2) by (simp_all add: t1_def)
  then have 2: "accounts t0 (t2, e2)" "dom (at t0) \<subseteq> dom (at t2)"
    using accounts_add_members [of t0 "(t1, e)" "s_members d"] dom_add_members [of "s_members d" "(t1, e)"]
    by (simp_all add: a)
  have "accounts t0 (note_possible_primary p t2, e2)" for p
    by (rule accounts_same [OF 2(1)]) (rule dom_note)
  moreover have "s_address d \<in> dom (at t0)" using assms(2,3) by auto
  ultimately show ?thesis using False a accounts_remove
    by (auto simp: update_rs_without_primary_def Let_def t1_def [symmetric])
qed

lemma checked_accounts: "accounts t0 (t, e) \<Longrightarrow> accounts t0 (check_if_has_primary t, e)"
  by (erule accounts_same) (simp add: at_check_if_has_primary)

lemma remove_then_check_accounts:
  assumes "accounts t0 (t, e)" "a \<in> dom (at t0)"
  shows "accounts t0 (let (t, e) = remove_server a (t, e) in (check_if_has_primary t, e))"
  using accounts_remove [OF assms(1), of a] assms(2)
  by (cases "remove_server a (t, e)") (simp add: checked_accounts)

lemma from_member_accounts:
  assumes "accounts t0 (t, e)" "s_address d \<in> dom (at t0)"
  shows "accounts t0 (update_rs_with_primary_from_member d (t, e))"
proof -
  have "accounts t0 (note_possible_primary p (t\<lparr>t_kind := k\<rparr>), e)" for p k
    by (rule accounts_same [OF assms(1)]) (simp add: dom_note)
  then show ?thesis using assms remove_then_check_accounts [OF assms]
    by (simp add: update_rs_with_primary_from_member_def)
qed

lemma from_primary_accounts:
  assumes "keyed t" "accounts t0 (t, e)" "dom (at t) = dom (at t0)" "at t (s_address d) \<noteq> None"
  shows "accounts t0 (update_rs_from_primary d (t, e))"
proof (cases "t_set_name t \<noteq> None \<and> t_set_name t \<noteq> s_set_name d")
  case True
  have "s_address d \<in> dom (at t0)" using assms(3,4) by auto
  with True show ?thesis using remove_then_check_accounts [OF assms(2)]
    by (simp add: update_rs_from_primary_def)
next
  case False
  define t1 where "t1 = (if t_set_name t = None then t\<lparr>t_set_name := s_set_name d\<rparr> else t)"
  obtain stale t2 where st: "stale_primary d t1 = (stale, t2)" by fastforce
  have same: "servers t2 = servers t" "generations t2 = generations t"
  proof -
    have "servers t1 = servers t" "generations t1 = generations t" by (simp_all add: t1_def)
    then show "servers t2 = servers t" "generations t2 = generations t"
      using stale_primary_keeps(1,3) [of d t1] by (simp_all add: st)
  qed
  have k2: "keyed t2" using keyed_same [OF assms(1)] same by simp
  have a2: "accounts t0 (t2, e)" using accounts_same [OF assms(2)] same by simp
  have "accounts t0 (check_if_has_primary (put_server (s_address d) s t2), e)" for s
    using accounts_same [OF a2] dom_put [of t2 "s_address d"] assms(4) same
    by (simp add: checked_accounts)
  then show ?thesis using False st accept_primary_accounts(1) [OF k2 a2] assms(3) same
    by (auto simp: update_rs_from_primary_def Let_def t1_def [symmetric])
qed

lemma transition_accounts:
  assumes "keyed t" "accounts t0 (t, e)" "dom (at t) = dom (at t0)" "at t (s_address d) \<noteq> None"
  shows "accounts t0 (transition d (t, e))"
proof -
  have in0: "s_address d \<in> dom (at t0)" using assms(3,4) by auto
  have kind: "accounts t0 (t\<lparr>t_kind := k\<rparr>, e)" "keyed (t\<lparr>t_kind := k\<rparr>)" for k
    using accounts_same [OF assms(2)] keyed_same [OF assms(1)] by simp_all
  note steps = kind(1) assms(2) accounts_remove [OF assms(2), of "s_address d"]
    from_primary_accounts [OF kind(2) kind(1)] without_primary_accounts [OF kind(1)]
    without_primary_accounts [OF assms(2)]
    from_member_accounts [OF assms(2) in0] remove_then_check_accounts [OF assms(2) in0]
    checked_accounts [OF assms(2)]
  show ?thesis
    using assms(3,4) in0
    by (cases "t_kind t"; cases "s_kind d")
      (simp_all add: transition_def update_unknown_with_standalone_def steps
        steps(8) [unfolded Let_def])
qed

lemma update_accounts:
  assumes "keyed t"
  shows "accounts t (update ops d t)"
proof (cases "at t (s_address d)")
  case None
  then show ?thesis by (simp add: update_def accounts_start)
next
  case (Some c)
  let ?d = "keep_rtt ops c d"
  have dom: "dom (at (put_server (s_address d) s t)) = dom (at t)" for s using dom_put Some by simp
  obtain u e where u: "transition ?d (put_server (s_address d) ?d t, no_effects) = (u, e)" by fastforce
  have "accounts t (put_server (s_address d) ?d t, no_effects)" by (rule accounts_start) (rule dom)
  moreover have "keyed (put_server (s_address d) ?d t)" using keyed_put [OF assms] Some by simp
  ultimately have "accounts t (u, e)"
    using transition_accounts [of "put_server (s_address d) ?d t" t no_effects ?d] dom u by (simp add: at_put)
  then have "accounts t (refresh u, e)" by (rule accounts_same) (simp add: at_refresh)
  moreover have "accounts t (refresh (put_server (s_address d) s t), no_effects)" for s
    by (rule accounts_start) (simp add: at_refresh dom)
  ultimately show ?thesis using Some u by (simp add: update_def accounts_start Let_def)
qed

section \<open>Failures of checks and operations\<close>

lemma keep_rtt_failed [simp]: "keep_rtt ops c (failed a m tv) = failed a m tv"
  by (simp add: keep_rtt_def failed_def unknown_def)

lemma single_server_failed [simp]: "single_server t (failed a m tv) = failed a m tv"
  by (simp add: single_server_def split: option.split)

text \<open>Hearing that a server failed only marks it so; no server comes or goes.\<close>

lemma update_failed:
  assumes "at t a = Some c" "at_least_as_new (s_topology_version c) tv"
  shows "\<exists>u. update ops (failed a m tv) t = (u, no_effects) \<and> at u = (at t)(a \<mapsto> failed a m tv) \<and>
    generations u = generations t"
  using assms
  by (cases "t_kind t")
    (simp_all add: update_def transition_def at_put at_refresh at_check_if_has_primary
      check_if_has_primary_fields put_server_def)

lemma keyed_next_generation: "keyed t \<Longrightarrow> at t a \<noteq> None \<Longrightarrow> keyed (next_generation a t)"
  by (auto simp: keyed_def next_generation_def)

lemma next_generation_fields [simp]: "servers (next_generation a t) = servers t"
  "t_kind (next_generation a t) = t_kind t"
  "generation_of (next_generation a t) a = generation_of t a + 1"
  by (simp_all add: next_generation_def generation_of_def)

lemma sound_next_generation: "sound t \<Longrightarrow> at t a \<noteq> None \<Longrightarrow> sound (next_generation a t)"
  by (simp add: sound_def keyed_next_generation coherent_def kinds_in_def primary_at_def)

lemma generation_of_same: "generations u = generations t \<Longrightarrow> generation_of u = generation_of t"
  by (simp add: generation_of_def fun_eq_iff)

lemma at_least_as_new_none [simp]: "at_least_as_new c None"
  by (simp add: at_least_as_new_def split: option.split)

lemma not_stale_version: "\<not> stale_version c i \<Longrightarrow> at_least_as_new c i"
  by (auto simp: stale_version_def at_least_as_new_def split: option.splits if_splits)

lemma network_unknown_effect:
  assumes "sound t" "at t a = Some c"
  shows "\<exists>u. network_unknown ops a m (t, no_effects) = (u, no_effects\<lparr>e_clear := [a]\<rparr>) \<and> sound u \<and>
    at u = (at t)(a \<mapsto> failed a m None) \<and> generation_of u a = generation_of t a + 1"
proof -
  from update_failed [OF assms(2) at_least_as_new_none] obtain u where
    u: "update ops (failed a m None) t = (u, no_effects)" "at u = (at t)(a \<mapsto> failed a m None)"
      "generations u = generations t" by blast
  have "sound u" using update_keeps [OF assms(1), of "failed a m None" ops] u(1) by simp
  then show ?thesis using u sound_next_generation [of u a] generation_of_same [OF u(3)]
    by (simp add: network_unknown_def no_effects_def)
qed

lemma state_change_effect:
  assumes "sound t" "at t a = Some c" "\<not> stale_version (s_topology_version c) tv"
    and "update ops (failed a m tv) t = (u, changes)"
  shows "sound u" "changes = no_effects" "at u = (at t)(a \<mapsto> failed a m tv)" "generation_of u = generation_of t"
proof -
  from update_failed [OF assms(2) not_stale_version [OF assms(3)], of ops m] obtain v where
    v: "update ops (failed a m tv) t = (v, no_effects)" "at v = (at t)(a \<mapsto> failed a m tv)"
      "generations v = generations t" by blast
  have eq: "u = v" "changes = no_effects" using v(1) assms(4) by simp_all
  show "changes = no_effects" "at u = (at t)(a \<mapsto> failed a m tv)" "generation_of u = generation_of t"
    using eq v(2) generation_of_same [OF v(3)] by simp_all
  show "sound u" using update_keeps [OF assms(1), of "failed a m tv" ops] assms(4) by simp
qed

definition state_change :: "app_error_kind \<Rightarrow> bool" where
  "state_change k = (case k of Command c m _ \<Rightarrow> is_recovering c m \<or> is_not_writable_primary c m | _ \<Rightarrow> False)"

text \<open>Whether an error says the connection to the server is gone.\<close>

definition loses_server :: "app_error \<Rightarrow> bool" where
  "loses_server err =
     (case a_kind err of Network _ \<Rightarrow> True | Timeout \<Rightarrow> False
      | Command c m tv \<Rightarrow> \<not> state_change (a_kind err) \<and> \<not> completed_handshake err)"

definition shuts_down :: "app_error_kind \<Rightarrow> bool" where
  "shuts_down k = (case k of Command c _ _ \<Rightarrow> c = Some 11600 \<or> c = Some 91 | _ \<Rightarrow> False)"

definition says_stale :: "app_error_kind \<Rightarrow> server \<Rightarrow> bool" where
  "says_stale k c = (case k of Command _ _ tv \<Rightarrow> stale_version (s_topology_version c) tv | _ \<Rightarrow> False)"

lemma application_error_cases:
  assumes "sound t" "at t a = Some c" "application_error ops a err t = (u, e)"
  shows "sound u \<and>
    (if a_generation err < generation_of t a then u = t \<and> e = no_effects
     else if loses_server err then
       s_kind (the (at u a)) = S_Unknown \<and> generation_of u a = generation_of t a + 1 \<and>
       e = no_effects\<lparr>e_clear := [a]\<rparr>
     else if state_change (a_kind err) \<and> \<not> says_stale (a_kind err) c then
       s_kind (the (at u a)) = S_Unknown \<and>
       generation_of u a = generation_of t a + (if shuts_down (a_kind err) then 1 else 0) \<and>
       e = no_effects\<lparr>e_clear := (if shuts_down (a_kind err) then [a] else []), e_check := [a]\<rparr>
     else u = t \<and> e = no_effects)"
proof (cases "a_generation err < generation_of t a")
  case True
  then show ?thesis using assms by (simp add: application_error_def)
next
  case fresh: False
  show ?thesis
  proof (cases "a_kind err")
    case (Network m)
    from network_unknown_effect [OF assms(1,2), of ops m] obtain v where
      "network_unknown ops a m (t, no_effects) = (v, no_effects\<lparr>e_clear := [a]\<rparr>)" "sound v"
      "at v = (at t)(a \<mapsto> failed a m None)" "generation_of v a = generation_of t a + 1" by blast
    then show ?thesis using assms fresh Network by (simp add: application_error_def loses_server_def)
  next
    case Timeout
    then show ?thesis using assms fresh
      by (simp add: application_error_def loses_server_def state_change_def)
  next
    case (Command n m tv)
    show ?thesis
    proof (cases "is_recovering n m \<or> is_not_writable_primary n m")
      case False
      from network_unknown_effect [OF assms(1,2), of ops m] obtain v where
        "network_unknown ops a m (t, no_effects) = (v, no_effects\<lparr>e_clear := [a]\<rparr>)" "sound v"
        "at v = (at t)(a \<mapsto> failed a m None)" "generation_of v a = generation_of t a + 1" by blast
      then show ?thesis using assms fresh Command False
        by (auto simp: application_error_def loses_server_def state_change_def)
    next
      case change: True
      then have k: "state_change (a_kind err)" "\<not> loses_server err"
        "says_stale (a_kind err) c = stale_version (s_topology_version c) tv"
        "shuts_down (a_kind err) \<longleftrightarrow> n = Some 11600 \<or> n = Some 91"
        using Command by (auto simp: state_change_def loses_server_def says_stale_def shuts_down_def)
      show ?thesis
      proof (cases "stale_version (s_topology_version c) tv")
        case True
        then show ?thesis using assms fresh Command change k by (auto simp: application_error_def)
      next
        case False
        obtain v ch where v: "update ops (failed a m tv) t = (v, ch)" by fastforce
        note eff = state_change_effect [OF assms(1,2) False v]
        have "sound (next_generation a v)" using sound_next_generation eff(1,3) by simp
        then show ?thesis using assms fresh Command change k False v eff
          by (auto simp: application_error_def no_effects_def Let_def)
      qed
    qed
  qed
qed

section \<open>Properties\<close>

lemma foldl_invariant: "P m \<Longrightarrow> (\<And>m x. P m \<Longrightarrow> P (f m x)) \<Longrightarrow> P (foldl f m xs)"
  by (induction xs arbitrary: m) simp_all

definition all_unknown :: "(utf8, server) btree \<Rightarrow> bool" where
  "all_unknown m \<longleftrightarrow> bt_ok m \<and> (\<forall>a s. map_of m a = Some s \<longrightarrow> s = unknown a)"

lemma all_unknown_seeds:
  "all_unknown (foldl (\<lambda>m s. bt_insert (normalize s) (unknown (normalize s)) m) [] hosts)"
  by (rule foldl_invariant) (auto simp: all_unknown_def split: if_splits)

lemma sound_new: "sound (new_topology hosts direct set_name)"
proof -
  let ?m = "foldl (\<lambda>m s. bt_insert (normalize s) (unknown (normalize s)) m) [] hosts"
  have m: "bt_ok ?m" "\<forall>a s. map_of ?m a = Some s \<longrightarrow> s = unknown a"
    by (rule all_unknown_seeds [of hosts, unfolded all_unknown_def, THEN conjunct1])
      (rule all_unknown_seeds [of hosts, unfolded all_unknown_def, THEN conjunct2])
  let ?g = "map (\<lambda>(a, _). (a, 0 :: nat)) ?m"
  have keys: "map fst ?g = map fst ?m" by (simp add: case_prod_beta)
  have dom_keys: "dom (map_of xs) = set (map fst xs)" for xs :: "(utf8 \<times> 'x) list"
    by (simp add: dom_map_of_conv_image_fst)
  have "bt_ok ?g" using m(1) unfolding bt_ok_def keys .
  moreover have "dom (map_of ?g) = dom (map_of ?m)" unfolding dom_keys keys ..
  ultimately have g: "bt_ok ?g" "dom (map_of ?g) = dom (map_of ?m)" by blast+
  have "keyed (new_topology hosts direct set_name)"
  proof -
    have sv: "servers (new_topology hosts direct set_name) = ?m" "generations (new_topology hosts direct set_name) = ?g"
      by (simp_all only: new_topology_def Let_def topology.select_convs)
    have "s_address s = a" if "map_of ?m a = Some s" for a s
      by (rule m(2) [rule_format, OF that, THEN arg_cong, of s_address, unfolded unknown_fields(1)])
    then show ?thesis unfolding keyed_def sv using m(1) g by blast
  qed
  moreover have "coherent (new_topology hosts direct set_name)"
  proof -
    have "s_kind s = S_Unknown" if "at (new_topology hosts direct set_name) a = Some s" for a s
    proof -
      have "map_of ?m a = Some s" using that by (simp only: new_topology_def Let_def topology.select_convs)
      from m(2) [rule_format, OF this] show ?thesis by (simp only: unknown_fields(2))
    qed
    then have "kinds_in {S_Unknown} (new_topology hosts direct set_name)" unfolding kinds_in_def by blast
    moreover have "t_kind (new_topology hosts direct set_name) \<in> {T_Single, T_ReplicaSetNoPrimary, T_Unknown}"
      by (simp add: new_topology_def Let_def)
    ultimately show ?thesis by (auto simp: coherent_def intro: kinds_in_mono)
  qed
  ultimately show ?thesis by (simp add: sound_def)
qed

lemma hello_kind_known: "s_kind (from_hello a hello rtt now) \<noteq> S_PossiblePrimary"
  by (simp add: from_hello_def hello_kind_def Let_def unknown_def)

text \<open>
  Every description a client can have: the one it starts with, and what checks that answer,
  checks that fail and errors of operations make of it. A failed check also moves the server's
  pool on to its next generation, when the server is still known.
\<close>

inductive believed :: "float_ops \<Rightarrow> topology \<Rightarrow> bool" for ops where
  seeded: "believed ops (new_topology hosts direct set_name)"
| answered: "believed ops t \<Longrightarrow> believed ops (fst (update ops (from_hello a hello rtt now) t))"
| silent: "believed ops t \<Longrightarrow> believed ops (fst (update ops (failed a m tv) t))"
| advanced: "believed ops t \<Longrightarrow> at t a \<noteq> None \<Longrightarrow> believed ops (next_generation a t)"
| erred: "believed ops t \<Longrightarrow> believed ops (fst (application_error ops a err t))"

lemma believed_sound: "believed ops t \<Longrightarrow> sound t"
proof (induction rule: believed.induct)
  case (answered t a hello rtt now)
  then show ?case using update_keeps hello_kind_known by blast
next
  case (silent t a m tv)
  then show ?case by (simp add: update_keeps)
next
  case (erred t a err)
  show ?case
  proof (cases "at t a")
    case None
    then show ?thesis using erred by (simp add: application_error_def)
  next
    case (Some c)
    then show ?thesis using application_error_cases [OF erred.IH Some] by (metis prod.collapse)
  qed
qed (simp_all add: sound_new sound_next_generation)

text \<open>
  C14: what the driver believes is coherent. However the deployment answers, fails and errs, a
  deployment described as having a primary has exactly one, one described as anything else but a
  single server has none, no server's kind contradicts the deployment's, and every server is filed
  under its own address with a pool generation beside it.
\<close>

theorem deployment_coherent:
  assumes "believed ops t"
  shows "(t_kind t = T_ReplicaSetWithPrimary \<longrightarrow> (\<exists>!a. primary_at t a) \<and> has_primary t) \<and>
    (t_kind t \<in> {T_Unknown, T_ReplicaSetNoPrimary, T_Sharded} \<longrightarrow> \<not> has_primary t) \<and>
    (\<forall>a s. at t a = Some s \<longrightarrow> s_address s = a \<and> s_kind s \<in> allowed (t_kind t)) \<and>
    dom (map_of (generations t)) = dom (at t)"
proof -
  have "keyed t" "coherent t" using believed_sound [OF assms] by (simp_all add: sound_def)
  moreover have "\<not> primary_at t a" if "t_kind t \<in> {T_Unknown, T_ReplicaSetNoPrimary, T_Sharded}" for a
    using that \<open>coherent t\<close> one_at_most_none [of "allowed (t_kind t)" t a]
    by (auto simp: coherent_def)
  ultimately show ?thesis using has_primary_iff [of t]
    by (auto simp: coherent_def keyed_def kinds_in_def)
qed

theorem deployment_coherent_witness:
  "\<not> has_primary (new_topology [bytes_of ''a''] False (Some (bytes_of ''rs'')))"
  using deployment_coherent [OF seeded [of undefined "[bytes_of ''a'']" False "Some (bytes_of ''rs'')"]]
  by (simp add: new_topology_def Let_def)

text \<open>
  Effects account for every server. After an update the servers reported as added are those
  now known that were not, those reported as removed are those no longer known, each once, and no
  pool is cleared by an update alone.
\<close>

theorem effects_account:
  assumes "believed ops t" and "update ops d t = (u, e)"
  shows "set (e_added e) = dom (at u) - dom (at t) \<and> distinct (e_added e) \<and>
    set (e_removed e) = dom (at t) - dom (at u) \<and> distinct (e_removed e) \<and> e_clear e = []"
  using update_accounts [of t ops d] believed_sound [OF assms(1)] assms(2)
  by (simp add: sound_def accounts_def)

theorem effects_account_witness:
  "\<forall>ops. e_removed (snd (update ops ((unknown (bytes_of ''a:1''))\<lparr>s_kind := S_Mongos\<rparr>)
     (new_topology [bytes_of ''a:1''] False (Some (bytes_of ''rs''))))) = [bytes_of ''a:1'']"
proof (rule allI, goal_cases)
  case (1 ops)
  let ?t = "new_topology [bytes_of ''a:1''] False (Some (bytes_of ''rs''))"
  let ?d = "(unknown (bytes_of ''a:1''))\<lparr>s_kind := S_Mongos\<rparr>"
  obtain u e where u: "update ops ?d ?t = (u, e)" by fastforce
  have n: "normalize (bytes_of ''a:1'') = bytes_of ''a:1''"
    by (simp add: normalize_def Let_def bytes_of_def byte_of_char_def lower_byte_def)
  have t: "servers ?t = [(bytes_of ''a:1'', unknown (bytes_of ''a:1''))]" "t_kind ?t = T_ReplicaSetNoPrimary"
    by (simp_all add: new_topology_def n Let_def)
  have "s_address ?d = bytes_of ''a:1''" "s_kind ?d = S_Mongos" by simp_all
  then have "servers u = []"
    using u by (auto simp: update_def t transition_def at_least_as_new_def unknown_def Let_def
        remove_server_def put_server_def bt_remove_def keep_rtt_def refresh_def split: prod.splits)
  then have "dom (at u) = {}" by simp
  moreover have "dom (at ?t) = {bytes_of ''a:1''}" by (simp add: t)
  ultimately have "set (e_removed e) = {bytes_of ''a:1''}" "distinct (e_removed e)"
    using effects_account [OF seeded u] by simp_all
  then have "e_removed e = [bytes_of ''a:1'']"
    by (cases "e_removed e" rule: list.exhaust; cases "tl (e_removed e)") auto
  then show ?case by (simp add: u)
qed

text \<open>
  C15: errors are judged by where they come from. An error from before the pool's last clear
  changes nothing; a lost connection, or a failed handshake, marks the server unknown and clears
  its pool; a state change the server has not outgrown marks it unknown and asks for a check,
  clearing the pool when the server is shutting down; anything else changes nothing.
\<close>

theorem errors_judged:
  assumes "believed ops t" "at t a = Some c" "application_error ops a err t = (u, e)"
  shows "if a_generation err < generation_of t a then u = t \<and> e = no_effects
     else if loses_server err then
       s_kind (the (at u a)) = S_Unknown \<and> generation_of u a = generation_of t a + 1 \<and>
       e = no_effects\<lparr>e_clear := [a]\<rparr>
     else if state_change (a_kind err) \<and> \<not> says_stale (a_kind err) c then
       s_kind (the (at u a)) = S_Unknown \<and>
       generation_of u a = generation_of t a + (if shuts_down (a_kind err) then 1 else 0) \<and>
       e = no_effects\<lparr>e_clear := (if shuts_down (a_kind err) then [a] else []), e_check := [a]\<rparr>
     else u = t \<and> e = no_effects"
  using application_error_cases [OF believed_sound [OF assms(1)] assms(2,3)] by blast

theorem errors_judged_witness:
  "\<forall>ops. e_clear (snd (application_error ops (bytes_of ''a:1'')
     \<lparr>a_generation = 0, completed_handshake = True, a_kind = Network []\<rparr>
     (new_topology [bytes_of ''a:1''] True None))) = [bytes_of ''a:1'']"
proof (rule allI, goal_cases)
  case (1 ops)
  let ?t = "new_topology [bytes_of ''a:1''] True None"
  let ?e = "\<lparr>a_generation = 0, completed_handshake = True, a_kind = Network []\<rparr>"
  have n: "normalize (bytes_of ''a:1'') = bytes_of ''a:1''"
    by (simp add: normalize_def Let_def bytes_of_def byte_of_char_def lower_byte_def)
  have "at ?t (bytes_of ''a:1'') = Some (unknown (bytes_of ''a:1''))" by (simp add: new_topology_def n Let_def)
  from errors_judged [OF seeded this prod.collapse [symmetric], where ops = ops and err = ?e] show ?case
    by (simp add: new_topology_def n Let_def generation_of_def loses_server_def no_effects_def)
qed

text \<open>The place of a primary, or of what has been seen, in the order of elections.\<close>

definition seen :: "topology \<Rightarrow> u8 list option \<times> int" where
  "seen t = (max_election_id t, or_min (max_set_version t))"

definition elected :: "server \<Rightarrow> u8 list option \<times> int" where
  "elected d = (election_id d, or_min (set_version d))"

lemma not_older_iff: "not_older d t \<longleftrightarrow> seen t \<le> elected d"
  by (auto simp: not_older_def seen_def elected_def less_eq_prod_def or_min_def Let_def split: option.split)

lemma transition_primary:
  "t_kind t \<in> {T_Unknown, T_ReplicaSetNoPrimary, T_ReplicaSetWithPrimary} \<Longrightarrow> s_kind d = S_RsPrimary \<Longrightarrow>
    transition d (t, e) = update_rs_from_primary d (t\<lparr>t_kind := T_ReplicaSetWithPrimary\<rparr>, e)"
  by (auto simp: transition_def)

lemma accept_primary_fields:
  "max_election_id (fst (accept_primary d st)) = max_election_id (fst st)"
  "max_set_version (fst (accept_primary d st)) = max_set_version (fst st)"
proof -
  have r: "max_election_id (fst (remove_server a st)) = max_election_id (fst st)"
    "max_set_version (fst (remove_server a st)) = max_set_version (fst st)" for a st
    by (cases st; simp add: remove_server_def)+
  have rs: "max_election_id (fst (fold remove_server as st)) = max_election_id (fst st)"
    "max_set_version (fst (fold remove_server as st)) = max_set_version (fst st)" for as st
    by (induction as arbitrary: st) (simp_all add: r)
  have m: "max_election_id (fst (add_member a st)) = max_election_id (fst st)"
    "max_set_version (fst (add_member a st)) = max_set_version (fst st)" for a st
    by (cases st; simp add: add_member_def)+
  have ms: "max_election_id (fst (add_members as st)) = max_election_id (fst st)"
    "max_set_version (fst (add_members as st)) = max_set_version (fst st)" for as st
    unfolding add_members_def by (induction as arbitrary: st) (simp_all add: m)
  have d: "max_election_id (fst (fold demote as st)) = max_election_id (fst st)"
    "max_set_version (fst (fold demote as st)) = max_set_version (fst st)" for as st
    by (induction as arbitrary: st) (simp_all add: demote_def put_server_def split: prod.split)
  obtain t e where st: "st = (t, e)" by (cases st)
  obtain t1 e1 where 1: "fold demote (other_primaries d t) (t, e) = (t1, e1)" by fastforce
  obtain t2 e2 where 2: "add_members (s_members d) (t1, e1) = (t2, e2)" by fastforce
  let ?gone = "filter (\<lambda>a. a \<notin> set (s_members d)) (map fst (servers t2))"
  obtain t3 e3 where 3: "fold remove_server ?gone (t2, e2) = (t3, e3)" by fastforce
  have res: "accept_primary d st = (check_if_has_primary t3, e3)"
    using 1 2 3 by (simp add: accept_primary_def other_primaries_def st)
  show "max_election_id (fst (accept_primary d st)) = max_election_id (fst st)"
    "max_set_version (fst (accept_primary d st)) = max_set_version (fst st)"
    using d [of "other_primaries d t" "(t, e)"] ms [of "s_members d" "(t1, e1)"] rs [of ?gone "(t2, e2)"]
    by (simp_all add: res [unfolded st] st 1 2 3 check_if_has_primary_fields)
qed

lemma from_primary_named:
  "t_set_name t = None \<or> t_set_name t = s_set_name d \<Longrightarrow>
   stale_primary d (if t_set_name t = None then t\<lparr>t_set_name := s_set_name d\<rparr> else t) = (stale, u) \<Longrightarrow>
   update_rs_from_primary d (t, e) =
     (if stale then (check_if_has_primary (put_server (s_address d) (failed (s_address d) stale_election None) u), e)
      else accept_primary d (u, e))"
  by (auto simp: update_rs_from_primary_def Let_def)

lemma add_members_set_name: "t_set_name (fst (add_members as st)) = t_set_name (fst st)"
proof -
  have "t_set_name (fst (add_member a st)) = t_set_name (fst st)" for a st
    by (cases st; simp add: add_member_def)
  then show ?thesis unfolding add_members_def by (induction as arbitrary: st) simp_all
qed

lemma fold_remove_set_name: "t_set_name (fst (fold remove_server as st)) = t_set_name (fst st)"
proof -
  have "t_set_name (fst (remove_server a st)) = t_set_name (fst st)" for a st
    by (cases st; simp add: remove_server_def)
  then show ?thesis by (induction as arbitrary: st) simp_all
qed

lemma accept_primary_set_name: "t_set_name (fst (accept_primary d (t, e))) = t_set_name t"
proof -
  have d: "t_set_name (fst (fold demote as st)) = t_set_name (fst st)" for as st
    by (induction as arbitrary: st) (simp_all add: demote_def put_server_def split: prod.split)
  obtain t1 e1 where 1: "fold demote (other_primaries d t) (t, e) = (t1, e1)" by fastforce
  obtain t2 e2 where 2: "add_members (s_members d) (t1, e1) = (t2, e2)" by fastforce
  obtain t3 e3 where 3: "fold remove_server (filter (\<lambda>a. a \<notin> set (s_members d)) (map fst (servers t2))) (t2, e2) = (t3, e3)"
    by fastforce
  have "accept_primary d (t, e) = (check_if_has_primary t3, e3)"
    using 1 2 3 by (simp add: accept_primary_def other_primaries_def)
  then show ?thesis
    using d [of "other_primaries d t" "(t, e)"] add_members_set_name [of "s_members d" "(t1, e1)"]
      fold_remove_set_name [of "filter (\<lambda>a. a \<notin> set (s_members d)) (map fst (servers t2))" "(t2, e2)"]
    by (simp add: 1 2 3 check_if_has_primary_def)
qed

lemma refresh_again: "refresh (refresh t) = refresh t"
  by (simp add: refresh_def)

lemma refreshed_kind:
  assumes "keyed t" "u = refresh (check_if_has_primary t)"
  shows "t_kind u = (if \<exists>a. primary_at u a then T_ReplicaSetWithPrimary else T_ReplicaSetNoPrimary) \<and> refresh u = u"
proof -
  have "primary_at u a \<longleftrightarrow> primary_at t a" for a
    by (simp add: assms(2) primary_at_def at_refresh at_check_if_has_primary)
  then show ?thesis
    using has_primary_iff [OF assms(1)] by (simp add: assms(2) refresh_again at_refresh check_if_has_primary_def)
qed

text \<open>
  C16: elections never go back. A primary of wire version 17 or later is accepted when its
  election is at least the latest seen, election id first and set version second; then its election
  is the latest seen, the deployment is the members it lists and, if it lists itself, it is the only
  primary, else there is none. An older one becomes unknown with the error that says so, and every
  other server, the generations and what has been seen stay as they were, with nothing to
  start, stop or check. Either way the set is named as it was or, unnamed, after the reply, is with a
  primary exactly if some server is one, and its compatibility and session timeout are what its
  servers make them.
\<close>

theorem elections_never_go_back:
  assumes "believed ops t" "at t (s_address d) = Some c"
    "at_least_as_new (s_topology_version c) (s_topology_version d)"
    "s_kind d = S_RsPrimary" "max_wire d \<ge> 17"
    "t_kind t \<in> {T_Unknown, T_ReplicaSetNoPrimary, T_ReplicaSetWithPrimary}"
    "t_set_name t = None \<or> t_set_name t = s_set_name d" "update ops d t = (u, e)"
  shows "(if seen t \<le> elected d
    then seen u = elected d \<and> dom (at u) = set (s_members d) \<and>
      (\<forall>a. primary_at u a \<longleftrightarrow> a = s_address d \<and> a \<in> set (s_members d))
    else seen u = seen t \<and> generations u = generations t \<and> e = no_effects \<and>
      (\<exists>s. at u = (at t)(s_address d \<mapsto> s) \<and> s_kind s = S_Unknown \<and> s_error s = Some stale_election)) \<and>
    t_set_name u = (if t_set_name t = None then s_set_name d else t_set_name t) \<and>
    t_kind u = (if \<exists>a. primary_at u a then T_ReplicaSetWithPrimary else T_ReplicaSetNoPrimary) \<and> refresh u = u"
proof -
  let ?d = "keep_rtt ops c d"
  let ?p = "(put_server (s_address d) ?d t)\<lparr>t_kind := T_ReplicaSetWithPrimary\<rparr>"
  define t1 where "t1 = (if t_set_name t = None then ?p\<lparr>t_set_name := s_set_name d\<rparr> else ?p)"
  have k: "keyed t" using believed_sound [OF assms(1)] by (simp add: sound_def)
  have k1: "keyed t1" using keyed_same [OF keyed_put [OF k, of "s_address d" ?d]] assms(2) by (simp add: t1_def)
  have at1: "at t1 = (at t)(s_address d \<mapsto> ?d)" by (simp add: t1_def at_put)
  have seen1: "seen t1 = seen t" "max_election_id t1 = max_election_id t" "max_set_version t1 = max_set_version t"
    by (simp_all add: t1_def seen_def put_server_def)
  have un: "refresh (fst (update_rs_from_primary ?d (?p, no_effects))) = u"
    "snd (update_rs_from_primary ?d (?p, no_effects)) = e"
    using assms(8) transition_primary [of "put_server (s_address d) ?d t" ?d no_effects] assms(2-4,6)
    by (auto simp: update_def Let_def split: prod.splits)
  have name: "t_set_name ?p = None \<or> t_set_name ?p = s_set_name ?d"
    "(if t_set_name ?p = None then ?p\<lparr>t_set_name := s_set_name ?d\<rparr> else ?p) = t1"
    using assms(7) by (auto simp: put_server_def t1_def)
  note from_primary = from_primary_named [OF name(1), unfolded name(2)]
  show ?thesis
  proof (cases "seen t \<le> elected d")
    case True
    let ?t2 = "t1\<lparr>max_election_id := election_id d, max_set_version := set_version d\<rparr>"
    have "stale_primary ?d t1 = (False, ?t2)"
      using True assms(5) not_older_iff [of ?d t1] seen1 by (simp add: stale_primary_def elected_def)
    from from_primary [OF this]
    have res: "update_rs_from_primary ?d (?p, no_effects) = accept_primary ?d (?t2, no_effects)"
      by (simp only: if_False)
    have k2: "keyed ?t2" using keyed_same [OF k1] by simp
    have at_u: "at u b = at (fst (accept_primary ?d (?t2, no_effects))) b" for b
      using un(1) res by (auto simp: at_refresh)
    have "dom (at u) = set (s_members d)"
      by (auto simp: at_u at_accept_primary(1) [OF k2] split: if_splits option.splits)
    moreover have "primary_at u a \<longleftrightarrow> a = s_address d \<and> a \<in> set (s_members d)" for a
      using assms(4) by (auto simp: primary_at_def at_u at_accept_primary(1) [OF k2] at1 split: option.splits)
    moreover have "seen u = elected d"
      using un(1) res accept_primary_fields [of ?d "(?t2, no_effects)"]
      by (auto simp: seen_def elected_def at_refresh)
    moreover have "t_set_name u = (if t_set_name t = None then s_set_name d else t_set_name t)"
      using un(1) res accept_primary_set_name [of ?d ?t2 no_effects]
      by (auto simp: at_refresh t1_def put_server_def)
    moreover have "t_kind u = (if \<exists>a. primary_at u a then T_ReplicaSetWithPrimary else T_ReplicaSetNoPrimary) \<and> refresh u = u"
    proof -
      obtain v where v: "fst (accept_primary ?d (?t2, no_effects)) = check_if_has_primary v"
        using accept_primary_checks [of ?d "(?t2, no_effects)"] by blast
      have "keyed v" using at_accept_primary(2) [OF k2, of ?d no_effects] unfolding v
        by (rule keyed_same) (simp_all add: check_if_has_primary_def)
      then show ?thesis using refreshed_kind un(1) [symmetric] res v by metis
    qed
    ultimately show ?thesis using True by simp
  next
    case False
    have "stale_primary ?d t1 = (True, t1)"
      using False assms(5) not_older_iff [of ?d t1] seen1 by (simp add: stale_primary_def elected_def)
    from from_primary [OF this] have res: "update_rs_from_primary ?d (?p, no_effects) =
        (check_if_has_primary (put_server (s_address d) (failed (s_address d) stale_election None) t1), no_effects)"
      by (simp only: if_True keep_rtt_fields)
    have at_u: "at u = (at t)(s_address d \<mapsto> failed (s_address d) stale_election None)"
      using un(1) res at1 by (auto simp: at_refresh at_check_if_has_primary at_put)
    have "seen u = seen t"
      using un(1) res seen1 by (auto simp: at_refresh check_if_has_primary_fields seen_def put_server_def)
    moreover have "generations u = generations t" "t_set_name u = (if t_set_name t = None then s_set_name d else t_set_name t)"
      using un(1) res by (auto simp: at_refresh check_if_has_primary_def put_server_def t1_def)
    moreover have "t_kind u = (if \<exists>a. primary_at u a then T_ReplicaSetWithPrimary else T_ReplicaSetNoPrimary) \<and> refresh u = u"
      using refreshed_kind [OF keyed_put [OF k1]] un(1) [symmetric] res at1 by (simp add: failed_def)
    ultimately show ?thesis using False un(2) res by (auto simp: at_u failed_def intro!: exI [of _ "failed (s_address d) stale_election None"])
  qed
qed

theorem elections_never_go_back_witness:
  "\<forall>ops. \<exists>u e. update ops ((unknown (bytes_of ''a:1''))\<lparr>s_kind := S_RsPrimary, max_wire := 21, s_members := [bytes_of ''a:1'']\<rparr>)
      (new_topology [bytes_of ''a:1''] False None) = (u, e) \<and> primary_at u (bytes_of ''a:1'')"
proof (rule allI, goal_cases)
  case (1 ops)
  let ?t = "new_topology [bytes_of ''a:1''] False None"
  let ?d = "(unknown (bytes_of ''a:1''))\<lparr>s_kind := S_RsPrimary, max_wire := 21, s_members := [bytes_of ''a:1'']\<rparr>"
  obtain u e where u: "update ops ?d ?t = (u, e)" by fastforce
  have n: "normalize (bytes_of ''a:1'') = bytes_of ''a:1''"
    by (simp add: normalize_def Let_def bytes_of_def byte_of_char_def lower_byte_def)
  have a: "at ?t (s_address ?d) = Some (unknown (bytes_of ''a:1''))" by (simp add: new_topology_def n Let_def)
  have v: "at_least_as_new (s_topology_version (unknown (bytes_of ''a:1''))) (s_topology_version ?d)"
    by (simp add: unknown_def)
  have "seen ?t \<le> elected ?d"
    by (simp add: seen_def elected_def new_topology_def Let_def unknown_def or_min_def)
  with elections_never_go_back [OF seeded a v _ _ _ _ u] have "primary_at u (bytes_of ''a:1'')"
    by (simp add: new_topology_def Let_def)
  with u show ?case by blast
qed

end
