(* ===== verification/Select.thy ===== *)
theory Select
  imports SdamEffects
begin

text \<open>
  MongoDB server selection (\<open>crates/runtime/src/mongodb/select.rs\<close> and \<open>Topology::select\<close>): which
  servers may take an operation, by topology, read preference, staleness and tags, which of those
  are near enough, and which of these is taken. Overflow of \<open>i64\<close> arithmetic panics (the release
  profile checks it); that is the value \<open>None\<close> of the definitions that compute with times.
\<close>

section \<open>Checked arithmetic\<close>

definition i64_ok :: "int \<Rightarrow> int option" where
  "i64_ok n = (if - (2 ^ 63) \<le> n \<and> n < 2 ^ 63 then Some n else None)"

definition add_i64 :: "int \<Rightarrow> int \<Rightarrow> int option" where "add_i64 a b = i64_ok (a + b)"

definition sub_i64 :: "int \<Rightarrow> int \<Rightarrow> int option" where "sub_i64 a b = i64_ok (a - b)"

definition mul_i64 :: "int \<Rightarrow> int \<Rightarrow> int option" where "mul_i64 a b = i64_ok (a * b)"

lemma i64_ok_Some [simp]: "i64_ok n = Some m \<longleftrightarrow> m = n \<and> - (2 ^ 63) \<le> n \<and> n < 2 ^ 63"
  by (auto simp: i64_ok_def)

text \<open>A filter whose test may panic.\<close>

fun filter_checked :: "('a \<Rightarrow> bool option) \<Rightarrow> 'a list \<Rightarrow> 'a list option" where
  "filter_checked P [] = Some []"
| "filter_checked P (x # xs) =
     (case P x of
        None \<Rightarrow> None
      | Some keep \<Rightarrow> map_option (\<lambda>ys. if keep then x # ys else ys) (filter_checked P xs))"

lemma filter_checked_Some:
  "filter_checked P xs = Some ys \<longleftrightarrow> (\<forall>x \<in> set xs. P x \<noteq> None) \<and> ys = filter (\<lambda>x. P x = Some True) xs"
proof (induction xs arbitrary: ys)
  case (Cons x xs)
  show ?case by (cases "P x") (auto simp: Cons.IH split: if_splits)
qed auto

section \<open>Read preferences\<close>

datatype mode = Primary | PrimaryPreferred | Secondary | SecondaryPreferred | Nearest

definition parse_mode :: "utf8 \<Rightarrow> mode option" where
  "parse_mode s =
     (let s = map lower_byte s in
      if s = bytes_of ''primary'' then Some Primary
      else if s = bytes_of ''primarypreferred'' then Some PrimaryPreferred
      else if s = bytes_of ''secondary'' then Some Secondary
      else if s = bytes_of ''secondarypreferred'' then Some SecondaryPreferred
      else if s = bytes_of ''nearest'' then Some Nearest
      else None)"

fun mode_name :: "mode \<Rightarrow> utf8" where
  "mode_name Primary = bytes_of ''primary''"
| "mode_name PrimaryPreferred = bytes_of ''primaryPreferred''"
| "mode_name Secondary = bytes_of ''secondary''"
| "mode_name SecondaryPreferred = bytes_of ''secondaryPreferred''"
| "mode_name Nearest = bytes_of ''nearest''"

record read_preference =
  pref_mode :: mode
  tag_sets :: "(utf8 \<times> utf8) list list"
  max_staleness :: "int option"

definition primary_preference :: read_preference where
  "primary_preference = \<lparr>pref_mode = Primary, tag_sets = [], max_staleness = None\<rparr>"

datatype operation = Read | Write

datatype preference_error =
  StalenessNotPositive int
| StalenessWithPrimary
| StalenessTooSmall
| TagsWithPrimary

definition SMALLEST_MAX_STALENESS_SECONDS :: int where "SMALLEST_MAX_STALENESS_SECONDS = 90"

definition IDLE_WRITE_PERIOD_MS :: int where "IDLE_WRITE_PERIOD_MS = 10000"

section \<open>Suitable servers\<close>

definition or_zero :: "int option \<Rightarrow> int" where
  "or_zero d = (case d of Some n \<Rightarrow> n | None \<Rightarrow> 0)"

definition all_servers :: "topology \<Rightarrow> server list" where
  "all_servers t = map snd (servers t)"

definition of_kind :: "server_type \<Rightarrow> server list \<Rightarrow> server list" where
  "of_kind k ss = filter (\<lambda>s. s_kind s = k) ss"

definition staleness :: "topology \<Rightarrow> server \<Rightarrow> int \<Rightarrow> int option" where
  "staleness t s heartbeat =
     (if s_kind s \<noteq> S_RsSecondary then Some 0
      else
        (let last_write = or_zero (last_write_date s) in
         case find (\<lambda>p. s_kind p = S_RsPrimary) (all_servers t) of
           Some p \<Rightarrow>
             Option.bind (sub_i64 (last_update_time s) last_write) (\<lambda>a.
             Option.bind (sub_i64 (last_update_time p) (or_zero (last_write_date p))) (\<lambda>b.
             Option.bind (sub_i64 a b) (\<lambda>c. add_i64 c heartbeat)))
         | None \<Rightarrow>
             (let dates = List.map_filter last_write_date (of_kind S_RsSecondary (all_servers t));
                  latest = (if dates = [] then last_write else foldl max (hd dates) (tl dates))
              in Option.bind (sub_i64 latest last_write) (\<lambda>a. add_i64 a heartbeat))))"

definition matches_tags :: "(utf8 \<times> utf8) list \<Rightarrow> server \<Rightarrow> bool" where
  "matches_tags tag_set s \<longleftrightarrow> list_all (\<lambda>t. t \<in> set (s_tags s)) tag_set"

fun first_matching :: "(utf8 \<times> utf8) list list \<Rightarrow> server list \<Rightarrow> server list" where
  "first_matching [] fresh = []"
| "first_matching (tag_set # rest) fresh =
     (let matching = filter (matches_tags tag_set) fresh in
      if matching \<noteq> [] then matching else first_matching rest fresh)"

definition positive :: "int option \<Rightarrow> int option" where
  "positive = opt_filter (\<lambda>s. s > 0)"

definition fresh_enough :: "topology \<Rightarrow> int \<Rightarrow> int \<Rightarrow> server \<Rightarrow> bool option" where
  "fresh_enough t heartbeat most s =
     Option.bind (staleness t s heartbeat) (\<lambda>a. Option.bind (mul_i64 most 1000) (\<lambda>b. Some (a \<le> b)))"

definition eligible :: "topology \<Rightarrow> server list \<Rightarrow> read_preference \<Rightarrow> int \<Rightarrow> server list option" where
  "eligible t candidates pref heartbeat =
     Option.bind
       (case positive (max_staleness pref) of
          None \<Rightarrow> Some candidates
        | Some most \<Rightarrow> filter_checked (fresh_enough t heartbeat most) candidates)
       (\<lambda>fresh. Some (if tag_sets pref = [] then fresh else first_matching (tag_sets pref) fresh))"

definition select_from ::
    "topology \<Rightarrow> server list \<Rightarrow> read_preference \<Rightarrow> operation \<Rightarrow> int \<Rightarrow> utf8 list \<Rightarrow> server list option" where
  "select_from t everyone pref op heartbeat deprioritized =
     (let ss = filter (\<lambda>s. s_address s \<notin> set deprioritized) everyone in
      case t_kind t of
        T_Unknown \<Rightarrow> Some []
      | T_Single \<Rightarrow> Some (filter (\<lambda>s. s_kind s \<noteq> S_Unknown) ss)
      | T_Sharded \<Rightarrow> Some (of_kind S_Mongos ss)
      | _ \<Rightarrow>
          (let primary = of_kind S_RsPrimary ss;
               secondaries = eligible t (of_kind S_RsSecondary ss) pref heartbeat
           in if op = Write then Some primary
              else
                (case pref_mode pref of
                   Primary \<Rightarrow> Some primary
                 | PrimaryPreferred \<Rightarrow> if primary \<noteq> [] then Some primary else secondaries
                 | Secondary \<Rightarrow> secondaries
                 | SecondaryPreferred \<Rightarrow>
                     Option.bind secondaries (\<lambda>found. Some (if found = [] then primary else found))
                 | Nearest \<Rightarrow>
                     eligible t (filter (\<lambda>s. s_kind s = S_RsPrimary \<or> s_kind s = S_RsSecondary) ss) pref heartbeat)))"

definition preference_problem ::
    "topology \<Rightarrow> read_preference \<Rightarrow> int \<Rightarrow> preference_error option option" where
  "preference_problem t pref heartbeat =
     (case opt_filter (\<lambda>s. s \<noteq> -1 \<and> s \<le> 0) (max_staleness pref) of
        Some n \<Rightarrow> Some (Some (StalenessNotPositive n))
      | None \<Rightarrow>
          Option.bind
            (case positive (max_staleness pref) of
               None \<Rightarrow> Some None
             | Some n \<Rightarrow>
                 if pref_mode pref = Primary then Some (Some StalenessWithPrimary)
                 else if t_kind t = T_ReplicaSetNoPrimary \<or> t_kind t = T_ReplicaSetWithPrimary then
                   (if n < SMALLEST_MAX_STALENESS_SECONDS then Some (Some StalenessTooSmall)
                    else Option.bind (mul_i64 n 1000) (\<lambda>a.
                         Option.bind (add_i64 heartbeat IDLE_WRITE_PERIOD_MS) (\<lambda>b.
                           Some (if a < b then Some StalenessTooSmall else None))))
                 else Some None)
            (\<lambda>problem.
               case problem of
                 Some e \<Rightarrow> Some (Some e)
               | None \<Rightarrow>
                   Some (if pref_mode pref = Primary \<and> list_ex (\<lambda>ts. ts \<noteq> []) (tag_sets pref)
                         then Some TagsWithPrimary else None)))"

definition suitable ::
    "topology \<Rightarrow> read_preference \<Rightarrow> operation \<Rightarrow> int \<Rightarrow> utf8 list \<Rightarrow> (preference_error + server list) option" where
  "suitable t preference op heartbeat deprioritized =
     (let pref = (if op = Write then primary_preference else preference) in
      Option.bind (preference_problem t pref heartbeat) (\<lambda>problem.
        case problem of
          Some e \<Rightarrow> Some (Inl e)
        | None \<Rightarrow>
            Option.bind (select_from t (all_servers t) pref op heartbeat deprioritized) (\<lambda>found.
              if found = [] \<and> deprioritized \<noteq> []
              then map_option Inr (select_from t (all_servers t) pref op heartbeat [])
              else Some (Inr found))))"

section \<open>The latency window and the pick\<close>

definition in_latency_window :: "float_ops \<Rightarrow> server list \<Rightarrow> f64 \<Rightarrow> server list" where
  "in_latency_window ops found threshold =
     (let fastest = foldl (f_min ops) f64_infinity (List.map_filter avg_rtt found) in
      filter (\<lambda>s. case avg_rtt s of None \<Rightarrow> True | Some rtt \<Rightarrow> f_le ops rtt (f_add ops fastest threshold)) found)"

text \<open>The generator of \<open>Topology::select\<close>: one step of xorshift, reduced modulo \<open>n\<close>.\<close>

definition xorshift :: "u64 \<Rightarrow> u64" where
  "xorshift r =
     (let r = xor r (push_bit 13 r); r = xor r (drop_bit 7 r) in xor r (push_bit 17 r))"

definition draw :: "nat \<Rightarrow> u64 \<Rightarrow> nat \<times> u64" where
  "draw n r = (let r = xorshift r in (unat r mod n, r))"

definition pick :: "(utf8 \<Rightarrow> nat) \<Rightarrow> server list \<Rightarrow> u64 \<Rightarrow> server option \<times> u64" where
  "pick operations window r =
     (case window of
        [] \<Rightarrow> (None, r)
      | [s] \<Rightarrow> (Some s, r)
      | _ \<Rightarrow>
          (let n = length window;
               (a, r) = draw n r;
               (b, r) = draw (n - 1) r;
               b = (if b \<ge> a then b + 1 else b);
               sa = window ! a; sb = window ! b
           in (Some (if operations (s_address sb) < operations (s_address sa) then sb else sa), r)))"

datatype selection =
  Selected utf8
| BadPreference preference_error
| NoneSuitable

definition select ::
    "float_ops \<Rightarrow> topology \<Rightarrow> read_preference \<Rightarrow> operation \<Rightarrow> int \<Rightarrow> f64 \<Rightarrow> (utf8 \<Rightarrow> nat) \<Rightarrow> u64 \<Rightarrow>
     (selection \<times> u64) option" where
  "select ops t pref op heartbeat threshold operations r =
     Option.bind (suitable t pref op heartbeat []) (\<lambda>answer.
       case answer of
         Inl e \<Rightarrow> Some (BadPreference e, r)
       | Inr found \<Rightarrow>
           (case pick operations (in_latency_window ops found threshold) r of
              (Some s, r) \<Rightarrow> Some (Selected (s_address s), r)
            | (None, r) \<Rightarrow> Some (NoneSuitable, r)))"

section \<open>Properties\<close>

text \<open>Which servers an operation may run on, by the deployment's type and the read mode.\<close>

definition may_take :: "topology \<Rightarrow> operation \<Rightarrow> read_preference \<Rightarrow> server \<Rightarrow> bool" where
  "may_take t op pref s =
     (case t_kind t of
        T_Unknown \<Rightarrow> False
      | T_Single \<Rightarrow> s_kind s \<noteq> S_Unknown
      | T_Sharded \<Rightarrow> s_kind s = S_Mongos
      | _ \<Rightarrow> if op = Write \<or> pref_mode pref = Primary then s_kind s = S_RsPrimary
             else if pref_mode pref = Secondary then s_kind s = S_RsSecondary
             else s_kind s = S_RsPrimary \<or> s_kind s = S_RsSecondary)"

definition meets :: "topology \<Rightarrow> read_preference \<Rightarrow> int \<Rightarrow> server \<Rightarrow> bool" where
  "meets t pref heartbeat s \<longleftrightarrow>
     (\<forall>most. positive (max_staleness pref) = Some most \<longrightarrow> fresh_enough t heartbeat most s = Some True) \<and>
     (tag_sets pref \<noteq> [] \<longrightarrow> (\<exists>ts \<in> set (tag_sets pref). matches_tags ts s))"

definition replica_set :: "topology \<Rightarrow> bool" where
  "replica_set t \<longleftrightarrow> t_kind t = T_ReplicaSetNoPrimary \<or> t_kind t = T_ReplicaSetWithPrimary"

lemma first_matching_subset:
  "s \<in> set (first_matching tss fresh) \<Longrightarrow> s \<in> set fresh \<and> (\<exists>ts \<in> set tss. matches_tags ts s)"
  by (induction tss) (auto simp: Let_def split: if_splits)

lemma eligible_meets:
  assumes "eligible t candidates pref heartbeat = Some found" "s \<in> set found"
  shows "s \<in> set candidates \<and> meets t pref heartbeat s"
proof -
  obtain fresh where f: "(case positive (max_staleness pref) of None \<Rightarrow> Some candidates
        | Some most \<Rightarrow> filter_checked (fresh_enough t heartbeat most) candidates) = Some fresh"
    and found: "found = (if tag_sets pref = [] then fresh else first_matching (tag_sets pref) fresh)"
    using assms(1) by (auto simp: eligible_def bind_eq_Some_conv)
  have s: "s \<in> set fresh" "tag_sets pref \<noteq> [] \<longrightarrow> (\<exists>ts \<in> set (tag_sets pref). matches_tags ts s)"
    using assms(2) found first_matching_subset by (auto split: if_splits)
  show ?thesis
  proof (cases "positive (max_staleness pref)")
    case None
    then show ?thesis using f s by (simp add: meets_def)
  next
    case (Some most)
    then show ?thesis using f s by (auto simp: meets_def filter_checked_Some)
  qed
qed

lemma select_from_fits:
  assumes "select_from t everyone pref op heartbeat dep = Some found" "s \<in> set found"
  shows "s \<in> set everyone \<and> may_take t op pref s \<and>
    (replica_set t \<and> op = Read \<and> s_kind s = S_RsSecondary \<longrightarrow> meets t pref heartbeat s)"
proof (cases "replica_set t \<and> op = Read")
  case False
  then show ?thesis using assms
    by (cases op; cases "t_kind t")
      (auto simp: select_from_def may_take_def of_kind_def replica_set_def Let_def split: if_splits)
next
  case True
  let ?ss = "filter (\<lambda>s. s_address s \<notin> set dep) everyone"
  have rs: "t_kind t = T_ReplicaSetNoPrimary \<or> t_kind t = T_ReplicaSetWithPrimary" "op = Read"
    using True by (auto simp: replica_set_def)
  have sec: "s \<in> set everyone \<and> s_kind s = S_RsSecondary \<and> meets t pref heartbeat s"
    if "eligible t (of_kind S_RsSecondary ?ss) pref heartbeat = Some l" "s \<in> set l" for l
    using eligible_meets [OF that] by (auto simp: of_kind_def)
  have near: "s \<in> set everyone \<and> (s_kind s = S_RsPrimary \<or> s_kind s = S_RsSecondary) \<and> meets t pref heartbeat s"
    if "eligible t (filter (\<lambda>s. s_kind s = S_RsPrimary \<or> s_kind s = S_RsSecondary) ?ss) pref heartbeat = Some l"
      "s \<in> set l" for l
    using eligible_meets [OF that] by auto
  have prim: "s \<in> set everyone \<and> s_kind s = S_RsPrimary" if "s \<in> set (of_kind S_RsPrimary ?ss)"
    using that by (auto simp: of_kind_def)
  show ?thesis
  proof (cases "pref_mode pref")
    case Primary
    then have "found = of_kind S_RsPrimary ?ss" using assms(1) rs by (auto simp: select_from_def Let_def)
    then show ?thesis using prim assms(2) rs Primary by (auto simp: may_take_def)
  next
    case PrimaryPreferred
    then have "found = of_kind S_RsPrimary ?ss \<or> eligible t (of_kind S_RsSecondary ?ss) pref heartbeat = Some found"
      using assms(1) rs by (auto simp: select_from_def Let_def split: if_splits)
    then show ?thesis using prim sec assms(2) rs PrimaryPreferred by (auto simp: may_take_def)
  next
    case Secondary
    then have "eligible t (of_kind S_RsSecondary ?ss) pref heartbeat = Some found"
      using assms(1) rs by (auto simp: select_from_def Let_def)
    then show ?thesis using sec assms(2) rs Secondary by (auto simp: may_take_def)
  next
    case SecondaryPreferred
    then have "found = of_kind S_RsPrimary ?ss \<or> eligible t (of_kind S_RsSecondary ?ss) pref heartbeat = Some found"
      using assms(1) rs by (auto simp: select_from_def Let_def bind_eq_Some_conv split: if_splits)
    then show ?thesis using prim sec assms(2) rs SecondaryPreferred by (auto simp: may_take_def)
  next
    case Nearest
    then have "eligible t (filter (\<lambda>s. s_kind s = S_RsPrimary \<or> s_kind s = S_RsSecondary) ?ss) pref heartbeat = Some found"
      using assms(1) rs by (auto simp: select_from_def Let_def)
    then show ?thesis using near assms(2) rs Nearest by (auto simp: may_take_def)
  qed
qed

lemma write_preference_fine: "preference_problem t primary_preference heartbeat = Some None"
  by (simp add: preference_problem_def primary_preference_def positive_def)

lemma suitable_fits:
  assumes "suitable t pref op heartbeat dep = Some (Inr found)" "s \<in> set found"
  shows "s \<in> set (all_servers t) \<and> may_take t op pref s \<and>
    (replica_set t \<and> op = Read \<and> s_kind s = S_RsSecondary \<longrightarrow> meets t pref heartbeat s)"
proof -
  let ?pref = "if op = Write then primary_preference else pref"
  obtain d where d: "select_from t (all_servers t) ?pref op heartbeat d = Some found"
    using assms(1) by (auto simp: suitable_def Let_def bind_eq_Some_conv split: option.splits if_splits)
  from select_from_fits [OF d assms(2)] show ?thesis
    by (cases op) (auto simp: may_take_def split: topology_type.splits)
qed

lemma suitable_writes:
  "suitable t pref Write heartbeat [] = Some (Inr (filter (may_take t Write pref) (all_servers t)))"
proof -
  have "select_from t (all_servers t) primary_preference Write heartbeat [] =
      Some (filter (may_take t Write pref) (all_servers t))"
    by (cases "t_kind t") (auto simp: select_from_def may_take_def of_kind_def Let_def intro!: filter_cong)
  then show ?thesis by (simp add: suitable_def write_preference_fine)
qed

lemma draw_less: "0 < n \<Longrightarrow> fst (draw n r) < n"
  by (simp add: draw_def Let_def)

lemma pick_in_window:
  assumes "pick operations window r = (Some s, r')"
  shows "s \<in> set window"
proof (cases window rule: remdups_adj.cases)
  case (3 x y xs)
  obtain a r1 where a: "draw (length window) r = (a, r1)" by fastforce
  obtain b r2 where b: "draw (length window - 1) r1 = (b, r2)" by fastforce
  have "a < length window" using draw_less [of "length window" r] a 3 by simp
  moreover have "b < length window - 1" using draw_less [of "length window - 1" r1] b 3 by simp
  ultimately have "window ! a \<in> set window" "window ! (if b \<ge> a then b + 1 else b) \<in> set window"
    by (auto intro: nth_mem)
  then show ?thesis using assms a b 3 by (auto simp: pick_def Let_def split: if_splits)
qed (use assms in \<open>auto simp: pick_def\<close>)

text \<open>
  C20: an operation runs where it may. The server selected is one of the deployment's, of a kind
  the deployment's type and the read mode allow; a secondary read in a replica set is fresh enough
  for the staleness asked for and carries one of the tag sets. Writes are offered exactly the
  servers that can take them, whatever the read preference.
\<close>

theorem selection_fits:
  assumes "sound t" "select fl t pref op heartbeat threshold operations r = Some (Selected a, r')"
  shows "(\<exists>s. at t a = Some s \<and> may_take t op pref s \<and>
      (replica_set t \<and> op = Read \<and> s_kind s = S_RsSecondary \<longrightarrow> meets t pref heartbeat s)) \<and>
    suitable t pref Write heartbeat [] = Some (Inr (filter (may_take t Write pref) (all_servers t)))"
proof -
  obtain found s where found: "suitable t pref op heartbeat [] = Some (Inr found)"
    and s: "pick operations (in_latency_window fl found threshold) r = (Some s, r')" "a = s_address s"
  proof -
    obtain answer where "suitable t pref op heartbeat [] = Some answer"
      using assms(2) by (auto simp: select_def bind_eq_Some_conv)
    then show thesis using assms(2) that
      by (cases answer) (auto simp: select_def split: prod.splits option.splits)
  qed
  have "s \<in> set found" using pick_in_window [OF s(1)] by (auto simp: in_latency_window_def Let_def)
  note fits = suitable_fits [OF found this]
  have k: "keyed t" using assms(1) by (simp add: sound_def)
  then have "bt_ok (servers t)" by (simp add: keyed_def)
  moreover have "s \<in> snd ` set (servers t)" using fits [THEN conjunct1] by (simp only: all_servers_def set_map)
  then obtain k where "(k, s) \<in> set (servers t)" by force
  ultimately have "at t k = Some s" by (simp add: bt.items_lookup)
  moreover from this have "k = a" using k s(2) by (auto simp: keyed_def)
  ultimately have "at t a = Some s" by simp
  with fits [THEN conjunct2] suitable_writes show ?thesis by blast
qed

theorem selection_fits_witness:
  "\<exists>t s. at t [97] = Some s \<and> may_take t Read primary_preference s"
proof -
  let ?s = "(unknown [97])\<lparr>s_kind := S_Standalone\<rparr>"
  let ?t = "(new_topology [] True None)\<lparr>servers := [([97], ?s)], generations := [([97], 0)]\<rparr>"
  have k: "t_kind ?t = T_Single" "all_servers ?t = [?s]" by (simp_all add: new_topology_def all_servers_def)
  have "sound ?t" by (simp add: sound_def keyed_def coherent_def kinds_in_def bt_ok_def new_topology_def)
  moreover have "suitable ?t primary_preference Read 0 [] = Some (Inr [?s])"
    by (simp add: suitable_def write_preference_fine select_from_def k)
  then have "select fl ?t primary_preference Read 0 0 (\<lambda>_. 0) 1 = Some (Selected [97], 1)"
    by (simp add: select_def in_latency_window_def pick_def unknown_def)
  ultimately show ?thesis using selection_fits by blast
qed

text \<open>
  A server's date can stop a selection. A secondary whose last write date is the least \<open>i64\<close>,
  beside a primary, makes a read with a staleness bound overflow: selection panics.
\<close>

theorem hostile_date_panics:
  "\<exists>t s. at t (s_address s) = Some s \<and> s_kind s = S_RsSecondary \<and> last_write_date s = Some i64_min \<and> has_primary t \<and>
     suitable t \<lparr>pref_mode = Secondary, tag_sets = [], max_staleness = Some 120\<rparr> Read 10000 [] = None"
proof -
  define p where "p = (unknown [97])\<lparr>s_kind := S_RsPrimary\<rparr>"
  define s where "s = (unknown [98])\<lparr>s_kind := S_RsSecondary, last_write_date := Some i64_min, last_update_time := 5\<rparr>"
  define t where "t = (new_topology [] False None)\<lparr>t_kind := T_ReplicaSetWithPrimary, servers := [([97], p), ([98], s)]\<rparr>"
  let ?pref = "\<lparr>pref_mode = Secondary, tag_sets = [], max_staleness = Some 120\<rparr>"
  have t: "t_kind t = T_ReplicaSetWithPrimary" "all_servers t = [p, s]" "servers t = [([97], p), ([98], s)]"
    by (simp_all add: t_def all_servers_def)
  have ps: "s_kind p = S_RsPrimary" "last_update_time p = 0" "last_write_date p = None"
    "s_kind s = S_RsSecondary" "last_update_time s = 5" "last_write_date s = Some i64_min" "s_address s = [98]"
    by (simp_all add: p_def s_def unknown_def)
  have "staleness t s 10000 = None"
    by (simp add: staleness_def t ps or_zero_def sub_i64_def i64_ok_def) (simp add: i64_min_def)
  then have "eligible t [s] ?pref 10000 = None"
    by (simp add: eligible_def positive_def fresh_enough_def)
  moreover have "preference_problem t ?pref 10000 = Some None"
    by (simp add: preference_problem_def positive_def SMALLEST_MAX_STALENESS_SECONDS_def IDLE_WRITE_PERIOD_MS_def
        mul_i64_def add_i64_def i64_ok_def)
  ultimately have "suitable t ?pref Read 10000 [] = None"
    by (simp add: suitable_def select_from_def t ps of_kind_def)
  moreover have "has_primary t" by (simp add: has_primary_def t ps)
  moreover have "at t (s_address s) = Some s" by (simp add: t ps)
  ultimately show ?thesis using ps by blast
qed

end
