(* ===== verification/Pool.thy ===== *)
theory Pool
  imports Prelude
begin

text \<open>
  The pool of connections to one MongoDB server (\<open>crates/runtime/src/mongodb/pool.rs\<close>). Its state
  is behind one mutex, so each piece of code between two awaits is a step: taking a connection or a
  place in the queue, the end of opening one, giving one back, a cancel, a clear, a close. Commands
  are known by their tickets; a connection is its socket.
\<close>

section \<open>The pool's state and its steps\<close>

type_synonym ticket = nat
type_synonym conn = nat

record running_command =
  r_socket :: "conn option"
  r_cancelled :: bool

record pool =
  idle :: "(nat \<times> conn) list"
  p_total :: nat
  waiters :: "ticket list"
  running :: "ticket \<rightharpoonup> running_command"
  cancelled :: "ticket set"
  generation :: nat
  p_closed :: bool

definition empty_pool :: pool where
  "empty_pool = \<lparr>idle = [], p_total = 0, waiters = [], running = Map.empty, cancelled = {},
     generation = 0, p_closed = False\<rparr>"

text \<open>
  A waiting command holds the receiver of a channel; waking it fails when it is gone, and the next
  is tried. \<open>alive\<close> says which commands still wait.
\<close>

fun wake_one :: "(ticket \<Rightarrow> bool) \<Rightarrow> ticket list \<Rightarrow> ticket option \<times> ticket list" where
  "wake_one alive [] = (None, [])"
| "wake_one alive (w # ws) = (if alive w then (Some w, ws) else wake_one alive ws)"

datatype refusal = PoolClosed | Cancelled

datatype checkout =
  Refused refusal nat
| Reuse nat conn
| OpenNew nat
| Queued nat

definition checkout_step :: "nat \<Rightarrow> ticket \<Rightarrow> pool \<Rightarrow> checkout \<times> pool" where
  "checkout_step max_pool t p =
     (if p_closed p then (Refused PoolClosed (generation p), p)
      else if t \<in> cancelled p then (Refused Cancelled (generation p), p\<lparr>cancelled := cancelled p - {t}\<rparr>)
      else if idle p \<noteq> [] then
        (let (g, c) = last (idle p) in
         (Reuse g c, p\<lparr>idle := butlast (idle p),
                       running := (running p)(t \<mapsto> \<lparr>r_socket = Some c, r_cancelled = False\<rparr>)\<rparr>))
      else if p_total p < max_pool then
        (OpenNew (generation p),
         p\<lparr>p_total := p_total p + 1,
           running := (running p)(t \<mapsto> \<lparr>r_socket = None, r_cancelled = False\<rparr>)\<rparr>)
      else (Queued (generation p), p\<lparr>waiters := waiters p @ [t]\<rparr>))"

definition was_cancelled :: "ticket \<Rightarrow> pool \<Rightarrow> bool" where
  "was_cancelled t p = (case running p t of Some r \<Rightarrow> r_cancelled r | None \<Rightarrow> False)"

text \<open>A place in the count is given up, and the next waiting command told.\<close>

definition give_up :: "(ticket \<Rightarrow> bool) \<Rightarrow> ticket \<Rightarrow> pool \<Rightarrow> ticket option \<times> pool" where
  "give_up alive t p =
     (let (w, ws) = wake_one alive (waiters p) in
      (w, p\<lparr>running := (running p)(t := None), p_total := p_total p - 1, waiters := ws\<rparr>))"

text \<open>
  The end of opening: the connection is the command's, unless the command was cancelled meanwhile
  or the opening failed. The outcome is whether it goes on.
\<close>

definition opened_step :: "(ticket \<Rightarrow> bool) \<Rightarrow> ticket \<Rightarrow> bool \<Rightarrow> pool \<Rightarrow> bool \<times> ticket option \<times> pool" where
  "opened_step alive t success p =
     (if success \<and> \<not> was_cancelled t p then (True, None, p)
      else (False, give_up alive t p))"

definition checkin_step ::
    "(ticket \<Rightarrow> bool) \<Rightarrow> ticket \<Rightarrow> conn \<Rightarrow> nat \<Rightarrow> bool \<Rightarrow> pool \<Rightarrow> bool \<times> ticket option \<times> pool" where
  "checkin_step alive t c g healthy p =
     (if healthy \<and> \<not> p_closed p \<and> \<not> was_cancelled t p \<and> g = generation p then
        (let (w, ws) = wake_one alive (waiters p) in
         (False, w, p\<lparr>running := (running p)(t := None), idle := idle p @ [(g, c)], waiters := ws\<rparr>))
      else (was_cancelled t p, give_up alive t p))"

text \<open>
  A cancel: the socket to close, when the command has one; a waiting command leaves the queue,
  its sender dropped, which wakes it.
\<close>

definition cancel_step :: "ticket \<Rightarrow> pool \<Rightarrow> conn option \<times> ticket option \<times> pool" where
  "cancel_step t p =
     (case running p t of
        Some r \<Rightarrow> (r_socket r, None, p\<lparr>running := (running p)(t \<mapsto> r\<lparr>r_cancelled := True\<rparr>)\<rparr>)
      | None \<Rightarrow>
          if t \<in> set (waiters p)
          then (None, Some t, p\<lparr>cancelled := insert t (cancelled p), waiters := remove1 t (waiters p)\<rparr>)
          else (None, None, p\<lparr>cancelled := insert t (cancelled p)\<rparr>))"

text \<open>Both wake every waiting command and give up the idle connections, which are returned.\<close>

definition clear_step :: "pool \<Rightarrow> conn list \<times> ticket list \<times> pool" where
  "clear_step p =
     (map snd (idle p), waiters p,
      p\<lparr>generation := generation p + 1, p_total := p_total p - length (idle p), waiters := [], idle := []\<rparr>)"

definition close_step :: "pool \<Rightarrow> conn list \<times> ticket list \<times> pool" where
  "close_step p =
     (map snd (idle p), waiters p,
      p\<lparr>p_closed := True, p_total := p_total p - length (idle p), waiters := [], idle := []\<rparr>)"

section \<open>Commands and the pool\<close>

text \<open>
  A command waits in the queue, or was woken and has yet to look again, or opens a connection, or
  runs on one; then it is over. \<open>Connection::open\<close> tells the command's cell its socket before it
  is done.
\<close>

datatype command =
  Waiting
| Woken
| Opening nat
| Holding nat conn
| Over

record process =
  the_pool :: pool
  commands :: "ticket \<rightharpoonup> command"

datatype event =
  Start ticket
| Resume ticket
| Socket ticket conn
| Opened ticket conn
| OpenFailed ticket
| CheckIn ticket bool
| Cancel ticket
| Clear
| Close

definition waits :: "process \<Rightarrow> ticket \<Rightarrow> bool" where
  "waits s t \<longleftrightarrow> commands s t = Some Waiting"

definition wake :: "ticket list \<Rightarrow> (ticket \<rightharpoonup> command) \<Rightarrow> (ticket \<rightharpoonup> command)" where
  "wake ts m = (\<lambda>t. if t \<in> set ts then Some Woken else m t)"

definition look :: "nat \<Rightarrow> ticket \<Rightarrow> process \<Rightarrow> process" where
  "look max_pool t s =
     (case checkout_step max_pool t (the_pool s) of
        (Refused _ _, p) \<Rightarrow> \<lparr>the_pool = p, commands = (commands s)(t \<mapsto> Over)\<rparr>
      | (Reuse g c, p) \<Rightarrow> \<lparr>the_pool = p, commands = (commands s)(t \<mapsto> Holding g c)\<rparr>
      | (OpenNew g, p) \<Rightarrow> \<lparr>the_pool = p, commands = (commands s)(t \<mapsto> Opening g)\<rparr>
      | (Queued _, p) \<Rightarrow> \<lparr>the_pool = p, commands = (commands s)(t \<mapsto> Waiting)\<rparr>)"

definition finish_open :: "ticket \<Rightarrow> nat \<Rightarrow> conn option \<Rightarrow> process \<Rightarrow> process" where
  "finish_open t g c s =
     (case opened_step (waits s) t (c \<noteq> None) (the_pool s) of
        (go, w, p) \<Rightarrow>
          if go then \<lparr>the_pool = p, commands = (commands s)(t \<mapsto> Holding g (the c))\<rparr>
          else \<lparr>the_pool = p, commands = wake (case w of Some x \<Rightarrow> [x] | None \<Rightarrow> []) ((commands s)(t \<mapsto> Over))\<rparr>)"

text \<open>Sockets are the provider's: a new connection has one no connection of the pool has.\<close>

definition in_use :: "process \<Rightarrow> conn set" where
  "in_use s = snd ` set (idle (the_pool s)) \<union> {c. \<exists>t g. commands s t = Some (Holding g c)}"

fun enabled :: "event \<Rightarrow> process \<Rightarrow> bool" where
  "enabled (Start t) s \<longleftrightarrow> commands s t = None"
| "enabled (Resume t) s \<longleftrightarrow> commands s t = Some Woken"
| "enabled (Socket t c) s \<longleftrightarrow> (\<exists>g. commands s t = Some (Opening g))"
| "enabled (Opened t c) s \<longleftrightarrow> (\<exists>g. commands s t = Some (Opening g)) \<and> c \<notin> in_use s"
| "enabled (OpenFailed t) s \<longleftrightarrow> (\<exists>g. commands s t = Some (Opening g))"
| "enabled (CheckIn t h) s \<longleftrightarrow> (\<exists>g c. commands s t = Some (Holding g c))"
| "enabled (Cancel t) s \<longleftrightarrow> True"
| "enabled Clear s \<longleftrightarrow> True"
| "enabled Close s \<longleftrightarrow> True"

fun perform :: "nat \<Rightarrow> event \<Rightarrow> process \<Rightarrow> process" where
  "perform mx (Start t) s = look mx t s"
| "perform mx (Resume t) s = look mx t s"
| "perform mx (Socket t c) s =
     s\<lparr>the_pool := (the_pool s)\<lparr>running :=
         (running (the_pool s))(t := map_option (\<lambda>r. r\<lparr>r_socket := Some c\<rparr>) (running (the_pool s) t))\<rparr>\<rparr>"
| "perform mx (Opened t c) s =
     (case commands s t of Some (Opening g) \<Rightarrow> finish_open t g (Some c) s | _ \<Rightarrow> s)"
| "perform mx (OpenFailed t) s =
     (case commands s t of Some (Opening g) \<Rightarrow> finish_open t g None s | _ \<Rightarrow> s)"
| "perform mx (CheckIn t healthy) s =
     (case commands s t of
        Some (Holding g c) \<Rightarrow>
          (case checkin_step (waits s) t c g healthy (the_pool s) of
             (_, w, p) \<Rightarrow> \<lparr>the_pool = p,
                commands = wake (case w of Some x \<Rightarrow> [x] | None \<Rightarrow> []) ((commands s)(t \<mapsto> Over))\<rparr>)
      | _ \<Rightarrow> s)"
| "perform mx (Cancel t) s =
     (case cancel_step t (the_pool s) of
        (_, w, p) \<Rightarrow> \<lparr>the_pool = p, commands = wake (case w of Some x \<Rightarrow> [x] | None \<Rightarrow> []) (commands s)\<rparr>)"
| "perform mx Clear s =
     (case clear_step (the_pool s) of (_, ws, p) \<Rightarrow> \<lparr>the_pool = p, commands = wake ws (commands s)\<rparr>)"
| "perform mx Close s =
     (case close_step (the_pool s) of (_, ws, p) \<Rightarrow> \<lparr>the_pool = p, commands = wake ws (commands s)\<rparr>)"

definition new_process :: process where
  "new_process = \<lparr>the_pool = empty_pool, commands = Map.empty\<rparr>"

inductive reachable :: "nat \<Rightarrow> process \<Rightarrow> bool" for mx where
  "reachable mx new_process"
| "reachable mx s \<Longrightarrow> enabled e s \<Longrightarrow> reachable mx (perform mx e s)"

section \<open>The invariant\<close>

fun occupies :: "command \<Rightarrow> bool" where
  "occupies (Opening g) = True"
| "occupies (Holding g c) = True"
| "occupies _ = False"

definition busy :: "(ticket \<rightharpoonup> command) \<Rightarrow> ticket set" where
  "busy m = {t. \<exists>c. m t = Some c \<and> occupies c}"

definition waiting :: "(ticket \<rightharpoonup> command) \<Rightarrow> ticket set" where
  "waiting m = {t. m t = Some Waiting}"

definition held :: "(ticket \<rightharpoonup> command) \<Rightarrow> (ticket \<times> conn) set" where
  "held m = {(t, c). \<exists>g. m t = Some (Holding g c)}"

named_theorems commands_simps \<open>which commands are busy, wait or hold after a change\<close>

lemma busy_upd [commands_simps]: "busy (m(t \<mapsto> c)) = (if occupies c then insert t (busy m) else busy m - {t})"
  by (auto simp: busy_def)

lemma waiting_upd [commands_simps]: "waiting (m(t \<mapsto> c)) = (if c = Waiting then insert t (waiting m) else waiting m - {t})"
  by (auto simp: waiting_def)

lemma busy_wake [commands_simps]: "busy (wake ts m) = busy m - set ts"
  by (auto simp: busy_def wake_def)

lemma waiting_wake [commands_simps]: "waiting (wake ts m) = waiting m - set ts"
  by (auto simp: waiting_def wake_def)

lemma held_upd [commands_simps]:
  "held (m(t \<mapsto> c)) = {(u, d) \<in> held m. u \<noteq> t} \<union> (case c of Holding g d \<Rightarrow> {(t, d)} | _ \<Rightarrow> {})"
  by (auto simp: held_def split: command.splits if_splits)

lemma held_wake [commands_simps]: "held (wake ts m) = {(u, d) \<in> held m. u \<notin> set ts}"
  by (auto simp: held_def wake_def split: if_splits)

lemma dom_wake [commands_simps]: "dom (wake ts m) = dom m \<union> set ts"
  by (auto simp: wake_def)

lemma busy_waiting_disjoint: "busy m \<inter> waiting m = {}"
  by (auto simp: busy_def waiting_def)

lemma held_busy: "(t, c) \<in> held m \<Longrightarrow> t \<in> busy m"
  by (auto simp: held_def busy_def)

lemma busy_in_dom: "busy m \<subseteq> dom m"
  by (auto simp: busy_def)

text \<open>The connections are told apart: none idle twice, none idle and held, none held twice.\<close>

definition apart :: "conn list \<Rightarrow> (ticket \<times> conn) set \<Rightarrow> bool" where
  "apart cs h \<longleftrightarrow> distinct cs \<and> (\<forall>t c. (t, c) \<in> h \<longrightarrow> c \<notin> set cs) \<and>
     (\<forall>t u c. (t, c) \<in> h \<longrightarrow> (u, c) \<in> h \<longrightarrow> t = u)"

definition consistent :: "nat \<Rightarrow> pool \<Rightarrow> (ticket \<rightharpoonup> command) \<Rightarrow> bool" where
  "consistent mx p m \<longleftrightarrow>
     finite (dom m) \<and>
     p_total p = length (idle p) + card (busy m) \<and> p_total p \<le> mx \<and>
     dom (running p) = busy m \<and>
     distinct (waiters p) \<and> set (waiters p) = waiting m \<and>
     (\<forall>b \<in> set (idle p). fst b = generation p) \<and>
     (p_closed p \<longrightarrow> idle p = [] \<and> waiters p = []) \<and>
     apart (map snd (idle p)) (held m)"

lemma finite_busy: "finite (dom m) \<Longrightarrow> finite (busy m)"
  using busy_in_dom finite_subset by blast

lemma wake_one_alive:
  "\<forall>w \<in> set ws. alive w \<Longrightarrow> wake_one alive ws = (case ws of [] \<Rightarrow> (None, []) | w # r \<Rightarrow> (Some w, r))"
  by (cases ws) simp_all

text \<open>Whoever is next in the queue is woken.\<close>

definition next_up :: "ticket list \<Rightarrow> ticket list" where
  "next_up ws = take 1 ws"

lemma woken_next:
  "\<forall>w \<in> set ws. alive w \<Longrightarrow> wake_one alive ws = (w, r) \<Longrightarrow>
    (case w of Some x \<Rightarrow> [x] | None \<Rightarrow> []) = next_up ws \<and> r = tl ws"
  by (cases ws) (auto simp: next_up_def)

lemma queue_split: "distinct ws \<Longrightarrow> set (tl ws) = set ws - set (next_up ws)"
  by (cases ws) (auto simp: next_up_def)

lemma next_up_subset: "set (next_up ws) \<subseteq> set ws"
  by (cases ws) (auto simp: next_up_def)

lemma apart_mono: "apart cs h \<Longrightarrow> k \<subseteq> h \<Longrightarrow> apart cs k"
  unfolding apart_def by blast

lemma consistentI:
  assumes "finite (dom m)" "p_total p = length (idle p) + card (busy m)" "p_total p \<le> mx"
    "dom (running p) = busy m" "distinct (waiters p)" "set (waiters p) = waiting m"
    "\<And>b. b \<in> set (idle p) \<Longrightarrow> fst b = generation p" "p_closed p \<Longrightarrow> idle p = []" "p_closed p \<Longrightarrow> waiters p = []"
    "apart (map snd (idle p)) (held m)"
  shows "consistent mx p m"
  using assms by (simp add: consistent_def)

lemma consistentD:
  assumes "consistent mx p m"
  shows "finite (dom m)" "p_total p = length (idle p) + card (busy m)" "p_total p \<le> mx"
    "dom (running p) = busy m" "distinct (waiters p)" "set (waiters p) = waiting m"
    "\<And>b. b \<in> set (idle p) \<Longrightarrow> fst b = generation p" "p_closed p \<Longrightarrow> idle p = []" "p_closed p \<Longrightarrow> waiters p = []"
    "apart (map snd (idle p)) (held m)" "finite (busy m)" "finite (waiting m)"
proof -
  have "finite (waiting m)" using assms unfolding consistent_def by (metis List.finite_set)
  then show "finite (dom m)" "p_total p = length (idle p) + card (busy m)" "p_total p \<le> mx"
    "dom (running p) = busy m" "distinct (waiters p)" "set (waiters p) = waiting m"
    "\<And>b. b \<in> set (idle p) \<Longrightarrow> fst b = generation p" "p_closed p \<Longrightarrow> idle p = []" "p_closed p \<Longrightarrow> waiters p = []"
    "apart (map snd (idle p)) (held m)" "finite (busy m)" "finite (waiting m)"
    using assms finite_busy unfolding consistent_def by blast+
qed

text \<open>The queue moves on while command \<open>t\<close> ends.\<close>

lemma move_on:
  assumes c: "consistent mx p m" and t: "t \<in> busy m"
  defines "n \<equiv> wake (next_up (waiters p)) (m(t \<mapsto> Over))"
  shows "busy n = busy m - {t}" "set (tl (waiters p)) = waiting n" "held n = {(u, e) \<in> held m. u \<noteq> t}"
    "finite (dom n)" "card (busy m) = Suc (card (busy n))"
proof -
  note d = consistentD [OF c]
  have sub: "set (next_up (waiters p)) \<subseteq> waiting m" using next_up_subset d(6) by blast
  then have dis: "set (next_up (waiters p)) \<inter> busy m = {}" using busy_waiting_disjoint by blast
  show b: "busy n = busy m - {t}" using dis by (auto simp: n_def commands_simps)
  have "waiting n = waiting m - set (next_up (waiters p))"
    using t busy_waiting_disjoint by (auto simp: n_def commands_simps)
  then show "set (tl (waiters p)) = waiting n" using queue_split [OF d(5)] d(6) by simp
  show "held n = {(u, e) \<in> held m. u \<noteq> t}"
    using dis held_busy by (fastforce simp: n_def commands_simps)
  show "finite (dom n)" using d(1) by (simp add: n_def dom_wake)
  show "card (busy m) = Suc (card (busy n))" using card.remove [OF d(11) t] b by simp
qed

lemma consistent_give_up:
  assumes c: "consistent mx p m" and t: "t \<in> busy m"
  shows "consistent mx
    (p\<lparr>running := (running p)(t := None), p_total := p_total p - 1, waiters := tl (waiters p)\<rparr>)
    (wake (next_up (waiters p)) (m(t \<mapsto> Over)))"
proof -
  note d = consistentD [OF c] and n = move_on [OF c t]
  have "apart (map snd (idle p)) {(u, e) \<in> held m. u \<noteq> t}" by (rule apart_mono [OF d(10)]) blast
  then show ?thesis
    by (intro consistentI) (use d n in \<open>simp_all add: distinct_tl\<close>)
qed

lemma consistent_checkin:
  assumes c: "consistent mx p m" and t: "m t = Some (Holding (generation p) d)" and op: "\<not> p_closed p"
  shows "consistent mx
    (p\<lparr>running := (running p)(t := None), idle := idle p @ [(generation p, d)], waiters := tl (waiters p)\<rparr>)
    (wake (next_up (waiters p)) (m(t \<mapsto> Over)))"
proof -
  have tb: "t \<in> busy m" and th: "(t, d) \<in> held m" using t by (auto simp: busy_def held_def)
  note d = consistentD [OF c] and n = move_on [OF c tb]
  have "d \<notin> snd ` set (idle p)" "\<And>u. (u, d) \<in> held m \<Longrightarrow> u = t"
    using d(10) th unfolding apart_def by auto
  moreover have "distinct (map snd (idle p))" "\<And>u e g. (u, e) \<in> held m \<Longrightarrow> (g, e) \<notin> set (idle p)"
    "\<And>u v e. (u, e) \<in> held m \<Longrightarrow> (v, e) \<in> held m \<Longrightarrow> u = v"
    using d(10) unfolding apart_def by force+
  ultimately have "apart (map snd (idle p) @ [d]) {(u, e) \<in> held m. u \<noteq> t}"
    unfolding apart_def by auto
  then show ?thesis
    by (intro consistentI) (use d n op in \<open>auto simp add: distinct_tl\<close>)
qed

lemma consistent_look:
  assumes c: "consistent mx p m" and t: "m t = None \<or> m t = Some Woken"
  shows "case checkout_step mx t p of
      (Refused r g, q) \<Rightarrow> consistent mx q (m(t \<mapsto> Over))
    | (Reuse g d, q) \<Rightarrow> consistent mx q (m(t \<mapsto> Holding g d)) \<and> g = generation p
    | (OpenNew g, q) \<Rightarrow> consistent mx q (m(t \<mapsto> Opening g))
    | (Queued g, q) \<Rightarrow> consistent mx q (m(t \<mapsto> Waiting))"
proof -
  have free: "t \<notin> busy m" "t \<notin> waiting m" "\<And>d. (t, d) \<notin> held m"
    using t by (auto simp: busy_def waiting_def held_def)
  have same: "{(u, e) \<in> held m. u \<noteq> t} = held m" using free(3) by auto
  have fin: "finite (busy m)" using c finite_busy by (simp add: consistent_def)
  consider "p_closed p" | "\<not> p_closed p" "t \<in> cancelled p"
    | "\<not> p_closed p" "t \<notin> cancelled p" "idle p \<noteq> []"
    | "\<not> p_closed p" "t \<notin> cancelled p" "idle p = []" by blast
  then show ?thesis
  proof cases
    case 3
    obtain ini g d where i: "idle p = ini @ [(g, d)]" using 3(3) by (metis prod.collapse rev_exhaust)
    have g: "g = generation p" using c i by (auto simp: consistent_def)
    have "apart (map snd ini) (insert (t, d) (held m))"
      using c i free(3) by (auto simp: consistent_def apart_def)
    then show ?thesis using 3 c free i g fin
      by (auto simp: checkout_step_def consistent_def commands_simps same)
  next
    case 4
    then show ?thesis using c free fin
      by (auto simp: checkout_step_def consistent_def commands_simps same)
  qed (use c free same in \<open>auto simp: checkout_step_def consistent_def commands_simps\<close>)
qed

lemma consistent_wake_all:
  assumes c: "consistent mx p m"
  shows "consistent mx (p\<lparr>generation := g, p_closed := cl, p_total := p_total p - length (idle p), waiters := [], idle := []\<rparr>)
    (wake (waiters p) m)"
proof -
  have dis: "set (waiters p) \<inter> busy m = {}" using c busy_waiting_disjoint by (auto simp: consistent_def)
  then have "busy (wake (waiters p) m) = busy m" by (auto simp: commands_simps)
  moreover have "held (wake (waiters p) m) = held m"
    using dis held_busy by (fastforce simp: commands_simps)
  moreover have "apart [] (held m)" using c by (auto simp: consistent_def apart_def)
  moreover have "finite (waiting m)" using c unfolding consistent_def by (metis List.finite_set)
  ultimately show ?thesis using c by (auto simp: consistent_def commands_simps)
qed

lemma consistent_cancel:
  assumes c: "consistent mx p m" and st: "cancel_step t p = (so, w, q)"
  shows "consistent mx q (wake (case w of Some x \<Rightarrow> [x] | None \<Rightarrow> []) m)"
proof -
  note d = consistentD [OF c]
  have none: "wake [] m = m" by (simp add: wake_def)
  show ?thesis
  proof (cases "running p t")
    case (Some r)
    then have "insert t (busy m) = busy m" using d(4) by auto
    moreover have "q = p\<lparr>running := (running p)(t \<mapsto> r\<lparr>r_cancelled := True\<rparr>)\<rparr>" "w = None"
      using Some st by (simp_all add: cancel_step_def)
    ultimately show ?thesis using none by (intro consistentI) (use d in simp_all)
  next
    case out: None
    show ?thesis
    proof (cases "t \<in> set (waiters p)")
      case True
      then have tw: "t \<in> waiting m" "t \<notin> busy m" using d(6) busy_waiting_disjoint by auto
      have q: "q = p\<lparr>cancelled := insert t (cancelled p), waiters := remove1 t (waiters p)\<rparr>" "w = Some t"
        using st out True by (simp_all add: cancel_step_def)
      have "held (wake [t] m) = held m" using tw held_busy by (fastforce simp: commands_simps)
      moreover have "busy (wake [t] m) = busy m" "waiting (wake [t] m) = waiting m - {t}"
        using tw by (simp_all add: commands_simps)
      moreover have "finite (dom (wake [t] m))" using d(1) by (simp add: dom_wake)
      ultimately show ?thesis unfolding q
        by (intro consistentI) (use d in simp_all)
    next
      case False
      then have "q = p\<lparr>cancelled := insert t (cancelled p)\<rparr>" "w = None" using st out by (simp_all add: cancel_step_def)
      then show ?thesis using none by (intro consistentI) (use d in simp_all)
    qed
  qed
qed

lemma waiters_wait: "consistent mx (the_pool s) (commands s) \<Longrightarrow> \<forall>w \<in> set (waiters (the_pool s)). waits s w"
  by (auto simp: consistent_def waits_def waiting_def)

lemma give_up_wakes:
  assumes "consistent mx (the_pool s) (commands s)"
  shows "\<exists>w. give_up (waits s) t (the_pool s) =
      (w, (the_pool s)\<lparr>running := (running (the_pool s))(t := None), p_total := p_total (the_pool s) - 1,
            waiters := tl (waiters (the_pool s))\<rparr>) \<and>
    (case w of Some x \<Rightarrow> [x] | None \<Rightarrow> []) = next_up (waiters (the_pool s))"
proof -
  obtain w r where "wake_one (waits s) (waiters (the_pool s)) = (w, r)" by fastforce
  with woken_next [OF waiters_wait [OF assms] this] show ?thesis by (simp add: give_up_def)
qed

lemma consistent_finish_open:
  assumes c: "consistent mx (the_pool s) (commands s)" and t: "commands s t = Some (Opening g)"
    and new: "\<And>d. oc = Some d \<Longrightarrow> d \<notin> in_use s"
  shows "consistent mx (the_pool (finish_open t g oc s)) (commands (finish_open t g oc s))"
proof (cases "oc \<noteq> None \<and> \<not> was_cancelled t (the_pool s)")
  case True
  then obtain d where d: "oc = Some d" by blast
  have tb: "t \<in> busy (commands s)" "\<And>d. (t, d) \<notin> held (commands s)" "t \<notin> waiting (commands s)"
    using t by (auto simp: busy_def held_def waiting_def)
  have "d \<notin> snd ` set (idle (the_pool s))" "\<And>u. (u, d) \<notin> held (commands s)"
    using new [OF d] by (auto simp: in_use_def held_def)
  then have "apart (map snd (idle (the_pool s))) (insert (t, d) (held (commands s)))"
    using c tb(2) by (auto simp: consistent_def apart_def)
  moreover have "{(u, e) \<in> held (commands s). u \<noteq> t} = held (commands s)" using tb(2) by auto
  moreover have "insert t (busy (commands s)) = busy (commands s)" using tb(1) by auto
  ultimately show ?thesis using True c tb d
    by (auto simp: finish_open_def opened_step_def consistent_def commands_simps)
next
  case False
  have "t \<in> busy (commands s)" using t by (simp add: busy_def)
  from consistent_give_up [OF c this] give_up_wakes [OF c, of t] False show ?thesis
    by (auto simp: finish_open_def opened_step_def)
qed

lemma consistent_perform:
  assumes c: "consistent mx (the_pool s) (commands s)" and e: "enabled ev s"
  shows "consistent mx (the_pool (perform mx ev s)) (commands (perform mx ev s))"
proof (cases ev)
  case (Start t)
  then show ?thesis using consistent_look [OF c, of t] e
    by (auto simp: look_def split: prod.splits checkout.splits)
next
  case (Resume t)
  then show ?thesis using consistent_look [OF c, of t] e
    by (auto simp: look_def split: prod.splits checkout.splits)
next
  case (Socket t d)
  then show ?thesis using c by (auto simp: consistent_def dom_def split: if_splits)
next
  case (Opened t d)
  then show ?thesis using consistent_finish_open [OF c, of t _ "Some d"] e by auto
next
  case (OpenFailed t)
  then show ?thesis using consistent_finish_open [OF c, of t _ None] e by auto
next
  case (CheckIn t healthy)
  then obtain g d where t: "commands s t = Some (Holding g d)" using e by auto
  have tb: "t \<in> busy (commands s)" using t by (simp add: busy_def)
  obtain w r where wk: "wake_one (waits s) (waiters (the_pool s)) = (w, r)" by fastforce
  note wn = woken_next [OF waiters_wait [OF c] wk]
  show ?thesis
  proof (cases "healthy \<and> \<not> p_closed (the_pool s) \<and> \<not> was_cancelled t (the_pool s) \<and> g = generation (the_pool s)")
    case True
    then show ?thesis using CheckIn t wk wn consistent_checkin [OF c, of t d]
      by (simp add: checkin_step_def)
  next
    case False
    then have "checkin_step (waits s) t d g healthy (the_pool s) =
        (was_cancelled t (the_pool s), give_up (waits s) t (the_pool s))"
      unfolding checkin_step_def by (rule if_not_P)
    then show ?thesis using CheckIn t consistent_give_up [OF c tb] give_up_wakes [OF c, of t] by auto
  qed
next
  case (Cancel t)
  obtain so w q where st: "cancel_step t (the_pool s) = (so, w, q)" by (metis prod.collapse)
  show ?thesis using consistent_cancel [OF c st] by (simp add: Cancel st)
next
  case Clear
  then show ?thesis
    using consistent_wake_all [OF c, where g = "generation (the_pool s) + 1" and cl = "p_closed (the_pool s)"]
    by (simp add: clear_step_def)
next
  case Close
  then show ?thesis
    using consistent_wake_all [OF c, where g = "generation (the_pool s)" and cl = True] by (simp add: close_step_def)
qed

lemma reachable_consistent: "reachable mx s \<Longrightarrow> consistent mx (the_pool s) (commands s)"
proof (induction rule: reachable.induct)
  case 1
  show ?case
    by (simp add: new_process_def empty_pool_def consistent_def busy_def waiting_def held_def apart_def)
qed (rule consistent_perform)

section \<open>Nobody waits while there is room\<close>

text \<open>
  A command that was woken will take a connection, or open one, when it looks again, unless it was
  cancelled while it waited. As long as somebody waits there are at least as many such commands as
  there are places free.
\<close>

definition pending :: "pool \<Rightarrow> (ticket \<rightharpoonup> command) \<Rightarrow> ticket set" where
  "pending p m = {t. m t = Some Woken \<and> t \<notin> cancelled p}"

definition fed :: "nat \<Rightarrow> pool \<Rightarrow> (ticket \<rightharpoonup> command) \<Rightarrow> bool" where
  "fed mx p m \<longleftrightarrow> (\<forall>t \<in> waiting m. t \<notin> cancelled p) \<and>
     (waiters p \<noteq> [] \<longrightarrow> mx \<le> card (busy m) + card (pending p m))"

lemma finite_pending: "finite (dom m) \<Longrightarrow> finite (pending p m)"
  by (rule finite_subset [of _ "dom m"]) (auto simp: pending_def)

lemma fedI: "(\<And>t. t \<in> waiting m \<Longrightarrow> t \<notin> cancelled p) \<Longrightarrow>
    (waiters p \<noteq> [] \<Longrightarrow> mx \<le> card (busy m) + card (pending p m)) \<Longrightarrow> fed mx p m"
  by (simp add: fed_def)

lemma fed_give_up:
  assumes c: "consistent mx p m" and f: "fed mx p m" and t: "t \<in> busy m"
    and q: "waiters q = tl (waiters p)" "cancelled q = cancelled p"
  shows "fed mx q (wake (next_up (waiters p)) (m(t \<mapsto> Over)))"
proof (rule fedI)
  let ?n = "wake (next_up (waiters p)) (m(t \<mapsto> Over))"
  note d = consistentD [OF c] and n = move_on [OF c t]
  show "u \<notin> cancelled q" if "u \<in> waiting ?n" for u
  proof -
    have "u \<in> set (waiters p)" using that n(2) by (metis list.set_sel(2) list.set_cases tl_Nil empty_iff list.set(1))
    then show ?thesis using f d(6) q(2) by (simp add: fed_def)
  qed
  assume "waiters q \<noteq> []"
  then obtain w ws where w: "waiters p = w # ws" using q(1) by (cases "waiters p") auto
  have ww: "w \<in> waiting m" using d(6) w by auto
  then have "w \<notin> cancelled p" "w \<noteq> t" using f t busy_waiting_disjoint by (auto simp: fed_def)
  then have p: "pending q ?n = insert w (pending p m)"
    using t by (auto simp: pending_def wake_def next_up_def w q(2) busy_def)
  have "w \<notin> pending p m" using ww by (simp add: pending_def waiting_def)
  then have "card (pending q ?n) = Suc (card (pending p m))" using p finite_pending [OF d(1)] by simp
  moreover have "mx \<le> card (busy m) + card (pending p m)" using f w by (simp add: fed_def)
  ultimately show "mx \<le> card (busy ?n) + card (pending q ?n)" using n(5) by simp
qed

lemma fed_take:
  assumes c: "consistent mx p m" and f: "fed mx p m" and t: "m t = None \<or> m t = Some Woken"
    and b: "occupies k" and q: "waiters q = waiters p" "cancelled q = cancelled p"
  shows "fed mx q (m(t \<mapsto> k))"
proof (rule fedI)
  note d = consistentD [OF c]
  have tb: "t \<notin> busy m" using t by (auto simp: busy_def)
  have k: "k \<noteq> Waiting" "k \<noteq> Woken" using b by auto
  show "u \<notin> cancelled q" if "u \<in> waiting (m(t \<mapsto> k))" for u
    using that f q k by (auto simp: fed_def commands_simps)
  assume "waiters q \<noteq> []"
  then have "mx \<le> card (busy m) + card (pending p m)" using f q by (simp add: fed_def)
  moreover have "pending q (m(t \<mapsto> k)) = pending p m - {t}" using k q by (auto simp: pending_def)
  moreover have "card (busy (m(t \<mapsto> k))) = Suc (card (busy m))" using b tb d(11) by (simp add: commands_simps)
  moreover have "card (pending p m) - 1 \<le> card (pending p m - {t})"
    by (simp add: card_Diff_singleton_if)
  ultimately show "mx \<le> card (busy (m(t \<mapsto> k))) + card (pending q (m(t \<mapsto> k)))" by simp
qed

lemma fed_look:
  assumes c: "consistent mx p m" and f: "fed mx p m" and t: "m t = None \<or> m t = Some Woken"
  shows "case checkout_step mx t p of
      (Refused r g, q) \<Rightarrow> fed mx q (m(t \<mapsto> Over))
    | (Reuse g d, q) \<Rightarrow> fed mx q (m(t \<mapsto> Holding g d))
    | (OpenNew g, q) \<Rightarrow> fed mx q (m(t \<mapsto> Opening g))
    | (Queued g, q) \<Rightarrow> fed mx q (m(t \<mapsto> Waiting))"
proof -
  note d = consistentD [OF c]
  have tf: "t \<notin> busy m" "t \<notin> waiting m" using t by (auto simp: busy_def waiting_def)
  consider "p_closed p" | "\<not> p_closed p" "t \<in> cancelled p"
    | "\<not> p_closed p" "t \<notin> cancelled p" "idle p \<noteq> [] \<or> p_total p < mx"
    | "\<not> p_closed p" "t \<notin> cancelled p" "idle p = []" "\<not> p_total p < mx" by blast
  then show ?thesis
  proof cases
    case 1
    then have "waiters p = []" "waiting m = {}" using d(6,9) by auto
    then show ?thesis using 1 by (simp add: checkout_step_def fed_def commands_simps)
  next
    case 2
    have "pending (p\<lparr>cancelled := cancelled p - {t}\<rparr>) (m(t \<mapsto> Over)) = pending p m"
      using 2 by (auto simp: pending_def)
    then show ?thesis using 2 f tf by (simp add: checkout_step_def fed_def commands_simps)
  next
    case 3
    have "fed mx (p\<lparr>idle := i, running := r\<rparr>) (m(t \<mapsto> Holding g c'))"
      "fed mx (p\<lparr>p_total := n, running := r\<rparr>) (m(t \<mapsto> Opening g))" for i r g c' n
      using fed_take [OF c f t] by simp_all
    then show ?thesis using 3 by (auto simp: checkout_step_def split: prod.split)
  next
    case 4
    then have "mx \<le> card (busy m)" using d(2,3) by simp
    moreover have "pending (p\<lparr>waiters := ws\<rparr>) (m(t \<mapsto> Waiting)) = pending p m - {t}" for ws
      by (auto simp: pending_def)
    ultimately show ?thesis using 4 f tf
      by (auto simp: checkout_step_def fed_def commands_simps)
  qed
qed

lemma fed_finish_open:
  assumes c: "consistent mx (the_pool s) (commands s)" and f: "fed mx (the_pool s) (commands s)"
    and t: "commands s t = Some (Opening g)"
  shows "fed mx (the_pool (finish_open t g oc s)) (commands (finish_open t g oc s))"
proof (cases "oc \<noteq> None \<and> \<not> was_cancelled t (the_pool s)")
  case True
  have "busy ((commands s)(t \<mapsto> Holding g d)) = busy (commands s)"
    "waiting ((commands s)(t \<mapsto> Holding g d)) = waiting (commands s)"
    "pending p ((commands s)(t \<mapsto> Holding g d)) = pending p (commands s)" for d p
    using t by (auto simp: commands_simps busy_def waiting_def pending_def)
  then show ?thesis using True f by (auto simp: finish_open_def opened_step_def fed_def)
next
  case False
  have "t \<in> busy (commands s)" using t by (simp add: busy_def)
  from fed_give_up [OF c f this] give_up_wakes [OF c, of t] False show ?thesis
    by (auto simp: finish_open_def opened_step_def)
qed

lemma fed_cancel:
  assumes c: "consistent mx p m" and f: "fed mx p m" and w: "m t \<noteq> Some Woken"
    and st: "cancel_step t p = (so, w, q)"
  shows "fed mx q (wake (case w of Some x \<Rightarrow> [x] | None \<Rightarrow> []) m)"
proof -
  note d = consistentD [OF c]
  have none: "wake [] m = m" by (simp add: wake_def)
  show ?thesis
  proof (cases "running p t")
    case (Some r)
    then have "q = p\<lparr>running := (running p)(t \<mapsto> r\<lparr>r_cancelled := True\<rparr>)\<rparr>" "w = None"
      using st by (simp_all add: cancel_step_def)
    then show ?thesis using f none by (simp add: fed_def pending_def)
  next
    case out: None
    show ?thesis
    proof (cases "t \<in> set (waiters p)")
      case True
      then have tw: "t \<in> waiting m" "t \<notin> busy m" using d(6) busy_waiting_disjoint by auto
      have q: "q = p\<lparr>cancelled := insert t (cancelled p), waiters := remove1 t (waiters p)\<rparr>" "w = Some t"
        using st out True by (simp_all add: cancel_step_def)
      have "pending q (wake [t] m) = pending p m"
        using tw by (auto simp: pending_def wake_def q waiting_def)
      moreover have "busy (wake [t] m) = busy m" "waiting (wake [t] m) = waiting m - {t}"
        using tw by (simp_all add: commands_simps)
      moreover have "waiters p \<noteq> []" using True by auto
      ultimately show ?thesis using f by (simp add: fed_def q)
    next
      case False
      then have q: "q = p\<lparr>cancelled := insert t (cancelled p)\<rparr>" "w = None" using st out by (simp_all add: cancel_step_def)
      have "pending q m = pending p m" using w by (auto simp: pending_def q)
      moreover have "t \<notin> waiting m" using False d(6) by simp
      ultimately show ?thesis using f none by (auto simp: fed_def q)
    qed
  qed
qed

lemma fed_wake_all: "consistent mx p m \<Longrightarrow> waiters q = [] \<Longrightarrow> fed mx q (wake (waiters p) m)"
  by (simp add: fed_def commands_simps consistentD(6))

lemma fed_perform:
  assumes c: "consistent mx (the_pool s) (commands s)" and f: "fed mx (the_pool s) (commands s)"
    and e: "enabled ev s" and w: "\<And>t. ev = Cancel t \<Longrightarrow> commands s t \<noteq> Some Woken"
  shows "fed mx (the_pool (perform mx ev s)) (commands (perform mx ev s))"
proof (cases ev)
  case (Start t)
  then show ?thesis using fed_look [OF c f, of t] e by (auto simp: look_def split: prod.splits checkout.splits)
next
  case (Resume t)
  then show ?thesis using fed_look [OF c f, of t] e by (auto simp: look_def split: prod.splits checkout.splits)
next
  case (Socket t d)
  then show ?thesis using f by (simp add: fed_def pending_def)
next
  case (Opened t d)
  then show ?thesis using fed_finish_open [OF c f, of t _ "Some d"] e by auto
next
  case (OpenFailed t)
  then show ?thesis using fed_finish_open [OF c f, of t _ None] e by auto
next
  case (CheckIn t healthy)
  then obtain g d where t: "commands s t = Some (Holding g d)" using e by auto
  have tb: "t \<in> busy (commands s)" using t by (simp add: busy_def)
  obtain v r where wk: "wake_one (waits s) (waiters (the_pool s)) = (v, r)" by fastforce
  note wn = woken_next [OF waiters_wait [OF c] wk]
  show ?thesis
  proof (cases "healthy \<and> \<not> p_closed (the_pool s) \<and> \<not> was_cancelled t (the_pool s) \<and> g = generation (the_pool s)")
    case True
    then show ?thesis using CheckIn t wk wn fed_give_up [OF c f tb] by (simp add: checkin_step_def)
  next
    case False
    then have "checkin_step (waits s) t d g healthy (the_pool s) =
        (was_cancelled t (the_pool s), give_up (waits s) t (the_pool s))"
      unfolding checkin_step_def by (rule if_not_P)
    then show ?thesis using CheckIn t fed_give_up [OF c f tb] give_up_wakes [OF c, of t] by auto
  qed
next
  case (Cancel t)
  obtain so v q where st: "cancel_step t (the_pool s) = (so, v, q)" by (metis prod.collapse)
  show ?thesis using fed_cancel [OF c f w [OF Cancel] st] by (simp add: Cancel st)
next
  case Clear
  then show ?thesis using fed_wake_all [OF c] by (simp add: clear_step_def)
next
  case Close
  then show ?thesis using fed_wake_all [OF c] by (simp add: close_step_def)
qed

text \<open>Runs in which no command is cancelled between being woken and looking again.\<close>

inductive undisturbed :: "nat \<Rightarrow> process \<Rightarrow> bool" for mx where
  "undisturbed mx new_process"
| "undisturbed mx s \<Longrightarrow> enabled e s \<Longrightarrow> (\<And>t. e = Cancel t \<Longrightarrow> commands s t \<noteq> Some Woken) \<Longrightarrow>
    undisturbed mx (perform mx e s)"

lemma undisturbed_reachable: "undisturbed mx s \<Longrightarrow> reachable mx s"
  by (induction rule: undisturbed.induct) (auto intro: reachable.intros)

lemma undisturbed_fed: "undisturbed mx s \<Longrightarrow> fed mx (the_pool s) (commands s)"
proof (induction rule: undisturbed.induct)
  case 1
  show ?case by (simp add: new_process_def empty_pool_def fed_def waiting_def)
next
  case (2 s e)
  show ?case
    by (rule fed_perform [OF reachable_consistent [OF undisturbed_reachable [OF 2(1)]] 2(4,2,3)])
qed

section \<open>Properties\<close>

text \<open>
  C17: the pool keeps its bounds. In every run of commands against a pool the connections open are
  those idle and those in use, and never more than the most allowed; no connection serves two
  commands or is idle while it serves one; idle connections are all of the current generation, so
  a command that reuses one gets none from before a clear; a closed pool keeps nothing.
\<close>

theorem pool_bounds:
  assumes "reachable mx s"
  shows "p_total (the_pool s) = length (idle (the_pool s)) + card (busy (commands s)) \<and>
    p_total (the_pool s) \<le> mx \<and>
    (\<forall>t u g h c. commands s t = Some (Holding g c) \<longrightarrow> commands s u = Some (Holding h c) \<longrightarrow> t = u) \<and>
    (\<forall>t g c. commands s t = Some (Holding g c) \<longrightarrow> c \<notin> snd ` set (idle (the_pool s))) \<and>
    (\<forall>t g c p. checkout_step mx t (the_pool s) = (Reuse g c, p) \<longrightarrow> g = generation (the_pool s)) \<and>
    (p_closed (the_pool s) \<longrightarrow> idle (the_pool s) = [] \<and> waiters (the_pool s) = [])"
proof -
  note d = consistentD [OF reachable_consistent [OF assms]]
  have "t = u" if "commands s t = Some (Holding g c)" "commands s u = Some (Holding h c)" for t u g h c
    using d(10) that unfolding apart_def held_def by blast
  moreover have "c \<notin> snd ` set (idle (the_pool s))" if "commands s t = Some (Holding g c)" for t g c
  proof -
    have "(t, c) \<in> held (commands s)" using that by (auto simp: held_def)
    then show ?thesis using d(10) unfolding apart_def by force
  qed
  moreover have "g = generation (the_pool s)" if "checkout_step mx t (the_pool s) = (Reuse g c, p)" for t g c p
  proof -
    have "(g, c) \<in> set (idle (the_pool s))"
      using that by (auto simp: checkout_step_def Let_def split: if_splits prod.splits) (metis last_in_set)
    from d(7) [OF this] show ?thesis by simp
  qed
  ultimately show ?thesis using d(2,3,8,9) by blast
qed

theorem pool_bounds_witness:
  "\<exists>s. reachable 1 s \<and> p_total (the_pool s) = 1 \<and> busy (commands s) = {7}"
proof -
  let ?s = "perform 1 (Start 7) new_process"
  have r: "reachable 1 ?s"
    by (rule reachable.intros(2) [OF reachable.intros(1)]) (simp add: new_process_def)
  have "busy (commands ?s) = {7}"
    by (auto simp: look_def checkout_step_def new_process_def empty_pool_def busy_def)
  moreover have "idle (the_pool ?s) = []"
    by (simp add: look_def checkout_step_def new_process_def empty_pool_def)
  ultimately show ?thesis using pool_bounds [OF r] r by (intro exI [of _ ?s]) simp
qed

text \<open>
  C18: nobody waits while there is room, as long as no command is cancelled between being woken
  and looking again: when a command is in the queue, either every place is taken by a command at
  work, or a command that was woken is about to take one.
\<close>

theorem no_lost_wakeups:
  assumes "undisturbed mx s" "commands s t = Some Waiting"
  shows "card (busy (commands s)) = mx \<or> (\<exists>u. commands s u = Some Woken \<and> u \<notin> cancelled (the_pool s))"
proof -
  note d = consistentD [OF reachable_consistent [OF undisturbed_reachable [OF assms(1)]]]
  have "t \<in> set (waiters (the_pool s))" using assms(2) d(6) by (simp add: waiting_def)
  then have "mx \<le> card (busy (commands s)) + card (pending (the_pool s) (commands s))"
    using undisturbed_fed [OF assms(1)] by (auto simp: fed_def)
  moreover have "card (busy (commands s)) \<le> mx" using d(2,3) by simp
  moreover have "card (pending (the_pool s) (commands s)) = 0"
    if "\<not> (\<exists>u. commands s u = Some Woken \<and> u \<notin> cancelled (the_pool s))"
  proof -
    have "pending (the_pool s) (commands s) = {}" using that by (auto simp: pending_def)
    then show ?thesis by simp
  qed
  ultimately show ?thesis by (cases "\<exists>u. commands s u = Some Woken \<and> u \<notin> cancelled (the_pool s)") auto
qed

theorem no_lost_wakeups_witness:
  "\<exists>s. undisturbed 1 s \<and> commands s 2 = Some Waiting \<and> card (busy (commands s)) = 1"
proof -
  let ?a = "perform 1 (Start 1) new_process" and ?b = "perform 1 (Start 2) (perform 1 (Start 1) new_process)"
  have a: "?a = \<lparr>the_pool = empty_pool\<lparr>p_total := 1, running := [1 \<mapsto> \<lparr>r_socket = None, r_cancelled = False\<rparr>]\<rparr>,
      commands = [1 \<mapsto> Opening 0]\<rparr>"
    by (simp add: new_process_def empty_pool_def look_def checkout_step_def)
  have "undisturbed 1 ?a" by (rule undisturbed.intros(2) [OF undisturbed.intros(1)]) (simp_all add: new_process_def)
  then have u: "undisturbed 1 ?b" by (rule undisturbed.intros(2)) (simp_all only: a, simp_all)
  have b: "commands ?b = [1 \<mapsto> Opening 0, 2 \<mapsto> Waiting]"
    unfolding a by (simp add: empty_pool_def look_def checkout_step_def)
  have "commands ?b 2 = Some Waiting" "\<And>u. commands ?b u \<noteq> Some Woken" unfolding b by simp_all
  with no_lost_wakeups [OF u] u show ?thesis by blast
qed

text \<open>
  C19: a cancel can lose a wake-up. With one connection, a command that was just woken for it and is
  cancelled before it looks again leaves without telling the next: the connection lies idle, another
  command waits for it, and no command is left whose progress could wake it.
\<close>

theorem cancel_loses_wakeup:
  "\<exists>s. reachable 1 s \<and> idle (the_pool s) \<noteq> [] \<and> commands s 3 = Some Waiting \<and>
     busy (commands s) = {} \<and> {u. commands s u = Some Woken} = {}"
proof -
  have wake_nothing: "wake [] m = m" for m by (simp add: wake_def)
  note eval = new_process_def empty_pool_def look_def checkout_step_def finish_open_def opened_step_def
    was_cancelled_def checkin_step_def cancel_step_def waits_def
  define s1 where "s1 = perform 1 (Start 1) new_process"
  define s2 where "s2 = perform 1 (Opened 1 70) s1"
  define s3 where "s3 = perform 1 (Start 2) s2"
  define s4 where "s4 = perform 1 (Start 3) s3"
  define s5 where "s5 = perform 1 (CheckIn 1 True) s4"
  define s6 where "s6 = perform 1 (Cancel 2) s5"
  define s7 where "s7 = perform 1 (Resume 2) s6"
  have 1: "s1 = \<lparr>the_pool = empty_pool\<lparr>p_total := 1, running := [1 \<mapsto> \<lparr>r_socket = None, r_cancelled = False\<rparr>]\<rparr>,
      commands = [1 \<mapsto> Opening 0]\<rparr>"
    by (simp add: s1_def eval)
  have 2: "s2 = \<lparr>the_pool = the_pool s1, commands = [1 \<mapsto> Holding 0 70]\<rparr>"
    by (simp add: s2_def 1 eval)
  have 3: "s3 = \<lparr>the_pool = (the_pool s1)\<lparr>waiters := [2]\<rparr>, commands = [1 \<mapsto> Holding 0 70, 2 \<mapsto> Waiting]\<rparr>"
    by (simp add: s3_def 2 1 eval)
  have 4: "s4 = \<lparr>the_pool = (the_pool s1)\<lparr>waiters := [2, 3]\<rparr>,
      commands = [1 \<mapsto> Holding 0 70, 2 \<mapsto> Waiting, 3 \<mapsto> Waiting]\<rparr>"
    by (simp add: s4_def 3 1 eval)
  have 5: "s5 = \<lparr>the_pool = empty_pool\<lparr>p_total := 1, idle := [(0, 70)], waiters := [3]\<rparr>,
      commands = [1 \<mapsto> Over, 2 \<mapsto> Woken, 3 \<mapsto> Waiting]\<rparr>"
    by (simp add: s5_def 4 1 eval wake_def) (rule ext, case_tac "t = 3"; simp)
  have 6: "s6 = \<lparr>the_pool = (the_pool s5)\<lparr>cancelled := {2}\<rparr>, commands = commands s5\<rparr>"
    by (simp add: s6_def 5 eval wake_nothing)
  have 7: "s7 = \<lparr>the_pool = the_pool s5, commands = [1 \<mapsto> Over, 2 \<mapsto> Over, 3 \<mapsto> Waiting]\<rparr>"
    by (simp add: s7_def 6 5 eval fun_eq_iff)
  have "reachable 1 s1" unfolding s1_def by (intro reachable.intros) (simp add: new_process_def)
  then have "reachable 1 s2" unfolding s2_def by (rule reachable.intros) (simp add: 1 in_use_def empty_pool_def)
  then have "reachable 1 s3" unfolding s3_def by (rule reachable.intros) (simp add: 2)
  then have "reachable 1 s4" unfolding s4_def by (rule reachable.intros) (simp add: 3)
  then have "reachable 1 s5" unfolding s5_def by (rule reachable.intros) (simp add: 4)
  then have "reachable 1 s6" unfolding s6_def by (rule reachable.intros) simp
  then have "reachable 1 s7" unfolding s7_def by (rule reachable.intros) (simp add: 6 5)
  moreover have "idle (the_pool s7) \<noteq> []" "commands s7 3 = Some Waiting"
    by (simp_all add: 7 5)
  moreover have "busy (commands s7) = {}" "{u. commands s7 u = Some Woken} = {}"
    by (auto simp: 7 busy_def split: if_splits)
  ultimately show ?thesis by blast
qed

end
