(* ===== verification/Topology.thy ===== *)
theory Topology
  imports Select Pool
begin

text \<open>
  A client's view of a MongoDB deployment (\<open>crates/runtime/src/mongodb/topology.rs\<close>): the
  description kept by monitoring together with a pool per server, and how the outcome of a check or
  of a command changes both. Each piece of code that holds the state's lock is a step. Sockets,
  monitoring connections and what closing them does are the provider's.
\<close>

section \<open>The client's state\<close>

record limits =
  max_bson :: int
  max_message :: int
  max_write_batch :: int

record client =
  description :: topology
  pools :: "utf8 \<rightharpoonup> pool"
  operations :: "utf8 \<rightharpoonup> nat"
  ran_on :: "ticket \<rightharpoonup> utf8"
  c_cancelled :: "ticket set"
  c_limits :: limits
  random :: u64
  c_closed :: bool

definition default_limits :: limits where
  "default_limits = \<lparr>max_bson = 16 * 1024 * 1024, max_message = 48000000, max_write_batch = 100000\<rparr>"

definition new_client :: "utf8 list \<Rightarrow> bool \<Rightarrow> utf8 option \<Rightarrow> u64 \<Rightarrow> client" where
  "new_client hosts direct set_name seed =
     \<lparr>description = new_topology hosts direct set_name, pools = Map.empty, operations = Map.empty,
      ran_on = Map.empty, c_cancelled = {}, c_limits = default_limits, random = or seed 1, c_closed = False\<rparr>"

definition hello_limit :: "u8 list \<Rightarrow> utf8 \<Rightarrow> int \<Rightarrow> int" where
  "hello_limit hello name otherwise =
     (case get hello name of
        Inr (Some (Int32 n)) \<Rightarrow> sint n
      | Inr (Some (Int64 n)) \<Rightarrow> sint n
      | _ \<Rightarrow> otherwise)"

definition read_limits :: "u8 list \<Rightarrow> limits \<Rightarrow> limits" where
  "read_limits hello current =
     \<lparr>max_bson = hello_limit hello (bytes_of ''maxBsonObjectSize'') (max_bson current),
      max_message = hello_limit hello (bytes_of ''maxMessageSizeBytes'') (max_message current),
      max_write_batch = hello_limit hello (bytes_of ''maxWriteBatchSize'') (max_write_batch current)\<rparr>"

section \<open>Acting on what monitoring decided\<close>

definition clear_pool :: "pool \<Rightarrow> pool" where
  "clear_pool p = snd (snd (clear_step p))"

text \<open>Removed servers lose their pools (which close); cleared pools start a new generation.\<close>

definition apply_effects :: "effects \<Rightarrow> client \<Rightarrow> client" where
  "apply_effects e c =
     c\<lparr>pools := (\<lambda>a. if a \<in> set (e_removed e) then None
                      else if a \<in> set (e_clear e) then map_option clear_pool (pools c a)
                      else pools c a)\<rparr>"

text \<open>
  A check that ends: the reply's description and limits, or the failure, after which the server's
  generation moves on and its pool, if it has one, is cleared.
\<close>

definition malformed_hello :: utf8 where
  "malformed_hello = bytes_of ''the server's hello is malformed''"

definition check_answered :: "float_ops \<Rightarrow> utf8 \<Rightarrow> u8 list \<Rightarrow> f64 \<Rightarrow> int \<Rightarrow> client \<Rightarrow> client" where
  "check_answered ops a hello rtt now c =
     (let (d, lim) =
            (case new_document hello of
               Inr doc \<Rightarrow>
                 (let d = from_hello a doc (Some rtt) now
                  in (d, if data_bearing (s_kind d) then read_limits doc (c_limits c) else c_limits c))
             | Inl e \<Rightarrow> (failed a malformed_hello None, c_limits c));
          (t, e) = update ops d (description c)
      in apply_effects e (c\<lparr>description := t, c_limits := lim\<rparr>))"

definition check_failed :: "float_ops \<Rightarrow> utf8 \<Rightarrow> utf8 \<Rightarrow> client \<Rightarrow> client" where
  "check_failed ops a message c =
     (let (t, e) = update ops (failed a message None) (description c)
      in apply_effects e
           (c\<lparr>description := next_generation a t, pools := (pools c)(a := map_option clear_pool (pools c a))\<rparr>))"

section \<open>Running a command\<close>

record selector =
  preference :: read_preference
  operation :: operation
  at_server :: "utf8 option"

datatype run_failure =
  ClientClosed
| RunCancelled
| Incompatible compatibility_error
| CursorServerGone utf8
| NoServer
| Unusable preference_error

definition choose_server :: "float_ops \<Rightarrow> selector \<Rightarrow> int \<Rightarrow> f64 \<Rightarrow> client \<Rightarrow> ((run_failure + utf8) \<times> client) option" where
  "choose_server ops sel heartbeat threshold c =
     (case at_server sel of
        Some a \<Rightarrow> Some ((if map_of (servers (description c)) a = None then Inl (CursorServerGone a) else Inr a), c)
      | None \<Rightarrow>
          map_option (\<lambda>(s, r).
              ((case s of Selected a \<Rightarrow> Inr a | BadPreference e \<Rightarrow> Inl (Unusable e) | NoneSuitable \<Rightarrow> Inl NoServer),
               c\<lparr>random := r\<rparr>))
            (select ops (description c) (preference sel) (operation sel) heartbeat threshold
               (\<lambda>a. case operations c a of Some n \<Rightarrow> n | None \<Rightarrow> 0) (random c)))"

text \<open>The start of a command: the server it goes to, whose pool is made when there is none.\<close>

definition run_start ::
    "float_ops \<Rightarrow> selector \<Rightarrow> int \<Rightarrow> f64 \<Rightarrow> ticket \<Rightarrow> client \<Rightarrow> ((run_failure + utf8) \<times> client) option" where
  "run_start ops sel heartbeat threshold t c =
     (if c_closed c then Some (Inl ClientClosed, c)
      else if t \<in> c_cancelled c then Some (Inl RunCancelled, c\<lparr>c_cancelled := c_cancelled c - {t}\<rparr>)
      else
        (case compatibility (description c) of
           Some e \<Rightarrow> Some (Inl (Incompatible e), c)
         | None \<Rightarrow>
             map_option (\<lambda>(r, c).
                 case r of
                   Inl e \<Rightarrow> (Inl e, c)
                 | Inr a \<Rightarrow>
                     (Inr a,
                      c\<lparr>operations := (operations c)(a \<mapsto> (case operations c a of Some n \<Rightarrow> n | None \<Rightarrow> 0) + 1),
                        ran_on := (ran_on c)(t \<mapsto> a),
                        pools := (pools c)(a \<mapsto> (case pools c a of Some p \<Rightarrow> p | None \<Rightarrow> empty_pool))\<rparr>))
               (choose_server ops sel heartbeat threshold c)))"

text \<open>How a command failed, with what the pool knows of the connection.\<close>

datatype failure =
  ServerError utf8
| Lost utf8
| Auth utf8
| Unsupported
| FClosed
| FCancelled
| Selection
| RefusedByProvider

record pool_failure =
  f_failure :: failure
  f_generation :: nat
  f_handshake :: bool

definition reply_ok :: "u8 list \<Rightarrow> bool" where
  "reply_ok doc \<longleftrightarrow>
     (case get doc (bytes_of ''ok'') of
        Inr (Some (Double n)) \<Rightarrow> n = f64_one
      | Inr (Some (Int32 n)) \<Rightarrow> n = 1
      | _ \<Rightarrow> False)"

definition reply_error :: "u8 list \<Rightarrow> nat \<Rightarrow> app_error option" where
  "reply_error reply current =
     (case new_document reply of
        Inl _ \<Rightarrow> None
      | Inr doc \<Rightarrow>
          map_option (\<lambda>source.
              \<lparr>a_generation = current, completed_handshake = True,
               a_kind = Command
                 (case get source (bytes_of ''code'') of Inr (Some (Int32 n)) \<Rightarrow> Some (sint n) | _ \<Rightarrow> None)
                 (case get source (bytes_of ''errmsg'') of Inr (Some (String m)) \<Rightarrow> m | _ \<Rightarrow> [])
                 (read_topology_version doc)\<rparr>)
            (if reply_ok doc
             then (case get doc (bytes_of ''writeConcernError'') of Inr (Some (Document w)) \<Rightarrow> Some w | _ \<Rightarrow> None)
             else Some doc))"

definition app_error_of :: "pool_failure + u8 list \<Rightarrow> nat \<Rightarrow> app_error option" where
  "app_error_of result current =
     (case result of
        Inr reply \<Rightarrow> reply_error reply current
      | Inl f \<Rightarrow>
          map_option (\<lambda>k. \<lparr>a_generation = f_generation f, completed_handshake = f_handshake f, a_kind = k\<rparr>)
            (case f_failure f of
               Lost m \<Rightarrow> Some (Network m)
             | FCancelled \<Rightarrow> Some Timeout
             | Auth m \<Rightarrow> if \<not> f_handshake f then Some (Command None m None) else None
             | ServerError m \<Rightarrow> if \<not> f_handshake f then Some (Command None m None) else None
             | _ \<Rightarrow> None))"

text \<open>The pool a command holds on to outlives its removal; its generation is then the argument.\<close>

definition run_end :: "float_ops \<Rightarrow> utf8 \<Rightarrow> ticket \<Rightarrow> pool_failure + u8 list \<Rightarrow> nat \<Rightarrow> client \<Rightarrow> client" where
  "run_end ops a t result current c =
     (let c = c\<lparr>operations := (operations c)(a := map_option (\<lambda>n. n - 1) (operations c a)), ran_on := (ran_on c)(t := None)\<rparr>
      in case app_error_of result current of
           None \<Rightarrow> c
         | Some err \<Rightarrow>
             (let (d, e) = application_error ops a err (description c)
              in apply_effects e (c\<lparr>description := d\<rparr>)))"

text \<open>A cancel of a command: its pool is told, or it is remembered.\<close>

definition client_cancel :: "ticket \<Rightarrow> client \<Rightarrow> conn option \<times> client" where
  "client_cancel t c =
     (case Option.bind (ran_on c t) (\<lambda>a. map_option (\<lambda>p. (a, p)) (pools c a)) of
        Some (a, p) \<Rightarrow> (case cancel_step t p of (s, _, q) \<Rightarrow> (s, c\<lparr>pools := (pools c)(a \<mapsto> q)\<rparr>))
      | None \<Rightarrow> (None, c\<lparr>c_cancelled := insert t (c_cancelled c)\<rparr>))"

section \<open>The read preference sent with a read\<close>

definition sent_mode :: "mode \<Rightarrow> server_type \<Rightarrow> topology_type \<Rightarrow> mode option" where
  "sent_mode m s t =
     (if (s = S_Mongos \<or> t = T_ReplicaSetNoPrimary \<or> t = T_ReplicaSetWithPrimary) \<and> m = Primary then None
      else if t = T_Single \<and> s \<noteq> S_Mongos \<and> m = Primary then Some PrimaryPreferred
      else Some m)"

fun write_tags :: "(utf8 \<times> utf8) list \<Rightarrow> writer \<Rightarrow> write_error + writer" where
  "write_tags [] w = Inr w"
| "write_tags ((k, v) # tags) w = res_bind (key 0x02 k w) (\<lambda>w. res_bind (w_string v w) (write_tags tags))"

fun write_tag_sets :: "nat \<Rightarrow> (utf8 \<times> utf8) list list \<Rightarrow> writer \<Rightarrow> write_error + writer" where
  "write_tag_sets i [] w = Inr w"
| "write_tag_sets i (tags # rest) w =
     res_bind (start_document (index_key 0x03 i w)) (\<lambda>w.
     res_bind (write_tags tags w) (\<lambda>w.
     res_bind (end_document w) (write_tag_sets (i + 1) rest)))"

definition preference_document :: "mode \<Rightarrow> read_preference \<Rightarrow> write_error + u8 list" where
  "preference_document m pref =
     res_bind (start_document new_writer) (\<lambda>w.
     res_bind (key 0x02 (bytes_of ''mode'') w) (\<lambda>w.
     res_bind (w_string (mode_name m) w) (\<lambda>w.
     res_bind
       (if tag_sets pref \<noteq> [] \<and> pref_mode pref \<noteq> Primary then
          res_bind (key 0x04 (bytes_of ''tags'') w) (\<lambda>w.
          res_bind (start_document w) (\<lambda>w.
          res_bind (write_tag_sets 0 (tag_sets pref) w) end_document))
        else Inr w) (\<lambda>w.
     res_bind
       (case positive (max_staleness pref) of
          Some s \<Rightarrow> map_sum id (w_int64 (word_of_int s)) (key 0x12 (bytes_of ''maxStalenessSeconds'') w)
        | None \<Rightarrow> Inr w) (\<lambda>w.
     res_bind (end_document w) finish)))))"

definition put_length :: "u8 list \<Rightarrow> u8 list" where
  "put_length bs = le32 (case i32_of_len (length bs) of Some n \<Rightarrow> n | None \<Rightarrow> 0x7FFFFFFF) @ drop 4 bs"

definition append_element :: "u8 list \<Rightarrow> utf8 \<Rightarrow> u8 list \<Rightarrow> u8 list" where
  "append_element body name document = put_length (butlast body @ [0x03] @ name @ [0] @ document @ [0])"

definition with_read_preference ::
    "u8 list \<Rightarrow> selector \<Rightarrow> server_type \<Rightarrow> topology_type \<Rightarrow> write_error + u8 list" where
  "with_read_preference body sel s t =
     (if operation sel = Write \<or> s = S_Standalone then Inr body
      else
        (case sent_mode (pref_mode (preference sel)) s t of
           None \<Rightarrow> Inr body
         | Some m \<Rightarrow> map_sum id (append_element body (bytes_of ''$readPreference'')) (preference_document m (preference sel))))"

section \<open>Pool generations through an update\<close>

text \<open>The description's generation of a server moves only when the server is removed.\<close>

definition gens_kept :: "topology \<Rightarrow> step \<Rightarrow> bool" where
  "gens_kept t0 st \<longleftrightarrow>
     (\<forall>a. a \<notin> set (e_removed (snd st)) \<longrightarrow> generation_of (fst st) a = generation_of t0 a)"

lemma gens_same:
  "gens_kept t0 (t, e) \<Longrightarrow> generations u = generations t \<Longrightarrow> e_removed f = e_removed e \<Longrightarrow> gens_kept t0 (u, f)"
  by (simp add: gens_kept_def generation_of_def)

lemma gens_remove: "gens_kept t0 st \<Longrightarrow> gens_kept t0 (remove_server a st)"
  by (cases st) (auto simp: gens_kept_def remove_server_def generation_of_def)

lemma gens_fold_remove: "gens_kept t0 st \<Longrightarrow> gens_kept t0 (fold remove_server as st)"
  by (induction as arbitrary: st) (simp_all add: gens_remove)

lemma gens_add: "gens_kept t0 st \<Longrightarrow> gens_kept t0 (add_member a st)"
  by (cases st) (auto simp: gens_kept_def add_member_def generation_of_def)

lemma gens_add_members: "gens_kept t0 st \<Longrightarrow> gens_kept t0 (add_members as st)"
  unfolding add_members_def by (induction as arbitrary: st) (simp_all add: gens_add)

lemma gens_demote: "gens_kept t0 st \<Longrightarrow> gens_kept t0 (demote a st)"
  by (cases st) (simp add: demote_def gens_kept_def generation_of_def put_server_def)

lemma gens_fold_demote: "gens_kept t0 st \<Longrightarrow> gens_kept t0 (fold demote as st)"
  by (induction as arbitrary: st) (simp_all add: gens_demote)

lemma gens_check: "gens_kept t0 (t, e) \<Longrightarrow> gens_kept t0 (check_if_has_primary t, e)"
  by (erule gens_same) (simp_all add: check_if_has_primary_fields)

lemma gens_note: "gens_kept t0 (t, e) \<Longrightarrow> gens_kept t0 (note_possible_primary p t, e)"
  by (erule gens_same) (simp_all add: note_possible_primary_def split: option.split)

lemma gens_accept: "gens_kept t0 (t, e) \<Longrightarrow> gens_kept t0 (accept_primary d (t, e))"
proof -
  assume g: "gens_kept t0 (t, e)"
  obtain t1 e1 where 1: "fold demote (other_primaries d t) (t, e) = (t1, e1)" by fastforce
  obtain t2 e2 where 2: "add_members (s_members d) (t1, e1) = (t2, e2)" by fastforce
  let ?gone = "filter (\<lambda>a. a \<notin> set (s_members d)) (map fst (servers t2))"
  obtain t3 e3 where 3: "fold remove_server ?gone (t2, e2) = (t3, e3)" by fastforce
  have "gens_kept t0 (t1, e1)" using gens_fold_demote [OF g, of "other_primaries d t"] 1 by simp
  then have "gens_kept t0 (t2, e2)" using gens_add_members [of t0 "(t1, e1)" "s_members d"] 2 by simp
  then have "gens_kept t0 (t3, e3)" using gens_fold_remove [of t0 "(t2, e2)" ?gone] 3 by simp
  moreover have "accept_primary d (t, e) = (check_if_has_primary t3, e3)"
    using 1 2 3 by (simp add: accept_primary_def other_primaries_def)
  ultimately show ?thesis by (simp add: gens_check)
qed

lemma gens_remove_check:
  "gens_kept t0 (t, e) \<Longrightarrow> gens_kept t0 (let (t, e) = remove_server a (t, e) in (check_if_has_primary t, e))"
  using gens_remove [of t0 "(t, e)" a] by (cases "remove_server a (t, e)") (simp add: gens_check)

lemma gens_from_primary:
  assumes "gens_kept t0 (t, e)"
  shows "gens_kept t0 (update_rs_from_primary d (t, e))"
proof (cases "t_set_name t = None \<or> t_set_name t = s_set_name d")
  case False
  then show ?thesis using gens_remove_check [OF assms] by (simp add: update_rs_from_primary_def)
next
  case True
  define t1 where "t1 = (if t_set_name t = None then t\<lparr>t_set_name := s_set_name d\<rparr> else t)"
  obtain stale u where st: "stale_primary d t1 = (stale, u)" by fastforce
  have "generations t1 = generations t" by (simp add: t1_def)
  then have "generations u = generations t" using stale_primary_keeps(3) [of d t1] st by simp
  then have u: "gens_kept t0 (u, e)" by (rule gens_same [OF assms]) simp
  then have "gens_kept t0 (check_if_has_primary (put_server a s u), e)" for a s
    by (intro gens_check) (rule gens_same [OF u], simp_all add: put_server_def)
  then show ?thesis using from_primary_named [OF True, of stale u e] st gens_accept [OF u]
    unfolding t1_def by simp
qed

lemma gens_without_primary:
  assumes "gens_kept t0 (t, e)"
  shows "gens_kept t0 (update_rs_without_primary d (t, e))"
proof -
  define t1 where "t1 = (if t_set_name t = None then t\<lparr>t_set_name := s_set_name d\<rparr> else t)"
  obtain t2 e2 where a: "add_members (s_members d) (t1, e) = (t2, e2)" by fastforce
  have "gens_kept t0 (t1, e)" by (rule gens_same [OF assms]) (simp_all add: t1_def)
  then have "gens_kept t0 (t2, e2)" using gens_add_members [of t0 "(t1, e)" "s_members d"] a by simp
  then have "gens_kept t0 (note_possible_primary p t2, e2)" for p by (rule gens_note)
  then show ?thesis using a gens_remove assms
    by (auto simp: update_rs_without_primary_def Let_def t1_def [symmetric])
qed

lemma gens_from_member:
  "gens_kept t0 (t, e) \<Longrightarrow> gens_kept t0 (update_rs_with_primary_from_member d (t, e))"
  using gens_remove_check [of t0 t e] gens_note [OF gens_same [of t0 t e "t\<lparr>t_kind := T_ReplicaSetNoPrimary\<rparr>" e]]
  by (simp add: update_rs_with_primary_from_member_def)

lemma gens_transition:
  assumes "gens_kept t0 (t, e)"
  shows "gens_kept t0 (transition d (t, e))"
proof -
  have kind: "gens_kept t0 (t\<lparr>t_kind := k\<rparr>, e)" for k by (rule gens_same [OF assms]) simp_all
  show ?thesis
    by (cases "t_kind t"; cases "s_kind d")
      (simp_all add: transition_def update_unknown_with_standalone_def assms kind gens_remove [OF assms]
        gens_from_primary [OF kind] gens_without_primary [OF kind] gens_without_primary [OF assms]
        gens_from_member [OF assms] gens_check [OF assms] gens_remove_check [OF assms, unfolded Let_def])
qed

lemma gens_update: "gens_kept t (update ops d t)"
proof (cases "at t (s_address d)")
  case None
  then show ?thesis by (simp add: update_def gens_kept_def)
next
  case (Some c)
  let ?d = "keep_rtt ops c d"
  have put: "gens_kept t (put_server a s t, no_effects)" for a s
    by (simp add: gens_kept_def generation_of_def put_server_def)
  obtain u e where u: "transition ?d (put_server (s_address d) ?d t, no_effects) = (u, e)" by fastforce
  have "gens_kept t (u, e)" using gens_transition [OF put] u by metis
  then have "gens_kept t (refresh u, e)" by (rule gens_same) (simp_all add: at_refresh)
  moreover have "gens_kept t (refresh (put_server a s t), no_effects)" for a s
    by (rule gens_same [OF put]) (simp_all add: at_refresh)
  moreover have "gens_kept t (t, no_effects)" by (simp add: gens_kept_def)
  ultimately show ?thesis using Some u by (simp add: update_def Let_def)
qed

lemma update_generation:
  assumes "keyed t" "update ops d t = (u, e)" "at u a \<noteq> None"
  shows "a \<notin> set (e_removed e) \<and> generation_of u a = generation_of t a"
proof -
  have "accounts t (u, e)" using update_accounts [OF assms(1)] assms(2) by metis
  then have "a \<notin> set (e_removed e)" using assms(3) by (auto simp: accounts_def)
  then show ?thesis using gens_update [of t ops d] assms(2) by (simp add: gens_kept_def)
qed

section \<open>Two counters of one thing\<close>

text \<open>
  Everything that happens to a client between the moments it holds its lock: checks that end,
  commands that start and end (with the generation of the connection they ran on, which is no later
  than their pool's), cancels, and what the pools do by themselves.
\<close>

inductive client_step :: "float_ops \<Rightarrow> client \<Rightarrow> client \<Rightarrow> bool" for ops where
  answered: "client_step ops c (check_answered ops b hello rtt now c)"
| check_lost: "at (description c) b \<noteq> None \<Longrightarrow> client_step ops c (check_failed ops b m c)"
| started: "run_start ops sel heartbeat threshold t c = Some (r, c') \<Longrightarrow> client_step ops c c'"
| ended: "pools c b = Some p \<Longrightarrow> (\<And>f. result = Inl f \<Longrightarrow> f_generation f \<le> generation p) \<Longrightarrow>
    client_step ops c (run_end ops b t result (generation p) c)"
| cancels: "client_step ops c (snd (client_cancel t c))"
| pooled: "pools c b = Some p \<Longrightarrow> generation q = generation p \<Longrightarrow> client_step ops c (c\<lparr>pools := (pools c)(b \<mapsto> q)\<rparr>)"

text \<open>Runs during which server \<open>a\<close> stays known.\<close>

inductive client_run :: "float_ops \<Rightarrow> utf8 \<Rightarrow> client \<Rightarrow> client \<Rightarrow> bool" for ops a c where
  "client_run ops a c c"
| "client_run ops a c c1 \<Longrightarrow> client_step ops c1 c2 \<Longrightarrow> at (description c2) a \<noteq> None \<Longrightarrow> client_run ops a c c2"

definition pool_generation :: "utf8 \<Rightarrow> client \<Rightarrow> nat" where
  "pool_generation a c = (case pools c a of None \<Rightarrow> 0 | Some p \<Rightarrow> generation p)"

definition behind :: "utf8 \<Rightarrow> client \<Rightarrow> bool" where
  "behind a c \<longleftrightarrow> sound (description c) \<and> at (description c) a \<noteq> None \<and>
     pool_generation a c < generation_of (description c) a"

lemma clear_pool_generation [simp]: "generation (clear_pool p) = generation p + 1"
  by (simp add: clear_pool_def clear_step_def)

lemma application_error_others:
  assumes "a \<noteq> b" "application_error ops b err t = (u, e)" "sound t"
  shows "generation_of u a = generation_of t a \<and> at u a = at t a \<and> sound u \<and> e_removed e = [] \<and> set (e_clear e) \<subseteq> {b}"
proof (cases "at t b")
  case None
  then show ?thesis using assms(2,3) by (auto simp: application_error_def no_effects_def)
next
  case (Some c)
  have next_other: "generation_of (next_generation b v) a = generation_of v a" for v
    using assms(1) by (simp add: generation_of_def next_generation_def)
  have net: "generation_of (fst (network_unknown ops b m (t, no_effects))) a = generation_of t a"
    "at (fst (network_unknown ops b m (t, no_effects))) a = at t a" for m
  proof -
    from update_failed [OF Some at_least_as_new_none, of ops m] obtain v where
      v: "update ops (failed b m None) t = (v, no_effects)" "generations v = generations t"
      "at v = (at t)(b \<mapsto> failed b m None)" by blast
    have n: "fst (network_unknown ops b m (t, no_effects)) = next_generation b v"
      using v(1) by (simp add: network_unknown_def)
    show "generation_of (fst (network_unknown ops b m (t, no_effects))) a = generation_of t a"
      by (simp only: n next_other generation_of_same [OF v(2)])
    show "at (fst (network_unknown ops b m (t, no_effects))) a = at t a"
      using assms(1) by (simp add: n v(3))
  qed
  have change: "generation_of v a = generation_of t a" "at v a = at t a"
    if "\<not> stale_version (s_topology_version c) tv" "update ops (failed b m tv) t = (v, ch)" for m tv v ch
    using state_change_effect(3,4) [OF assms(3) Some that] assms(1) by simp_all
  have "generation_of u a = generation_of t a \<and> at u a = at t a"
  proof (cases "a_generation err < generation_of t b")
    case True
    then show ?thesis using Some assms(2) by (simp add: application_error_def)
  next
    case fresh: False
    show ?thesis
    proof (cases "a_kind err")
      case (Network m)
      then show ?thesis using net [of m] Some assms(2) fresh by (simp add: application_error_def)
    next
      case Timeout
      then show ?thesis using Some assms(2) fresh by (simp add: application_error_def)
    next
      case (Command n m tv)
      show ?thesis
      proof (cases "(is_recovering n m \<or> is_not_writable_primary n m) \<and> \<not> stale_version (s_topology_version c) tv")
        case True
        obtain v ch where v: "update ops (failed b m tv) t = (v, ch)" by fastforce
        have "u = v \<or> u = next_generation b v"
          using True v Some assms(2) fresh Command by (auto simp: application_error_def Let_def split: if_splits)
        then show ?thesis using change [OF True [THEN conjunct2] v] next_other by auto
      next
        case False
        then have "u = t \<or> u = fst (network_unknown ops b m (t, no_effects))"
          using Some assms(2) fresh Command by (auto simp: application_error_def split: if_splits)
        then show ?thesis using net by auto
      qed
    qed
  qed
  moreover have "sound u \<and> e_removed e = [] \<and> set (e_clear e) \<subseteq> {b}"
    using application_error_cases [OF assms(3) Some assms(2)]
    by (auto simp: no_effects_def split: if_splits)
  ultimately show ?thesis by simp
qed

lemma stale_app_error:
  assumes "app_error_of result current = Some err" "\<And>f. result = Inl f \<Longrightarrow> f_generation f \<le> current"
  shows "a_generation err \<le> current"
proof (cases result)
  case (Inl f)
  then show ?thesis using assms by (auto simp: app_error_of_def)
next
  case (Inr reply)
  then obtain doc where "new_document reply = Inr doc"
    using assms(1) by (cases "new_document reply") (auto simp: app_error_of_def reply_error_def)
  then show ?thesis using assms(1) Inr by (auto simp: app_error_of_def reply_error_def simp del: if_split)
qed

lemma behind_ignores:
  assumes "behind a c" "pools c a = Some p" "\<And>f. result = Inl f \<Longrightarrow> f_generation f \<le> generation p"
  shows "description (run_end ops a t result (generation p) c) = description c \<and>
    pools (run_end ops a t result (generation p) c) = pools c"
proof (cases "app_error_of result (generation p)")
  case None
  then show ?thesis by (simp add: run_end_def)
next
  case (Some err)
  have "a_generation err < generation_of (description c) a"
    using stale_app_error [OF Some assms(3)] assms(1,2) by (simp add: behind_def pool_generation_def)
  moreover obtain s where "at (description c) a = Some s" using assms(1) by (auto simp: behind_def)
  ultimately have "application_error ops a err (description c) = (description c, no_effects)"
    by (simp add: application_error_def)
  then show ?thesis using Some by (auto simp: run_end_def apply_effects_def no_effects_def)
qed

lemma behind_same: "behind a c \<Longrightarrow> description d = description c \<Longrightarrow> pool_generation a d = pool_generation a c \<Longrightarrow> behind a d"
  by (simp add: behind_def)

lemma behind_check_answered:
  assumes "behind a c" "at (description (check_answered ops b hello rtt now c)) a \<noteq> None"
  shows "behind a (check_answered ops b hello rtt now c)"
proof -
  obtain d lim where d: "(case new_document hello of
        Inr doc \<Rightarrow>
          (let d = from_hello b doc (Some rtt) now
           in (d, if data_bearing (s_kind d) then read_limits doc (c_limits c) else c_limits c))
      | Inl e \<Rightarrow> (failed b malformed_hello None, c_limits c)) = (d, lim)" by fastforce
  have kind: "s_kind d \<noteq> S_PossiblePrimary"
    using d hello_kind_known by (auto simp: Let_def split: sum.splits)
  obtain t e where u: "update ops d (description c) = (t, e)" by fastforce
  have res: "check_answered ops b hello rtt now c = apply_effects e (c\<lparr>description := t, c_limits := lim\<rparr>)"
    by (simp add: check_answered_def d u)
  have s: "sound (description c)" using assms(1) by (simp add: behind_def)
  then have k: "keyed (description c)" by (simp add: sound_def)
  have known: "at t a \<noteq> None" using assms(2) by (simp add: res apply_effects_def)
  note g = update_generation [OF k u known]
  have "e_clear e = []" using update_accounts [OF k, of ops d] u by (simp add: accounts_def)
  moreover have "sound t" using update_keeps [OF s kind, of ops] u by simp
  ultimately show ?thesis using assms(1) g known
    by (simp add: res behind_def apply_effects_def pool_generation_def)
qed

lemma behind_check_failed:
  assumes "behind a c" "at (description c) b \<noteq> None"
  shows "behind a (check_failed ops b m c)"
proof -
  let ?t = "description c"
  obtain s where s: "at ?t b = Some s" using assms(2) by blast
  from update_failed [OF s at_least_as_new_none, of ops m] obtain u where
    u: "update ops (failed b m None) ?t = (u, no_effects)" "at u = (at ?t)(b \<mapsto> failed b m None)"
      "generations u = generations ?t" by blast
  have so: "sound ?t" using assms(1) by (simp add: behind_def)
  have "sound (fst (update ops (failed b m None) ?t))" by (rule update_keeps [OF so]) simp
  then have "sound (next_generation b u)" using u by (simp add: sound_next_generation)
  moreover have "generation_of (next_generation b u) a = generation_of ?t a + (if a = b then 1 else 0)"
    using u(3) by (simp add: generation_of_def next_generation_def)
  ultimately show ?thesis using assms(1) u(1,2)
    by (auto simp: behind_def check_failed_def apply_effects_def no_effects_def pool_generation_def
        split: option.splits)
qed

lemma choose_server_keeps:
  assumes "choose_server ops sel heartbeat threshold c = Some (r, c')"
  shows "\<exists>x. c' = c\<lparr>random := x\<rparr>"
proof (cases "at_server sel")
  case None
  then show ?thesis using assms by (auto simp: choose_server_def)
next
  case (Some a)
  then have "c' = c\<lparr>random := random c\<rparr>" using assms by (simp add: choose_server_def)
  then show ?thesis by blast
qed

lemma run_start_keeps:
  assumes "run_start ops sel heartbeat threshold t c = Some (r, c')"
  shows "description c' = description c \<and> pool_generation a c' = pool_generation a c"
proof (cases "c_closed c \<or> t \<in> c_cancelled c \<or> compatibility (description c) \<noteq> None")
  case True
  then show ?thesis using assms by (auto simp: run_start_def pool_generation_def split: if_splits)
next
  case False
  then obtain r1 c1 where c1: "choose_server ops sel heartbeat threshold c = Some (r1, c1)"
    using assms by (auto simp: run_start_def)
  obtain x where "c1 = c\<lparr>random := x\<rparr>" using choose_server_keeps [OF c1] by blast
  then show ?thesis using assms False c1
    by (cases r1) (auto simp: run_start_def pool_generation_def empty_pool_def split: option.splits if_splits)
qed

lemma behind_run_end:
  assumes "behind a c" "pools c b = Some p" "\<And>f. result = Inl f \<Longrightarrow> f_generation f \<le> generation p"
  shows "behind a (run_end ops b t result (generation p) c)"
proof (cases "a = b")
  case True
  then have "description (run_end ops b t result (generation p) c) = description c"
    "pools (run_end ops b t result (generation p) c) = pools c"
    using behind_ignores [of b c p result] assms by simp_all
  then show ?thesis by (intro behind_same [OF assms(1)]) (simp_all add: pool_generation_def)
next
  case False
  show ?thesis
  proof (cases "app_error_of result (generation p)")
    case None
    then show ?thesis using assms(1) by (simp add: run_end_def behind_def pool_generation_def)
  next
    case (Some err)
    obtain u e where u: "application_error ops b err (description c) = (u, e)" by fastforce
    have so: "sound (description c)" using assms(1) by (simp add: behind_def)
    note o = application_error_others [OF False u so]
    then show ?thesis using Some u assms(1) False
      by (auto simp: run_end_def behind_def apply_effects_def pool_generation_def Let_def)
  qed
qed

lemma behind_cancel: "behind a c \<Longrightarrow> behind a (snd (client_cancel t c))"
proof (erule behind_same)
  show "description (snd (client_cancel t c)) = description c"
    by (auto simp: client_cancel_def split: option.splits prod.splits)
  have "generation (snd (snd (cancel_step t p))) = generation p" for p
    by (simp add: cancel_step_def split: option.split)
  then have keep: "cancel_step t p = (x, y, q) \<Longrightarrow> generation q = generation p" for p x y q by (metis snd_conv)
  show "pool_generation a (snd (client_cancel t c)) = pool_generation a c"
  proof (cases "Option.bind (ran_on c t) (\<lambda>a. map_option (\<lambda>p. (a, p)) (pools c a))")
    case None
    then show ?thesis by (simp add: client_cancel_def pool_generation_def)
  next
    case (Some ap)
    obtain b p where b: "ap = (b, p)" by (cases ap)
    then have "pools c b = Some p" using Some by (auto simp: bind_eq_Some_conv)
    moreover obtain x y q where "cancel_step t p = (x, y, q)" by (metis prod.collapse)
    ultimately show ?thesis using Some b keep by (simp add: client_cancel_def pool_generation_def)
  qed
qed

lemma behind_step:
  assumes "client_step ops c c'" "behind a c" "at (description c') a \<noteq> None"
  shows "behind a c'"
  using assms
proof (cases rule: client_step.cases)
  case (started sel heartbeat threshold t r)
  then show ?thesis using run_start_keeps [OF started] assms(2) by (auto intro: behind_same)
next
  case (pooled b p q)
  then show ?thesis using assms(2) by (auto intro!: behind_same [OF assms(2)] simp: pool_generation_def)
next
  case (answered b hello rtt now)
  then show ?thesis using behind_check_answered [OF assms(2)] assms(3) by simp
next
  case (check_lost b m)
  then show ?thesis using behind_check_failed [OF assms(2)] by simp
next
  case (ended b p result t)
  then show ?thesis using behind_run_end [OF assms(2)] by simp
next
  case (cancels t)
  then show ?thesis using behind_cancel [OF assms(2)] by simp
qed

lemma behind_run: "client_run ops a c c' \<Longrightarrow> behind a c \<Longrightarrow> behind a c'"
  by (induction rule: client_run.induct) (auto intro: behind_step)

lemma failed_check_behind:
  assumes "sound (description c)" "at (description c) a \<noteq> None" "pools c a = None"
  shows "behind a (check_failed ops a m c)"
proof -
  let ?t = "description c"
  obtain s where s: "at ?t a = Some s" using assms(2) by blast
  from update_failed [OF s at_least_as_new_none, of ops m] obtain u where
    u: "update ops (failed a m None) ?t = (u, no_effects)" "at u = (at ?t)(a \<mapsto> failed a m None)" by blast
  have "sound (fst (update ops (failed a m None) ?t))" by (rule update_keeps [OF assms(1)]) simp
  then have "sound (next_generation a u)" using u by (simp add: sound_next_generation)
  then show ?thesis using u assms(3)
    by (simp add: behind_def check_failed_def apply_effects_def no_effects_def pool_generation_def)
qed

text \<open>
  C21: a check that fails before a server's pool exists deafens the client. The description's
  generation of that server moves on and no pool does; a pool made later starts at generation zero,
  and from then on, for as long as the server stays known and whatever checks and commands do, an
  error of a command on it is taken for one from before a clear: the server is not marked unknown,
  its pool is not cleared and no check is asked for.
\<close>

theorem failed_check_deafens:
  assumes "sound (description c)" "at (description c) a \<noteq> None" "pools c a = None"
    and "client_run ops a (check_failed ops a m c) d" "pools d a = Some p"
    and "\<And>f. result = Inl f \<Longrightarrow> f_generation f \<le> generation p"
  shows "description (run_end ops a t result (generation p) d) = description d \<and>
    pools (run_end ops a t result (generation p) d) = pools d"
  using behind_ignores [OF behind_run [OF assms(4) failed_check_behind [OF assms(1-3)]] assms(5,6)] by blast

theorem failed_check_deafens_witness:
  "\<forall>ops. \<exists>c d p. c = new_client [[97]] True None 0 \<and> pools d (normalize [97]) = Some p \<and>
     description (run_end ops (normalize [97]) 1
       (Inl \<lparr>f_failure = Lost [], f_generation = generation p, f_handshake = True\<rparr>) (generation p) d) = description d"
proof (rule allI, goal_cases)
  case (1 ops)
  define a where "a = normalize [97]"
  define c where "c = new_client [[97]] True None 0"
  define c1 where "c1 = check_failed ops a [] c"
  define sel where "sel = \<lparr>preference = primary_preference, operation = Read, at_server = Some a\<rparr>"
  have dc: "description c = new_topology [[97]] True None" "pools c = Map.empty" "c_closed c = False" "c_cancelled c = {}"
    by (simp_all add: c_def new_client_def)
  have so: "sound (description c)" by (simp add: dc sound_new)
  have at: "at (description c) a = Some (unknown a)" by (simp add: dc a_def new_topology_def Let_def)
  from update_failed [OF at at_least_as_new_none, of ops "[]"] obtain u where
    u: "update ops (failed a [] None) (description c) = (u, no_effects)" "at u = (at (description c))(a \<mapsto> failed a [] None)" by blast
  have c1: "description c1 = next_generation a u" "pools c1 a = None" "c_closed c1 = False" "c_cancelled c1 = {}"
    by (simp_all add: c1_def check_failed_def u(1) dc(2-4) apply_effects_def no_effects_def)
  have "t_kind (description c) = T_Single" "servers (description c) = [(a, unknown a)]"
    by (simp_all add: dc(1) new_topology_def Let_def a_def)
  then have "compatibility u = None" using u(1)
    by (auto simp: update_def Let_def refresh_def put_server_def)
  then have comp: "compatibility (description c1) = None" by (simp add: c1 next_generation_def)
  have at1: "at (description c1) a = Some (failed a [] None)" by (simp add: c1 u(2))
  obtain d where d: "run_start ops sel 0 0 1 c1 = Some (Inr a, d)" "pools d a = Some empty_pool" "description d = description c1"
    using c1(2-4) comp at1 by (simp add: run_start_def choose_server_def sel_def)
  have "client_run ops a (check_failed ops a [] c) d"
    unfolding c1_def [symmetric]
    by (rule client_run.intros(2) [OF client_run.intros(1) client_step.started [OF d(1)]]) (simp add: d(3) at1)
  from failed_check_deafens [OF so _ _ this d(2), where t = 1 and
      result = "Inl \<lparr>f_failure = Lost [], f_generation = generation empty_pool, f_handshake = True\<rparr>"]
  show ?case using d(2) at dc(2) unfolding a_def c_def by (intro exI conjI) auto
qed

end
