(* ===== verification/Wire.thy ===== *)
theory Wire
  imports Bson
begin

text \<open>
  MongoDB's \<open>OP_MSG\<close> (\<open>crates/runtime/src/mongodb/wire.rs\<close>): framing a request, taking whole
  messages off a stream of chunks, and reading the command document of a reply.
\<close>

definition OP_MSG :: u32 where "OP_MSG = 2013"

definition OP_COMPRESSED :: u32 where "OP_COMPRESSED = 2012"

definition HEADER :: nat where "HEADER = 16"

record msg_sequence =
  q_name :: utf8
  q_documents :: "u8 list list"

datatype wire_error =
  SequenceTooLarge
| MessageTooLarge
| BadLength int
| OtherRequest int int
| Compressed
| OtherOpcode int
| Exhaust
| MalformedSection
| TwoDocuments
| OtherSection u8
| NoCommandDocument

section \<open>Writing\<close>

definition sequence_section :: "msg_sequence \<Rightarrow> wire_error + u8 list" where
  "sequence_section q =
     (let content = q_name q @ [0] @ concat (q_documents q) in
      case i32_of_len (4 + length content) of
        None \<Rightarrow> Inl SequenceTooLarge
      | Some n \<Rightarrow> Inr ([1] @ le32 n @ content))"

definition message :: "u32 \<Rightarrow> u8 list \<Rightarrow> msg_sequence option \<Rightarrow> wire_error + u8 list" where
  "message request body q =
     res_bind (case q of None \<Rightarrow> Inr [] | Some s \<Rightarrow> sequence_section s) (\<lambda>tail.
       let rest = le32 request @ le32 0 @ le32 OP_MSG @ le32 0 @ [0] @ body @ tail in
       case i32_of_len (4 + length rest) of
         None \<Rightarrow> Inl MessageTooLarge
       | Some len \<Rightarrow> Inr (le32 len @ rest))"

section \<open>Reading\<close>

text \<open>The next whole message of the bytes read so far, with what is left.\<close>

definition take_message :: "nat \<Rightarrow> u8 list \<Rightarrow> wire_error + u8 list option \<times> u8 list" where
  "take_message most inbox =
     (if length inbox < 4 then Inr (None, inbox)
      else
        (let declared = of_le32 (take 4 inbox) in
         case opt_filter (\<lambda>len. len \<ge> HEADER + 5 \<and> len \<le> most + HEADER) (len_of_i32 declared) of
           None \<Rightarrow> Inl (BadLength (sint declared))
         | Some len \<Rightarrow> if length inbox < len then Inr (None, inbox) else Inr (Some (take len inbox), drop len inbox)))"

definition int_at :: "nat \<Rightarrow> u8 list \<Rightarrow> u32" where
  "int_at i bs = of_le32 (take 4 (drop i bs))"

text \<open>A section's declared length, when it lies inside the message.\<close>

definition section_len :: "u8 list \<Rightarrow> nat \<Rightarrow> nat \<Rightarrow> nat option" where
  "section_len bs stop i =
     (if i + 4 \<le> length bs
      then opt_filter (\<lambda>n. n \<ge> 5 \<and> i + n \<le> stop) (len_of_i32 (int_at i bs))
      else None)"

function sections :: "u8 list \<Rightarrow> nat \<Rightarrow> nat \<Rightarrow> u8 list option \<Rightarrow> wire_error + u8 list" where
  "sections bs stop i body =
     (if i < stop then
        (case section_len bs stop (i + 1) of
           None \<Rightarrow> Inl MalformedSection
         | Some n \<Rightarrow>
             if bs ! i = 0 then
               (case body of
                  None \<Rightarrow> sections bs stop (i + 1 + n) (Some (take n (drop (i + 1) bs)))
                | Some _ \<Rightarrow> Inl TwoDocuments)
             else if bs ! i = 1 then sections bs stop (i + 1 + n) body
             else Inl (OtherSection (bs ! i)))
      else ok_or NoCommandDocument body)"
  by pat_completeness auto
termination by (relation "measure (\<lambda>(bs, stop, i, body). stop - i)") auto

declare sections.simps [simp del]

definition reply :: "u8 list \<Rightarrow> u32 \<Rightarrow> wire_error + u8 list" where
  "reply msg request =
     (if int_at 8 msg \<noteq> request then Inl (OtherRequest (sint (int_at 8 msg)) (sint request))
      else if int_at 12 msg = OP_COMPRESSED then Inl Compressed
      else if int_at 12 msg \<noteq> OP_MSG then Inl (OtherOpcode (sint (int_at 12 msg)))
      else if bit (int_at 16 msg) 1 then Inl Exhaust
      else sections msg (if bit (int_at 16 msg) 0 then length msg - 4 else length msg) (HEADER + 4) None)"

section \<open>Round trip\<close>

lemma int_at_prefix: "length p = i \<Longrightarrow> int_at i (p @ le32 w @ r) = w"
  using le32.dec_take by (simp add: int_at_def)

lemma section_len_prefix:
  assumes "length p = i" "5 \<le> n" "i + n \<le> stop" "i + 4 \<le> length (p @ le32 (word_of_nat n) @ r)" "n < 2 ^ 31"
  shows "section_len (p @ le32 (word_of_nat n) @ r) stop i = Some n"
  using assms int_at_prefix [OF assms(1), of "word_of_nat n" r]
  by (simp add: section_len_def len_of_i32_small)

lemma message_shape:
  assumes "message request body q = Inr out"
  shows "\<exists>tail. out = le32 (word_of_nat (length out)) @ le32 request @ le32 0 @ le32 OP_MSG @ le32 0 @ [0] @ body @ tail \<and>
    length out < 2 ^ 31 \<and> length out = 21 + length body + length tail \<and>
    (q = None \<longrightarrow> tail = []) \<and>
    (\<forall>s. q = Some s \<longrightarrow> (\<exists>content. tail = [1] @ le32 (word_of_nat (4 + length content)) @ content \<and> content \<noteq> []))"
proof -
  obtain tail where tail: "(case q of None \<Rightarrow> Inr [] | Some s \<Rightarrow> sequence_section s) = Inr tail"
    and out: "(let rest = le32 request @ le32 0 @ le32 OP_MSG @ le32 0 @ [0] @ body @ tail in
       case i32_of_len (4 + length rest) of
         None \<Rightarrow> Inl MessageTooLarge | Some len \<Rightarrow> Inr (le32 len @ rest)) = Inr out"
    using assms by (auto simp: message_def res_bind_Inr_iff)
  from out have o: "out = le32 (word_of_nat (21 + length body + length tail)) @ le32 request @ le32 0 @ le32 OP_MSG @ le32 0 @ [0] @ body @ tail"
    "21 + length body + length tail < 2 ^ 31"
    by (auto simp: Let_def le32.enc_length i32_of_len_def ac_simps split: if_splits)
  then have l: "length out = 21 + length body + length tail" by (simp add: le32.enc_length)
  have "\<exists>content. tail = [1] @ le32 (word_of_nat (4 + length content)) @ content \<and> content \<noteq> []" if "q = Some s" for s
    using tail that
    by (auto simp: sequence_section_def Let_def i32_of_len_def split: if_splits
        intro!: exI [of _ "q_name s @ 0 # concat (q_documents s)"])
  moreover have "q = None \<longrightarrow> tail = []" using tail by auto
  moreover have "out = le32 (word_of_nat (length out)) @ le32 request @ le32 0 @ le32 OP_MSG @ le32 0 @ [0] @ body @ tail"
    unfolding l by (rule o(1))
  moreover have "length out < 2 ^ 31" unfolding l by (rule o(2))
  ultimately show ?thesis using l by blast
qed

lemma take_message_whole:
  assumes "message request body q = Inr out" "length out \<le> most + HEADER"
  shows "take_message most (out @ rest) = Inr (Some out, rest)"
    and "k < length out \<Longrightarrow> take_message most (take k out) = Inr (None, take k out)"
proof -
  obtain r where r: "out = le32 (word_of_nat (length out)) @ r" "length out < 2 ^ 31" "21 \<le> length out"
    using message_shape [OF assms(1)] by auto
  have dec: "of_le32 (take 4 (out @ s)) = word_of_nat (length out)" for s
    by (subst r(1)) (simp only: append_assoc le32.dec_take)
  have len: "opt_filter (\<lambda>len. len \<ge> HEADER + 5 \<and> len \<le> most + HEADER) (len_of_i32 (word_of_nat (length out))) = Some (length out)"
    using r assms(2) by (simp add: len_of_i32_small HEADER_def)
  show "take_message most (out @ rest) = Inr (Some out, rest)"
    using r(3) len dec [of "[]"] by (simp add: take_message_def Let_def)
  assume k: "k < length out"
  show "take_message most (take k out) = Inr (None, take k out)"
  proof (cases "k < 4")
    case True
    then show ?thesis using k by (simp add: take_message_def)
  next
    case False
    then have "of_le32 (take 4 (take k out)) = word_of_nat (length out)"
      using dec [of "[]"] by (simp add: min_def)
    then show ?thesis using k False len by (simp add: take_message_def Let_def)
  qed
qed

text \<open>A document of at least five bytes that says its own length.\<close>

definition says_length :: "u8 list \<Rightarrow> bool" where
  "says_length bs \<longleftrightarrow> 5 \<le> length bs \<and> length bs < 2 ^ 31 \<and> take 4 bs = le32 (word_of_nat (length bs))"

lemma sections_own:
  assumes d: "says_length body" and p: "length p = 20"
    and t: "tail = [] \<or> (\<exists>content. tail = [1] @ le32 (word_of_nat (4 + length content)) @ content \<and> content \<noteq> [] \<and> 4 + length content < 2 ^ 31)"
  shows "sections (p @ [0] @ body @ tail) (length (p @ [0] @ body @ tail)) 20 None = Inr body"
proof -
  let ?m = "p @ [0] @ body @ tail"
  obtain b where b: "body = le32 (word_of_nat (length body)) @ b"
    using d unfolding says_length_def by (metis append_take_drop_id)
  have "section_len ((p @ [0]) @ le32 (word_of_nat (length body)) @ b @ tail) (length ?m) 21 = Some (length body)"
    using d p by (intro section_len_prefix) (auto simp: says_length_def le32.enc_length)
  moreover have m: "?m = (p @ [0]) @ le32 (word_of_nat (length body)) @ b @ tail" using b by simp
  ultimately have s1: "section_len ?m (length ?m) 21 = Some (length body)" by metis
  have "sections ?m (length ?m) 20 None = sections ?m (length ?m) (21 + length body) (Some body)"
    using p s1 by (subst sections.simps) (simp add: nth_append)
  also have "\<dots> = Inr body"
  proof (cases "tail = []")
    case True
    then show ?thesis using p by (subst sections.simps) simp
  next
    case False
    then obtain content where c: "tail = [1] @ le32 (word_of_nat (4 + length content)) @ content"
      "content \<noteq> []" "4 + length content < 2 ^ 31" using t by blast
    have m2: "?m = (p @ [0] @ body @ [1]) @ le32 (word_of_nat (4 + length content)) @ content" using c by simp
    have "section_len ((p @ [0] @ body @ [1]) @ le32 (word_of_nat (4 + length content)) @ content) (length ?m)
        (22 + length body) = Some (4 + length content)"
      using c p by (intro section_len_prefix) (auto simp: le32.enc_length Suc_le_eq)
    then have s2: "section_len ?m (length ?m) (22 + length body) = Some (4 + length content)" by (metis m2)
    have end_: "length ?m = 26 + length body + length content" using p c by (simp add: le32.enc_length)
    have kind: "?m ! (21 + length body) = 1" using p c by (simp add: nth_append)
    have "sections ?m (length ?m) (21 + length body) (Some body) = sections ?m (length ?m) (length ?m) (Some body)"
      using kind s2 unfolding end_ by (subst sections.simps) (simp add: add.assoc)
    also have "\<dots> = Inr body" by (subst sections.simps) simp
    finally show ?thesis .
  qed
  finally show ?thesis .
qed

text \<open>A message marked as answering \<open>request\<close>.\<close>

definition answering :: "u32 \<Rightarrow> u8 list \<Rightarrow> u8 list" where
  "answering request msg = take 8 msg @ le32 request @ drop 12 msg"

text \<open>
  C22: messages survive the wire. A message framed for a document, with or without a sequence of
  further documents, is taken off the stream whole, with what follows it left in place, and not
  before its last byte arrived; marked as answering a request it is that request's reply, which is
  the document, and no other request's.
\<close>

theorem wire_roundtrip:
  assumes "message own body q = Inr out" "length out \<le> most + HEADER" "says_length body"
  shows "take_message most (out @ rest) = Inr (Some out, rest) \<and>
    (\<forall>k < length out. take_message most (take k out) = Inr (None, take k out)) \<and>
    reply (answering request out) request = Inr body \<and>
    (other \<noteq> request \<longrightarrow> reply (answering request out) other = Inl (OtherRequest (sint request) (sint other)))"
proof -
  obtain tail where o: "out = le32 (word_of_nat (length out)) @ le32 own @ le32 0 @ le32 OP_MSG @ le32 0 @ [0] @ body @ tail"
    and l: "length out < 2 ^ 31" "length out = 21 + length body + length tail"
    and t: "q = None \<longrightarrow> tail = []"
      "\<forall>s. q = Some s \<longrightarrow> (\<exists>content. tail = [1] @ le32 (word_of_nat (4 + length content)) @ content \<and> content \<noteq> [])"
    using message_shape [OF assms(1)] by blast
  define h where "h = le32 (word_of_nat (length out)) @ le32 own"
  have h: "length h = 8" by (simp add: h_def le32.enc_length)
  have oh: "out = h @ le32 0 @ le32 OP_MSG @ le32 0 @ [0] @ body @ tail" using o by (simp add: h_def)
  have a: "answering request out = h @ le32 request @ le32 OP_MSG @ le32 0 @ [0] @ body @ tail"
    unfolding answering_def by (subst (1 2) oh) (simp add: h le32.enc_length)
  let ?p = "h @ le32 request @ le32 OP_MSG @ le32 0"
  have p: "length ?p = 20" by (simp add: h le32.enc_length)
  have at: "int_at 8 (answering request out) = request" "int_at 12 (answering request out) = OP_MSG"
    "int_at 16 (answering request out) = 0"
    unfolding a
    using int_at_prefix [of h 8 request] int_at_prefix [of "h @ le32 request" 12 OP_MSG]
      int_at_prefix [of "h @ le32 request @ le32 OP_MSG" 16 0] h
    by (simp_all add: le32.enc_length)
  have "tail = [] \<or> (\<exists>content. tail = [1] @ le32 (word_of_nat (4 + length content)) @ content \<and> content \<noteq> [] \<and> 4 + length content < 2 ^ 31)"
  proof (cases q)
    case None
    then show ?thesis using t by simp
  next
    case (Some s)
    then obtain content where c: "tail = [1] @ le32 (word_of_nat (4 + length content)) @ content" "content \<noteq> []"
      using t(2) by blast
    then have "4 + length content < 2 ^ 31" using l by (simp add: le32.enc_length)
    with c show ?thesis by blast
  qed
  from sections_own [OF assms(3) p this]
  have s: "sections (answering request out) (length (answering request out)) 20 None = Inr body"
    by (simp add: a)
  have "reply (answering request out) request = Inr body"
    using s by (simp add: reply_def at OP_MSG_def OP_COMPRESSED_def HEADER_def)
  moreover have "reply (answering request out) other = Inl (OtherRequest (sint request) (sint other))" if "other \<noteq> request"
    using that by (simp add: reply_def at)
  ultimately show ?thesis using take_message_whole [OF assms(1,2)] by blast
qed

theorem wire_roundtrip_witness:
  "\<exists>out. message 3 [5, 0, 0, 0, 0] (Some \<lparr>q_name = [100], q_documents = [[5, 0, 0, 0, 0]]\<rparr>) = Inr out \<and>
    reply (answering 9 out) 9 = Inr [5, 0, 0, 0, 0]"
proof -
  have four: "(4 :: nat) = Suc (Suc (Suc (Suc 0)))" by simp
  have "le32 5 = [5, 0, 0, 0]" unfolding le32_def by (subst four) simp
  then have l: "says_length [5, 0, 0, 0, 0]" by (simp add: says_length_def)
  let ?q = "Some \<lparr>q_name = [100], q_documents = [[5, 0, 0, 0, 0]]\<rparr>"
  obtain out where out: "message 3 [5, 0, 0, 0, 0] ?q = Inr out"
    by (simp add: message_def sequence_section_def i32_of_len_def Let_def le32.enc_length)
  have "length out \<le> length out + HEADER" by simp
  from wire_roundtrip [OF out this l] out show ?thesis by blast
qed

end
