(* ===== verification/JsonText.thy ===== *)
theory JsonText
  imports Prelude
begin

text \<open>
  Texts of the JSON crate (\<open>crates/json/src/lib.rs\<close> and the string builder of \<open>lexer.rs\<close>). A text is
  its list of Unicode scalar values, which is what a Rust \<open>str\<close> decodes to; byte offsets are lengths
  of UTF-8 prefixes. A JavaScript string may hold surrogates no scalar stands for, so what an escape
  can spell is a list of UTF-16 code units.
\<close>

section \<open>Scalars and code units\<close>

type_synonym scalar = nat
type_synonym utext = "scalar list"

definition is_scalar :: "scalar \<Rightarrow> bool" where
  "is_scalar c \<longleftrightarrow> c < 0xD800 \<or> 0xE000 \<le> c \<and> c < 0x110000"

definition is_text :: "utext \<Rightarrow> bool" where
  "is_text t \<longleftrightarrow> list_all is_scalar t"

lemma is_text_simps [simp]:
  "is_text []" "is_text (c # t) \<longleftrightarrow> is_scalar c \<and> is_text t" "is_text (s @ t) \<longleftrightarrow> is_text s \<and> is_text t"
  by (auto simp: is_text_def)

definition len_utf8 :: "scalar \<Rightarrow> nat" where
  "len_utf8 c = (if c < 0x80 then 1 else if c < 0x800 then 2 else if c < 0x10000 then 3 else 4)"

definition text_len :: "utext \<Rightarrow> nat" where
  "text_len t = sum_list (map len_utf8 t)"

definition encode_utf16 :: "scalar \<Rightarrow> nat list" where
  "encode_utf16 c =
     (if c < 0x10000 then [c]
      else [0xD800 + (c - 0x10000) div 0x400, 0xDC00 + (c - 0x10000) mod 0x400])"

definition units :: "utext \<Rightarrow> nat list" where
  "units t = concat (map encode_utf16 t)"

lemma units_simps [simp]: "units [] = []" "units (c # t) = encode_utf16 c @ units t" "units (s @ t) = units s @ units t"
  by (simp_all add: units_def)

definition is_high :: "nat \<Rightarrow> bool" where "is_high u \<longleftrightarrow> 0xD800 \<le> u \<and> u \<le> 0xDBFF"

definition is_low :: "nat \<Rightarrow> bool" where "is_low u \<longleftrightarrow> 0xDC00 \<le> u \<and> u \<le> 0xDFFF"

text \<open>\<open>char::decode_utf16\<close> of a high and a low surrogate.\<close>

definition pair_scalar :: "nat \<Rightarrow> nat \<Rightarrow> scalar" where
  "pair_scalar h l = 0x10000 + (h - 0xD800) * 0x400 + (l - 0xDC00)"

fun starts :: "scalar \<Rightarrow> utext \<Rightarrow> bool" where
  "starts c [] \<longleftrightarrow> False"
| "starts c (x # xs) \<longleftrightarrow> x = c"

lemma starts_iff: "starts c s \<longleftrightarrow> (\<exists>r. s = c # r)"
  by (cases s) auto

text \<open>A text of ASCII characters.\<close>

definition text_of_string :: "string \<Rightarrow> utext" where
  "text_of_string s = map of_char s"

section \<open>Text as read\<close>

datatype json_text = Str utext | Utf16 "nat list"

fun text_units :: "json_text \<Rightarrow> nat list" where
  "text_units (Str t) = units t"
| "text_units (Utf16 us) = us"

section \<open>The builder\<close>

record builder =
  b_text :: utext
  b_wide :: "nat list option"
  b_high :: "nat option"

definition new_builder :: "utext \<Rightarrow> builder" where
  "new_builder prefix = \<lparr>b_text = prefix, b_wide = None, b_high = None\<rparr>"

text \<open>\<open>widen\<close> hands out the wide buffer; what is pushed to it is the argument here.\<close>

definition widen_push :: "nat \<Rightarrow> builder \<Rightarrow> builder" where
  "widen_push u b = b\<lparr>b_wide := Some ((case b_wide b of Some w \<Rightarrow> w | None \<Rightarrow> units (b_text b)) @ [u])\<rparr>"

definition flush_high :: "builder \<Rightarrow> builder" where
  "flush_high b = (case b_high b of Some h \<Rightarrow> widen_push h (b\<lparr>b_high := None\<rparr>) | None \<Rightarrow> b)"

definition push_str :: "utext \<Rightarrow> builder \<Rightarrow> builder" where
  "push_str s b =
     (let b = flush_high b in
      case b_wide b of
        Some w \<Rightarrow> b\<lparr>b_wide := Some (w @ units s)\<rparr>
      | None \<Rightarrow> b\<lparr>b_text := b_text b @ s\<rparr>)"

definition push_char :: "scalar \<Rightarrow> builder \<Rightarrow> builder" where
  "push_char c b =
     (let b = flush_high b in
      case b_wide b of
        Some w \<Rightarrow> b\<lparr>b_wide := Some (w @ encode_utf16 c)\<rparr>
      | None \<Rightarrow> b\<lparr>b_text := b_text b @ [c]\<rparr>)"

definition push_unit :: "nat \<Rightarrow> builder \<Rightarrow> builder" where
  "push_unit u b =
     (if is_high u then (flush_high b)\<lparr>b_high := Some u\<rparr>
      else if is_low u then
        (case b_high b of
           Some h \<Rightarrow> push_char (pair_scalar h u) (b\<lparr>b_high := None\<rparr>)
         | None \<Rightarrow> widen_push u b)
      else push_char u b)"

definition finish_builder :: "builder \<Rightarrow> json_text" where
  "finish_builder b =
     (let b = flush_high b in
      case b_wide b of Some w \<Rightarrow> Utf16 w | None \<Rightarrow> Str (b_text b))"

text \<open>What the scanners push.\<close>

datatype piece = PushChar scalar | PushStr utext | PushUnit nat

fun push_piece :: "piece \<Rightarrow> builder \<Rightarrow> builder" where
  "push_piece (PushChar c) b = push_char c b"
| "push_piece (PushStr s) b = push_str s b"
| "push_piece (PushUnit u) b = push_unit u b"

section \<open>The reference: reading a list of code units\<close>

fun decode_units :: "nat list \<Rightarrow> utext option" where
  "decode_units [] = Some []"
| "decode_units (u # us) =
     (if is_high u then
        (case us of
           l # us' \<Rightarrow> if is_low l then map_option ((#) (pair_scalar u l)) (decode_units us') else None
         | [] \<Rightarrow> None)
      else if is_low u then None
      else map_option ((#) u) (decode_units us))"

definition read_units :: "nat list \<Rightarrow> json_text" where
  "read_units us = (case decode_units us of Some t \<Rightarrow> Str t | None \<Rightarrow> Utf16 us)"

lemma encode_pair: "is_high h \<Longrightarrow> is_low l \<Longrightarrow> encode_utf16 (pair_scalar h l) = [h, l]"
proof -
  assume "is_high h" "is_low l"
  then have b: "0xD800 \<le> h" "h \<le> 0xDBFF" "0xDC00 \<le> l" "l \<le> 0xDFFF" by (simp_all add: is_high_def is_low_def)
  define a where "a = h - 0xD800"
  define c where "c = l - 0xDC00"
  have "c < 0x400" using b by (simp add: c_def)
  then have "(a * 0x400 + c) div 0x400 = a" "(a * 0x400 + c) mod 0x400 = c" by simp_all
  moreover have "0xD800 + a = h" "0xDC00 + c = l" using b by (simp_all add: a_def c_def)
  ultimately show ?thesis
    by (simp add: encode_utf16_def pair_scalar_def a_def [symmetric] c_def [symmetric])
qed

lemma scalar_pair: "is_high h \<Longrightarrow> is_low l \<Longrightarrow> is_scalar (pair_scalar h l)"
  by (auto simp: is_high_def is_low_def is_scalar_def pair_scalar_def)

lemma encode_scalar_cases:
  assumes "is_scalar c"
  obtains "encode_utf16 c = [c]" "\<not> is_high c" "\<not> is_low c"
  | h l where "encode_utf16 c = [h, l]" "is_high h" "is_low l" "pair_scalar h l = c"
proof (cases "c < 0x10000")
  case True
  then show ?thesis using assms that(1) by (auto simp: encode_utf16_def is_scalar_def is_high_def is_low_def)
next
  case False
  define d where "d = c - 0x10000"
  have d: "c = 0x10000 + d" "d < 0x100000" using False assms by (auto simp: d_def is_scalar_def)
  have "d div 0x400 < 0x400" using d(2) by (simp add: less_mult_imp_div_less)
  moreover have "0x10000 + (d div 0x400) * 0x400 + d mod 0x400 = c" using d(1) by simp
  ultimately show ?thesis
    using that(2) [of "0xD800 + d div 0x400" "0xDC00 + d mod 0x400"] d
    by (auto simp: encode_utf16_def is_high_def is_low_def pair_scalar_def)
qed

lemma decode_units_encode [simp]:
  "is_scalar c \<Longrightarrow> decode_units (encode_utf16 c @ us) = map_option ((#) c) (decode_units us)"
  by (erule encode_scalar_cases) (auto simp: is_high_def is_low_def)

lemma decode_units_units [simp]: "is_text t \<Longrightarrow> decode_units (units t @ us) = map_option ((@) t) (decode_units us)"
  by (cases "decode_units us"; induction t) simp_all

lemma decode_units_sound: "decode_units us = Some t \<Longrightarrow> list_all (\<lambda>u. u < 0x10000) us \<Longrightarrow> is_text t \<and> units t = us"
proof (induction us arbitrary: t rule: decode_units.induct)
  case (2 u us)
  show ?case
  proof (cases "is_high u")
    case True
    then obtain l us' s where "us = l # us'" "is_low l" "decode_units us' = Some s" "t = pair_scalar u l # s"
      using 2(3) by (auto split: list.splits if_splits)
    then show ?thesis using 2(1) [of l us' s] True 2(4) by (simp add: encode_pair scalar_pair)
  next
    case False
    then obtain s where s: "\<not> is_low u" "decode_units us = Some s" "t = u # s"
      using 2(3) by (auto split: if_splits)
    then have "is_scalar u" "encode_utf16 u = [u]"
      using False 2(4) by (auto simp: is_high_def is_low_def is_scalar_def encode_utf16_def)
    then show ?thesis using 2(2) [of s] False s 2(4) by simp
  qed
qed simp

lemma read_units_text: "is_text t \<Longrightarrow> read_units (units t) = Str t"
  using decode_units_units [of t "[]"] by (simp add: read_units_def)

lemma text_units_read: "list_all (\<lambda>u. u < 0x10000) us \<Longrightarrow> text_units (read_units us) = us"
  by (auto simp: read_units_def dest: decode_units_sound split: option.split)

section \<open>The builder reads what it is given\<close>

fun piece_units :: "piece \<Rightarrow> nat list" where
  "piece_units (PushChar c) = encode_utf16 c"
| "piece_units (PushStr s) = units s"
| "piece_units (PushUnit u) = [u]"

fun piece_ok :: "piece \<Rightarrow> bool" where
  "piece_ok (PushChar c) \<longleftrightarrow> is_scalar c"
| "piece_ok (PushStr s) \<longleftrightarrow> s \<noteq> [] \<and> is_text s"
| "piece_ok (PushUnit u) \<longleftrightarrow> u < 0x10000"

definition built :: "builder \<Rightarrow> nat list" where
  "built b = (case b_wide b of Some w \<Rightarrow> w | None \<Rightarrow> units (b_text b)) @ (case b_high b of Some h \<Rightarrow> [h] | None \<Rightarrow> [])"

definition ill_formed :: "nat list \<Rightarrow> bool" where
  "ill_formed us \<longleftrightarrow> (\<forall>s. decode_units (us @ s) = None)"

definition builder_ok :: "builder \<Rightarrow> bool" where
  "builder_ok b \<longleftrightarrow> is_text (b_text b) \<and> (\<forall>h. b_high b = Some h \<longrightarrow> is_high h) \<and>
     (b_wide b \<noteq> None \<longrightarrow> ill_formed (built b))"

lemma ill_formed_decode: "ill_formed us \<Longrightarrow> decode_units us = None"
  unfolding ill_formed_def by (metis append_Nil2)

lemma ill_formed_append: "ill_formed us \<Longrightarrow> ill_formed (us @ vs)"
  by (simp add: ill_formed_def)

lemma ill_formed_high: "is_text t \<Longrightarrow> is_high h \<Longrightarrow> \<not> is_low u \<Longrightarrow> ill_formed (units t @ h # u # us)"
  by (simp add: ill_formed_def)

lemma ill_formed_low: "is_text t \<Longrightarrow> is_low u \<Longrightarrow> ill_formed (units t @ u # us)"
  by (auto simp: ill_formed_def is_high_def is_low_def)

lemma encode_head: "is_scalar c \<Longrightarrow> \<exists>u us. encode_utf16 c = u # us \<and> \<not> is_low u"
  by (erule encode_scalar_cases) (auto simp: is_high_def is_low_def)

lemma ill_formed_high_text:
  "is_text t \<Longrightarrow> is_high h \<Longrightarrow> is_text s \<Longrightarrow> s \<noteq> [] \<Longrightarrow> ill_formed (units t @ h # units s)"
  using encode_head [of "hd s"] by (cases s) (auto simp: ill_formed_high)

lemma flush_high_simps [simp]:
  "b_high (flush_high b) = None" "b_text (flush_high b) = b_text b"
  "b_wide (flush_high b) = (if b_high b = None then b_wide b else Some (built b))"
  "built (flush_high b) = built b"
  by (auto simp: flush_high_def widen_push_def built_def split: option.split)

lemma push_str_built [simp]: "built (push_str s b) = built b @ units s"
proof -
  have "built (push_str s b) = built (flush_high b) @ units s"
    unfolding push_str_def Let_def by (simp add: built_def del: flush_high_simps(3,4) split: option.split)
  then show ?thesis by simp
qed

lemma push_char_str: "push_char c b = push_str [c] b"
  by (simp add: push_char_def push_str_def Let_def split: option.split)

lemma widen_push_built [simp]: "b_high b = None \<Longrightarrow> built (widen_push u b) = built b @ [u]"
  by (simp add: widen_push_def built_def split: option.split)

lemma flush_high_ok: "builder_ok b \<Longrightarrow> ill_formed (built b @ us) \<or> b_high b = None \<Longrightarrow>
    b_wide (flush_high b) \<noteq> None \<Longrightarrow> ill_formed (built b @ us)"
  by (auto simp: builder_ok_def ill_formed_append split: if_splits)

lemma push_str_fields [simp]:
  "b_high (push_str s b) = None"
  "b_wide (push_str s b) = map_option (\<lambda>w. w @ units s) (b_wide (flush_high b))"
  "b_text (push_str s b) = (if b_wide (flush_high b) = None then b_text b @ s else b_text b)"
  unfolding push_str_def Let_def by (simp_all del: flush_high_simps(3) split: option.split)

lemma high_text:
  assumes "builder_ok b" "b_high b = Some h"
  shows "is_text (b_text b)" "is_high h" "b_wide b = None \<Longrightarrow> built b = units (b_text b) @ [h]"
    "b_wide b \<noteq> None \<Longrightarrow> ill_formed (built b)"
  using assms by (auto simp: builder_ok_def built_def)

lemma push_str_ok:
  assumes "builder_ok b" "is_text s" "s \<noteq> []"
  shows "builder_ok (push_str s b)"
proof -
  have "ill_formed (built b @ units s)" if "b_wide (flush_high b) \<noteq> None"
  proof (cases "b_high b")
    case None
    then show ?thesis using that assms(1) by (auto simp: builder_ok_def ill_formed_append)
  next
    case (Some h)
    note t = high_text [OF assms(1) Some]
    show ?thesis
    proof (cases "b_wide b = None")
      case True
      then show ?thesis using ill_formed_high_text [OF t(1,2) assms(2,3)] t(3) by simp
    next
      case False
      then show ?thesis using t(4) ill_formed_append by blast
    qed
  qed
  then show ?thesis using assms by (auto simp: builder_ok_def)
qed

lemma push_unit_built: "builder_ok b \<Longrightarrow> u < 0x10000 \<Longrightarrow> built (push_unit u b) = built b @ [u]"
proof -
  assume ok: "builder_ok b" and u: "u < 0x10000"
  consider "is_high u" | "is_low u" "b_high b = None" | h where "is_low u" "b_high b = Some h" | "\<not> is_high u" "\<not> is_low u"
    by (cases "b_high b") auto
  then show ?thesis
  proof cases
    case 1
    have "built ((flush_high b)\<lparr>b_high := Some u\<rparr>) = built (flush_high b) @ [u]"
      by (simp add: built_def del: flush_high_simps(3,4) split: option.split)
    then show ?thesis using 1 by (simp add: push_unit_def)
  next
    case 2
    then have "\<not> is_high u" by (auto simp: is_high_def is_low_def)
    then show ?thesis using 2 by (simp add: push_unit_def)
  next
    case (3 h)
    then have n: "\<not> is_high u" by (auto simp: is_high_def is_low_def)
    have "is_high h" using ok 3 by (simp add: builder_ok_def)
    moreover have "built (b\<lparr>b_high := None\<rparr>) @ [h] = built b"
      using 3 by (simp add: built_def split: option.split)
    ultimately show ?thesis using n 3 by (simp add: push_unit_def push_char_str encode_pair)
  next
    case 4
    then show ?thesis using u by (simp add: push_unit_def push_char_str encode_utf16_def)
  qed
qed

lemma push_unit_ok:
  assumes "builder_ok b" "u < 0x10000"
  shows "builder_ok (push_unit u b)"
proof -
  consider "is_high u" | "is_low u" "b_high b = None" | h where "is_low u" "b_high b = Some h" | "\<not> is_high u" "\<not> is_low u"
    by (cases "b_high b") auto
  then show ?thesis
  proof cases
    case 1
    then have low: "\<not> is_low u" by (auto simp: is_high_def is_low_def)
    have "ill_formed (built b @ [u])" if "b_wide (flush_high b) \<noteq> None"
    proof (cases "b_high b")
      case None
      then show ?thesis using that assms(1) by (auto simp: builder_ok_def ill_formed_append)
    next
      case (Some h)
      note t = high_text [OF assms(1) Some]
      show ?thesis
      proof (cases "b_wide b = None")
        case True
        then show ?thesis using ill_formed_high [OF t(1,2) low, of "[]"] t(3) by simp
      next
        case False
        then show ?thesis using t(4) ill_formed_append by blast
      qed
    qed
    then show ?thesis using 1 assms push_unit_built [OF assms] by (auto simp: builder_ok_def push_unit_def)
  next
    case 2
    then have n: "\<not> is_high u" by (auto simp: is_high_def is_low_def)
    have "ill_formed (built b @ [u])"
    proof (cases "b_wide b")
      case None
      then have "built b = units (b_text b)" using 2 by (simp add: built_def)
      then show ?thesis using assms(1) 2(1) ill_formed_low [of "b_text b" u "[]"] by (simp add: builder_ok_def)
    next
      case (Some w)
      then show ?thesis using assms(1) ill_formed_append by (auto simp: builder_ok_def)
    qed
    then show ?thesis using 2 n assms(1) push_unit_built [OF assms]
      by (auto simp: builder_ok_def push_unit_def) (auto simp: widen_push_def)
  next
    case (3 h)
    then have n: "\<not> is_high u" by (auto simp: is_high_def is_low_def)
    define b' where "b' = b\<lparr>b_high := None\<rparr>"
    have eq: "push_unit u b = push_str [pair_scalar h u] b'" using 3 n by (simp add: push_unit_def push_char_str b'_def)
    have "b_high b' = None" "b_wide b' = b_wide b" "b_text b' = b_text b" by (simp_all add: b'_def)
    moreover have "is_scalar (pair_scalar h u)" using scalar_pair [of h u] high_text(2) [OF assms(1)] 3 by blast
    moreover have "ill_formed (built b @ [u])" if "b_wide b \<noteq> None"
      using high_text(4) [OF assms(1) 3(2) that] by (rule ill_formed_append)
    ultimately show ?thesis using push_unit_built [OF assms] assms(1) unfolding builder_ok_def eq by auto
  next
    case 4
    then have "is_scalar u" using assms(2) by (auto simp: is_scalar_def is_high_def is_low_def)
    then show ?thesis using 4 assms push_str_ok [of b "[u]"] by (simp add: push_unit_def push_char_str)
  qed
qed

lemma push_piece_ok:
  "builder_ok b \<Longrightarrow> piece_ok p \<Longrightarrow> builder_ok (push_piece p b) \<and> built (push_piece p b) = built b @ piece_units p"
  by (cases p) (auto simp: push_char_str push_str_ok push_unit_ok push_unit_built)

lemma push_pieces_ok:
  "builder_ok b \<Longrightarrow> list_all piece_ok ps \<Longrightarrow>
    builder_ok (fold push_piece ps b) \<and> built (fold push_piece ps b) = built b @ concat (map piece_units ps)"
  by (induction ps arbitrary: b) (auto simp: push_piece_ok)

lemma finish_built: "builder_ok b \<Longrightarrow> finish_builder b = read_units (built b)"
proof -
  assume ok: "builder_ok b"
  show ?thesis
  proof (cases "b_high b")
    case None
    show ?thesis
    proof (cases "b_wide b")
      case w: None
      then have "built b = units (b_text b)" using None by (simp add: built_def)
      then show ?thesis using ok None w by (simp add: finish_builder_def builder_ok_def read_units_text)
    next
      case (Some w)
      then have "decode_units (built b) = None" "built b = w"
        using ok None ill_formed_decode by (auto simp: builder_ok_def built_def)
      then show ?thesis using None Some by (simp add: finish_builder_def read_units_def)
    qed
  next
    case (Some h)
    note t = high_text [OF ok Some]
    have "decode_units (built b) = None"
      using t ill_formed_decode by (cases "b_wide b = None") auto
    then show ?thesis using Some by (simp add: finish_builder_def read_units_def)
  qed
qed

lemma new_builder_ok: "is_text t \<Longrightarrow> builder_ok (new_builder t) \<and> built (new_builder t) = units t"
  by (simp add: builder_ok_def new_builder_def built_def)

lemma builder_reads:
  "is_text t \<Longrightarrow> list_all piece_ok ps \<Longrightarrow>
    finish_builder (fold push_piece ps (new_builder t)) = read_units (units t @ concat (map piece_units ps))"
  using push_pieces_ok [of "new_builder t" ps] finish_built new_builder_ok by simp

end
