(* ===== verification/JsonNumber.thy ===== *)
theory JsonNumber
  imports Float64 JsonText "HOL-Library.Log_Nat"
begin

text \<open>
  Numbers of the JSON crate (\<open>crates/json/src/number.rs\<close> and \<open>parse_decimal\<close> of \<open>lexer.rs\<close>): hex
  literals as the nearest double, and the fast path of decimal ones. What Rust defines about doubles
  is here as rounding to nearest, ties to even: the cast of an integer, the product with a power of
  two, and the parse of a decimal literal.
\<close>

section \<open>Rounding to a double\<close>

definition half_even :: "nat \<Rightarrow> nat \<Rightarrow> nat" where
  "half_even n d =
     (let k = n div d; r = n mod d in if 2 * r > d \<or> 2 * r = d \<and> odd k then k + 1 else k)"

text \<open>\<open>n / d\<close> is at least \<open>2 ^ e\<close>.\<close>

definition ge_pow2 :: "nat \<Rightarrow> nat \<Rightarrow> int \<Rightarrow> bool" where
  "ge_pow2 n d e \<longleftrightarrow> d * 2 ^ nat e \<le> n * 2 ^ nat (- e)"

definition binary_exponent :: "nat \<Rightarrow> nat \<Rightarrow> int" where
  "binary_exponent n d =
     (let e = int (floorlog 2 n) - int (floorlog 2 d) in if ge_pow2 n d e then e else e - 1)"

definition f64_inf :: nat where "f64_inf = 2047 * 2 ^ 52"

definition f64_nearest :: "nat \<Rightarrow> nat \<Rightarrow> f64" where
  "f64_nearest n d =
     (if n = 0 then 0
      else
        (let e = max (binary_exponent n d) (- 1022);
             q = e - 52;
             m = half_even (n * 2 ^ nat (- q)) (d * 2 ^ nat q)
         in word_of_nat (min f64_inf (nat (e + 1022) * 2 ^ 52 + m))))"

text \<open>A finite double without its sign is an integer times a power of two.\<close>

definition f64_finite :: "f64 \<Rightarrow> bool" where
  "f64_finite x \<longleftrightarrow> unat x mod 2 ^ 63 < f64_inf"

definition f64_parts :: "f64 \<Rightarrow> nat \<times> int" where
  "f64_parts x =
     (let b = unat x mod 2 ^ 63; e = b div 2 ^ 52; f = b mod 2 ^ 52
      in if e = 0 then (f, - 1074) else (2 ^ 52 + f, int e - 1075))"

text \<open>\<open>x * 2f64.powi(k)\<close> for a positive finite \<open>x\<close> and a \<open>k\<close> whose power is finite.\<close>

definition f64_times_pow2 :: "f64 \<Rightarrow> int \<Rightarrow> f64" where
  "f64_times_pow2 x k =
     (let (m, e) = f64_parts x in f64_nearest (m * 2 ^ nat (e + k)) (2 ^ nat (- (e + k))))"

definition f64_neg :: "f64 \<Rightarrow> f64" where "f64_neg x = xor x (2 ^ 63)"

section \<open>Hex literals\<close>

definition hex_value :: "scalar \<Rightarrow> nat option" where
  "hex_value c =
     (if 0x30 \<le> c \<and> c \<le> 0x39 then Some (c - 0x30)
      else if 0x61 \<le> c \<and> c \<le> 0x66 then Some (c - 0x61 + 10)
      else if 0x41 \<le> c \<and> c \<le> 0x46 then Some (c - 0x41 + 10)
      else None)"

record hex_kept =
  kept :: u64
  dropped :: int
  sticky :: bool

definition keep_digit :: "nat \<Rightarrow> hex_kept \<Rightarrow> hex_kept" where
  "keep_digit v k =
     (if drop_bit 60 (kept k) = 0 then k\<lparr>kept := or (push_bit 4 (kept k)) (word_of_nat v)\<rparr>
      else k\<lparr>sticky := sticky k \<or> v \<noteq> 0, dropped := min (dropped k + 4) (2 ^ 31 - 1)\<rparr>)"

definition leading_zeros :: "u64 \<Rightarrow> nat" where
  "leading_zeros w = 64 - floorlog 2 (unat w)"

text \<open>Scaling by powers of two a double can hold.\<close>

function scale_loop :: "f64 \<Rightarrow> int \<Rightarrow> f64" where
  "scale_loop value exponent =
     (if exponent \<noteq> 0 \<and> f64_finite value then
        (let step = max (- 1000) (min 1000 exponent)
         in scale_loop (f64_times_pow2 value step) (exponent - step))
      else value)"
  by pat_completeness auto
termination by (relation "measure (\<lambda>(_, e). nat \<bar>e\<bar>)") auto

declare scale_loop.simps [simp del]

definition round_mantissa :: "u64 \<Rightarrow> bool \<Rightarrow> u64" where
  "round_mantissa normalized stick =
     (let mantissa = drop_bit 11 normalized; rest = and normalized 0x7FF
      in if rest > 0x400 \<or> rest = 0x400 \<and> (stick \<or> and mantissa 1 = 1) then mantissa + 1 else mantissa)"

definition hex_to_f64 :: "nat list \<Rightarrow> f64" where
  "hex_to_f64 digits =
     (let k = fold keep_digit digits \<lparr>kept = 0, dropped = 0, sticky = False\<rparr>
      in if kept k = 0 then 0
         else
           (let shift = leading_zeros (kept k);
                mantissa = round_mantissa (push_bit shift (kept k)) (sticky k)
            in scale_loop (f64_nearest (unat mantissa) 1) (dropped k - int shift + 11)))"

definition hex_number :: "nat list \<Rightarrow> nat" where
  "hex_number = foldl (\<lambda>n v. 16 * n + v) 0"

section \<open>Decimal literals\<close>

definition is_digit :: "scalar \<Rightarrow> bool" where
  "is_digit c \<longleftrightarrow> 0x30 \<le> c \<and> c \<le> 0x39"

definition digits_value :: "utext \<Rightarrow> nat" where
  "digits_value = foldl (\<lambda>n c. 10 * n + (c - 0x30)) 0"

text \<open>\<open>str::parse::<f64>\<close> of an unsigned literal: the double nearest to its value.\<close>

definition exponent_value :: "utext \<Rightarrow> int" where
  "exponent_value e =
     (case e of
        [] \<Rightarrow> 0
      | _ # ds \<Rightarrow>
          if starts 0x2D ds then - int (digits_value (tl ds))
          else if starts 0x2B ds then int (digits_value (tl ds))
          else int (digits_value ds))"

definition decimal_parts :: "utext \<Rightarrow> utext \<times> utext \<times> utext" where
  "decimal_parts lit =
     (let whole = takeWhile is_digit lit; r = drop (length whole) lit;
          fraction = (if starts 0x2E r then takeWhile is_digit (tl r) else []);
          e = (if starts 0x2E r then dropWhile is_digit (tl r) else r)
      in (whole, fraction, e))"

definition std_parse :: "utext \<Rightarrow> f64" where
  "std_parse lit =
     (let (whole, fraction, e) = decimal_parts lit; k = exponent_value e - int (length fraction)
      in f64_nearest (digits_value (whole @ fraction) * 10 ^ nat k) (10 ^ nat (- k)))"

definition std_parse_signed :: "utext \<Rightarrow> f64" where
  "std_parse_signed lit =
     (if starts 0x2D lit then f64_neg (std_parse (tl lit)) else std_parse lit)"

definition parse_decimal :: "utext \<Rightarrow> f64" where
  "parse_decimal lit =
     (let (negative, digits) = (case strip_prefix [0x2D] lit of Some rest \<Rightarrow> (True, rest) | None \<Rightarrow> (False, lit))
      in if text_len digits \<le> 15 \<and> list_all is_digit digits then
           (let n = fold (\<lambda>b (n :: u64). n * 10 + word_of_nat (b - 0x30)) digits 0;
                value = f64_nearest (unat n) 1
            in if negative then f64_neg value else value)
         else std_parse_signed lit)"

section \<open>Rounding depends on the value only\<close>

lemma half_even_scale: "0 < c \<Longrightarrow> half_even (n * c) (d * c) = half_even n d"
proof -
  assume c: "0 < c"
  have "2 * (n mod d * c) = 2 * (n mod d) * c" by simp
  then show ?thesis using c by (simp add: half_even_def Let_def mult_mod_right [symmetric])
qed

lemma half_even_cong:
  assumes "n * d' = n' * d" "0 < d" "0 < d'"
  shows "half_even n d = half_even n' d'"
proof -
  have "half_even n d = half_even (n * d') (d * d')" by (rule half_even_scale [symmetric]) (rule assms(3))
  also have "\<dots> = half_even (n' * d) (d' * d)" unfolding assms(1) mult.commute [of d d'] ..
  also have "\<dots> = half_even n' d'" using assms by (simp add: half_even_scale)
  finally show ?thesis .
qed

lemma half_even_whole: "0 < c \<Longrightarrow> half_even (m * c) c = m"
  by (simp add: half_even_def)

lemma half_even_bounds: "0 < d \<Longrightarrow> a * d \<le> n \<Longrightarrow> n < b * d \<Longrightarrow> a \<le> half_even n d \<and> half_even n d \<le> b"
proof -
  assume a: "0 < d" "a * d \<le> n" "n < b * d"
  have "a \<le> n div d" using a div_le_mono [of "a * d" n d] by simp
  moreover have "n div d < b" using a by (simp add: less_mult_imp_div_less)
  ultimately show ?thesis by (auto simp: half_even_def Let_def)
qed

section \<open>Integers as doubles\<close>

text \<open>The double \<open>m * 2 ^ j\<close> for a significand of 53 bits (or the next power of two).\<close>

definition f64_enc :: "nat \<Rightarrow> int \<Rightarrow> f64" where
  "f64_enc m j = word_of_nat (min f64_inf (nat (j + 1074) * 2 ^ 52 + m))"

lemma floorlog_pow2: "2 ^ k \<le> n \<Longrightarrow> n < 2 ^ (k + 1) \<Longrightarrow> floorlog 2 n = k + 1"
proof -
  assume n: "2 ^ k \<le> n" "n < 2 ^ (k + 1)"
  then have pos: "0 < n" by (metis gr0I not_exp_less_eq_0_int numeral_2_eq_2 power_not_zero le_zero_eq nat.simps(3))
  from floorlog_bounds [OF pos, of 2] have f: "2 ^ (floorlog 2 n - 1) \<le> n" "n < 2 ^ floorlog 2 n" by simp_all
  have "(2::nat) ^ k < 2 ^ floorlog 2 n" "(2::nat) ^ (floorlog 2 n - 1) < 2 ^ (k + 1)" using n f by linarith+
  then have "k < floorlog 2 n" "floorlog 2 n - 1 < k + 1"
    by (simp_all only: power_strict_increasing_iff)
  then show ?thesis by simp
qed

lemma floorlog_range: "0 < n \<Longrightarrow> 2 ^ (floorlog 2 n - 1) \<le> n \<and> n < 2 ^ floorlog 2 n \<and> 1 \<le> floorlog 2 n"
  using floorlog_bounds [of n 2] by (cases "floorlog 2 n") auto

lemma floorlog_one: "floorlog 2 1 = 1"
  using floorlog_pow2 [of 0 1] by simp

lemma nearest_nat:
  assumes "0 < n"
  shows "f64_nearest n 1 = f64_enc (half_even (n * 2 ^ (53 - floorlog 2 n)) (2 ^ (floorlog 2 n - 53))) (int (floorlog 2 n) - 53)"
proof -
  define l where "l = floorlog 2 n"
  have l: "2 ^ (l - 1) \<le> n" "1 \<le> l" using floorlog_range [OF assms] by (simp_all add: l_def)
  have "nat (int l - 1) = l - 1" using l by simp
  moreover have "nat (- (int l - 1)) = 0" using l by simp
  ultimately have "ge_pow2 n 1 (int l - 1)" using l by (simp add: ge_pow2_def)
  then have e: "binary_exponent n 1 = int l - 1"
    by (simp add: binary_exponent_def floorlog_one [unfolded One_nat_def] l_def Let_def)
  have "max (int l - 1) (- 1022) = int l - 1" using l by simp
  moreover have "nat (- (int l - 1 - 52)) = 53 - l" "nat (int l - 1 - 52) = l - 53"
    "nat (int l - 1 + 1022) = nat (int l - 53 + 1074)" using l by auto
  ultimately show ?thesis using assms
    by (simp only: f64_nearest_def e Let_def f64_enc_def l_def [symmetric] mult_1) simp
qed

lemma nearest_exact:
  assumes m: "2 ^ 52 \<le> m" "m < 2 ^ 53" and j: "- 1074 \<le> j"
  shows "f64_nearest (m * 2 ^ nat j) (2 ^ nat (- j)) = f64_enc m j"
proof -
  define a where "a = nat j"
  define b where "b = nat (- j)"
  have ab: "j = int a - int b" "a = 0 \<or> b = 0" by (auto simp: a_def b_def)
  have "2 ^ (52 + a) \<le> m * 2 ^ a" "m * 2 ^ a < 2 ^ (52 + a + 1)"
    using mult_le_mono1 [OF m(1), of "2 ^ a"] mult_less_mono1 [OF m(2), of "2 ^ a"] by (simp_all add: power_add)
  then have n: "floorlog 2 (m * 2 ^ a) = 52 + a + 1" by (rule floorlog_pow2)
  have d: "floorlog 2 (2 ^ b) = b + 1" by (rule floorlog_pow2) simp_all
  have "2 ^ b * 2 ^ nat (52 + j) \<le> m * 2 ^ a * 2 ^ nat (- (52 + j))"
  proof (cases "b \<le> 52")
    case True
    then have "nat (52 + j) + b = 52 + a" "nat (- (52 + j)) = 0" using ab by auto
    then have "2 ^ b * 2 ^ nat (52 + j) = 2 ^ 52 * (2::nat) ^ a" "(2::nat) ^ nat (- (52 + j)) = 1"
      by (simp_all only: power_add [symmetric] add.commute) simp_all
    then show ?thesis using m by simp
  next
    case False
    then have "b = 52 + nat (- (52 + j))" "nat (52 + j) = 0" "a = 0" using ab by auto
    then have "(2::nat) ^ b = 2 ^ 52 * 2 ^ nat (- (52 + j))" "(2::nat) ^ nat (52 + j) = 1" "(2::nat) ^ a = 1"
      by (simp_all only: power_add power_0)
    then show ?thesis using m by simp
  qed
  then have "ge_pow2 (m * 2 ^ a) (2 ^ b) (52 + j)" by (simp add: ge_pow2_def)
  moreover have "int (floorlog 2 (m * 2 ^ a)) - int (floorlog 2 (2 ^ b)) = 52 + j" using ab by (simp add: n d)
  ultimately have e: "binary_exponent (m * 2 ^ a) (2 ^ b) = 52 + j" by (simp add: binary_exponent_def)
  have h: "half_even (m * 2 ^ a * 2 ^ b) (2 ^ b * 2 ^ a) = m"
    using half_even_whole [of "2 ^ b * 2 ^ a" m] by (simp add: ac_simps)
  have "max (52 + j) (- 1022) = 52 + j" "52 + j - 52 = j" "nat (52 + j + 1022) = nat (j + 1074)" using j by auto
  moreover have "m * 2 ^ a \<noteq> 0" using m by simp
  ultimately show ?thesis using h
    by (simp only: f64_nearest_def Let_def e f64_enc_def a_def [symmetric] b_def [symmetric] if_False)
qed

lemma enc_double: "- 1074 \<le> j \<Longrightarrow> f64_enc (2 ^ 53) j = f64_enc (2 ^ 52) (j + 1)"
proof -
  assume "- 1074 \<le> j"
  then have "nat (j + 1 + 1074) = nat (j + 1074) + 1" by simp
  then have "nat (j + 1074) * 2 ^ 52 + 2 ^ 53 = nat (j + 1 + 1074) * 2 ^ 52 + 2 ^ 52" by (simp only:) simp
  then show ?thesis by (simp only: f64_enc_def)
qed

lemma enc_parts:
  assumes "2 ^ 52 \<le> m" "m < 2 ^ 53" "- 1074 \<le> j"
  shows "f64_finite (f64_enc m j) \<longleftrightarrow> nat (j + 1074) * 2 ^ 52 + m < f64_inf"
    and "f64_finite (f64_enc m j) \<Longrightarrow> f64_parts (f64_enc m j) = (m, j)"
proof -
  define b where "b = nat (j + 1074) * 2 ^ 52 + m"
  have u: "unat (f64_enc m j) = min f64_inf b"
  proof -
    have "min f64_inf b < 2 ^ 64" by (simp add: f64_inf_def)
    then show ?thesis by (simp add: f64_enc_def b_def unat_of_nat del: of_nat_min of_nat_add)
  qed
  moreover have "min f64_inf b < 2 ^ 63" by (simp add: f64_inf_def)
  ultimately have v: "unat (f64_enc m j) mod 2 ^ 63 = min f64_inf b" by simp
  then show f: "f64_finite (f64_enc m j) \<longleftrightarrow> nat (j + 1074) * 2 ^ 52 + m < f64_inf"
    by (simp only: f64_finite_def b_def [symmetric]) auto
  assume "f64_finite (f64_enc m j)"
  then have w: "unat (f64_enc m j) mod 2 ^ 63 = b" using f v by (simp add: b_def)
  define r where "r = m - 2 ^ 52"
  have "b = (nat (j + 1074) + 1) * 2 ^ 52 + r" "r < 2 ^ 52" using assms by (simp_all add: b_def r_def)
  then have "b div 2 ^ 52 = nat (j + 1074) + 1" "b mod 2 ^ 52 = r"
    by (simp_all only: div_mult_self3 mod_mult_self3 div_less mod_less zero_less_numeral power_not_zero add_0_right numeral_neq_zero not_False_eq_True)
  then show "f64_parts (f64_enc m j) = (m, j)"
    unfolding f64_parts_def w Let_def using assms by (simp add: r_def)
qed

lemma times_enc:
  assumes "2 ^ 52 \<le> m" "m < 2 ^ 53" "- 1074 \<le> j" "- 1074 \<le> j + k" "f64_finite (f64_enc m j)"
  shows "f64_times_pow2 (f64_enc m j) k = f64_enc m (j + k)"
  using enc_parts(2) [OF assms(1-3,5)] nearest_exact [OF assms(1,2,4)] by (simp add: f64_times_pow2_def)

lemma scale_loop_enc:
  assumes m: "2 ^ 52 \<le> m" "m < 2 ^ 53"
  shows "- 1074 \<le> j \<Longrightarrow> - 1074 \<le> j + k \<Longrightarrow> 0 \<le> k \<or> f64_finite (f64_enc m j) \<Longrightarrow>
    scale_loop (f64_enc m j) k = f64_enc m (j + k)"
proof (induction "nat \<bar>k\<bar>" arbitrary: j k rule: less_induct)
  case less
  show ?case
  proof (cases "k \<noteq> 0 \<and> f64_finite (f64_enc m j)")
    case True
    define step where "step = max (- 1000) (min 1000 k)"
    have s: "nat \<bar>k - step\<bar> < nat \<bar>k\<bar>" "- 1074 \<le> j + step" "0 \<le> k \<Longrightarrow> 0 \<le> k - step" "k < 0 \<Longrightarrow> step < 0"
      using True less.prems by (auto simp: step_def)
    have "0 \<le> k - step \<or> f64_finite (f64_enc m (j + step))"
    proof (cases "0 \<le> k")
      case False
      then have "nat (j + step + 1074) \<le> nat (j + 1074)" using s(4) by simp
      then have "nat (j + step + 1074) * 2 ^ 52 \<le> nat (j + 1074) * 2 ^ 52" by (rule mult_le_mono1)
      then show ?thesis using True enc_parts(1) [OF m less.prems(1)] enc_parts(1) [OF m s(2)] by linarith
    qed (use s in simp)
    then have "scale_loop (f64_enc m (j + step)) (k - step) = f64_enc m (j + k)"
      using less.hyps [of "k - step" "j + step"] s less.prems by simp
    then show ?thesis using True times_enc [OF m less.prems(1) s(2)]
      by (subst scale_loop.simps) (simp add: step_def [symmetric] Let_def)
  next
    case False
    show ?thesis
    proof (cases "k = 0")
      case True
      then show ?thesis by (subst scale_loop.simps) simp
    next
      case k: False
      then have "\<not> f64_finite (f64_enc m j)" "0 \<le> k" using False less.prems by auto
      moreover from this have "f64_inf \<le> nat (j + k + 1074) * 2 ^ 52 + m"
      proof -
        have "nat (j + 1074) \<le> nat (j + k + 1074)" using \<open>0 \<le> k\<close> by simp
        then have "nat (j + 1074) * 2 ^ 52 \<le> nat (j + k + 1074) * 2 ^ 52" by (rule mult_le_mono1)
        then show ?thesis using \<open>\<not> f64_finite (f64_enc m j)\<close> enc_parts(1) [OF m less.prems(1)] by linarith
      qed
      ultimately show ?thesis using enc_parts(1) [OF m less.prems(1)]
        by (subst scale_loop.simps) (simp add: f64_enc_def min_absorb1)
    qed
  qed
qed

section \<open>Hex literals round to nearest\<close>

lemma unat_drop: "unat (drop_bit n (w :: u64)) = unat w div 2 ^ n"
  unfolding unat_drop_bit_eq by (rule drop_bit_eq_div)

lemma or_digit:
  assumes "unat (w :: u64) < 2 ^ 60" "v < 16"
  shows "unat (or (push_bit 4 w) (word_of_nat v)) = 16 * unat w + v"
proof -
  have "and (push_bit 4 w) (word_of_nat v :: u64) = 0"
  proof (rule bit_eqI)
    fix n
    have "n < 4" if "bit v n"
    proof (rule ccontr)
      assume "\<not> n < 4"
      then have "(2::nat) ^ 4 \<le> 2 ^ n" by (intro power_increasing) simp_all
      then have "v div 2 ^ n = 0" using assms(2) by simp
      then show False using that by (simp add: bit_iff_odd)
    qed
    then show "bit (and (push_bit 4 w) (word_of_nat v)) n = bit 0 n"
      by (auto simp: bit_simps)
  qed
  then have "or (push_bit 4 w) (word_of_nat v) = push_bit 4 w + word_of_nat v"
    using word_plus_and_or [of "push_bit 4 w" "word_of_nat v"] by simp
  also have "\<dots> = word_of_nat (16 * unat w + v)" by (simp add: push_bit_eq_mult mult.commute)
  finally have "or (push_bit 4 w) (word_of_nat v) = word_of_nat (16 * unat w + v)" .
  moreover have "16 * unat w + v < 2 ^ 64" using assms by simp
  then have "unat (word_of_nat (16 * unat w + v) :: u64) = 16 * unat w + v"
    by (simp add: unat_of_nat del: of_nat_add of_nat_mult)
  ultimately show ?thesis by (simp only:)
qed

definition keeps :: "hex_kept \<Rightarrow> nat \<Rightarrow> nat \<Rightarrow> nat \<Rightarrow> nat \<Rightarrow> bool" where
  "keeps k n low p count \<longleftrightarrow> n = unat (kept k) * 2 ^ p + low \<and> low < 2 ^ p \<and> (sticky k \<longleftrightarrow> low \<noteq> 0) \<and>
     dropped k = int p \<and> (0 < p \<longrightarrow> 2 ^ 60 \<le> unat (kept k)) \<and> p \<le> 4 * count"

lemma keep_digit_keeps:
  assumes k: "keeps k n low p count" and v: "v < 16" and c: "count + 1 < 2 ^ 29"
  shows "\<exists>low p. keeps (keep_digit v k) (16 * n + v) low p (count + 1)"
proof (cases "unat (kept k) < 2 ^ 60")
  case True
  then have "unat (drop_bit 60 (kept k)) = 0" unfolding unat_drop by simp
  then have d: "drop_bit 60 (kept k) = 0" by (simp add: unat_eq_zero)
  have "p = 0" using k True by (auto simp: keeps_def)
  then have "keeps (keep_digit v k) (16 * n + v) 0 0 (count + 1)"
    using k d or_digit [OF True v] by (auto simp: keeps_def keep_digit_def)
  then show ?thesis by blast
next
  case False
  then have "unat (drop_bit 60 (kept k)) \<noteq> 0" unfolding unat_drop by (simp add: div_eq_0_iff)
  then have d: "drop_bit 60 (kept k) \<noteq> 0" by auto
  have "min (int p + 4) (2 ^ 31 - 1) = int (p + 4)" using k c by (simp add: keeps_def)
  moreover have "16 * low + v < 2 ^ (p + 4)"
  proof -
    have "low + 1 \<le> 2 ^ p" using k by (simp add: keeps_def)
    then have "16 * (low + 1) \<le> 16 * 2 ^ p" by (rule mult_le_mono2)
    then show ?thesis using v by (simp add: power_add)
  qed
  ultimately have "keeps (keep_digit v k) (16 * n + v) (16 * low + v) (p + 4) (count + 1)"
    using k d False by (auto simp: keeps_def keep_digit_def power_add algebra_simps)
  then show ?thesis by blast
qed

lemma fold_keeps:
  "list_all (\<lambda>v. v < 16) vs \<Longrightarrow> keeps k n low p count \<Longrightarrow> count + length vs < 2 ^ 29 \<Longrightarrow>
    \<exists>low p. keeps (fold keep_digit vs k) (foldl (\<lambda>n v. 16 * n + v) n vs) low p (count + length vs)"
proof (induction vs arbitrary: k n low p count)
  case (Cons v vs)
  obtain l q where "keeps (keep_digit v k) (16 * n + v) l q (count + 1)"
    using keep_digit_keeps [OF Cons.prems(2), of v] Cons.prems by auto
  then show ?case using Cons.IH Cons.prems by fastforce
qed auto

lemma odd_unat: "odd (unat (w :: u64)) \<longleftrightarrow> and w 1 = 1"
  by (simp add: and_one_eq odd_iff_mod_2_eq_one word_unat_eq_iff unat_mod)

lemma round_mantissa_unat:
  assumes "2 ^ 63 \<le> unat w"
  shows "unat (round_mantissa w stick) =
    (if unat w mod 2 ^ 11 > 2 ^ 10 \<or> unat w mod 2 ^ 11 = 2 ^ 10 \<and> (stick \<or> odd (unat w div 2 ^ 11))
     then unat w div 2 ^ 11 + 1 else unat w div 2 ^ 11)"
proof -
  have "(0x7FF :: u64) = mask 11" by (simp add: mask_eq_exp_minus_1)
  then have rest: "unat (and w 0x7FF) = unat w mod 2 ^ 11"
    by (simp only: take_bit_eq_mask [symmetric] unsigned_take_bit_eq) (simp only: take_bit_eq_mod)
  have m: "unat (drop_bit 11 w) = unat w div 2 ^ 11" by (rule unat_drop)
  have "unat w div 2 ^ 11 < 2 ^ 53" using unat_bound [of w] by (simp add: less_mult_imp_div_less)
  then have plus: "unat (drop_bit 11 w + 1) = unat w div 2 ^ 11 + 1" using m by (simp add: unat_word_ariths)
  have gt: "and w 0x7FF > 0x400 \<longleftrightarrow> unat w mod 2 ^ 11 > 2 ^ 10" unfolding word_less_nat_alt rest by simp
  have eq: "and w 0x7FF = 0x400 \<longleftrightarrow> unat w mod 2 ^ 11 = 2 ^ 10" unfolding word_unat_eq_iff rest by simp
  have "and (drop_bit 11 w) 1 = 1 \<longleftrightarrow> odd (unat w div 2 ^ 11)" by (simp only: odd_unat [symmetric] m)
  then show ?thesis
    by (simp only: round_mantissa_def Let_def gt eq if_distrib [of unat] plus m)
qed

text \<open>The bits below the 53 kept, and those below the 64 read, decide the rounding together.\<close>

lemma half_even_split:
  assumes low: "low < c * 2 ^ p" and below: "n mod 2 ^ 11 < 2 ^ 10 \<Longrightarrow> n mod 2 ^ 11 * 2 ^ p + low < 2 ^ 10 * 2 ^ p"
    and room: "n mod 2 ^ 11 * 2 ^ p + low < 2 ^ 11 * 2 ^ p"
  shows "half_even (n * 2 ^ p + low) (2 ^ 11 * 2 ^ p) =
    (if n mod 2 ^ 11 > 2 ^ 10 \<or> n mod 2 ^ 11 = 2 ^ 10 \<and> (low \<noteq> 0 \<or> odd (n div 2 ^ 11))
     then n div 2 ^ 11 + 1 else n div 2 ^ 11)"
proof -
  define k where "k = n div 2 ^ 11"
  define r where "r = n mod 2 ^ 11"
  define q :: nat where "q = 2 ^ p"
  have q: "0 < q" by (simp add: q_def)
  have n: "n = k * 2 ^ 11 + r" by (simp add: k_def r_def)
  have "n * q + low = (r * q + low) + k * (2 ^ 11 * q)" by (simp add: n algebra_simps)
  then have d: "(n * q + low) div (2 ^ 11 * q) = k" "(n * q + low) mod (2 ^ 11 * q) = r * q + low"
    using room by (simp_all only: q_def [symmetric] r_def [symmetric] div_mult_self1 mod_mult_self1)
      (simp_all add: div_eq_0_iff)
  have "2 * (r * q + low) > 2 ^ 11 * q \<or> 2 * (r * q + low) = 2 ^ 11 * q \<and> odd k \<longleftrightarrow>
      r > 2 ^ 10 \<or> r = 2 ^ 10 \<and> (low \<noteq> 0 \<or> odd k)"
  proof (cases r "2 ^ 10 :: nat" rule: linorder_cases)
    case less
    then show ?thesis using below by (simp add: r_def q_def)
  next
    case greater
    define z where "z = r * q"
    have "1024 * q < z" using greater q by (simp add: z_def)
    then have "2048 * q < 2 * (r * q + low)" unfolding z_def [symmetric] by simp
    then show ?thesis using greater by simp
  qed auto
  then show ?thesis unfolding half_even_def Let_def q_def [symmetric] d k_def [symmetric] r_def [symmetric] by simp
qed

lemma step_up: "(c :: nat) dvd a \<Longrightarrow> c dvd b \<Longrightarrow> a < b \<Longrightarrow> a + c \<le> b"
proof -
  assume c: "c dvd a" "c dvd b" "a < b"
  then have "c dvd b - a" by (simp add: dvd_diff_nat)
  then show ?thesis using c(3) dvd_imp_le [of c "b - a"] by simp
qed

lemma kept_rounds:
  assumes k: "keeps k v low p count" and pos: "kept k \<noteq> 0"
  defines "s \<equiv> leading_zeros (kept k)"
  defines "m \<equiv> unat (round_mantissa (push_bit s (kept k)) (sticky k))"
  shows "f64_nearest v 1 = f64_enc m (int p - int s + 11)" "2 ^ 52 \<le> m" "m \<le> 2 ^ 53" "s \<le> 63"
proof -
  define w where "w = unat (kept k)"
  define l where "l = floorlog 2 w"
  have w: "0 < w" "w < 2 ^ 64" using pos unat_bound [of "kept k"] by (simp_all add: w_def unat_gt_0)
  have l: "2 ^ (l - 1) \<le> w" "w < 2 ^ l" "1 \<le> l" using floorlog_range [OF w(1)] by (simp_all add: l_def)
  have "l \<le> 64"
  proof (rule ccontr)
    assume "\<not> l \<le> 64"
    then have "(2::nat) ^ 64 \<le> 2 ^ (l - 1)" by (intro power_increasing) simp_all
    then show False using l w by simp
  qed
  then have s: "s = 64 - l" "s + l = 64" by (simp_all add: s_def leading_zeros_def w_def [symmetric] l_def)
  then show "s \<le> 63" using l(3) by simp
  define n where "n = w * 2 ^ s"
  have "n < 2 ^ l * 2 ^ s" using l(2) by (simp add: n_def)
  then have n64: "n < 2 ^ 64" using s by (simp add: power_add [symmetric] add.commute)
  have "2 ^ (l - 1) * 2 ^ s \<le> n" using l(1) by (simp add: n_def)
  moreover have "l - 1 + s = 63" using s l by simp
  ultimately have n63: "2 ^ 63 \<le> n" by (simp only: power_add [symmetric])
  have un: "unat (push_bit s (kept k)) = n"
    unfolding unsigned_push_bit_eq using n64 by (simp add: push_bit_eq_mult take_bit_nat_eq_self n_def w_def)
  have v: "v = w * 2 ^ p + low" and low: "low < 2 ^ p" and st: "sticky k \<longleftrightarrow> low \<noteq> 0"
    and top: "0 < p \<Longrightarrow> 2 ^ 60 \<le> w" using k by (auto simp: keeps_def w_def)
  have room: "n mod 2 ^ 11 * 2 ^ p + low * 2 ^ s < b * 2 ^ p" if b: "n mod 2 ^ 11 < b" "2 ^ 10 dvd b" for b
  proof (cases "p = 0")
    case False
    have "\<not> w < 2 ^ 60" using top False by simp
    then have "\<not> l \<le> 60" using l(2) power_increasing [of l 60 "2::nat"] by linarith
    then have "s \<le> 3" using s by simp
    then have d: "(2::nat) ^ s dvd 2 ^ 10" "(2::nat) ^ s dvd 2 ^ 11" by (intro le_imp_power_dvd; simp)+
    have "2 ^ s dvd n mod 2 ^ 11" using d by (simp add: dvd_mod n_def)
    then have "n mod 2 ^ 11 + 2 ^ s \<le> b" using b d dvd_trans step_up by blast
    then have "(n mod 2 ^ 11 + 2 ^ s) * 2 ^ p \<le> b * 2 ^ p" by (rule mult_le_mono1)
    moreover have "low * 2 ^ s < 2 ^ p * 2 ^ s" using low by simp
    ultimately show ?thesis by (simp only: distrib_right mult.commute [of "2 ^ p" "2 ^ s"])
  qed (use low b in simp)
  have "m = half_even (n * 2 ^ p + low * 2 ^ s) (2 ^ 11 * 2 ^ p)"
  proof -
    have "low * 2 ^ s < 2 ^ s * 2 ^ p" using low by (simp add: mult.commute)
    from half_even_split [OF this room room] show ?thesis
      unfolding m_def using round_mantissa_unat [of "push_bit s (kept k)" "sticky k", unfolded un, OF n63]
      by (simp add: st)
  qed
  also have "\<dots> = half_even (v * 2 ^ (53 - (l + p))) (2 ^ (l + p - 53))"
  proof (rule half_even_cong)
    have "s + (l + p - 53) = 53 - (l + p) + (11 + p)" using s by simp
    then have "v * 2 ^ s * 2 ^ (l + p - 53) = v * 2 ^ (53 - (l + p)) * (2 ^ 11 * 2 ^ p)"
      by (simp only: mult.assoc power_add [symmetric])
    moreover have "n * 2 ^ p + low * 2 ^ s = v * 2 ^ s" by (simp add: v n_def algebra_simps)
    ultimately show "(n * 2 ^ p + low * 2 ^ s) * 2 ^ (l + p - 53) = v * 2 ^ (53 - (l + p)) * (2 ^ 11 * 2 ^ p)"
      by (simp only:)
  qed simp_all
  finally have m: "m = half_even (v * 2 ^ (53 - (l + p))) (2 ^ (l + p - 53))" .
  have "2 ^ (l - 1) * 2 ^ p \<le> v" using mult_le_mono1 [OF l(1), of "2 ^ p"] v by linarith
  moreover have "v < 2 ^ l * 2 ^ p"
  proof -
    have "(w + 1) * 2 ^ p \<le> 2 ^ l * 2 ^ p" using l(2) by (intro mult_le_mono1) simp
    then show ?thesis using v low by simp
  qed
  ultimately have vb: "2 ^ (l - 1 + p) \<le> v" "v < 2 ^ (l - 1 + p + 1)" using l(3) by (simp_all add: power_add [symmetric])
  then have fv: "floorlog 2 v = l + p" using floorlog_pow2 l(3) by fastforce
  have "0 < v" using vb(1) by (metis gr0I not_exp_less_eq_0_int not_one_le_zero one_le_numeral one_le_power order_trans)
  from nearest_nat [OF this] show "f64_nearest v 1 = f64_enc m (int p - int s + 11)"
    using s by (simp add: fv m [symmetric] add.commute)
  have "2 ^ 52 * 2 ^ (l + p - 53) \<le> v * 2 ^ (53 - (l + p)) \<and> v * 2 ^ (53 - (l + p)) < 2 ^ 53 * 2 ^ (l + p - 53)"
  proof (cases "l + p \<le> 53")
    case True
    have "2 ^ (l - 1 + p) * 2 ^ (53 - (l + p)) \<le> v * 2 ^ (53 - (l + p))" using vb(1) by simp
    moreover have "v * 2 ^ (53 - (l + p)) < 2 ^ (l - 1 + p + 1) * 2 ^ (53 - (l + p))" using vb(2) by simp
    moreover have "l - 1 + p + (53 - (l + p)) = 52" "l - 1 + p + 1 + (53 - (l + p)) = 53" "l + p - 53 = 0" using True l(3) by auto
    ultimately show ?thesis by (simp only: power_add [symmetric] power_0 mult_1_right)
  next
    case False
    then have "l - 1 + p = 52 + (l + p - 53)" "l - 1 + p + 1 = 53 + (l + p - 53)" "53 - (l + p) = 0" using l(3) by auto
    then show ?thesis using vb by (simp only: power_add power_0 mult_1_right)
  qed
  then show "2 ^ 52 \<le> m" "m \<le> 2 ^ 53"
    using half_even_bounds [of "2 ^ (l + p - 53)" "2 ^ 52" "v * 2 ^ (53 - (l + p))" "2 ^ 53"] by (simp_all add: m)
qed

lemma enc_from_nearest:
  assumes "2 ^ 52 \<le> m" "m \<le> 2 ^ 53" "- 1000 \<le> e"
  shows "scale_loop (f64_nearest m 1) e = f64_enc m e"
proof (cases "m = 2 ^ 53")
  case False
  then have m: "m < 2 ^ 53" using assms by simp
  have "f64_finite (f64_enc m 0)" using enc_parts(1) [OF assms(1) m, of 0] m by (simp add: f64_inf_def)
  moreover have "f64_nearest m 1 = f64_enc m 0" using nearest_exact [OF assms(1) m, of 0] by simp
  ultimately show ?thesis using scale_loop_enc [OF assms(1) m, of 0 e] assms(3) by simp
next
  case True
  have "f64_nearest (2 ^ 52 * 2 ^ nat 1) (2 ^ nat (- 1)) = f64_enc (2 ^ 52) 1" by (rule nearest_exact) simp_all
  then have n: "f64_nearest m 1 = f64_enc (2 ^ 52) 1" by (simp add: True)
  have "f64_finite (f64_enc (2 ^ 52) 1)" using enc_parts(1) [of "2 ^ 52" 1] by (simp add: f64_inf_def)
  then have "scale_loop (f64_enc (2 ^ 52) 1) e = f64_enc (2 ^ 52) (1 + e)"
    using assms(3) by (intro scale_loop_enc) simp_all
  then show ?thesis using enc_double [of e] assms(3) n by (simp add: True add.commute)
qed

text \<open>
  C27: hex literals read as the nearest double. However many digits (up to 2^29) are dropped below the
  64 bits kept, the double answered is the one nearest to the exact value, ties to even, with the
  sticky bit deciding ties, and infinity past the largest double.
\<close>

theorem hex_nearest:
  assumes "list_all (\<lambda>v. v < 16) vs" "length vs < 2 ^ 29"
  shows "hex_to_f64 vs = f64_nearest (hex_number vs) 1"
proof -
  have "keeps \<lparr>kept = 0, dropped = 0, sticky = False\<rparr> 0 0 0 0" by (simp add: keeps_def)
  from fold_keeps [OF assms(1) this] assms(2) obtain low p where
    k: "keeps (fold keep_digit vs \<lparr>kept = 0, dropped = 0, sticky = False\<rparr>) (hex_number vs) low p (length vs)"
    by (auto simp: hex_number_def)
  define f where "f = fold keep_digit vs \<lparr>kept = 0, dropped = 0, sticky = False\<rparr>"
  show ?thesis
  proof (cases "kept f = 0")
    case True
    then have "hex_number vs = 0" using k by (cases "p = 0") (auto simp: keeps_def f_def)
    then show ?thesis using True by (simp add: hex_to_f64_def f_def [symmetric] Let_def f64_nearest_def)
  next
    case False
    note r = kept_rounds [OF k [folded f_def] False]
    have "dropped f = int p" using k by (simp add: keeps_def f_def)
    then have "hex_to_f64 vs = scale_loop (f64_nearest (unat (round_mantissa (push_bit (leading_zeros (kept f)) (kept f)) (sticky f))) 1)
        (int p - int (leading_zeros (kept f)) + 11)"
      using False by (simp add: hex_to_f64_def f_def [symmetric] Let_def)
    also have "\<dots> = f64_nearest (hex_number vs) 1" using r by (subst enc_from_nearest) simp_all
    finally show ?thesis .
  qed
qed

text \<open>\<open>2 ^ 53 + 1\<close> is a tie, and the even neighbour is \<open>2 ^ 53\<close>.\<close>

theorem hex_nearest_witness:
  "hex_to_f64 [2, 0, 0, 0, 0, 0, 0, 0, 0, 0, 0, 0, 0, 1] = 0x4340000000000000"
proof -
  have n: "hex_number [2, 0, 0, 0, 0, 0, 0, 0, 0, 0, 0, 0, 0, 1] = 9007199254740993"
    by (simp add: hex_number_def)
  have "floorlog 2 9007199254740993 = 54" "floorlog 2 1 = 1" by (simp_all add: compute_floorlog)
  then have "binary_exponent 9007199254740993 1 = 53" by (simp add: binary_exponent_def ge_pow2_def)
  then have "f64_nearest 9007199254740993 1 = 0x4340000000000000"
    by (simp add: f64_nearest_def half_even_def f64_inf_def)
  then show ?thesis using hex_nearest [of "[2, 0, 0, 0, 0, 0, 0, 0, 0, 0, 0, 0, 0, 1]"] n by simp
qed

section \<open>The decimal fast path\<close>

lemma digits_takeWhile: "list_all is_digit ds \<Longrightarrow> takeWhile is_digit ds = ds"
  by (induction ds) auto

lemma fold_digits:
  assumes "list_all is_digit ds" "length ds \<le> 15"
  shows "unat (fold (\<lambda>b (n :: u64). n * 10 + word_of_nat (b - 0x30)) ds 0) = digits_value ds"
proof -
  have "fold (\<lambda>b (n :: u64). n * 10 + word_of_nat (b - 0x30)) ds (word_of_nat k) =
      word_of_nat (foldl (\<lambda>n c. 10 * n + (c - 0x30)) k ds)" for k
  proof (induction ds arbitrary: k)
    case (Cons d ds)
    have "word_of_nat k * 10 + word_of_nat (d - 0x30) = (word_of_nat (10 * k + (d - 0x30)) :: u64)" by simp
    then show ?case by (simp only: fold.simps foldl.simps comp_def Cons.IH)
  qed simp
  from this [of 0] have "fold (\<lambda>b (n :: u64). n * 10 + word_of_nat (b - 0x30)) ds 0 = word_of_nat (digits_value ds)"
    by (simp add: digits_value_def)
  moreover have "foldl (\<lambda>n c. 10 * n + (c - 0x30)) k ds < (k + 1) * 10 ^ length ds" if "list_all is_digit ds" for k
    using that
  proof (induction ds arbitrary: k)
    case (Cons d ds)
    then have "foldl (\<lambda>n c. 10 * n + (c - 0x30)) k (d # ds) < (10 * k + (d - 0x30) + 1) * 10 ^ length ds" by simp
    also have "\<dots> \<le> (10 * (k + 1)) * 10 ^ length ds" using Cons.prems by (intro mult_le_mono1) (auto simp: is_digit_def)
    finally show ?case by (simp add: algebra_simps)
  qed simp
  from this [OF assms(1), of 0] have "digits_value ds < 10 ^ length ds" by (simp add: digits_value_def)
  then have "digits_value ds < 10 ^ 15" using power_increasing [OF assms(2), of "10::nat"] by simp
  then have "digits_value ds < 2 ^ 64" by simp
  ultimately show ?thesis by (simp add: unat_of_nat)
qed

lemma parse_decimal_std: "parse_decimal lit = std_parse_signed lit"
proof -
  have fast: "std_parse ds = f64_nearest (digits_value ds) 1" if "list_all is_digit ds" for ds
    using that by (simp add: std_parse_def decimal_parts_def digits_takeWhile exponent_value_def)
  have len: "text_len ds = length ds" if "list_all is_digit ds" for ds
    using that by (induction ds) (auto simp: text_len_def len_utf8_def is_digit_def)
  have strip: "strip_prefix [0x2D] lit = (if starts 0x2D lit then Some (tl lit) else None)"
    by (cases lit) auto
  show ?thesis
    using fast len fold_digits by (auto simp: parse_decimal_def strip std_parse_signed_def)
qed

end
