(* ===== verification/JsonLexer.thy ===== *)
theory JsonLexer
  imports JsonNumber "HOL-Library.Sublist"
begin

text \<open>
  The scanners of JSONC and JSON5 (\<open>crates/json/src/lexer.rs\<close>, with the dialects, errors and positions
  of \<open>lib.rs\<close>). A lexer's state is the text from its position on; a scanner returns what it read with
  the text after it, or a message with the text from the offset the message is about. The Unicode
  tables of the \<open>unicode_ident\<close> crate are an argument.
\<close>

section \<open>Dialects and errors\<close>

datatype dialect = Jsonc | Json5

datatype expected = ValueExpected | NameExpected | ColonExpected | BraceExpected | BracketExpected

datatype json_message =
  CommentNotClosed
| StringNotClosed
| LineBreakInString
| ControlInString scalar
| InvalidEscape scalar
| HexDigitsNeeded nat
| InvalidNumber
| InvalidNameEscape
| UnexpectedEnd
| UnexpectedChar scalar
| TextAfterValue
| Expected expected "utext option"
| NameNotQuoted
| TooDeep

type_synonym lex_error = "json_message \<times> utext"

record json_error =
  e_message :: json_message
  e_offset :: nat
  e_line :: nat
  e_column :: nat

fun position_loop :: "dialect \<Rightarrow> nat \<Rightarrow> nat \<Rightarrow> utext \<Rightarrow> nat \<times> nat" where
  "position_loop d line column [] = (line, column)"
| "position_loop d line column (c # cs) =
     (if c = 0x0A \<or> c = 0x0D \<and> \<not> starts 0x0A cs \<or> (c = 0x2028 \<or> c = 0x2029) \<and> d = Json5
      then position_loop d (line + 1) 1 cs
      else if c \<noteq> 0x0D then position_loop d line (column + 1) cs
      else position_loop d line column cs)"

text \<open>The error for a message about the rest \<open>snd err\<close> of \<open>t\<close>.\<close>

definition error_at :: "dialect \<Rightarrow> utext \<Rightarrow> lex_error \<Rightarrow> json_error" where
  "error_at d t err =
     (let before = take (length t - length (snd err)) t;
          (line, column) = position_loop d 1 1 before
      in \<lparr>e_message = fst err, e_offset = text_len before, e_line = line, e_column = column\<rparr>)"

definition unexpected :: "utext \<Rightarrow> lex_error" where
  "unexpected here = ((case here of [] \<Rightarrow> UnexpectedEnd | c # _ \<Rightarrow> UnexpectedChar c), here)"

section \<open>Whitespace and comments\<close>

definition is_json5_space :: "scalar \<Rightarrow> bool" where
  "is_json5_space c \<longleftrightarrow> c = 0x0B \<or> c = 0x0C \<or> c = 0xA0 \<or> c = 0x1680 \<or> 0x2000 \<le> c \<and> c \<le> 0x200A \<or>
     c = 0x2028 \<or> c = 0x2029 \<or> c = 0x202F \<or> c = 0x205F \<or> c = 0x3000 \<or> c = 0xFEFF"

definition ends_comment_line :: "dialect \<Rightarrow> scalar \<Rightarrow> bool" where
  "ends_comment_line d c \<longleftrightarrow> c = 0x0A \<or> c = 0x0D \<or> d = Json5 \<and> (c = 0x2028 \<or> c = 0x2029)"

definition line_comment_rest :: "dialect \<Rightarrow> utext \<Rightarrow> utext" where
  "line_comment_rest d = dropWhile (\<lambda>c. \<not> ends_comment_line d c)"

fun block_comment_rest :: "utext \<Rightarrow> utext option" where
  "block_comment_rest [] = None"
| "block_comment_rest (c # cs) =
     (if c = 0x2A \<and> starts 0x2F cs then Some (tl cs) else block_comment_rest cs)"

lemma block_comment_shorter: "block_comment_rest cs = Some r \<Longrightarrow> length r < length cs"
  by (induction cs) (auto split: if_splits simp: starts_iff)

lemma line_comment_shorter: "length (line_comment_rest d cs) \<le> length cs"
  by (simp add: line_comment_rest_def length_dropWhile_le)

definition is_space :: "dialect \<Rightarrow> scalar \<Rightarrow> bool" where
  "is_space d c \<longleftrightarrow> c = 0x20 \<or> c = 0x09 \<or> c = 0x0A \<or> c = 0x0D \<or>
     d = Json5 \<and> (c = 0x0B \<or> c = 0x0C \<or> c \<ge> 0x80 \<and> is_json5_space c)"

function skip_trivia :: "dialect \<Rightarrow> utext \<Rightarrow> lex_error + utext" where
  "skip_trivia d [] = Inr []"
| "skip_trivia d (c # cs) =
     (if is_space d c then skip_trivia d cs
      else if c = 0x2F \<and> starts 0x2F cs then skip_trivia d (line_comment_rest d (tl cs))
      else if c = 0x2F \<and> starts 0x2A cs then
        (case block_comment_rest (tl cs) of
           Some r \<Rightarrow> skip_trivia d r
         | None \<Rightarrow> Inl (CommentNotClosed, c # cs))
      else Inr (c # cs))"
  by pat_completeness auto
termination
  by (relation "measure (\<lambda>(_, cs). length cs)")
    (auto simp: starts_iff less_Suc_eq_le le_SucI line_comment_shorter dest!: block_comment_shorter)

lemma block_comment_suffix: "block_comment_rest cs = Some r \<Longrightarrow> suffix r cs"
  by (induction cs) (auto simp: starts_iff suffix_Cons split: if_splits)

lemma skip_trivia_suffix: "skip_trivia d cs = Inr r \<Longrightarrow> suffix r cs"
proof (induction d cs rule: skip_trivia.induct)
  case (2 d c cs)
  have drop: "suffix (line_comment_rest d (tl cs)) (c # cs)"
    unfolding line_comment_rest_def
    by (meson suffix_ConsI suffix_dropWhile suffix_order.trans suffix_tl)
  have block: "block_comment_rest (tl cs) = Some x \<Longrightarrow> suffix x (c # cs)" for x
    by (meson block_comment_suffix suffix_ConsI suffix_order.trans suffix_tl)
  consider "is_space d c" | "\<not> is_space d c" "c = 0x2F" "starts 0x2F cs"
    | "\<not> is_space d c" "c = 0x2F" "starts 0x2A cs"
    | "\<not> is_space d c" "\<not> (c = 0x2F \<and> (starts 0x2F cs \<or> starts 0x2A cs))" by blast
  then show ?case
  proof cases
    case 1
    then show ?thesis using 2 by (simp add: suffix_ConsI)
  next
    case c: 2
    then show ?thesis using 2(2,4) drop suffix_order.trans by auto
  next
    case c: 3
    then have "\<not> starts 0x2F cs" by (auto simp: starts_iff)
    then show ?thesis using 2(3,4) c block suffix_order.trans by (auto split: option.splits)
  next
    case 4
    then show ?thesis using 2(4) by (auto split: if_splits)
  qed
qed simp

definition peek :: "dialect \<Rightarrow> utext \<Rightarrow> lex_error + utext" where
  "peek d cs = res_bind (skip_trivia d cs) (\<lambda>r. if starts 0x2F r then Inl (unexpected r) else Inr r)"

section \<open>Strings\<close>

text \<open>\<open>skip_plain\<close> steps over the run that needs no attention.\<close>

definition plain :: "scalar \<Rightarrow> scalar \<Rightarrow> bool" where
  "plain q c \<longleftrightarrow> c \<noteq> q \<and> c \<noteq> 0x5C \<and> \<not> c < 0x20"

definition string_char :: "dialect \<Rightarrow> utext \<Rightarrow> lex_error + utext" where
  "string_char d cs =
     (let c = hd cs in
      if c = 0x0A \<or> c = 0x0D then Inl (LineBreakInString, cs)
      else if c < 0x20 \<and> d \<noteq> Json5 then Inl (ControlInString c, cs)
      else Inr (tl cs))"

text \<open>Exactly \<open>n\<close> hex digits, for the escape that starts at \<open>escape\<close>.\<close>

fun hex_loop :: "nat \<Rightarrow> nat \<Rightarrow> nat \<Rightarrow> utext \<Rightarrow> utext \<Rightarrow> lex_error + nat \<times> utext" where
  "hex_loop wanted 0 value escape cs = Inr (value, cs)"
| "hex_loop wanted (Suc n) value escape cs =
     (case cs of
        c # r \<Rightarrow> (case hex_value c of
                  Some v \<Rightarrow> hex_loop wanted n (value * 16 + v) escape r
                | None \<Rightarrow> Inl (HexDigitsNeeded wanted, escape))
      | [] \<Rightarrow> Inl (HexDigitsNeeded wanted, escape))"

definition hex :: "nat \<Rightarrow> utext \<Rightarrow> utext \<Rightarrow> lex_error + nat \<times> utext" where
  "hex n escape cs = hex_loop n n 0 escape cs"

text \<open>What an escape pushes, if anything; the text starts with the backslash.\<close>

definition simple_escape :: "scalar \<Rightarrow> scalar option" where
  "simple_escape c =
     (if c = 0x22 \<or> c = 0x5C \<or> c = 0x2F then Some c
      else if c = 0x62 then Some 0x08
      else if c = 0x66 then Some 0x0C
      else if c = 0x6E then Some 0x0A
      else if c = 0x72 then Some 0x0D
      else if c = 0x74 then Some 0x09
      else None)"

definition scan_escape :: "dialect \<Rightarrow> utext \<Rightarrow> lex_error + piece option \<times> utext" where
  "scan_escape d here =
     (case tl here of
        [] \<Rightarrow> Inl (StringNotClosed, here)
      | c # r \<Rightarrow>
          (case simple_escape c of
             Some x \<Rightarrow> Inr (Some (PushChar x), r)
           | None \<Rightarrow>
               if c = 0x75 then res_bind (hex 4 here r) (\<lambda>(u, r). Inr (Some (PushUnit u), r))
               else if d \<noteq> Json5 then Inl (InvalidEscape c, here)
               else if c = 0x76 then Inr (Some (PushChar 0x0B), r)
               else if c = 0x30 then
                 (if r \<noteq> [] \<and> is_digit (hd r) then Inl (InvalidEscape c, here) else Inr (Some (PushChar 0), r))
               else if 0x31 \<le> c \<and> c \<le> 0x39 then Inl (InvalidEscape c, here)
               else if c = 0x78 then res_bind (hex 2 here r) (\<lambda>(u, r). Inr (Some (PushUnit u), r))
               else if c = 0x0A \<or> c = 0x2028 \<or> c = 0x2029 then Inr (None, r)
               else if c = 0x0D then Inr (None, if starts 0x0A r then tl r else r)
               else Inr (Some (PushChar c), r)))"

lemma hex_loop_shorter: "hex_loop w n v e cs = Inr (u, r) \<Longrightarrow> length r \<le> length cs"
  by (induction n arbitrary: v cs) (force split: list.splits option.splits)+

lemma scan_escape_shorter: "scan_escape d here = Inr (p, r) \<Longrightarrow> length r < length here"
  by (cases here)
    (auto simp: scan_escape_def hex_def starts_iff res_bind_Inr_iff split: list.splits option.splits if_splits
      dest!: hex_loop_shorter)

lemma string_char_shorter: "cs \<noteq> [] \<Longrightarrow> string_char d cs = Inr r \<Longrightarrow> length r < length cs"
  by (auto simp: string_char_def Let_def split: if_splits)

text \<open>The common case: no escape. It stops at the quote, or at the first backslash.\<close>

function string_fast :: "dialect \<Rightarrow> scalar \<Rightarrow> utext \<Rightarrow> utext \<Rightarrow> utext \<Rightarrow> lex_error + (utext \<times> bool) \<times> utext" where
  "string_fast d q start acc cs =
     (let acc = acc @ takeWhile (plain q) cs; r = dropWhile (plain q) cs in
      if r = [] then Inl (StringNotClosed, start)
      else if hd r = q then Inr ((acc, True), tl r)
      else if hd r = 0x5C then Inr ((acc, False), r)
      else res_bind (string_char d r) (string_fast d q start (acc @ [hd r])))"
  by pat_completeness auto
termination
proof (relation "measure (\<lambda>(_, _, _, _, cs). length cs)", goal_cases)
  case (2 d q start acc cs acc' r x)
  then have "length x < length r" by (intro string_char_shorter)
  moreover have "length r \<le> length cs" using 2(2) by (simp add: length_dropWhile_le)
  ultimately show ?case by simp
qed simp

declare string_fast.simps [simp del]

text \<open>With escapes: runs, escapes and single characters are pushed to the builder.\<close>

definition push_run :: "utext \<Rightarrow> builder \<Rightarrow> builder" where
  "push_run run b = (if run \<noteq> [] then push_str run b else b)"

definition push_option :: "piece option \<Rightarrow> builder \<Rightarrow> builder" where
  "push_option p b = (case p of Some p \<Rightarrow> push_piece p b | None \<Rightarrow> b)"

function string_slow :: "dialect \<Rightarrow> scalar \<Rightarrow> utext \<Rightarrow> builder \<Rightarrow> utext \<Rightarrow> lex_error + json_text \<times> utext" where
  "string_slow d q start out cs =
     (let out = push_run (takeWhile (plain q) cs) out; r = dropWhile (plain q) cs in
      if r = [] then Inl (StringNotClosed, start)
      else if hd r = q then Inr (finish_builder out, tl r)
      else if hd r = 0x5C then
        res_bind (scan_escape d r) (\<lambda>(p, r). string_slow d q start (push_option p out) r)
      else res_bind (string_char d r) (string_slow d q start (push_str [hd r] out)))"
  by pat_completeness auto
termination
proof (relation "measure (\<lambda>(_, _, _, _, cs). length cs)", goal_cases)
  case (2 d q start out cs out' r x p s)
  then have "length s < length r" using scan_escape_shorter by auto
  moreover have "length r \<le> length cs" using 2(2) by (simp add: length_dropWhile_le)
  ultimately show ?case by simp
next
  case (3 d q start out cs out' r x)
  then have "length x < length r" by (intro string_char_shorter)
  moreover have "length r \<le> length cs" using 3(2) by (simp add: length_dropWhile_le)
  ultimately show ?case by simp
qed simp

declare string_slow.simps [simp del]

text \<open>A string at its opening quote.\<close>

definition scan_string :: "dialect \<Rightarrow> scalar \<Rightarrow> utext \<Rightarrow> lex_error + json_text \<times> utext" where
  "scan_string d q start =
     res_bind (string_fast d q start [] (tl start)) (\<lambda>((body, closed), r).
       if closed then Inr (Str body, r) else string_slow d q start (new_builder body) r)"

section \<open>Numbers\<close>

text \<open>The text of \<open>start\<close> up to the rest \<open>r\<close> of it: \<open>text[start..pos]\<close>.\<close>

definition upto_rest :: "utext \<Rightarrow> utext \<Rightarrow> utext" where
  "upto_rest start r = take (length start - length r) start"

definition after_exponent :: "utext \<Rightarrow> utext \<Rightarrow> lex_error + utext" where
  "after_exponent start cs =
     (if starts 0x65 cs \<or> starts 0x45 cs then
        (let r = tl cs;
             r = (if starts 0x2B r \<or> starts 0x2D r then tl r else r)
         in if takeWhile is_digit r = [] then Inl (InvalidNumber, start) else Inr (dropWhile is_digit r))
      else Inr cs)"

definition after_fraction :: "utext \<Rightarrow> utext \<Rightarrow> lex_error + utext" where
  "after_fraction start cs =
     (if starts 0x2E cs then
        (if takeWhile is_digit (tl cs) = [] then Inl (InvalidNumber, start) else Inr (dropWhile is_digit (tl cs)))
      else Inr cs)"

definition json_number :: "utext \<Rightarrow> lex_error + f64 \<times> utext" where
  "json_number start =
     (let r = (if starts 0x2D start then tl start else start) in
      res_bind
        (if starts 0x30 r then Inr (tl r)
         else if r \<noteq> [] \<and> is_digit (hd r) then Inr (dropWhile is_digit r)
         else Inl (InvalidNumber, start)) (\<lambda>r.
      res_bind (after_fraction start r) (\<lambda>r.
      res_bind (after_exponent start r) (\<lambda>r.
        Inr (parse_decimal (upto_rest start r), r)))))"

definition f64_nan :: f64 where "f64_nan = 0x7FF8000000000000"

definition signed_f64 :: "bool \<Rightarrow> f64 \<Rightarrow> f64" where
  "signed_f64 negative x = (if negative then f64_neg x else x)"

definition is_hex :: "scalar \<Rightarrow> bool" where
  "is_hex c \<longleftrightarrow> hex_value c \<noteq> None"

definition json5_decimal :: "bool \<Rightarrow> utext \<Rightarrow> utext \<Rightarrow> lex_error + f64 \<times> utext" where
  "json5_decimal negative start integer_start =
     (let whole = takeWhile is_digit integer_start; r = dropWhile is_digit integer_start in
      if length whole > 1 \<and> hd integer_start = 0x30 then Inl (InvalidNumber, start)
      else
        (let fraction = (if starts 0x2E r then takeWhile is_digit (tl r) else []);
             r = (if starts 0x2E r then dropWhile is_digit (tl r) else r)
         in if whole = [] \<and> fraction = [] then Inl (InvalidNumber, start)
            else res_bind (after_exponent start r) (\<lambda>r.
              Inr (signed_f64 negative (parse_decimal (upto_rest integer_start r)), r))))"

definition json5_number :: "utext \<Rightarrow> lex_error + f64 \<times> utext" where
  "json5_number start =
     (let negative = starts 0x2D start;
          r = (if starts 0x2D start \<or> starts 0x2B start then tl start else start)
      in case strip_prefix (text_of_string ''Infinity'') r of
           Some r \<Rightarrow> Inr (signed_f64 negative f64_infinity, r)
         | None \<Rightarrow>
             (case strip_prefix (text_of_string ''NaN'') r of
                Some r \<Rightarrow> Inr (f64_nan, r)
              | None \<Rightarrow>
                  if starts 0x30 r \<and> (starts 0x78 (tl r) \<or> starts 0x58 (tl r)) then
                    (let ds = takeWhile is_hex (tl (tl r)) in
                     if ds = [] then Inl (InvalidNumber, start)
                     else Inr (signed_f64 negative (hex_to_f64 (map (the \<circ> hex_value) ds)),
                               dropWhile is_hex (tl (tl r))))
                  else json5_decimal negative start r))"

definition is_alnum :: "scalar \<Rightarrow> bool" where
  "is_alnum c \<longleftrightarrow> is_digit c \<or> 0x41 \<le> c \<and> c \<le> 0x5A \<or> 0x61 \<le> c \<and> c \<le> 0x7A"

definition number_continues :: "utext \<Rightarrow> bool" where
  "number_continues r \<longleftrightarrow> (case r of [] \<Rightarrow> False | c # _ \<Rightarrow> is_alnum c \<or> c = 0x2E \<or> c = 0x5F \<or> c = 0x24)"

definition scan_number :: "dialect \<Rightarrow> utext \<Rightarrow> lex_error + f64 \<times> utext" where
  "scan_number d start =
     res_bind (if d = Json5 then json5_number start else json_number start) (\<lambda>(value, r).
       if number_continues r then Inl (InvalidNumber, start) else Inr (value, r))"

section \<open>Words\<close>

text \<open>The tables of \<open>unicode_ident\<close>.\<close>

record unicode =
  xid_start :: "scalar \<Rightarrow> bool"
  xid_continue :: "scalar \<Rightarrow> bool"

definition is_letter :: "scalar \<Rightarrow> bool" where
  "is_letter c \<longleftrightarrow> 0x61 \<le> c \<and> c \<le> 0x7A \<or> 0x41 \<le> c \<and> c \<le> 0x5A"

definition is_identifier_char :: "unicode \<Rightarrow> scalar \<Rightarrow> bool \<Rightarrow> bool" where
  "is_identifier_char u c first =
     (if c = 0x24 \<or> c = 0x5F \<or> is_letter c then True
      else if is_digit c then \<not> first
      else if c = 0x200C \<or> c = 0x200D then \<not> first
      else if c < 0x80 then False
      else if first then xid_start u c
      else xid_continue u c)"

definition push_name :: "bool \<Rightarrow> utext \<Rightarrow> scalar \<Rightarrow> builder option \<Rightarrow> builder option" where
  "push_name from_escape before c out =
     map_option (push_char c) (if from_escape \<and> out = None then Some (new_builder before) else out)"

lemma hex_shorter: "hex n e cs = Inr (u, r) \<Longrightarrow> length r \<le> length cs"
  by (auto simp: hex_def dest: hex_loop_shorter)

function identifier_loop ::
    "unicode \<Rightarrow> utext \<Rightarrow> bool \<Rightarrow> builder option \<Rightarrow> utext \<Rightarrow> lex_error + (json_text \<times> bool) \<times> utext" where
  "identifier_loop u start escaped out cs =
     (let first = (length cs = length start) in
      case cs of
        c # r \<Rightarrow>
          if c = 0x5C then
            (if starts 0x75 r then
               res_bind (hex 4 cs (tl r)) (\<lambda>(unit, r').
                 if is_scalar unit \<and> is_identifier_char u unit first
                 then identifier_loop u start True (push_name True (upto_rest start cs) unit out) r'
                 else Inl (InvalidNameEscape, cs))
             else Inl (InvalidNameEscape, cs))
          else if is_identifier_char u c first then
            identifier_loop u start escaped (push_name False (upto_rest start cs) c out) r
          else if first then Inl (unexpected cs)
          else Inr ((case out of Some b \<Rightarrow> finish_builder b | None \<Rightarrow> Str (upto_rest start cs), escaped), cs)
      | [] \<Rightarrow>
          if first then Inl (unexpected cs)
          else Inr ((case out of Some b \<Rightarrow> finish_builder b | None \<Rightarrow> Str (upto_rest start cs), escaped), cs))"
  by pat_completeness auto
termination
  by (relation "measure (\<lambda>(_, _, _, _, cs). length cs)") (auto simp: starts_iff dest!: hex_shorter)

declare identifier_loop.simps [simp del]

definition scan_word :: "dialect \<Rightarrow> unicode \<Rightarrow> utext \<Rightarrow> lex_error + (json_text \<times> bool) \<times> utext" where
  "scan_word d u start =
     (if d = Json5 then identifier_loop u start False None start
      else Inr ((Str (takeWhile is_alnum start), False), dropWhile is_alnum start))"

section \<open>What is left is a suffix\<close>

lemma suffix_tl_trans [intro]: "suffix r (tl s) \<Longrightarrow> suffix r s"
  using suffix_order.trans suffix_tl by blast

lemma suffix_tl_shorter: "suffix r (tl s) \<Longrightarrow> s \<noteq> [] \<Longrightarrow> length r < length s"
  using suffix_length_le [of r "tl s"] by (cases s) auto

lemma peek_suffix: "peek d cs = Inr r \<Longrightarrow> suffix r cs"
  by (auto simp: peek_def res_bind_Inr_iff dest: skip_trivia_suffix split: if_splits)

lemma hex_loop_suffix: "hex_loop w n v e cs = Inr (u, r) \<Longrightarrow> suffix r cs"
  by (induction n arbitrary: v cs) (auto split: list.splits option.splits intro: suffix_ConsI)

lemma hex_suffix: "hex n e cs = Inr (u, r) \<Longrightarrow> suffix r cs"
  by (auto simp: hex_def dest: hex_loop_suffix)

lemma scan_escape_suffix: "scan_escape d here = Inr (p, r) \<Longrightarrow> suffix r (tl here)"
  by (auto simp: scan_escape_def res_bind_Inr_iff starts_iff split: list.splits option.splits if_splits
      dest!: hex_suffix intro: suffix_ConsI)

lemma string_char_suffix: "string_char d cs = Inr r \<Longrightarrow> r = tl cs"
  by (auto simp: string_char_def Let_def split: if_splits)

lemma string_fast_suffix: "string_fast d q start acc cs = Inr (v, r) \<Longrightarrow> suffix r cs"
proof (induction d q start acc cs rule: string_fast.induct)
  case (1 d q start acc cs)
  define x where "x = dropWhile (plain q) cs"
  have x: "suffix x cs" by (simp add: x_def suffix_dropWhile)
  have r: "suffix r x"
  proof (cases "x \<noteq> [] \<and> hd x \<noteq> q \<and> hd x \<noteq> 0x5C")
    case True
    then obtain y where y: "string_char d x = Inr y"
      "string_fast d q start (acc @ takeWhile (plain q) cs @ [hd x]) y = Inr (v, r)"
      using 1(2) by (subst (asm) string_fast.simps) (auto simp: Let_def x_def [symmetric] res_bind_Inr_iff)
    then have "suffix r y" using 1(1) [OF refl refl, of y] True by (simp add: x_def)
    then show ?thesis using string_char_suffix [OF y(1)] by auto
  next
    case False
    then show ?thesis using 1(2) by (subst (asm) string_fast.simps) (auto simp: Let_def x_def [symmetric] split: if_splits)
  qed
  then show ?case using x suffix_order.trans by blast
qed

lemma string_slow_suffix: "string_slow d q start out cs = Inr (v, r) \<Longrightarrow> suffix r cs"
proof (induction d q start out cs rule: string_slow.induct)
  case (1 d q start out cs)
  define x where "x = dropWhile (plain q) cs"
  define b where "b = push_run (takeWhile (plain q) cs) out"
  have x: "suffix x cs" by (simp add: x_def suffix_dropWhile)
  consider "x = [] \<or> hd x = q" | "x \<noteq> []" "hd x \<noteq> q" "hd x = 0x5C" | "x \<noteq> []" "hd x \<noteq> q" "hd x \<noteq> 0x5C" by blast
  then have "suffix r x"
  proof cases
    case 1
    then show ?thesis using "1.prems" by (subst (asm) string_slow.simps) (auto simp: Let_def x_def [symmetric] split: if_splits)
  next
    case 2
    then obtain p y where y: "scan_escape d x = Inr (p, y)" "string_slow d q start (push_option p b) y = Inr (v, r)"
      using "1.prems" by (subst (asm) string_slow.simps) (auto simp: Let_def x_def [symmetric] b_def res_bind_Inr_iff)
    then have "suffix r y" using "1.IH"(1) [of b x "(p, y)" p y] 2 by (simp add: x_def b_def)
    then show ?thesis using scan_escape_suffix [OF y(1)] suffix_order.trans by blast
  next
    case 3
    then obtain y where y: "string_char d x = Inr y" "string_slow d q start (push_str [hd x] b) y = Inr (v, r)"
      using "1.prems" by (subst (asm) string_slow.simps) (auto simp: Let_def x_def [symmetric] b_def res_bind_Inr_iff)
    then have "suffix r y" using "1.IH"(2) [of b x y] 3 by (simp add: x_def b_def)
    then show ?thesis using string_char_suffix [OF y(1)] by auto
  qed
  then show ?case using x suffix_order.trans by blast
qed

lemma scan_string_suffix: "scan_string d q start = Inr (t, r) \<Longrightarrow> suffix r (tl start)"
  by (auto simp: scan_string_def res_bind_Inr_iff split: if_splits
      dest!: string_fast_suffix string_slow_suffix intro: suffix_order.trans)

lemma after_fraction_suffix: "after_fraction start cs = Inr r \<Longrightarrow> suffix r cs"
  by (auto simp: after_fraction_def suffix_dropWhile split: if_splits)

lemma after_exponent_suffix: "after_exponent start cs = Inr r \<Longrightarrow> suffix r cs"
  by (auto simp: after_exponent_def Let_def split: if_splits
      intro: suffix_dropWhile suffix_tl_trans [OF suffix_dropWhile] suffix_tl_trans [OF suffix_tl_trans [OF suffix_dropWhile]])

lemma dropWhile_digits_suffix: "s \<noteq> [] \<Longrightarrow> P (hd s) \<Longrightarrow> suffix (dropWhile P s) (tl s)"
  by (cases s) (auto simp: suffix_dropWhile)

lemma json_number_suffix: "start \<noteq> [] \<Longrightarrow> json_number start = Inr (v, r) \<Longrightarrow> suffix r (tl start)"
proof -
  assume start: "start \<noteq> []" and n: "json_number start = Inr (v, r)"
  define s where "s = (if starts 0x2D start then tl start else start)"
  obtain a b where a: "(if starts 0x30 s then Inr (tl s) else if s \<noteq> [] \<and> is_digit (hd s) then Inr (dropWhile is_digit s)
      else Inl (InvalidNumber, start)) = Inr a" and b: "after_fraction start a = Inr b" "after_exponent start b = Inr r"
    using n by (auto simp: json_number_def Let_def s_def [symmetric] res_bind_Inr_iff)
  have "suffix a (tl s)" using a dropWhile_digits_suffix [of s is_digit] by (auto split: if_splits)
  moreover have "suffix (tl s) (tl start)" by (auto simp: s_def)
  ultimately show ?thesis
    using after_fraction_suffix [OF b(1)] after_exponent_suffix [OF b(2)] suffix_order.trans by blast
qed

lemma takeWhile_nonempty_shorter: "takeWhile P s \<noteq> [] \<Longrightarrow> suffix (dropWhile P s) (tl s) \<and> s \<noteq> []"
  by (cases s) (auto simp: suffix_dropWhile split: if_splits)

lemma json5_decimal_suffix: "json5_decimal negative start s = Inr (v, r) \<Longrightarrow> suffix r (tl s) \<and> s \<noteq> []"
proof -
  assume n: "json5_decimal negative start s = Inr (v, r)"
  define whole where "whole = takeWhile is_digit s"
  define x where "x = dropWhile is_digit s"
  define y where "y = (if starts 0x2E x then dropWhile is_digit (tl x) else x)"
  have y: "after_exponent start y = Inr r" "whole \<noteq> [] \<or> starts 0x2E x"
    using n by (auto simp: json5_decimal_def Let_def whole_def x_def y_def res_bind_Inr_iff split: if_splits)
  have "suffix y x" by (auto simp: y_def suffix_dropWhile)
  then have rx: "suffix r x" using after_exponent_suffix [OF y(1)] suffix_order.trans by blast
  show ?thesis
  proof (cases "whole = []")
    case False
    then show ?thesis using takeWhile_nonempty_shorter [of is_digit s] rx suffix_order.trans by (auto simp: whole_def x_def)
  next
    case True
    then have "x = s" by (simp add: whole_def x_def dropWhile_eq_self_iff takeWhile_eq_Nil_iff)
    then have "s \<noteq> []" "suffix y (tl s)" using y(2) True by (auto simp: y_def suffix_dropWhile)
    then show ?thesis using after_exponent_suffix [OF y(1)] suffix_order.trans by blast
  qed
qed

lemma strip_prefix_suffix: "strip_prefix p s = Some r \<Longrightarrow> p \<noteq> [] \<Longrightarrow> suffix r (tl s) \<and> s \<noteq> []"
  by (cases p) (auto simp: strip_prefix_iff suffix_def)

lemma json5_number_suffix: "json5_number start = Inr (v, r) \<Longrightarrow> suffix r (tl start) \<and> start \<noteq> []"
proof -
  assume n: "json5_number start = Inr (v, r)"
  define s where "s = (if starts 0x2D start \<or> starts 0x2B start then tl start else start)"
  note n = n [unfolded json5_number_def Let_def, folded s_def]
  have nonempty: "text_of_string ''Infinity'' \<noteq> []" "text_of_string ''NaN'' \<noteq> []" by (simp_all add: text_of_string_def)
  have "suffix r (tl s) \<and> s \<noteq> []"
  proof (cases "strip_prefix (text_of_string ''Infinity'') s")
    case (Some x)
    then have "x = r" using n by (simp only: option.case sum.inject prod.inject)
    then show ?thesis using strip_prefix_suffix [OF Some nonempty(1)] by simp
  next
    case inf: None
    show ?thesis
    proof (cases "strip_prefix (text_of_string ''NaN'') s")
      case (Some x)
      then have "x = r" using n inf by (simp only: option.case sum.inject prod.inject)
      then show ?thesis using strip_prefix_suffix [OF Some nonempty(2)] by simp
    next
      case None
      note n = n [unfolded inf None option.case]
      have hex: "suffix (dropWhile is_hex (tl (tl s))) (tl s)" using suffix_dropWhile by (rule suffix_tl_trans)
      show ?thesis
      proof (cases "starts 0x30 s \<and> (starts 0x78 (tl s) \<or> starts 0x58 (tl s))")
        case True
        then have "r = dropWhile is_hex (tl (tl s))" using n by (simp split: if_splits)
        then show ?thesis using hex True by auto
      next
        case False
        then have "json5_decimal (starts 0x2D start) start s = Inr (v, r)" using n by (simp only: if_False)
        then show ?thesis by (rule json5_decimal_suffix)
      qed
    qed
  qed
  moreover have "suffix (tl s) (tl start)" "s \<noteq> [] \<Longrightarrow> start \<noteq> []" by (auto simp: s_def split: if_splits)
  ultimately show ?thesis using suffix_order.trans by blast
qed

lemma scan_number_suffix: "start \<noteq> [] \<Longrightarrow> scan_number d start = Inr (v, r) \<Longrightarrow> suffix r (tl start)"
  using json_number_suffix json5_number_suffix
  by (fastforce simp: scan_number_def res_bind_Inr_iff split: if_splits)

lemma identifier_loop_suffix:
  "identifier_loop u start escaped out cs = Inr (v, r) \<Longrightarrow> suffix r cs \<and> (length cs = length start \<longrightarrow> suffix r (tl cs) \<and> cs \<noteq> [])"
proof (induction u start escaped out cs rule: identifier_loop.induct)
  case (1 u start escaped out cs)
  show ?case
  proof (cases cs)
    case Nil
    then show ?thesis using "1.prems" by (subst (asm) identifier_loop.simps) (auto split: if_splits)
  next
    case (Cons c s)
    consider "c = 0x5C" | "c \<noteq> 0x5C" "is_identifier_char u c (length cs = length start)"
      | "c \<noteq> 0x5C" "\<not> is_identifier_char u c (length cs = length start)" by blast
    then show ?thesis
    proof cases
      case 1
      then obtain unit y where y: "starts 0x75 s" "hex 4 cs (tl s) = Inr (unit, y)"
        "is_scalar unit \<and> is_identifier_char u unit (length cs = length start)"
        "identifier_loop u start True (push_name True (upto_rest start cs) unit out) y = Inr (v, r)"
        using "1.prems" Cons
        by (subst (asm) identifier_loop.simps) (auto simp: Let_def res_bind_Inr_iff split: if_splits)
      have "suffix r y"
        using "1.IH"(1) [OF refl Cons 1 y(1,2) refl] y(3,4) by blast
      then have "suffix r (tl s)" using hex_suffix [OF y(2)] suffix_order.trans by blast
      then show ?thesis using Cons by (auto intro: suffix_ConsI)
    next
      case 2
      then have "identifier_loop u start escaped (push_name False (upto_rest start cs) c out) s = Inr (v, r)"
        using "1.prems" Cons by (subst (asm) identifier_loop.simps) (simp add: Let_def)
      then have "suffix r s" using "1.IH"(2) [OF refl Cons 2(1)] 2(2) by blast
      then show ?thesis using Cons by (auto intro: suffix_ConsI)
    next
      case 3
      then show ?thesis using "1.prems" Cons
        by (subst (asm) identifier_loop.simps) (auto simp: Let_def split: if_splits)
    qed
  qed
qed

end
