(* ===== verification/JsonParser.thy ===== *)
theory JsonParser
  imports JsonLexer
begin

text \<open>
  The grammar of JSONC and JSON5 (\<open>crates/json/src/parser.rs\<close>): values are read by recursive descent
  and reported to a sink, which may stop the parse. A sink is its state and what it answers to each
  event. The nesting of the text is bounded, so the recursion of the code is.
\<close>

section \<open>Sinks and outcomes\<close>

datatype json_event =
  Null
| Bool bool
| Number f64
| Text json_text
| BeginArray
| EndArray
| BeginObject
| Key json_text
| EndObject

type_synonym ('s, 'a) sink = "json_event \<Rightarrow> 's \<Rightarrow> 'a option \<times> 's"

datatype 'a json_failure = Refused lex_error | Abort 'a

datatype ('s, 'a) outcome = Read utext 's | Failed "'a json_failure" 's

definition lexed :: "lex_error + 'x \<Rightarrow> 's \<Rightarrow> ('x \<Rightarrow> ('s, 'a) outcome) \<Rightarrow> ('s, 'a) outcome" where
  "lexed m s f = (case m of Inl e \<Rightarrow> Failed (Refused e) s | Inr x \<Rightarrow> f x)"

definition emit :: "('s, 'a) sink \<Rightarrow> json_event \<Rightarrow> 's \<Rightarrow> ('s \<Rightarrow> ('s, 'a) outcome) \<Rightarrow> ('s, 'a) outcome" where
  "emit sink e s f = (case sink e s of (None, s) \<Rightarrow> f s | (Some a, s) \<Rightarrow> Failed (Abort a) s)"

definition and_then :: "('s, 'a) outcome \<Rightarrow> (utext \<Rightarrow> 's \<Rightarrow> ('s, 'a) outcome) \<Rightarrow> ('s, 'a) outcome" where
  "and_then m f = (case m of Read r s \<Rightarrow> f r s | Failed e s \<Rightarrow> Failed e s)"

lemma lexed_simps [simp]: "lexed (Inl e) s f = Failed (Refused e) s" "lexed (Inr x) s f = f x"
  by (simp_all add: lexed_def)

lemma and_then_simps [simp]: "and_then (Read r s) f = f r s" "and_then (Failed e s) f = Failed e s"
  by (simp_all add: and_then_def)

lemma lexed_cong [fundef_cong]: "m = n \<Longrightarrow> (\<And>x. n = Inr x \<Longrightarrow> f x = g x) \<Longrightarrow> lexed m s f = lexed n s g"
  by (cases n) simp_all

lemma emit_cong [fundef_cong]: "(\<And>t. sink e s = (None, t) \<Longrightarrow> f t = g t) \<Longrightarrow> emit sink e s f = emit sink e s g"
  by (auto simp: emit_def split: prod.split option.split)

lemma and_then_cong [fundef_cong]:
  "m = n \<Longrightarrow> (\<And>r s. n = Read r s \<Longrightarrow> f r s = g r s) \<Longrightarrow> and_then m f = and_then n g"
  by (cases n) simp_all

lemma lexed_Read: "lexed m s f = Read r t \<longleftrightarrow> (\<exists>x. m = Inr x \<and> f x = Read r t)"
  by (cases m) simp_all

lemma emit_Read: "emit sink e s f = Read r t \<longleftrightarrow> (\<exists>s'. sink e s = (None, s') \<and> f s' = Read r t)"
  by (auto simp: emit_def split: prod.split option.split)

lemma and_then_Read: "and_then m f = Read r t \<longleftrightarrow> (\<exists>r' s'. m = Read r' s' \<and> f r' s' = Read r t)"
  by (cases m) simp_all

lemmas outcome_reads = lexed_Read emit_Read and_then_Read

section \<open>The parser\<close>

definition JSON_MAX_DEPTH :: nat where "JSON_MAX_DEPTH = 256"

definition is_control :: "scalar \<Rightarrow> bool" where
  "is_control c \<longleftrightarrow> c < 0x20 \<or> 0x7F \<le> c \<and> c < 0xA0"

definition token_text :: "utext \<Rightarrow> utext" where
  "token_text here = (if is_letter (hd here) then take 20 (takeWhile is_alnum here) else [hd here])"

definition expect :: "expected \<Rightarrow> utext \<Rightarrow> lex_error" where
  "expect what here =
     (Expected what
        (if here = [] then None else if is_control (hd here) then Some [hd here] else Some (token_text here)), here)"

text \<open>Where the next token starts, with its first character.\<close>

definition next_token :: "dialect \<Rightarrow> expected \<Rightarrow> utext \<Rightarrow> lex_error + scalar \<times> utext" where
  "next_token d what cs =
     res_bind (peek d cs) (\<lambda>r.
       case r of
         c # _ \<Rightarrow> Inr (c, r)
       | [] \<Rightarrow> Inl (if what = ValueExpected then (UnexpectedEnd, []) else expect what []))"

definition starts_word :: "scalar \<Rightarrow> bool \<Rightarrow> bool" where
  "starts_word c json5 \<longleftrightarrow> is_letter c \<or> json5 \<and> (c = 0x24 \<or> c = 0x5F \<or> c = 0x5C \<or> 0x80 \<le> c)"

definition enter :: "nat \<Rightarrow> utext \<Rightarrow> lex_error + unit" where
  "enter depth here = (if depth > JSON_MAX_DEPTH then Inl (TooDeep, here) else Inr ())"

definition word_event :: "dialect \<Rightarrow> json_text \<times> bool \<Rightarrow> json_event option" where
  "word_event d w =
     (case w of
        (Str t, False) \<Rightarrow>
          if t = text_of_string ''true'' then Some (Bool True)
          else if t = text_of_string ''false'' then Some (Bool False)
          else if t = text_of_string ''null'' then Some Null
          else if d = Json5 \<and> t = text_of_string ''Infinity'' then Some (Number f64_infinity)
          else if d = Json5 \<and> t = text_of_string ''NaN'' then Some (Number f64_nan)
          else None
      | _ \<Rightarrow> None)"

text \<open>A value that is one token: the event it is.\<close>

definition scan_scalar :: "dialect \<Rightarrow> unicode \<Rightarrow> scalar \<Rightarrow> utext \<Rightarrow> lex_error + json_event \<times> utext" where
  "scan_scalar d u c here =
     (if c = 0x22 \<or> c = 0x27 \<and> d = Json5 then res_bind (scan_string d c here) (\<lambda>(t, r). Inr (Text t, r))
      else if c = 0x2D \<or> is_digit c \<or> (c = 0x2B \<or> c = 0x2E) \<and> d = Json5
        then res_bind (scan_number d here) (\<lambda>(n, r). Inr (Number n, r))
      else if starts_word c (d = Json5) then
        res_bind (scan_word d u here) (\<lambda>(w, r).
          case word_event d w of Some e \<Rightarrow> Inr (e, r) | None \<Rightarrow> Inl (expect ValueExpected here))
      else Inl (expect ValueExpected here))"

definition scan_key :: "dialect \<Rightarrow> unicode \<Rightarrow> scalar \<Rightarrow> utext \<Rightarrow> lex_error + json_text \<times> utext" where
  "scan_key d u c here =
     (if c = 0x22 \<or> c = 0x27 \<and> d = Json5 then scan_string d c here
      else if d = Json5 \<and> starts_word c True then res_bind (scan_word d u here) (\<lambda>((t, _), r). Inr (t, r))
      else if is_letter c then Inl (NameNotQuoted, here)
      else Inl (expect NameExpected here))"

definition colon :: "dialect \<Rightarrow> utext \<Rightarrow> lex_error + utext" where
  "colon d cs =
     res_bind (next_token d ColonExpected cs) (\<lambda>(c, r). if c = 0x3A then Inr (tl r) else Inl (expect ColonExpected r))"

text \<open>
  After a member: the end of its container, or a comma, after which the container may end too
  (one trailing comma). The answer is whether it ended.
\<close>

definition after_member :: "dialect \<Rightarrow> expected \<Rightarrow> scalar \<Rightarrow> utext \<Rightarrow> lex_error + bool \<times> utext" where
  "after_member d what closer cs =
     res_bind (next_token d what cs) (\<lambda>(c, r).
       if c = closer then Inr (True, tl r)
       else if c = 0x2C then
         res_bind (peek d (tl r)) (\<lambda>r. if starts closer r then Inr (True, tl r) else Inr (False, r))
       else Inl (expect what r))"

lemma skip_trivia_shorter: "skip_trivia d cs = Inr r \<Longrightarrow> length r \<le> length cs"
  using skip_trivia_suffix suffix_length_le by blast

lemma peek_shorter: "peek d cs = Inr r \<Longrightarrow> length r \<le> length cs"
  by (auto simp: peek_def res_bind_Inr_iff dest: skip_trivia_shorter split: if_splits)

lemma next_token_peek: "next_token d what cs = Inr (c, r) \<longleftrightarrow> peek d cs = Inr r \<and> starts c r"
  by (cases "peek d cs") (auto simp: next_token_def starts_iff split: list.split)

lemma next_token_shorter: "next_token d what cs = Inr (c, r) \<Longrightarrow> length r \<le> length cs \<and> (\<exists>r'. r = c # r')"
  by (auto simp: next_token_peek starts_iff dest: peek_shorter)

lemma colon_shorter: "colon d cs = Inr r \<Longrightarrow> length r < length cs"
  by (auto simp: colon_def res_bind_Inr_iff split: if_splits dest!: next_token_shorter)

lemma after_member_shorter: "after_member d what closer cs = Inr (b, r) \<Longrightarrow> length r < length cs"
  by (auto simp: after_member_def res_bind_Inr_iff split: if_splits dest!: next_token_shorter peek_shorter)

lemma tl_suffix: "suffix x s \<Longrightarrow> suffix (tl x) s"
  by (meson suffix_order.trans suffix_tl)

lemma colon_suffix: "colon d cs = Inr r \<Longrightarrow> suffix r cs"
  by (auto simp: colon_def res_bind_Inr_iff next_token_peek dest!: peek_suffix split: if_splits intro: tl_suffix)

lemma after_member_suffix:
  assumes "after_member d what closer cs = Inr (b, r)"
  shows "suffix r cs"
proof -
  obtain c x where x: "peek d cs = Inr x" "starts c x"
    and cases: "(c = closer \<and> r = tl x) \<or> (\<exists>y. peek d (tl x) = Inr y \<and> (r = y \<or> r = tl y))"
    using assms by (auto simp: after_member_def res_bind_Inr_iff next_token_peek split: if_splits)
  have t: "suffix (tl x) cs" using peek_suffix [OF x(1)] by (rule tl_suffix)
  from cases show ?thesis
  proof
    assume "\<exists>y. peek d (tl x) = Inr y \<and> (r = y \<or> r = tl y)"
    then obtain y where y: "peek d (tl x) = Inr y" "r = y \<or> r = tl y" by blast
    have "suffix y cs" using peek_suffix [OF y(1)] t suffix_order.trans by blast
    then show ?thesis using y(2) tl_suffix by blast
  qed (use t in simp)
qed

lemma scan_word_suffix: "c = hd here \<Longrightarrow> here \<noteq> [] \<Longrightarrow> starts_word c (d = Json5) \<Longrightarrow> scan_word d u here = Inr (w, r) \<Longrightarrow>
    suffix r (tl here)"
  using dropWhile_digits_suffix [of here is_alnum]
  by (cases d) (auto simp: scan_word_def starts_word_def is_letter_def is_alnum_def dest!: identifier_loop_suffix)

lemma scan_scalar_suffix: "starts c here \<Longrightarrow> scan_scalar d u c here = Inr (e, r) \<Longrightarrow> suffix r (tl here)"
proof -
  assume c: "starts c here" and s: "scan_scalar d u c here = Inr (e, r)"
  have h: "here \<noteq> []" "c = hd here" using c by (auto simp: starts_iff)
  consider t where "scan_string d c here = Inr (t, r)" | n where "scan_number d here = Inr (n, r)"
    | w where "starts_word c (d = Json5)" "scan_word d u here = Inr (w, r)"
    using s by (auto simp: scan_scalar_def res_bind_Inr_iff split: if_splits option.splits)
  then show ?thesis
    using scan_string_suffix scan_number_suffix [OF h(1)] scan_word_suffix [OF h(2,1)] by cases blast+
qed

lemma scan_key_suffix: "starts c here \<Longrightarrow> scan_key d u c here = Inr (t, r) \<Longrightarrow> suffix r (tl here)"
proof -
  assume c: "starts c here" and s: "scan_key d u c here = Inr (t, r)"
  have h: "here \<noteq> []" "c = hd here" using c by (auto simp: starts_iff)
  consider "scan_string d c here = Inr (t, r)"
    | w where "starts_word c (d = Json5)" "scan_word d u here = Inr (w, r)"
    using s by (auto simp: scan_key_def res_bind_Inr_iff split: if_splits)
  then show ?thesis using scan_string_suffix scan_word_suffix [OF h(2,1)] by cases blast+
qed

lemma tail_shorter: "starts c here \<Longrightarrow> suffix r (tl here) \<Longrightarrow> length r < length here"
  using suffix_tl_shorter starts_iff by blast

lemma scan_scalar_shorter: "starts c here \<Longrightarrow> scan_scalar d u c here = Inr (e, r) \<Longrightarrow> length r < length here"
  by (rule tail_shorter [OF _ scan_scalar_suffix])

lemma scan_key_shorter: "starts c here \<Longrightarrow> scan_key d u c here = Inr (e, r) \<Longrightarrow> length r < length here"
  by (rule tail_shorter [OF _ scan_key_suffix])

text \<open>
  \<open>value\<close>, with \<open>object\<close> and \<open>array\<close> up to their loops, and the loops \<open>members\<close> and \<open>elements\<close>.
\<close>

function value_at :: "('s, 'a) sink \<Rightarrow> dialect \<Rightarrow> unicode \<Rightarrow> nat \<Rightarrow> utext \<Rightarrow> 's \<Rightarrow> ('s, 'a) outcome"
  and members :: "('s, 'a) sink \<Rightarrow> dialect \<Rightarrow> unicode \<Rightarrow> nat \<Rightarrow> utext \<Rightarrow> 's \<Rightarrow> ('s, 'a) outcome"
  and array_elements :: "('s, 'a) sink \<Rightarrow> dialect \<Rightarrow> unicode \<Rightarrow> nat \<Rightarrow> utext \<Rightarrow> 's \<Rightarrow> ('s, 'a) outcome" where
  "value_at sink d u depth cs s =
     lexed (next_token d ValueExpected cs) s (\<lambda>(c, here).
       if c = 0x7B then
         lexed (enter (depth + 1) here) s (\<lambda>_.
         emit sink BeginObject s (\<lambda>s.
         lexed (peek d (tl here)) s (\<lambda>r.
           if starts 0x7D r then emit sink EndObject s (Read (tl r))
           else members sink d u (depth + 1) r s)))
       else if c = 0x5B then
         lexed (enter (depth + 1) here) s (\<lambda>_.
         emit sink BeginArray s (\<lambda>s.
         lexed (peek d (tl here)) s (\<lambda>r.
           if starts 0x5D r then emit sink EndArray s (Read (tl r))
           else array_elements sink d u (depth + 1) r s)))
       else
         lexed (scan_scalar d u c here) s (\<lambda>(e, r). emit sink e s (Read r)))"
| "members sink d u depth cs s =
     lexed (next_token d NameExpected cs) s (\<lambda>(c, here).
     lexed (scan_key d u c here) s (\<lambda>(k, r).
     emit sink (Key k) s (\<lambda>s.
     lexed (colon d r) s (\<lambda>r.
     and_then (value_at sink d u depth r s) (\<lambda>r s.
     lexed (after_member d BraceExpected 0x7D r) s (\<lambda>(ended, r).
       if ended then emit sink EndObject s (Read r) else members sink d u depth r s))))))"
| "array_elements sink d u depth cs s =
     and_then (value_at sink d u depth cs s) (\<lambda>r s.
     lexed (after_member d BracketExpected 0x5D r) s (\<lambda>(ended, r).
       if ended then emit sink EndArray s (Read r) else array_elements sink d u depth r s))"
  by pat_completeness auto

termination
proof -
  have reads_shorter: "value_at_members_array_elements_dom (Inl (sink, d, u, depth, cs, s)) \<Longrightarrow>
      value_at sink d u depth cs s = Read r t \<Longrightarrow> length r < length cs"
    and "value_at_members_array_elements_dom (Inr (Inl (sink, d, u, depth, cs, s))) \<Longrightarrow>
      members sink d u depth cs s = Read r t \<Longrightarrow> length r < length cs"
    and "value_at_members_array_elements_dom (Inr (Inr (sink, d, u, depth, cs, s))) \<Longrightarrow>
      array_elements sink d u depth cs s = Read r t \<Longrightarrow> length r < length cs"
    for sink d u depth cs s r t
  proof (induction arbitrary: r t and r t and r t rule: value_at_members_array_elements.pinduct)
    case (1 sink d u depth cs s)
    note step = 1(4) [unfolded value_at.psimps [OF 1(1)] outcome_reads]
    then obtain c here where h: "next_token d ValueExpected cs = Inr (c, here)" by auto
    then have l: "length here \<le> length cs" and c: "starts c here"
      using next_token_shorter by (auto simp: next_token_peek)
    have inner: "length x < length here" "length (tl x) < length here" if "peek d (tl here) = Inr x" for x
      using tail_shorter [OF c peek_suffix [OF that]] by simp_all
    have "length r < length here"
    proof (cases "c = 0x7B \<or> c = 0x5B")
      case True
      then show ?thesis
        using step h 1(2) [OF h refl] 1(3) [OF h refl] inner
        by (fastforce simp: outcome_reads split: if_splits)
    next
      case False
      then show ?thesis using step h scan_scalar_shorter [OF c] by (auto simp: outcome_reads)
    qed
    then show ?case using l by simp
  next
    case (2 sink d u depth cs s)
    note step = 2(4) [unfolded members.psimps [OF 2(1)] outcome_reads]
    then obtain c here k r1 s1 r2 r3 s3 ended r4 where h: "next_token d NameExpected cs = Inr (c, here)"
      "scan_key d u c here = Inr (k, r1)" "sink (Key k) s = (None, s1)" "colon d r1 = Inr r2"
      "value_at sink d u depth r2 s1 = Read r3 s3" "after_member d BraceExpected 0x7D r3 = Inr (ended, r4)"
      and e: "(if ended then emit sink EndObject s3 (Read r4) else members sink d u depth r4 s3) = Read r t"
      by (auto simp: outcome_reads)
    have "length here \<le> length cs" "starts c here" using h(1) next_token_shorter by (auto simp: next_token_peek)
    moreover from this have "length r1 < length here" using scan_key_shorter h(2) by blast
    moreover have "length r2 < length r1" "length r4 < length r3" using colon_shorter after_member_shorter h by blast+
    moreover have "length r3 < length r2" using 2(2) h by blast
    moreover have "length r \<le> length r4"
      using e 2(3) [OF h(1) refl h(2) refl h(3,4,5,6) refl] by (auto simp: outcome_reads less_imp_le split: if_splits)
    ultimately show ?case by linarith
  next
    case (3 sink d u depth cs s)
    note step = 3(4) [unfolded array_elements.psimps [OF 3(1)] outcome_reads]
    then obtain r3 s3 ended r4 where h:
      "value_at sink d u depth cs s = Read r3 s3" "after_member d BracketExpected 0x5D r3 = Inr (ended, r4)"
      and e: "(if ended then emit sink EndArray s3 (Read r4) else array_elements sink d u depth r4 s3) = Read r t"
      by (auto simp: outcome_reads)
    have "length r4 < length r3" using after_member_shorter h by blast
    moreover have "length r3 < length cs" using 3(2) h by blast
    moreover have "length r \<le> length r4"
      using e 3(3) [OF h refl] by (auto simp: outcome_reads less_imp_le split: if_splits)
    ultimately show ?case by linarith
  qed
  show ?thesis
  proof (relation "inv_image (less_than <*lex*> less_than)
      (\<lambda>x. case x of Inl (sink, d, u, depth, cs, s) \<Rightarrow> (length cs, 0 :: nat)
         | Inr (Inl (sink, d, u, depth, cs, s)) \<Rightarrow> (length cs, 1)
         | Inr (Inr (sink, d, u, depth, cs, s)) \<Rightarrow> (length cs, 1))", goal_cases)
    case 1
    show ?case by auto
  next
    case (2 sink d u depth cs s x c here xb t xc)
    then have "length xc < length here" using tail_shorter peek_suffix by (auto simp: next_token_peek)
    moreover have "length here \<le> length cs" using 2 next_token_shorter by blast
    ultimately show ?case by simp
  next
    case (3 sink d u depth cs s x c here xb t xc)
    then have "length xc < length here" using tail_shorter peek_suffix by (auto simp: next_token_peek)
    moreover have "length here \<le> length cs" using 3 next_token_shorter by blast
    ultimately show ?case by simp
  next
    case (4 sink d u depth cs s x c here xb k r1 t r2)
    then have "length r2 < length r1" "length r1 < length here" "length here \<le> length cs"
      using colon_shorter scan_key_shorter next_token_shorter by (auto simp: next_token_peek)
    then show ?case by simp
  next
    case (5 sink d u depth cs s x c here xb k r1 t r2 r3 s3 xe ended r4)
    then have "length r2 < length r1" "length r1 < length here" "length here \<le> length cs"
      "length r4 < length r3" "length r3 < length r2"
      using colon_shorter scan_key_shorter next_token_shorter after_member_shorter reads_shorter(1)
      by (auto simp: next_token_peek)
    then show ?case by simp
  next
    case (7 sink d u depth cs s r3 s3 x ended r4)
    then have "length r4 < length r3" "length r3 < length cs"
      using after_member_shorter reads_shorter(1) by auto
    then show ?case by simp
  qed simp_all
qed

declare value_at.simps [simp del] members.simps [simp del] array_elements.simps [simp del]

text \<open>A byte order mark at the start is skipped.\<close>

definition skip_bom :: "utext \<Rightarrow> utext" where
  "skip_bom t = (if starts 0xFEFF t then tl t else t)"

definition json_parse :: "('s, 'a) sink \<Rightarrow> dialect \<Rightarrow> unicode \<Rightarrow> utext \<Rightarrow> 's \<Rightarrow> ('s, 'a) outcome" where
  "json_parse sink d u t s =
     and_then (value_at sink d u 0 (skip_bom t) s) (\<lambda>r s.
     lexed (peek d r) s (\<lambda>r.
       if r = [] then Read [] s else Failed (Refused (TextAfterValue, r)) s))"

text \<open>\<open>Discard\<close>, and what \<open>json_validate\<close> says: nothing, or the error.\<close>

definition discard :: "(unit, unit) sink" where
  "discard e s = (None, s)"

definition json_validate :: "dialect \<Rightarrow> unicode \<Rightarrow> utext \<Rightarrow> json_error option" where
  "json_validate d u t =
     (case json_parse discard d u t () of
        Failed (Refused e) _ \<Rightarrow> Some (error_at d t e)
      | _ \<Rightarrow> None)"

end
