(* ===== verification/JsonStrings.thy ===== *)
theory JsonStrings
  imports JsonParser
begin

text \<open>
  The string scanner against a reference: it borrows the text up to the first escape, steps over whole
  runs, and pairs surrogates as it goes; what it reads is what reading one character or escape at a
  time gives, as UTF-16 code units, and as text when these are well formed. Then the strings of JSONC
  as a grammar.
\<close>

section \<open>One character at a time\<close>

definition option_units :: "piece option \<Rightarrow> nat list" where
  "option_units p = (case p of Some p \<Rightarrow> piece_units p | None \<Rightarrow> [])"

function read_chars :: "dialect \<Rightarrow> scalar \<Rightarrow> utext \<Rightarrow> nat list \<Rightarrow> utext \<Rightarrow> lex_error + nat list \<times> utext" where
  "read_chars d q start us [] = Inl (StringNotClosed, start)"
| "read_chars d q start us (c # cs) =
     (if c = q then Inr (us, cs)
      else if c = 0x5C then
        res_bind (scan_escape d (c # cs)) (\<lambda>(p, r). read_chars d q start (us @ option_units p) r)
      else res_bind (string_char d (c # cs)) (read_chars d q start (us @ encode_utf16 c)))"
  by pat_completeness auto
termination
  by (relation "measure (\<lambda>(_, _, _, _, cs). length cs)")
    (auto dest!: scan_escape_shorter string_char_shorter [rotated])

definition read_string :: "dialect \<Rightarrow> scalar \<Rightarrow> utext \<Rightarrow> lex_error + json_text \<times> utext" where
  "read_string d q start =
     res_bind (read_chars d q start [] (tl start)) (\<lambda>(us, r). Inr (read_units us, r))"

lemma read_chars_plain:
  "list_all (plain q) run \<Longrightarrow> read_chars d q start us (run @ r) = read_chars d q start (us @ units run) r"
  by (induction run arbitrary: us) (auto simp: plain_def string_char_def Let_def)

lemma run_split: "cs = takeWhile P cs @ dropWhile P cs" "list_all P (takeWhile P cs)"
  by (simp_all add: list_all_iff set_takeWhileD [THEN conjunct2])

lemma is_text_suffix: "is_text s \<Longrightarrow> suffix r s \<Longrightarrow> is_text r"
  by (auto simp: suffix_def)

lemma hex_loop_bound: "hex_loop w n v e cs = Inr (x, r) \<Longrightarrow> x < (v + 1) * 16 ^ n"
proof (induction n arbitrary: v cs)
  case (Suc n)
  then obtain c y where c: "hex_value c = Some y" and h: "hex_loop w n (v * 16 + y) e (tl cs) = Inr (x, r)"
    by (auto split: list.splits option.splits)
  have "y < 16" using c by (auto simp: hex_value_def split: if_splits)
  then have "(v * 16 + y + 1) * 16 ^ n \<le> (16 * (v + 1)) * 16 ^ n" by (intro mult_le_mono1) simp
  with Suc.IH [OF h] have "x < (16 * (v + 1)) * 16 ^ n" by (rule less_le_trans)
  then show ?case by (simp add: algebra_simps)
qed simp

lemma hex_bound: "hex 4 e cs = Inr (x, r) \<Longrightarrow> x < 0x10000" "hex 2 e cs = Inr (x, r) \<Longrightarrow> x < 0x10000"
  using hex_loop_bound [of 4 4 0 e cs x r] hex_loop_bound [of 2 2 0 e cs x r] by (simp_all add: hex_def)

lemma escape_piece_ok: "is_text here \<Longrightarrow> scan_escape d here = Inr (Some p, r) \<Longrightarrow> piece_ok p"
  by (cases here; cases "tl here")
    (auto simp: scan_escape_def simple_escape_def is_scalar_def res_bind_Inr_iff split: if_splits dest: hex_bound)

lemma push_option_ok:
  "builder_ok b \<Longrightarrow> (\<And>x. p = Some x \<Longrightarrow> piece_ok x) \<Longrightarrow>
    builder_ok (push_option p b) \<and> built (push_option p b) = built b @ option_units p"
  by (cases p) (auto simp: push_option_def option_units_def push_piece_ok)

lemma push_run_ok:
  "builder_ok b \<Longrightarrow> is_text run \<Longrightarrow> builder_ok (push_run run b) \<and> built (push_run run b) = built b @ units run"
  by (auto simp: push_run_def push_str_ok)

text \<open>Where a run ends.\<close>

lemma after_run:
  assumes "is_text cs" "x = dropWhile (plain q) cs"
  shows "is_text x" "is_text (takeWhile (plain q) cs)" "x \<noteq> [] \<Longrightarrow> \<not> plain q (hd x)"
    "read_chars d q start us cs = read_chars d q start (us @ units (takeWhile (plain q) cs)) x"
proof -
  show "is_text x" unfolding assms(2) by (rule is_text_suffix [OF assms(1) suffix_dropWhile])
  show "is_text (takeWhile (plain q) cs)"
    using assms(1) by (auto simp: is_text_def list_all_iff dest: set_takeWhileD)
  show "x \<noteq> [] \<Longrightarrow> \<not> plain q (hd x)" using assms(2) hd_dropWhile by blast
  show "read_chars d q start us cs = read_chars d q start (us @ units (takeWhile (plain q) cs)) x"
    using read_chars_plain [OF run_split(2) [where P = "plain q" and cs = cs], of d start us x] assms(2) run_split(1) by metis
qed

lemma string_slow_reads:
  "is_text cs \<Longrightarrow> builder_ok out \<Longrightarrow>
    string_slow d q start out cs = res_bind (read_chars d q start (built out) cs) (\<lambda>(us, r). Inr (read_units us, r))"
proof (induction d q start out cs rule: string_slow.induct)
  case (1 d q start out cs)
  define x where "x = dropWhile (plain q) cs"
  define b where "b = push_run (takeWhile (plain q) cs) out"
  note run = after_run [OF 1(3) x_def]
  have b: "builder_ok b" "built b = built out @ units (takeWhile (plain q) cs)"
    using push_run_ok [OF 1(4) run(2)] by (simp_all add: b_def)
  have step: "string_slow d q start out cs =
      (if x = [] then Inl (StringNotClosed, start)
       else if hd x = q then Inr (finish_builder b, tl x)
       else if hd x = 0x5C then res_bind (scan_escape d x) (\<lambda>(p, r). string_slow d q start (push_option p b) r)
       else res_bind (string_char d x) (string_slow d q start (push_str [hd x] b)))"
    by (subst string_slow.simps) (simp only: Let_def x_def b_def)
  have reads: "read_chars d q start (built out) cs = read_chars d q start (built b) x"
    using run(4) b(2) by simp
  consider "x = []" | c r where "x = c # r" "c = q" | c r where "x = c # r" "c \<noteq> q" "c = 0x5C"
    | c r where "x = c # r" "c \<noteq> q" "c \<noteq> 0x5C" by (cases x) auto
  then show ?case
  proof cases
    case 1
    then show ?thesis by (simp add: step reads)
  next
    case 2
    then show ?thesis by (simp add: step reads finish_built b(1))
  next
    case (3 c r)
    show ?thesis
    proof (cases "scan_escape d x")
      case (Inr pr)
      obtain p y where pr: "pr = (p, y)" by force
      have p: "builder_ok (push_option p b)" "built (push_option p b) = built b @ option_units p"
        using push_option_ok [OF b(1), of p] escape_piece_ok [OF run(1)] Inr pr by auto
      moreover have "is_text y" using run(1) scan_escape_suffix [of d x p y] Inr pr is_text_suffix by blast
      ultimately have "string_slow d q start (push_option p b) y =
          res_bind (read_chars d q start (built b @ option_units p) y) (\<lambda>(us, r). Inr (read_units us, r))"
        using 1(1) [OF b_def x_def _ _ _ Inr pr [symmetric]] 3 by simp
      then show ?thesis using 3 Inr pr by (simp add: step reads)
    qed (use 3 in \<open>simp add: step reads\<close>)
  next
    case (4 c r)
    show ?thesis
    proof (cases "string_char d x")
      case (Inr y)
      then have y: "y = r" using string_char_suffix 4 by fastforce
      have s: "is_text [c]" "is_text r" using run(1) 4 by simp_all
      have "string_slow d q start (push_str [c] b) r =
          res_bind (read_chars d q start (built b @ encode_utf16 c) r) (\<lambda>(us, r). Inr (read_units us, r))"
        using 1(2) [OF b_def x_def _ _ _ Inr] push_str_ok [OF b(1) s(1)] s(2) 4 y by simp
      then show ?thesis using 4 Inr y by (simp add: step reads)
    qed (use 4 in \<open>simp add: step reads\<close>)
  qed
qed

lemma string_fast_reads:
  "is_text cs \<Longrightarrow> is_text acc \<Longrightarrow>
    (case string_fast d q start acc cs of
       Inl e \<Rightarrow> read_chars d q start (units acc) cs = Inl e
     | Inr ((body, ended), r) \<Rightarrow> is_text body \<and> is_text r \<and>
         read_chars d q start (units acc) cs = (if ended then Inr (units body, r) else read_chars d q start (units body) r))"
proof (induction d q start acc cs rule: string_fast.induct)
  case (1 d q start acc cs)
  define x where "x = dropWhile (plain q) cs"
  define a where "a = acc @ takeWhile (plain q) cs"
  note run = after_run [OF 1(2) x_def]
  have a: "is_text a" using 1(3) run(2) by (simp add: a_def)
  have step: "string_fast d q start acc cs =
      (if x = [] then Inl (StringNotClosed, start)
       else if hd x = q then Inr ((a, True), tl x)
       else if hd x = 0x5C then Inr ((a, False), x)
       else res_bind (string_char d x) (string_fast d q start (a @ [hd x])))"
    by (subst string_fast.simps) (simp only: Let_def x_def a_def)
  have reads: "read_chars d q start (units acc) cs = read_chars d q start (units a) x"
    using run(4) by (simp add: a_def)
  consider "x = []" | c r where "x = c # r" "c = q" | c r where "x = c # r" "c \<noteq> q" "c = 0x5C"
    | c r where "x = c # r" "c \<noteq> q" "c \<noteq> 0x5C" by (cases x) auto
  then show ?case
  proof cases
    case (4 c r)
    have s: "is_text (a @ [c])" "is_text r" using run(1) a 4 by simp_all
    show ?thesis
    proof (cases "string_char d x")
      case (Inr y)
      then have y: "y = r" using string_char_suffix 4 by fastforce
      show ?thesis using 1(1) [OF a_def x_def _ _ _ , of r] 4 s Inr y
        by (simp add: step reads split: sum.split_asm prod.split_asm)
    qed (use 4 in \<open>simp add: step reads\<close>)
  qed (use run(1) a in \<open>simp_all add: step reads\<close>)
qed

lemma scan_string_reads: "is_text start \<Longrightarrow> scan_string d q start = read_string d q start"
proof -
  assume "is_text start"
  then have t: "is_text (tl start)" using is_text_suffix suffix_tl by blast
  have f: "is_text []" by simp
  show ?thesis
  proof (cases "string_fast d q start [] (tl start)")
    case (Inl e)
    then show ?thesis using string_fast_reads [OF t f, of d q start] by (simp add: scan_string_def read_string_def)
  next
    case (Inr v)
    obtain body ended r where v: "v = ((body, ended), r)" by (cases v) auto
    then have b: "is_text body" "is_text r"
      "read_chars d q start [] (tl start) = (if ended then Inr (units body, r) else read_chars d q start (units body) r)"
      using string_fast_reads [OF t f, of d q start] Inr by simp_all
    show ?thesis
    proof (cases ended)
      case True
      then show ?thesis using Inr v b by (simp add: scan_string_def read_string_def read_units_text)
    next
      case False
      then show ?thesis using Inr v b string_slow_reads [OF b(2), of "new_builder body"] new_builder_ok [OF b(1)]
        by (simp add: scan_string_def read_string_def)
    qed
  qed
qed

section \<open>Writing a string\<close>

text \<open>\<open>quote_string\<close> of \<open>edit.rs\<close>: a key as a string literal.\<close>

definition lower_hex :: "nat \<Rightarrow> scalar" where
  "lower_hex n = (if n < 10 then 0x30 + n else 0x61 + (n - 10))"

definition quote_char :: "scalar \<Rightarrow> scalar \<Rightarrow> utext" where
  "quote_char q c =
     (if c = 0x5C then [0x5C, 0x5C]
      else if c = 0x0A then [0x5C, 0x6E]
      else if c = 0x0D then [0x5C, 0x72]
      else if c = 0x09 then [0x5C, 0x74]
      else if c = 0x08 then [0x5C, 0x62]
      else if c = 0x0C then [0x5C, 0x66]
      else if c = 0x2028 then [0x5C, 0x75, 0x32, 0x30, 0x32, 0x38]
      else if c = 0x2029 then [0x5C, 0x75, 0x32, 0x30, 0x32, 0x39]
      else if c = q then [0x5C, c]
      else if c < 0x20 then [0x5C, 0x75, 0x30, 0x30, lower_hex (c div 16), lower_hex (c mod 16)]
      else [c])"

definition quote_string :: "utext \<Rightarrow> scalar \<Rightarrow> utext" where
  "quote_string t q = [q] @ concat (map (quote_char q) t) @ [q]"

lemma hex_value_lower [simp]: "n < 16 \<Longrightarrow> hex_value (lower_hex n) = Some n"
  by (auto simp: hex_value_def lower_hex_def)

lemma hex4:
  "hex_value a = Some w \<Longrightarrow> hex_value b = Some x \<Longrightarrow> hex_value c = Some y \<Longrightarrow> hex_value e = Some z \<Longrightarrow>
    hex 4 h (a # b # c # e # r) = Inr (((w * 16 + x) * 16 + y) * 16 + z, r)"
  by (simp add: hex_def numeral_eq_Suc)

definition quotes :: "dialect \<Rightarrow> scalar \<Rightarrow> bool" where
  "quotes d q \<longleftrightarrow> q = 0x22 \<or> q = 0x27 \<and> d = Json5"

lemma read_quoted_char:
  assumes "quotes d q" "is_scalar c"
  shows "read_chars d q start us (quote_char q c @ r) = read_chars d q start (us @ encode_utf16 c) r"
proof -
  have q: "q \<noteq> 0x5C" "\<not> q < 0x20" using assms(1) by (auto simp: quotes_def)
  consider "c \<in> {0x5C, 0x0A, 0x0D, 0x09, 0x08, 0x0C}" | "c = 0x2028 \<or> c = 0x2029" | "c = q"
    | "c < 0x20" "c \<notin> {0x0A, 0x0D, 0x09, 0x08, 0x0C}" | "c \<noteq> q" "c \<noteq> 0x5C" "c \<noteq> 0x2028" "c \<noteq> 0x2029" "\<not> c < 0x20"
    by blast
  then show ?thesis
  proof cases
    case 1
    then show ?thesis using q(1)
      by (elim insertE emptyE; simp add: quote_char_def scan_escape_def simple_escape_def option_units_def)
  next
    case 2
    have "hex_value 0x32 = Some 2" "hex_value 0x30 = Some 0" "hex_value 0x38 = Some 8" "hex_value 0x39 = Some 9"
      by (simp_all add: hex_value_def)
    note h = hex4 [OF this(1,2,1,3)] hex4 [OF this(1,2,1,4)]
    from 2 show ?thesis using q(1)
      by (elim disjE; simp add: quote_char_def scan_escape_def simple_escape_def h option_units_def encode_utf16_def)
  next
    case 3
    with assms(1) consider "c = 0x22" "q = 0x22" | "c = 0x27" "q = 0x27" "d = Json5" by (auto simp: quotes_def)
    then show ?thesis
      by cases (simp_all add: quote_char_def scan_escape_def simple_escape_def option_units_def is_digit_def)
  next
    case 4
    then have "c \<noteq> q" "c \<noteq> 0x5C" "c \<noteq> 0x2028" "c \<noteq> 0x2029" using q by auto
    moreover have "hex 4 h (0x30 # 0x30 # lower_hex (c div 16) # lower_hex (c mod 16) # r) = Inr (c, r)" for h
    proof -
      have z: "hex_value 0x30 = Some 0" by (simp add: hex_value_def)
      have "hex_value (lower_hex (c div 16)) = Some (c div 16)" "hex_value (lower_hex (c mod 16)) = Some (c mod 16)"
        using 4 by simp_all
      from hex4 [OF z z this] show ?thesis by simp
    qed
    ultimately show ?thesis using 4 q
      by (simp add: quote_char_def scan_escape_def simple_escape_def option_units_def encode_utf16_def)
  next
    case 5
    then show ?thesis by (auto simp: quote_char_def string_char_def Let_def)
  qed
qed

lemma read_quoted: "quotes d q \<Longrightarrow> is_text t \<Longrightarrow>
    read_chars d q start us (concat (map (quote_char q) t) @ r) = read_chars d q start (us @ units t) r"
  by (induction t arbitrary: us) (simp_all add: read_quoted_char)

lemma quote_char_text: "is_scalar c \<Longrightarrow> is_scalar q \<Longrightarrow> is_text (quote_char q c)"
  by (auto simp: quote_char_def is_scalar_def lower_hex_def)

lemma quote_string_text: "is_text t \<Longrightarrow> quotes d q \<Longrightarrow> is_text (quote_string t q)"
  unfolding quote_string_def by (induction t) (auto simp: quote_char_text quotes_def is_scalar_def)

text \<open>
  What the editor quotes is read back. A text written as a string literal, in double quotes or,
  in JSON5, single ones, is scanned as that text, and the scanner stops right behind it whatever
  follows: quotes, backslashes, line breaks, separators and control characters come back as they were.
\<close>

theorem quoted_string_reads_back:
  assumes "quotes d q" "is_text t" "is_text r"
  shows "scan_string d q (quote_string t q @ r) = Inr (Str t, r)"
proof -
  have "is_text (quote_string t q @ r)" using quote_string_text assms by simp
  then show ?thesis using read_quoted [OF assms(1,2), of "quote_string t q @ r" "[]" "q # r"]
    by (simp add: scan_string_reads read_string_def quote_string_def read_units_text assms(2))
qed

theorem quoted_string_reads_back_witness:
  "scan_string Json5 0x27 (quote_string [0x69, 0x27, 0x5C, 0x0A, 0x1F600] 0x27 @ [0x2C]) =
    Inr (Str [0x69, 0x27, 0x5C, 0x0A, 0x1F600], [0x2C])"
  by (rule quoted_string_reads_back) (simp_all add: quotes_def is_scalar_def)

text \<open>
  C26: the string scanner is exact. On a text, the scanner, which borrows the input up to the first
  escape, copies whole runs and pairs surrogate escapes as it meets them, answers what reading one
  character or escape at a time as UTF-16 units gives: the same text or lone surrogates, the same
  rest, and the same error at the same place.
\<close>

theorem string_scanner_exact:
  assumes "is_text start"
  shows "scan_string d q start = read_string d q start"
  using assms by (rule scan_string_reads)

theorem string_scanner_exact_witness:
  "scan_string Jsonc 0x22 [0x22, 0x5C, 0x6E, 0x61, 0x22] = Inr (Str [0x0A, 0x61], [])"
proof -
  have "read_string Jsonc 0x22 [0x22, 0x5C, 0x6E, 0x61, 0x22] = Inr (Str [0x0A, 0x61], [])"
    by (simp add: read_string_def scan_escape_def simple_escape_def option_units_def string_char_def
        encode_utf16_def read_units_def is_high_def is_low_def)
  then show ?thesis using string_scanner_exact [where start = "[0x22, 0x5C, 0x6E, 0x61, 0x22]" and d = Jsonc and q = "0x22"] by (simp add: is_scalar_def)
qed

end
