(* ===== verification/JsonEvents.thy ===== *)
theory JsonEvents
  imports JsonStrings
begin

text \<open>
  What the parser reports. Recording the events of a parse determines what it does with any other
  sink.
\<close>

section \<open>Recording, and replaying to a sink\<close>

definition recording :: "(json_event list, 'a) sink" where
  "recording e evs = (None, evs @ [e])"

fun replay :: "('s, 'a) sink \<Rightarrow> json_event list \<Rightarrow> 's \<Rightarrow> 'a option \<times> 's" where
  "replay sink [] s = (None, s)"
| "replay sink (e # es) s = (case sink e s of (None, s) \<Rightarrow> replay sink es s | (Some a, s) \<Rightarrow> (Some a, s))"

lemma replay_append:
  "replay sink (es @ fs) s = (case replay sink es s of (None, s) \<Rightarrow> replay sink fs s | (Some a, s) \<Rightarrow> (Some a, s))"
  by (induction es arbitrary: s) (auto split: prod.split option.split)

text \<open>What the parse of a recorded outcome is for \<open>sink\<close>: it stops where the sink does.\<close>

fun replayed :: "('s, 'a) sink \<Rightarrow> 's \<Rightarrow> (json_event list, 'a) outcome \<Rightarrow> ('s, 'a) outcome" where
  "replayed sink s (Read r evs) =
     (case replay sink evs s of (None, s) \<Rightarrow> Read r s | (Some a, s) \<Rightarrow> Failed (Abort a) s)"
| "replayed sink s (Failed e evs) =
     (case replay sink evs s of (None, s) \<Rightarrow> Failed e s | (Some a, s) \<Rightarrow> Failed (Abort a) s)"

fun recorded :: "('s, 'a) outcome \<Rightarrow> 's" where
  "recorded (Read r s) = s"
| "recorded (Failed e s) = s"

definition grows :: "json_event list \<Rightarrow> (json_event list, 'a) outcome \<Rightarrow> bool" where
  "grows evs m \<longleftrightarrow> (\<exists>new. recorded m = evs @ new)"

lemma emit_recording: "emit recording e evs f = f (evs @ [e])"
  by (simp add: emit_def recording_def)

named_theorems growing \<open>steps of a recorded parse only add events\<close>

lemma grows_refl [simp]: "grows evs (Read r evs)" "grows evs (Failed e evs)"
  by (simp_all add: grows_def)

lemma grows_emit [growing]: "grows (evs @ [e]) (f (evs @ [e])) \<Longrightarrow> grows evs (emit recording e evs f)"
  by (auto simp: grows_def emit_recording)

lemma grows_lexed [growing]: "(\<And>x. m = Inr x \<Longrightarrow> grows evs (f x)) \<Longrightarrow> grows evs (lexed m evs f)"
  by (cases m) simp_all

lemma grows_and_then [growing]:
  "grows evs m \<Longrightarrow> (\<And>r es. m = Read r es \<Longrightarrow> grows es (f r es)) \<Longrightarrow> grows evs (and_then m f)"
  by (cases m) (force simp: grows_def)+

lemma parser_grows:
  shows "grows evs (value_at (recording :: (json_event list, 'a) sink) d u depth cs evs)"
    and "grows evs (members (recording :: (json_event list, 'a) sink) d u depth cs evs)"
    and "grows evs (array_elements (recording :: (json_event list, 'a) sink) d u depth cs evs)"
proof (induction "recording :: (json_event list, 'a) sink" d u depth cs evs and "recording :: (json_event list, 'a) sink" d u depth cs evs
    and "recording :: (json_event list, 'a) sink" d u depth cs evs rule: value_at_members_array_elements.induct)
  case (1 d u depth cs s)
  have object: "grows (s @ [BeginObject]) (members (recording :: (json_event list, 'a) sink) d u (Suc depth) r (s @ [BeginObject]))"
    if "next_token d ValueExpected cs = Inr (0x7B, here)" "enter (Suc depth) here = Inr x"
      "peek d (tl here) = Inr r" "\<not> starts 0x7D r" for here x r
    using 1(1) [OF that(1) refl refl _ _ that(3,4)] that(2) by (simp add: recording_def)
  have arr: "grows (s @ [BeginArray]) (array_elements (recording :: (json_event list, 'a) sink) d u (Suc depth) r (s @ [BeginArray]))"
    if "next_token d ValueExpected cs = Inr (0x5B, here)" "enter (Suc depth) here = Inr x"
      "peek d (tl here) = Inr r" "\<not> starts 0x5D r" for here x r
    using 1(2) [OF that(1) refl _ refl _ _ that(3,4)] that(2) by (simp add: recording_def)
  show ?case by (subst value_at.simps, auto intro!: growing, (blast intro: object arr)+)
next
  case (2 d u depth cs s)
  show ?case by (subst members.simps) (auto intro!: growing 2 simp: recording_def)
next
  case (3 d u depth cs s)
  show ?case by (subst array_elements.simps) (auto intro!: growing 3)
qed

section \<open>Any sink sees the recorded events\<close>

text \<open>\<open>s\<close> is where \<open>sink\<close> is after the events \<open>evs\<close>, from \<open>s0\<close>.\<close>

definition in_step :: "('s, 'a) sink \<Rightarrow> 's \<Rightarrow> json_event list \<Rightarrow> 's \<Rightarrow> bool" where
  "in_step sink s0 evs s \<longleftrightarrow> replay sink evs s0 = (None, s)"

lemma replayed_stopped:
  "replay sink evs s0 = (Some a, s) \<Longrightarrow> grows evs m \<Longrightarrow> replayed sink s0 m = Failed (Abort a) s"
  by (cases m) (auto simp: grows_def replay_append)

lemma replayed_lexed:
  assumes "in_step sink s0 evs s" "\<And>x. m = Inr x \<Longrightarrow> f x = replayed sink s0 (g x)"
  shows "lexed m s f = replayed sink s0 (lexed m evs g)"
  using assms by (cases m) (auto simp: in_step_def)

lemma replayed_emit:
  assumes "in_step sink s0 evs s" "grows (evs @ [e]) (g (evs @ [e]))"
    and "\<And>t. sink e s = (None, t) \<Longrightarrow> in_step sink s0 (evs @ [e]) t \<Longrightarrow> f t = replayed sink s0 (g (evs @ [e]))"
  shows "emit sink e s f = replayed sink s0 (emit recording e evs g)"
proof (cases "sink e s")
  case (Pair a t)
  show ?thesis
  proof (cases a)
    case None
    then have "in_step sink s0 (evs @ [e]) t" using assms(1) Pair by (simp add: in_step_def replay_append)
    then show ?thesis using assms(3) Pair None by (simp add: emit_def recording_def)
  next
    case (Some x)
    then have "replay sink (evs @ [e]) s0 = (Some x, t)" using assms(1) Pair by (simp add: in_step_def replay_append)
    from replayed_stopped [OF this assms(2)] show ?thesis using Pair Some by (simp add: emit_def recording_def)
  qed
qed

lemma replayed_and_then:
  assumes "m = replayed sink s0 n" "\<And>r es. n = Read r es \<Longrightarrow> grows es (g r es)"
    and "\<And>r t es. m = Read r t \<Longrightarrow> n = Read r es \<Longrightarrow> in_step sink s0 es t \<Longrightarrow> f r t = replayed sink s0 (g r es)"
  shows "and_then m f = replayed sink s0 (and_then n g)"
proof (cases n)
  case (Read r es)
  then show ?thesis using assms replayed_stopped [OF _ assms(2) [OF Read], of sink s0]
    by (cases "replay sink es s0") (auto simp: in_step_def split: option.splits)
next
  case (Failed e es)
  then show ?thesis using assms(1) by (auto split: prod.splits option.splits)
qed

lemma in_step_Read: "in_step sink s0 es t \<Longrightarrow> Read r t = replayed sink s0 (Read r es)"
  by (simp add: in_step_def)

lemma in_step_Failed: "in_step sink s0 es t \<Longrightarrow> Failed e t = replayed sink s0 (Failed e es)"
  by (simp add: in_step_def)

lemmas replaying = replayed_lexed replayed_emit replayed_and_then in_step_Read

lemma parser_replays:
  shows "in_step sink s0 evs s \<Longrightarrow> value_at sink d u depth cs s = replayed sink s0 (value_at recording d u depth cs evs)"
    and "in_step sink s0 evs s \<Longrightarrow> members sink d u depth cs s = replayed sink s0 (members recording d u depth cs evs)"
    and "in_step sink s0 evs s \<Longrightarrow> array_elements sink d u depth cs s = replayed sink s0 (array_elements recording d u depth cs evs)"
proof (induction sink d u depth cs s and sink d u depth cs s and sink d u depth cs s arbitrary: evs and evs and evs
    rule: value_at_members_array_elements.induct)
  case (1 sink d u depth cs s)
  have object: "members sink d u (Suc depth) r t = replayed sink s0 (members recording d u (Suc depth) r es)"
    if "next_token d ValueExpected cs = Inr (0x7B, here)" "enter (Suc depth) here = Inr x" "sink BeginObject s = (None, t)"
      "peek d (tl here) = Inr r" "\<not> starts 0x7D r" "in_step sink s0 es t" for here x t r es
    using 1(1) [OF that(1) refl refl _ that(3,4,5,6)] that(2) by simp
  have arr: "array_elements sink d u (Suc depth) r t = replayed sink s0 (array_elements recording d u (Suc depth) r es)"
    if "next_token d ValueExpected cs = Inr (0x5B, here)" "enter (Suc depth) here = Inr x" "sink BeginArray s = (None, t)"
      "peek d (tl here) = Inr r" "\<not> starts 0x5D r" "in_step sink s0 es t" for here x t r es
    using 1(2) [OF that(1) refl _ refl _ that(3,4,5,6)] that(2) by simp
  show ?case
    by (subst (1 2) value_at.simps, auto intro!: replaying growing parser_grows 1(3), (blast intro: object arr)+)
next
  case (2 sink d u depth cs s)
  show ?case
    by (subst (1 2) members.simps) (auto intro!: replaying growing parser_grows 2 simp: recording_def)
next
  case (3 sink d u depth cs s)
  show ?case
    by (subst (1 2) array_elements.simps) (auto intro!: replaying growing parser_grows 3 simp: recording_def)
qed

lemma parse_grows: "grows evs (json_parse recording d u t evs)"
  unfolding json_parse_def by (auto intro!: growing parser_grows)

lemma parse_replays:
  "in_step sink s0 evs s \<Longrightarrow> json_parse sink d u t s = replayed sink s0 (json_parse recording d u t evs)"
  unfolding json_parse_def
  by (auto intro!: replaying growing parser_grows parser_replays in_step_Failed simp del: replayed.simps)

text \<open>
  One parse for every sink. What a parse does with a sink is what recording its events and
  replaying them does: the sink gets the recorded events in order until it stops, and then the
  parse is over; if it never stops the parse ends as the recorded one does, with the same error at
  the same place.
\<close>

theorem any_sink:
  "json_parse sink d u t s = replayed sink s (json_parse recording d u t [])"
  using parse_replays [of sink s "[]" s] by (simp add: in_step_def)

end
