(* ===== verification/JsonValues.thy ===== *)
theory JsonValues
  imports JsonEvents
begin

text \<open>
  How many events a parse reports, and that the events of an accepted text are those of one value,
  nested no deeper than the bound.
\<close>

section \<open>How many events\<close>

text \<open>\<open>n\<close> bounds the events reported and what is left of the text.\<close>

fun pays :: "nat \<Rightarrow> (json_event list, 'a) outcome \<Rightarrow> bool" where
  "pays n (Read r evs) \<longleftrightarrow> length evs + length r \<le> n"
| "pays n (Failed e evs) \<longleftrightarrow> length evs \<le> n"

named_theorems paying \<open>steps of a recorded parse pay for their events with text\<close>

lemma pays_lexed [paying]: "length evs \<le> n \<Longrightarrow> (\<And>x. m = Inr x \<Longrightarrow> pays n (f x)) \<Longrightarrow> pays n (lexed m evs f)"
  by (cases m) simp_all

lemma pays_emit [paying]: "pays n (f (evs @ [e])) \<Longrightarrow> pays n (emit recording e evs f)"
  by (simp add: emit_recording)

lemma pays_and_then [paying]:
  "pays k m \<Longrightarrow> k \<le> n \<Longrightarrow> (\<And>r es. m = Read r es \<Longrightarrow> length es + length r \<le> k \<Longrightarrow> pays n (f r es)) \<Longrightarrow>
    pays n (and_then m f)"
  by (cases m) simp_all

lemma pays_mono: "pays k m \<Longrightarrow> k \<le> n \<Longrightarrow> pays n m"
  by (cases m) simp_all

lemma parser_pays:
  shows "length evs + length cs \<le> n \<Longrightarrow> pays n (value_at (recording :: (json_event list, 'a) sink) d u depth cs evs)"
    and "length evs + length cs \<le> n \<Longrightarrow> pays n (members (recording :: (json_event list, 'a) sink) d u depth cs evs)"
    and "length evs + length cs \<le> n \<Longrightarrow> pays n (array_elements (recording :: (json_event list, 'a) sink) d u depth cs evs)"
proof (induction "recording :: (json_event list, 'a) sink" d u depth cs evs and "recording :: (json_event list, 'a) sink" d u depth cs evs
    and "recording :: (json_event list, 'a) sink" d u depth cs evs arbitrary: n and n and n
    rule: value_at_members_array_elements.induct)
  case (1 d u depth cs s)
  have inner: "length (tl r) < length here" "length r < length here" "length here \<le> length cs"
    if "next_token d ValueExpected cs = Inr (c, here)" "peek d (tl here) = Inr r" for c here r
  proof -
    have c: "starts c here" using that(1) by (simp add: next_token_peek)
    show r: "length r < length here" by (rule tail_shorter [OF c peek_suffix [OF that(2)]])
    then show "length (tl r) < length here" by simp
    show "length here \<le> length cs" using next_token_shorter [OF that(1)] by simp
  qed
  have object: "pays n (members (recording :: (json_event list, 'a) sink) d u (Suc depth) r (s @ [BeginObject]))"
    if "next_token d ValueExpected cs = Inr (0x7B, here)" "enter (Suc depth) here = Inr ()"
      "peek d (tl here) = Inr r" "\<not> starts 0x7D r" for here r
    using 1(1) [OF that(1) refl refl _ _ that(3,4)] that(2) inner [OF that(1,3)] 1(3) by (simp add: recording_def)
  have arr: "pays n (array_elements (recording :: (json_event list, 'a) sink) d u (Suc depth) r (s @ [BeginArray]))"
    if "next_token d ValueExpected cs = Inr (0x5B, here)" "enter (Suc depth) here = Inr ()"
      "peek d (tl here) = Inr r" "\<not> starts 0x5D r" for here r
    using 1(2) [OF that(1) refl _ refl _ _ that(3,4)] that(2) inner [OF that(1,3)] 1(3) by (simp add: recording_def)
  have more: "length s < n" if "next_token d ValueExpected cs = Inr (c, here)" for c here
    using next_token_shorter [OF that] 1(3) by auto
  have scalar: "length s + Suc (length r) \<le> n" if "next_token d ValueExpected cs = Inr (c, here)"
      "scan_scalar d u c here = Inr (e, r)" for c here e r
    using next_token_shorter [OF that(1)] scan_scalar_shorter [OF _ that(2)] that(1) 1(3) by (auto simp: next_token_peek)
  have closed_at: "length s + (2 + length (tl r)) \<le> n"
    if "next_token d ValueExpected cs = Inr (c, here)" "peek d (tl here) = Inr r" "starts e r" for c here r e
    using inner [OF that(1,2)] that(3) 1(3) by (auto simp: starts_iff)
  show ?case
  proof (cases "next_token d ValueExpected cs")
    case (Inl e)
    then show ?thesis using 1(3) by (simp add: value_at.simps [of _ d u depth cs s])
  next
    case (Inr x)
    obtain c here where x: "x = (c, here)" by force
    note h = Inr [unfolded x]
    consider "c = 0x7B" | "c = 0x5B" | "c \<noteq> 0x7B" "c \<noteq> 0x5B" by blast
    then show ?thesis
    proof cases
      case 1
      then show ?thesis using h more [OF h] closed_at [OF h] object [of here]
        by (auto simp: value_at.simps [of _ d u depth cs s] intro!: paying)
    next
      case 2
      then show ?thesis using h more [OF h] closed_at [OF h] arr [of here]
        by (auto simp: value_at.simps [of _ d u depth cs s] intro!: paying)
    next
      case 3
      then show ?thesis using h more [OF h] scalar [OF h]
        by (auto simp: value_at.simps [of _ d u depth cs s] intro!: paying)
    qed
  qed
next
  case (2 d u depth cs s)
  have step: "pays n (lexed (colon d r1) (s @ [Key k]) (\<lambda>r.
     and_then (value_at (recording :: (json_event list, 'a) sink) d u depth r (s @ [Key k])) (\<lambda>r s.
     lexed (after_member d BraceExpected 0x7D r) s (\<lambda>(ended, r).
       if ended then emit recording EndObject s (Read r) else members (recording :: (json_event list, 'a) sink) d u depth r s))))"
    if h: "next_token d NameExpected cs = Inr (c, here)" "scan_key d u c here = Inr (k, r1)" for c here k r1
  proof (rule paying)
    have l: "length r1 < length here" "length here \<le> length cs"
      using h scan_key_shorter next_token_shorter by (auto simp: next_token_peek)
    then show "length (s @ [Key k]) \<le> n" using 2(3) by simp
    fix r2 assume c: "colon d r1 = Inr r2"
    have v: "pays (n - 1) (value_at (recording :: (json_event list, 'a) sink) d u depth r2 (s @ [Key k]))"
      using 2(1) [OF h(1) refl h(2) refl _ c, of "s @ [Key k]" "n - 1"] colon_shorter [OF c] l 2(3)
      by (simp add: recording_def)
    have "pays n (lexed (after_member d BraceExpected 0x7D r3) s3 (\<lambda>(ended, r).
       if ended then emit recording EndObject s3 (Read r) else members (recording :: (json_event list, 'a) sink) d u depth r s3))"
      if w: "value_at (recording :: (json_event list, 'a) sink) d u depth r2 (s @ [Key k]) = Read r3 s3"
        "length s3 + length r3 \<le> n - 1" for r3 s3
    proof (rule paying)
      show "length s3 \<le> n" using w(2) by simp
      fix x assume x: "after_member d BraceExpected 0x7D r3 = Inr x"
      obtain ended r4 where e: "x = (ended, r4)" by force
      have "length r4 < length r3" using after_member_shorter x e by blast
      then show "pays n (case x of (ended, r) \<Rightarrow>
        if ended then emit recording EndObject s3 (Read r) else members (recording :: (json_event list, 'a) sink) d u depth r s3)"
        using 2(2) [OF h(1) refl h(2) refl _ c w(1) x e [symmetric], of n] w(2) l by (auto simp: e recording_def emit_recording)
    qed
    then show "pays n (and_then (value_at (recording :: (json_event list, 'a) sink) d u depth r2 (s @ [Key k])) (\<lambda>r s.
     lexed (after_member d BraceExpected 0x7D r) s (\<lambda>(ended, r).
       if ended then emit recording EndObject s (Read r) else members (recording :: (json_event list, 'a) sink) d u depth r s)))"
      using v by (auto intro: pays_and_then)
  qed
  show ?case
  proof (cases "next_token d NameExpected cs")
    case (Inr x)
    obtain c here where x: "x = (c, here)" by force
    note h = Inr [unfolded x]
    show ?thesis
    proof (cases "scan_key d u c here")
      case (Inr y)
      obtain k r1 where y: "y = (k, r1)" by force
      then show ?thesis using step [OF h Inr [unfolded y]] h Inr by (simp add: members.simps [of _ d u depth cs s] emit_recording)
    qed (use h 2(3) in \<open>simp add: members.simps [of _ d u depth cs s]\<close>)
  qed (use 2(3) in \<open>simp add: members.simps [of _ d u depth cs s]\<close>)
next
  case (3 d u depth cs s)
  have v: "pays n (value_at (recording :: (json_event list, 'a) sink) d u depth cs s)" by (rule 3(1) [OF 3(3)])
  have "pays n (lexed (after_member d BracketExpected 0x5D r3) s3 (\<lambda>(ended, r).
       if ended then emit recording EndArray s3 (Read r) else array_elements (recording :: (json_event list, 'a) sink) d u depth r s3))"
    if w: "value_at (recording :: (json_event list, 'a) sink) d u depth cs s = Read r3 s3"
      "length s3 + length r3 \<le> n" for r3 s3
  proof (rule paying)
    show "length s3 \<le> n" using w(2) by simp
    fix x assume x: "after_member d BracketExpected 0x5D r3 = Inr x"
    obtain ended r4 where e: "x = (ended, r4)" by force
    have "length r4 < length r3" using after_member_shorter x e by blast
    then show "pays n (case x of (ended, r) \<Rightarrow>
      if ended then emit recording EndArray s3 (Read r) else array_elements (recording :: (json_event list, 'a) sink) d u depth r s3)"
      using 3(2) [OF w(1) x e [symmetric], of n] w(2) by (auto simp: e emit_recording)
  qed
  then show ?case by (subst array_elements.simps) (use v in \<open>auto intro: pays_and_then\<close>)
qed

text \<open>
  C29: every parse ends, and soon. Whatever the text, in either dialect, and wherever the parse stops, it
  has reported at most one event for each character of the text.
\<close>

theorem parse_events_bounded:
  "length (recorded (json_parse (recording :: (json_event list, 'a) sink) d u t [])) \<le> length t"
proof -
  have "pays (length t) (value_at (recording :: (json_event list, 'a) sink) d u 0 (skip_bom t) [])"
    by (rule parser_pays) (simp add: skip_bom_def)
  then show ?thesis
    unfolding json_parse_def
    by (cases "value_at (recording :: (json_event list, 'a) sink) d u 0 (skip_bom t) []")
      (auto simp: lexed_def split: sum.split)
qed

section \<open>The events of a value\<close>

datatype json_value =
  JScalar json_event
| JArray "json_value list"
| JObject "(json_text \<times> json_value) list"

fun events_of :: "json_value \<Rightarrow> json_event list" where
  "events_of (JScalar e) = [e]"
| "events_of (JArray vs) = BeginArray # concat (map events_of vs) @ [EndArray]"
| "events_of (JObject ms) = BeginObject # concat (map (\<lambda>(k, v). Key k # events_of v) ms) @ [EndObject]"

fun nesting :: "json_value \<Rightarrow> nat" where
  "nesting (JScalar e) = 0"
| "nesting (JArray vs) = Suc (foldr max (map nesting vs) 0)"
| "nesting (JObject ms) = Suc (foldr max (map (\<lambda>(k, v). nesting v) ms) 0)"

fun scalar_event :: "json_event \<Rightarrow> bool" where
  "scalar_event Null = True"
| "scalar_event (Bool b) = True"
| "scalar_event (Number n) = True"
| "scalar_event (Text t) = True"
| "scalar_event _ = False"

fun value_ok :: "json_value \<Rightarrow> bool" where
  "value_ok (JScalar e) \<longleftrightarrow> scalar_event e"
| "value_ok (JArray vs) \<longleftrightarrow> list_all value_ok vs"
| "value_ok (JObject ms) \<longleftrightarrow> list_all (\<lambda>(k, v). value_ok v) ms"

text \<open>Members and elements that may stand at a depth, and the events of the rest of their container.\<close>

definition fits :: "nat \<Rightarrow> json_value \<Rightarrow> bool" where
  "fits depth v \<longleftrightarrow> value_ok v \<and> depth + nesting v \<le> JSON_MAX_DEPTH"

definition rest_of_object :: "(json_text \<times> json_value) list \<Rightarrow> json_event list" where
  "rest_of_object ms = concat (map (\<lambda>(k, v). Key k # events_of v) ms) @ [EndObject]"

definition rest_of_array :: "json_value list \<Rightarrow> json_event list" where
  "rest_of_array vs = concat (map events_of vs) @ [EndArray]"

lemma rest_simps [simp]:
  "rest_of_object [] = [EndObject]" "rest_of_object ((k, v) # ms) = Key k # events_of v @ rest_of_object ms"
  "rest_of_array [] = [EndArray]" "rest_of_array (v # vs) = events_of v @ rest_of_array vs"
  by (simp_all add: rest_of_object_def rest_of_array_def)

lemma max_le_iff: "foldr max (map f xs) (0 :: nat) \<le> n \<longleftrightarrow> (\<forall>x \<in> set xs. f x \<le> n)"
  by (induction xs) auto

lemma fits_object:
  "fits depth (JObject ms) \<longleftrightarrow> depth < JSON_MAX_DEPTH \<and> (\<forall>(k, v) \<in> set ms. fits (Suc depth) v)"
  using max_le_iff [of "\<lambda>(k, v). nesting v" ms "JSON_MAX_DEPTH - Suc depth"]
  by (auto simp: fits_def list_all_iff)

lemma fits_array:
  "fits depth (JArray vs) \<longleftrightarrow> depth < JSON_MAX_DEPTH \<and> (\<forall>v \<in> set vs. fits (Suc depth) v)"
  using max_le_iff [of nesting vs "JSON_MAX_DEPTH - Suc depth"]
  by (auto simp: fits_def list_all_iff)

lemma events_of_container:
  "events_of (JObject ms) = BeginObject # rest_of_object ms" "events_of (JArray vs) = BeginArray # rest_of_array vs"
  by (simp_all add: rest_of_object_def rest_of_array_def)

lemma scan_scalar_event: "scan_scalar d u c here = Inr (e, r) \<Longrightarrow> scalar_event e"
  by (auto simp: scan_scalar_def res_bind_Inr_iff word_event_def split: if_splits option.splits prod.splits json_text.splits bool.splits)

lemma parser_reports:
  shows "value_at (recording :: (json_event list, 'a) sink) d u depth cs evs = Read r out \<Longrightarrow> depth \<le> JSON_MAX_DEPTH \<Longrightarrow>
      \<exists>v. fits depth v \<and> out = evs @ events_of v"
    and "members (recording :: (json_event list, 'a) sink) d u depth cs evs = Read r out \<Longrightarrow> depth \<le> JSON_MAX_DEPTH \<Longrightarrow>
      \<exists>ms. (\<forall>(k, v) \<in> set ms. fits depth v) \<and> out = evs @ rest_of_object ms"
    and "array_elements (recording :: (json_event list, 'a) sink) d u depth cs evs = Read r out \<Longrightarrow> depth \<le> JSON_MAX_DEPTH \<Longrightarrow>
      \<exists>vs. (\<forall>v \<in> set vs. fits depth v) \<and> out = evs @ rest_of_array vs"
proof (induction "recording :: (json_event list, 'a) sink" d u depth cs evs and "recording :: (json_event list, 'a) sink" d u depth cs evs
    and "recording :: (json_event list, 'a) sink" d u depth cs evs arbitrary: r out and r out and r out
    rule: value_at_members_array_elements.induct)
  case (1 d u depth cs s)
  note step = 1(3) [unfolded value_at.simps [of _ d u depth cs s] outcome_reads]
  then obtain c here where h: "next_token d ValueExpected cs = Inr (c, here)" by auto
  consider (object) "c = 0x7B" | (arr) "c = 0x5B" | (scalar) "c \<noteq> 0x7B" "c \<noteq> 0x5B" by blast
  then show ?case
  proof cases
    case object
    then have depth: "depth < JSON_MAX_DEPTH" using step h by (auto simp: outcome_reads enter_def split: if_splits)
    have "\<exists>ms. (\<forall>(k, v) \<in> set ms. fits (Suc depth) v) \<and> out = (s @ [BeginObject]) @ rest_of_object ms"
    proof -
      have inner: "\<exists>ms. (\<forall>(k, v) \<in> set ms. fits (Suc depth) v) \<and> out = (s @ [BeginObject]) @ rest_of_object ms"
        if "peek d (tl here) = Inr x" "\<not> starts 0x7D x"
          "members (recording :: (json_event list, 'a) sink) d u (Suc depth) x (s @ [BeginObject]) = Read r out" for x
        using 1(1) [OF h refl object, of "()" "s @ [BeginObject]" x r out] that object depth
        by (simp add: enter_def recording_def)
      show ?thesis
        using step h object depth inner
        by (auto simp: outcome_reads recording_def enter_def split: if_splits intro: exI [of _ "[]"])
    qed
    then show ?thesis using depth fits_object events_of_container(1) by fastforce
  next
    case arr
    then have depth: "depth < JSON_MAX_DEPTH" using step h by (auto simp: outcome_reads enter_def split: if_splits)
    have "\<exists>vs. (\<forall>v \<in> set vs. fits (Suc depth) v) \<and> out = (s @ [BeginArray]) @ rest_of_array vs"
    proof -
      have inner: "\<exists>vs. (\<forall>v \<in> set vs. fits (Suc depth) v) \<and> out = (s @ [BeginArray]) @ rest_of_array vs"
        if "peek d (tl here) = Inr x" "\<not> starts 0x5D x"
          "array_elements (recording :: (json_event list, 'a) sink) d u (Suc depth) x (s @ [BeginArray]) = Read r out" for x
        using 1(2) [OF h refl _ arr, of "()" "s @ [BeginArray]" x r out] that arr depth
        by (simp add: enter_def recording_def)
      show ?thesis
        using step h arr depth inner
        by (auto simp: outcome_reads recording_def enter_def split: if_splits intro: exI [of _ "[]"])
    qed
    then show ?thesis using depth fits_array events_of_container(2) by fastforce
  next
    case scalar
    then obtain e where "scan_scalar d u c here = Inr (e, r)" "out = s @ [e]"
      using step h by (auto simp: outcome_reads recording_def)
    then show ?thesis using scan_scalar_event 1(4) by (intro exI [of _ "JScalar e"]) (simp add: fits_def)
  qed
next
  case (2 d u depth cs s)
  note step = 2(3) [unfolded members.simps [of _ d u depth cs s] outcome_reads]
  then obtain c here k r1 r2 r3 s3 ended r4 where h: "next_token d NameExpected cs = Inr (c, here)"
    "scan_key d u c here = Inr (k, r1)" "recording (Key k) s = (None :: 'a option, s @ [Key k])" "colon d r1 = Inr r2"
    "value_at (recording :: (json_event list, 'a) sink) d u depth r2 (s @ [Key k]) = Read r3 s3"
    "after_member d BraceExpected 0x7D r3 = Inr (ended, r4)"
    and e: "(if ended then emit recording EndObject s3 (Read r4) else members (recording :: (json_event list, 'a) sink) d u depth r4 s3) = Read r out"
    by (auto simp: outcome_reads recording_def)
  obtain v where v: "fits depth v" "s3 = (s @ [Key k]) @ events_of v"
    using 2(1) [OF h(1) refl h(2) refl h(3,4,5) 2(4)] by blast
  have "\<exists>ms. (\<forall>(k, v) \<in> set ms. fits depth v) \<and> out = s3 @ rest_of_object ms"
    using e 2(2) [OF h(1) refl h(2) refl h(3,4,5,6) refl _ _ 2(4)]
    by (cases ended) (auto simp: emit_recording intro: exI [of _ "[]"])
  then obtain ms where "\<forall>(k, v) \<in> set ms. fits depth v" "out = s3 @ rest_of_object ms" by blast
  then show ?case using v by (intro exI [of _ "(k, v) # ms"]) auto
next
  case (3 d u depth cs s)
  note step = 3(3) [unfolded array_elements.simps [of _ d u depth cs s] outcome_reads]
  then obtain r3 s3 ended r4 where h:
    "value_at (recording :: (json_event list, 'a) sink) d u depth cs s = Read r3 s3"
    "after_member d BracketExpected 0x5D r3 = Inr (ended, r4)"
    and e: "(if ended then emit recording EndArray s3 (Read r4) else array_elements (recording :: (json_event list, 'a) sink) d u depth r4 s3) = Read r out"
    by (auto simp: outcome_reads)
  obtain v where v: "fits depth v" "s3 = s @ events_of v" using 3(1) [OF h(1) 3(4)] by blast
  have "\<exists>vs. (\<forall>v \<in> set vs. fits depth v) \<and> out = s3 @ rest_of_array vs"
    using e 3(2) [OF h refl _ _ 3(4)]
    by (cases ended) (auto simp: emit_recording intro: exI [of _ "[]"])
  then obtain vs where "\<forall>v \<in> set vs. fits depth v" "out = s3 @ rest_of_array vs" by blast
  then show ?case using v by (intro exI [of _ "v # vs"]) auto
qed

section \<open>The value of a text\<close>

lemma events_of_Cons: "value_ok v \<Longrightarrow> \<exists>e es. events_of v = e # es \<and> e \<noteq> EndArray \<and> e \<noteq> EndObject \<and> (\<forall>k. e \<noteq> Key k)"
  by (cases v) (auto elim: scalar_event.elims)

definition reads_back :: "json_value \<Rightarrow> bool" where
  "reads_back v \<longleftrightarrow> (\<forall>w xs ys. value_ok v \<longrightarrow> value_ok w \<longrightarrow> events_of v @ xs = events_of w @ ys \<longrightarrow> v = w \<and> xs = ys)"

lemma reads_backD:
  "reads_back v \<Longrightarrow> value_ok v \<Longrightarrow> value_ok w \<Longrightarrow> events_of v @ xs = events_of w @ ys \<Longrightarrow> v = w \<and> xs = ys"
  unfolding reads_back_def by blast

lemma array_prefix:
  "\<forall>v \<in> set vs. reads_back v \<Longrightarrow> list_all value_ok vs \<Longrightarrow> list_all value_ok ws \<Longrightarrow>
    rest_of_array vs @ xs = rest_of_array ws @ ys \<Longrightarrow> vs = ws \<and> xs = ys"
proof (induction vs arbitrary: ws)
  case Nil
  show ?case
  proof (cases ws)
    case (Cons w ws')
    obtain e es where "events_of w = e # es" "e \<noteq> EndArray" using events_of_Cons [of w] Nil Cons by auto
    then show ?thesis using Nil Cons by simp
  qed (use Nil in simp)
next
  case (Cons v vs)
  obtain e es where e: "events_of v = e # es" "e \<noteq> EndArray" using events_of_Cons [of v] Cons.prems by auto
  show ?case
  proof (cases ws)
    case Nil
    then show ?thesis using Cons.prems e by simp
  next
    case (Cons w ws')
    then have "v = w \<and> rest_of_array vs @ xs = rest_of_array ws' @ ys"
      using Cons.prems by (intro reads_backD) simp_all
    then show ?thesis using Cons.prems Cons.IH [of ws'] Cons by simp
  qed
qed

lemma object_prefix:
  "\<forall>(k, v) \<in> set ms. reads_back v \<Longrightarrow> list_all (\<lambda>(k, v). value_ok v) ms \<Longrightarrow> list_all (\<lambda>(k, v). value_ok v) ns \<Longrightarrow>
    rest_of_object ms @ xs = rest_of_object ns @ ys \<Longrightarrow> ms = ns \<and> xs = ys"
proof (induction ms arbitrary: ns)
  case Nil
  then show ?case by (cases ns) auto
next
  case (Cons m ms)
  obtain k v where m: "m = (k, v)" by force
  show ?case
  proof (cases ns)
    case Nil
    then show ?thesis using Cons.prems m by simp
  next
    case (Cons n ns')
    obtain l w where n: "n = (l, w)" by force
    have "v = w \<and> rest_of_object ms @ xs = rest_of_object ns' @ ys"
      using Cons.prems Cons m n by (intro reads_backD) simp_all
    then show ?thesis using Cons.prems Cons.IH [of ns'] Cons m n by simp
  qed
qed

lemma events_prefix: "reads_back v"
proof (induction v)
  case (JScalar e)
  show ?case unfolding reads_back_def
  proof (intro allI impI)
    fix w xs ys
    assume "value_ok (JScalar e)" "value_ok w" "events_of (JScalar e) @ xs = events_of w @ ys"
    then show "JScalar e = w \<and> xs = ys" by (cases w) auto
  qed
next
  case (JArray vs)
  show ?case unfolding reads_back_def
  proof (intro allI impI)
    fix w xs ys
    assume h: "value_ok (JArray vs)" "value_ok w" "events_of (JArray vs) @ xs = events_of w @ ys"
    then obtain ws where w: "w = JArray ws" by (cases w) auto
    then show "JArray vs = w \<and> xs = ys"
      using h array_prefix [of vs ws xs ys] JArray by (simp add: events_of_container del: events_of.simps)
  qed
next
  case (JObject ms)
  show ?case unfolding reads_back_def
  proof (intro allI impI)
    fix w xs ys
    assume h: "value_ok (JObject ms)" "value_ok w" "events_of (JObject ms) @ xs = events_of w @ ys"
    then obtain ns where w: "w = JObject ns" by (cases w) auto
    have "\<forall>(k, v) \<in> set ms. reads_back v" using JObject by fastforce
    then show "JObject ms = w \<and> xs = ys"
      using h w object_prefix [of ms ns xs ys] by (simp add: events_of_container del: events_of.simps)
  qed
qed

lemma parse_reports:
  assumes "json_parse (recording :: (json_event list, 'a) sink) d u t [] = Read r out"
  shows "r = [] \<and> (\<exists>v. fits 0 v \<and> out = events_of v)"
proof -
  obtain r' where "value_at (recording :: (json_event list, 'a) sink) d u 0 (skip_bom t) [] = Read r' out" "r = []"
    using assms unfolding json_parse_def by (auto simp: outcome_reads split: if_splits)
  then show ?thesis using parser_reports(1) [of d u 0 "skip_bom t" "[]" r' out, where ?'a = 'a] by auto
qed

text \<open>
  C28: what the parser reports is a value. When a text is accepted, in either dialect, it was read to its
  end, and the events reported are those of exactly one value, whose leaves are scalars and whose
  containers are nested at most 256 deep.
\<close>

theorem parse_reports_value:
  assumes "json_parse (recording :: (json_event list, 'a) sink) d u t [] = Read r out"
  shows "r = [] \<and> (\<exists>!v. value_ok v \<and> events_of v = out) \<and>
    (\<exists>v. value_ok v \<and> events_of v = out \<and> nesting v \<le> JSON_MAX_DEPTH)"
proof -
  obtain v where v: "fits 0 v" "out = events_of v" "r = []" using parse_reports [OF assms] by blast
  moreover have "w = v" if "value_ok w" "events_of w = out" for w
    using reads_backD [OF events_prefix, of w v "[]" "[]"] that v by (simp add: fits_def)
  ultimately show ?thesis by (auto simp: fits_def)
qed

lemma parse_reports_value_witness:
  "\<exists>!v. value_ok v \<and> events_of v = [BeginArray, Bool True, EndArray]"
proof -
  have word: "scan_word Jsonc u [0x74, 0x72, 0x75, 0x65, 0x5D] = Inr ((Str [0x74, 0x72, 0x75, 0x65], False), [0x5D])" for u
    by (simp add: scan_word_def is_alnum_def is_letter_def is_digit_def)
  have "value_at (recording :: (json_event list, unit) sink) Jsonc u 0 [0x5B, 0x74, 0x72, 0x75, 0x65, 0x5D] [] =
    Read [] [BeginArray, Bool True, EndArray]" for u
    by (simp add: value_at.simps members.simps array_elements.simps next_token_def peek_def is_space_def
        enter_def JSON_MAX_DEPTH_def emit_recording scan_scalar_def starts_word_def is_letter_def is_digit_def word word_event_def
        text_of_string_def after_member_def)
  then have "json_parse (recording :: (json_event list, unit) sink) Jsonc u [0x5B, 0x74, 0x72, 0x75, 0x65, 0x5D] [] =
    Read [] [BeginArray, Bool True, EndArray]" for u
    by (simp add: json_parse_def skip_bom_def peek_def)
  from parse_reports_value [OF this] show ?thesis by simp
qed

end
