(* ===== verification/JsNumber.thy ===== *)
theory JsNumber
  imports JsonNumber
begin

text \<open>
  Numbers as JavaScript spells them (\<open>crates/runtime/src/js_number.rs\<close>), which is how a numeric map key
  becomes a property name. \<open>{:e}\<close> of a double is defined as what it promises, the fewest significant
  digits that read back as the double, and of those the nearest to it.
\<close>

section \<open>Rounding depends on the ratio only\<close>

lemma ge_pow2_cong:
  assumes "n * d' = n' * d" "0 < d" "0 < d'"
  shows "ge_pow2 n d e \<longleftrightarrow> ge_pow2 n' d' e"
proof -
  define a b :: nat where "a = 2 ^ nat e" and "b = 2 ^ nat (- e)"
  have "d * a \<le> n * b \<longleftrightarrow> d' * (d * a) \<le> d' * (n * b)" using assms(3) by simp
  also have "\<dots> \<longleftrightarrow> d * (d' * a) \<le> d * (n' * b)" using assms(1) by (simp add: ac_simps)
  also have "\<dots> \<longleftrightarrow> d' * a \<le> n' * b" using assms(2) by simp
  finally show ?thesis by (simp add: ge_pow2_def a_def b_def)
qed

lemma two_powi: "(2::real) powi e = 2 ^ nat e / 2 ^ nat (- e)"
  by (simp add: power_int_def power_inverse inverse_eq_divide power_one_over)

lemma of_nat_le_mult: "a * b \<le> c * d \<longleftrightarrow> real a * real b \<le> real c * real d" for a b c d :: nat
  by (simp flip: of_nat_mult)

lemma of_nat_less_mult: "a * b < c * d \<longleftrightarrow> real a * real b < real c * real d" for a b c d :: nat
  by (simp flip: of_nat_mult)

lemma ge_pow2_real: "0 < d \<Longrightarrow> ge_pow2 n d e \<longleftrightarrow> (2::real) powi e \<le> real n / real d"
proof -
  assume d: "0 < d"
  have "ge_pow2 n d e \<longleftrightarrow> real d * 2 ^ nat e \<le> real n * 2 ^ nat (- e)"
    unfolding ge_pow2_def of_nat_le_mult by simp
  also have "\<dots> \<longleftrightarrow> 2 ^ nat e / 2 ^ nat (- e) \<le> real n / real d"
    using d by (simp add: divide_le_eq le_divide_eq mult.commute)
  finally show ?thesis by (simp only: two_powi)
qed

lemma binary_exponent_spec:
  assumes "0 < n" "0 < d"
  shows "ge_pow2 n d (binary_exponent n d) \<and> \<not> ge_pow2 n d (binary_exponent n d + 1)"
proof -
  define a b where "a = floorlog 2 n" and "b = floorlog 2 d"
  have n: "2 ^ (a - 1) \<le> n" "n < 2 ^ a" "1 \<le> a" and d: "2 ^ (b - 1) \<le> d" "d < 2 ^ b" "1 \<le> b"
    using floorlog_range assms by (simp_all add: a_def b_def)
  have "d * 2 ^ a \<le> (n * 2) * 2 ^ b"
  proof -
    have "(2::nat) ^ a = 2 * 2 ^ (a - 1)" using n(3) by (simp flip: power_Suc)
    then have "(2::nat) ^ a \<le> n * 2" using n(1) by linarith
    then show ?thesis using d(2) by (metis less_imp_le mult.commute mult_le_mono)
  qed
  then have r1: "real d * 2 ^ a \<le> real n * 2 * 2 ^ b" unfolding of_nat_le_mult by simp
  have "n * 2 ^ b < (d * 2) * 2 ^ a"
  proof -
    have "(2::nat) ^ b = 2 * 2 ^ (b - 1)" using d(3) by (simp flip: power_Suc)
    then have "(2::nat) ^ b \<le> d * 2" using d(1) by linarith
    then have "n * 2 ^ b \<le> n * (d * 2)" by simp
    also have "\<dots> < 2 ^ a * (d * 2)" using n(2) assms by simp
    finally show ?thesis by (simp add: ac_simps)
  qed
  then have r2: "real n * 2 ^ b < real d * 2 * 2 ^ a" unfolding of_nat_less_mult by simp
  define e where "e = int a - int b"
  have e: "(2::real) powi e = 2 ^ a / 2 ^ b" by (simp add: e_def power_int_diff)
  have "(2::real) powi (e - 1) = 2 ^ a / 2 ^ b / 2" "(2::real) powi (e + 1) = 2 ^ a / 2 ^ b * 2"
    by (simp_all add: power_int_diff power_int_add e)
  moreover have "2 ^ a / 2 ^ b / 2 \<le> real n / real d"
    using r1 assms(2) by (simp add: divide_le_eq le_divide_eq ac_simps)
  moreover have "real n / real d < 2 ^ a / 2 ^ b * 2"
    using r2 assms(2) by (simp add: divide_less_eq less_divide_eq ac_simps)
  ultimately have "ge_pow2 n d (e - 1)" "\<not> ge_pow2 n d (e + 1)"
    using ge_pow2_real [OF assms(2), of n] by (simp_all add: not_le)
  then show ?thesis
    by (auto simp: binary_exponent_def e_def a_def b_def Let_def)
qed

lemma ge_pow2_mono: "0 < d \<Longrightarrow> ge_pow2 n d e \<Longrightarrow> f \<le> e \<Longrightarrow> ge_pow2 n d f"
  using power_int_increasing [of f e "2::real"] by (simp add: ge_pow2_real)

lemma binary_exponent_unique:
  assumes "0 < n" "0 < d" "ge_pow2 n d e" "\<not> ge_pow2 n d (e + 1)"
  shows "binary_exponent n d = e"
proof (rule antisym)
  show "binary_exponent n d \<le> e"
    using ge_pow2_mono [OF assms(2) conjunct1 [OF binary_exponent_spec [OF assms(1,2)]], of "e + 1"] assms(4) by linarith
  show "e \<le> binary_exponent n d"
    using ge_pow2_mono [OF assms(2,3), of "binary_exponent n d + 1"] binary_exponent_spec [OF assms(1,2)] by linarith
qed

lemma nearest_cong:
  assumes "n * d' = n' * d" "0 < d" "0 < d'"
  shows "f64_nearest n d = f64_nearest n' d'"
proof (cases "n = 0")
  case True
  then show ?thesis using assms by (simp add: f64_nearest_def)
next
  case False
  then have pos: "0 < n" "0 < n'" using assms by (auto intro!: gr0I)
  have e: "binary_exponent n' d' = binary_exponent n d"
    using binary_exponent_spec [OF pos(1) assms(2)] ge_pow2_cong [OF assms]
    by (intro binary_exponent_unique pos assms) simp_all
  have "half_even (n * a) (d * b) = half_even (n' * a) (d' * b)" if "0 < b" for a b
  proof (rule half_even_cong)
    show "n * a * (d' * b) = n' * a * (d * b)" using assms(1) by (simp add: ac_simps)
  qed (use assms that in simp_all)
  then show ?thesis using pos by (simp add: f64_nearest_def Let_def e)
qed

section \<open>The shortest digits\<close>

text \<open>\<open>n / d\<close> lies from \<open>10 ^ e\<close> up to \<open>10 ^ (e + 1)\<close>.\<close>

definition decimal_exponent :: "nat \<Rightarrow> nat \<Rightarrow> int" where
  "decimal_exponent n d =
     (if d \<le> n then int (floorlog 10 (n div d)) - 1 else - int (floorlog 10 ((d - 1) div n)))"

text \<open>\<open>c * 10 ^ s\<close> reads as \<open>x\<close>.\<close>

definition reads_as :: "f64 \<Rightarrow> int \<Rightarrow> nat \<Rightarrow> bool" where
  "reads_as x s c \<longleftrightarrow> f64_nearest (c * 10 ^ nat s) (10 ^ nat (- s)) = x"

text \<open>The better of the two decimals of \<open>k\<close> digits around \<open>n / d\<close>, if one reads as \<open>x\<close>.\<close>

definition digits_around :: "f64 \<Rightarrow> nat \<Rightarrow> nat \<Rightarrow> nat \<Rightarrow> (nat \<times> int) option" where
  "digits_around x n d k =
     (let s = decimal_exponent n d - int k + 1;
          num = n * 10 ^ nat (- s); den = d * 10 ^ nat s; low = num div den
      in if reads_as x s low \<and> \<not> (reads_as x s (low + 1) \<and> den \<le> 2 * (num mod den)) then Some (low, s)
         else if reads_as x s (low + 1) then Some (low + 1, s)
         else None)"

fun shortest :: "f64 \<Rightarrow> nat \<Rightarrow> nat \<Rightarrow> nat \<Rightarrow> nat \<Rightarrow> nat \<times> int" where
  "shortest x n d k 0 = (0, 0)"
| "shortest x n d k (Suc fuel) =
     (case digits_around x n d k of Some r \<Rightarrow> r | None \<Rightarrow> shortest x n d (k + 1) fuel)"

text \<open>Digits end in no zero. (Only a first digit rounded up to ten does.)\<close>

fun strip_zeros :: "nat \<Rightarrow> int \<Rightarrow> nat \<times> int" where
  "strip_zeros c s = (if c \<noteq> 0 \<and> c mod 10 = 0 then strip_zeros (c div 10) (s + 1) else (c, s))"

declare strip_zeros.simps [simp del]

text \<open>
  \<open>format!("{:e}", x)\<close> of a positive finite double: its significant digits as a number, and the power of ten
  of the last one. An exact decimal of a double has no digit below the 1074th place.
\<close>

definition scientific :: "f64 \<Rightarrow> nat \<times> int" where
  "scientific x =
     (let (m, e) = f64_parts x; n = m * 2 ^ nat e; d = 2 ^ nat (- e);
          (c, s) = shortest x n d 1 (nat (decimal_exponent n d + 1075))
      in strip_zeros c s)"

fun decimal_text :: "nat \<Rightarrow> utext" where
  "decimal_text n = (if n < 10 then [0x30 + n] else decimal_text (n div 10) @ [0x30 + n mod 10])"

declare decimal_text.simps [simp del]

section \<open>\<open>Number::toString\<close>\<close>

definition f64_is_zero :: "f64 \<Rightarrow> bool" where
  "f64_is_zero x \<longleftrightarrow> unat x mod 2 ^ 63 = 0"

definition f64_is_nan :: "f64 \<Rightarrow> bool" where
  "f64_is_nan x \<longleftrightarrow> f64_inf < unat x mod 2 ^ 63"

definition f64_abs :: "f64 \<Rightarrow> f64" where
  "f64_abs x = word_of_nat (unat x mod 2 ^ 63)"

definition f64_negative :: "f64 \<Rightarrow> bool" where
  "f64_negative x \<longleftrightarrow> 2 ^ 63 \<le> unat x"

text \<open>The layout of \<open>digits\<close> around a decimal point at \<open>point\<close>.\<close>

definition zeros :: "nat \<Rightarrow> utext" where
  "zeros n = replicate n 0x30"

definition lay_out :: "utext \<Rightarrow> int \<Rightarrow> utext" where
  "lay_out digits point =
     (let k = int (length digits) in
      if k \<le> point \<and> point \<le> 21 then digits @ zeros (nat (point - k))
      else if 0 < point \<and> point \<le> 21 then take (nat point) digits @ [0x2E] @ drop (nat point) digits
      else if - 6 < point \<and> point \<le> 0 then [0x30, 0x2E] @ zeros (nat (- point)) @ digits
      else
        take 1 digits @ (if k > 1 then [0x2E] @ drop 1 digits else []) @ [0x65] @
        [if point \<ge> 1 then 0x2B else 0x2D] @ decimal_text (nat \<bar>point - 1\<bar>))"

definition to_js_string :: "f64 \<Rightarrow> utext" where
  "to_js_string x =
     (if f64_is_zero x then text_of_string ''0''
      else if f64_is_nan x then text_of_string ''NaN''
      else if \<not> f64_finite x then
        (if f64_negative x then text_of_string ''-Infinity'' else text_of_string ''Infinity'')
      else
        (let (c, s) = scientific (f64_abs x); digits = decimal_text c;
             out = lay_out digits (s + int (length digits))
         in if f64_negative x then 0x2D # out else out))"

section \<open>The digits read back\<close>

lemma strip_zeros_value:
  "strip_zeros c s = (c', s') \<Longrightarrow> \<exists>j. c = c' * 10 ^ j \<and> s' = s + int j"
proof (induction c s arbitrary: c' s' rule: strip_zeros.induct)
  case (1 c s)
  show ?case
  proof (cases "c \<noteq> 0 \<and> c mod 10 = 0")
    case True
    then obtain j where "c div 10 = c' * 10 ^ j" "s' = s + 1 + int j"
      using 1 by (subst (asm) (2) strip_zeros.simps) (auto split: if_splits)
    moreover have "c = c div 10 * 10" using True by auto
    ultimately have "c = c' * 10 ^ Suc j \<and> s' = s + int (Suc j)" by simp
    then show ?thesis by blast
  next
    case False
    then have "c = c' * 10 ^ 0 \<and> s' = s + int 0" using 1(2) by (subst (asm) strip_zeros.simps) auto
    then show ?thesis by blast
  qed
qed

lemma reads_as_shift: "reads_as x s (c * 10 ^ j) \<longleftrightarrow> reads_as x (s + int j) c"
proof -
  have "f64_nearest (c * 10 ^ j * 10 ^ nat s) (10 ^ nat (- s)) =
      f64_nearest (c * 10 ^ nat (s + int j)) (10 ^ nat (- (s + int j)))"
  proof (rule nearest_cong)
    have e: "j + nat s + nat (- (s + int j)) = nat (s + int j) + nat (- s)" by linarith
    have "c * 10 ^ j * 10 ^ nat s * 10 ^ nat (- (s + int j)) = c * 10 ^ (j + nat s + nat (- (s + int j)))"
      by (simp add: power_add)
    also have "\<dots> = c * 10 ^ nat (s + int j) * 10 ^ nat (- s)" unfolding e by (simp add: power_add)
    finally show "c * 10 ^ j * 10 ^ nat s * 10 ^ nat (- (s + int j)) = c * 10 ^ nat (s + int j) * 10 ^ nat (- s)" .
  qed simp_all
  then show ?thesis by (simp add: reads_as_def)
qed

lemma digits_around_reads: "digits_around x n d k = Some (c, s) \<Longrightarrow> reads_as x s c"
  by (auto simp: digits_around_def Let_def split: if_splits)

lemma shortest_reads:
  assumes "digits_around x n d k \<noteq> None" "k0 \<le> k" "k < k0 + fuel" "shortest x n d k0 fuel = (c, s)"
  shows "reads_as x s c"
  using assms
proof (induction fuel arbitrary: k0)
  case (Suc fuel)
  show ?case
  proof (cases "digits_around x n d k0")
    case None
    then have "k0 \<noteq> k" using Suc.prems(1) by auto
    then show ?thesis using Suc.IH [of "k0 + 1"] Suc.prems None by simp
  next
    case (Some r)
    then show ?thesis using Suc.prems digits_around_reads by simp
  qed
qed simp

text \<open>Enough digits are exact.\<close>

lemma digits_around_exact:
  assumes "f64_nearest n d = x" "0 < d" "d dvd 10 ^ j" "int k = decimal_exponent n d + 1 + int j"
  shows "digits_around x n d k \<noteq> None"
proof -
  have s: "decimal_exponent n d - int k + 1 = - int j" using assms(4) by simp
  obtain q where q: "10 ^ j = d * q" using assms(3) by (auto elim: dvdE)
  have "q \<noteq> 0" using q by (metis mult_0_right power_not_zero zero_neq_numeral)
  have "(n * q) * d = n * 10 ^ j" by (simp add: q ac_simps)
  then have "f64_nearest (n * q) (10 ^ j) = f64_nearest n d"
    using assms(2) \<open>q \<noteq> 0\<close> by (intro nearest_cong) (simp_all add: ac_simps q)
  then have "reads_as x (- int j) (n * q)" using assms(1) by (simp add: reads_as_def)
  moreover have "n * 10 ^ j div d = n * q" "n * 10 ^ j mod d = 0" using assms(2) by (simp_all add: q)
  ultimately show ?thesis using assms(2) by (simp add: digits_around_def Let_def s)
qed

text \<open>A positive finite double is the nearest to its own value.\<close>

lemma subnormal_self:
  assumes "0 < m" "m < 2 ^ 52"
  shows "f64_nearest m (2 ^ 1074) = word_of_nat m"
proof -
  define a where "a = (2::nat) ^ 1074"
  define b where "b = (2::nat) ^ 1022"
  have ab: "a = 2 ^ 52 * b" by (simp add: a_def b_def flip: power_add)
  have pos: "0 < a" "0 < b" by (simp_all add: a_def b_def)
  have "m * b < a" using assms(2) pos by (simp add: ab)
  then have "\<not> ge_pow2 m a (- 1022)" by (simp add: ge_pow2_def b_def [symmetric] del: power_numeral)
  then have "binary_exponent m a < - 1022"
    using ge_pow2_mono [OF pos(1) conjunct1 [OF binary_exponent_spec [OF assms(1) pos(1)]], of "- 1022"] by linarith
  then have e: "max (binary_exponent m a) (- 1022) = - 1022" by simp
  have "half_even (m * 2 ^ nat (- (- 1022 - 52))) (a * 2 ^ nat (- 1022 - 52)) = m"
  proof -
    have "(2::nat) ^ nat (- (- 1022 - 52)) = a" "(2::nat) ^ nat (- 1022 - 52) = 1" by (simp_all add: a_def del: power_numeral)
    then show ?thesis using half_even_whole [OF pos(1), of m] by (simp only: mult_1_right)
  qed
  moreover have "min f64_inf m = m" using assms by (simp add: f64_inf_def)
  ultimately have "f64_nearest m a = word_of_nat m" using assms(1)
    by (simp add: f64_nearest_def Let_def e del: power_numeral)
  then show ?thesis by (simp only: a_def)
qed

lemma nearest_self:
  assumes "f64_finite x" "unat x < 2 ^ 63" "x \<noteq> 0" "f64_parts x = (m, e)"
  shows "f64_nearest (m * 2 ^ nat e) (2 ^ nat (- e)) = x" "0 < m" "- 1074 \<le> e"
proof -
  define b where "b = unat x"
  have b: "unat x mod 2 ^ 63 = b" "b < f64_inf" "b \<noteq> 0"
    using assms(1-3) by (simp_all add: b_def f64_finite_def unat_eq_zero)
  have x: "word_of_nat b = x" by (simp add: b_def)
  have parts: "(m, e) = (if b div 2 ^ 52 = 0 then (b mod 2 ^ 52, - 1074) else (2 ^ 52 + b mod 2 ^ 52, int (b div 2 ^ 52) - 1075))"
    unfolding assms(4) [symmetric] f64_parts_def Let_def b(1) ..
  have "f64_nearest (m * 2 ^ nat e) (2 ^ nat (- e)) = x \<and> 0 < m \<and> - 1074 \<le> e"
  proof (cases "b div 2 ^ 52 = 0")
    case True
    then have "b < 2 ^ 52" by (simp add: div_eq_0_iff)
    then have "m = b" "e = - 1074" using parts True by (simp_all only: if_True prod.inject mod_less simp_thms)
    then show ?thesis using subnormal_self [of b] \<open>b < 2 ^ 52\<close> b(3) x by simp
  next
    case False
    define E where "E = b div 2 ^ 52"
    define f where "f = b mod 2 ^ 52"
    have me: "m = 2 ^ 52 + f" "e = int E - 1075" using parts False by (simp_all only: E_def f_def if_False prod.inject)
    have E: "1 \<le> E" using False by (simp add: E_def)
    have bE: "b = E * 2 ^ 52 + f" by (simp add: E_def f_def)
    have "f64_nearest (m * 2 ^ nat e) (2 ^ nat (- e)) = f64_enc m e"
      by (rule nearest_exact) (use E in \<open>simp_all add: me f_def\<close>)
    moreover have "nat (e + 1074) * 2 ^ 52 + m = b"
    proof -
      have "nat (e + 1074) = E - 1" using E me by simp
      moreover have "(E - 1) * 2 ^ 52 + 2 ^ 52 = E * 2 ^ 52" using E by (simp add: algebra_simps flip: add_mult_distrib)
      ultimately show ?thesis by (simp add: me bE)
    qed
    ultimately show ?thesis using b(2) E me x by (simp add: f64_enc_def)
  qed
  then show "f64_nearest (m * 2 ^ nat e) (2 ^ nat (- e)) = x" "0 < m" "- 1074 \<le> e" by simp_all
qed

lemma decimal_places:
  assumes "d = 2 ^ i" "i \<le> j"
  shows "floorlog 10 ((d - 1) div n) \<le> j" "d dvd 10 ^ j"
proof -
  have "d \<le> 2 ^ j" using assms by (simp add: power_increasing)
  also have "(2::nat) ^ j \<le> 10 ^ j" by (rule power_mono) simp_all
  finally have "d \<le> 10 ^ j" .
  moreover have "0 < d" using assms by simp
  ultimately have "(d - 1) div n < 10 ^ j" using div_le_dividend [of "d - 1" n] by linarith
  then show "floorlog 10 ((d - 1) div n) \<le> j" by (intro floorlog_leI) simp_all
  have "d dvd 2 ^ j" unfolding assms(1) by (rule le_imp_power_dvd) (rule assms(2))
  also have "(2::nat) ^ j dvd 10 ^ j" by (rule dvd_power_same) simp
  finally show "d dvd 10 ^ j" .
qed

lemma scientific_reads:
  assumes "f64_finite x" "unat x < 2 ^ 63" "x \<noteq> 0" "scientific x = (c, s)"
  shows "reads_as x s c"
proof -
  obtain m e where me: "f64_parts x = (m, e)" by force
  note self = nearest_self [OF assms(1-3) me]
  define n where "n = m * 2 ^ nat e"
  define d where "d = (2::nat) ^ nat (- e)"
  define E where "E = decimal_exponent n d"
  have pos: "0 < n" "0 < d" using self(2) by (simp_all add: n_def d_def)
  have "nat (- e) \<le> 1074" using self(3) by simp
  note places = decimal_places [OF d_def this]
  have "- 1074 \<le> E"
  proof (cases "d \<le> n")
    case False
    then show ?thesis using places(1) [of n] by (simp add: E_def decimal_exponent_def)
  qed (simp add: E_def decimal_exponent_def)
  then have k: "int (nat (E + 1075)) = E + 1 + int 1074" "1 \<le> nat (E + 1075)" by auto
  have "digits_around x n d (nat (E + 1075)) \<noteq> None"
    using digits_around_exact [OF self(1) [folded n_def d_def] pos(2) places(2) k(1) [unfolded E_def]] by (simp add: E_def)
  moreover obtain c0 s0 where r: "shortest x n d 1 (nat (E + 1075)) = (c0, s0)" by force
  ultimately have reads: "reads_as x s0 c0" using shortest_reads [of x n d "nat (E + 1075)" 1 "nat (E + 1075)"] k(2) by simp
  have "strip_zeros c0 s0 = (c, s)" using assms(4) r
    by (simp add: scientific_def me n_def [symmetric] d_def [symmetric] E_def)
  then show ?thesis using reads strip_zeros_value [of c0 s0 c s] by (auto simp: reads_as_shift)
qed

section \<open>Reading the layout\<close>

lemma digits_value_append: "digits_value (ds @ es) = digits_value ds * 10 ^ length es + digits_value es"
proof -
  have "foldl (\<lambda>n c. 10 * n + (c - 0x30)) a es = a * 10 ^ length es + digits_value es" for a
  proof (induction es arbitrary: a)
    case (Cons e es)
    define d where "d = e - 0x30"
    have "digits_value (e # es) = d * 10 ^ length es + digits_value es"
      using Cons [of d] by (simp add: digits_value_def d_def)
    moreover have "foldl (\<lambda>n c. 10 * n + (c - 0x30)) a (e # es) = foldl (\<lambda>n c. 10 * n + (c - 0x30)) (10 * a + d) es"
      by (simp add: d_def)
    moreover have "(10 * a + d) * 10 ^ length es = a * 10 ^ length (e # es) + d * 10 ^ length es"
      by (simp add: add_mult_distrib)
    ultimately show ?case using Cons [of "10 * a + d"] by (simp only: add.assoc)
  qed (simp add: digits_value_def)
  note this [of "digits_value ds", unfolded digits_value_def]
  then show ?thesis by (simp only: digits_value_def foldl_append)
qed

lemma digits_value_zeros [simp]: "digits_value (zeros n) = 0"
  by (induction n) (simp_all add: zeros_def digits_value_def)

lemma digits_zeros [simp]: "list_all is_digit (zeros n)" "length (zeros n) = n"
  by (auto simp: zeros_def is_digit_def list_all_iff)

lemma decimal_text_digits: "list_all is_digit (decimal_text n) \<and> digits_value (decimal_text n) = n \<and> decimal_text n \<noteq> []"
proof (induction n rule: decimal_text.induct)
  case (1 n)
  show ?case
  proof (cases "n < 10")
    case True
    then have "decimal_text n = [0x30 + n]" by (subst decimal_text.simps) simp
    then show ?thesis using True by (simp add: is_digit_def digits_value_def)
  next
    case False
    then have u: "decimal_text n = decimal_text (n div 10) @ [0x30 + n mod 10]" by (subst decimal_text.simps) simp
    have "digits_value [0x30 + n mod 10] = n mod 10" by (simp add: digits_value_def)
    moreover have "is_digit (0x30 + n mod 10)"
    proof -
      have "n mod 10 < 10" by simp
      then show ?thesis unfolding is_digit_def by linarith
    qed
    moreover have "digits_value (decimal_text (n div 10)) = n div 10" using False 1 by blast
    then have "digits_value (decimal_text n) = n div 10 * 10 + digits_value [0x30 + n mod 10]"
      unfolding u digits_value_append by simp
    ultimately show ?thesis using False 1 by (simp add: u)
  qed
qed

lemma whole_parts: "list_all is_digit w \<Longrightarrow> \<not> (r \<noteq> [] \<and> is_digit (hd r)) \<Longrightarrow>
    takeWhile is_digit (w @ r) = w \<and> dropWhile is_digit (w @ r) = r \<and> drop (length w) (w @ r) = r"
  by (induction w) (cases r, auto)

lemma std_parse_whole:
  assumes "list_all is_digit w" "e = [] \<or> starts 0x65 e"
  shows "std_parse (w @ e) = f64_nearest (digits_value w * 10 ^ nat (exponent_value e)) (10 ^ nat (- exponent_value e))"
proof -
  have "\<not> (e \<noteq> [] \<and> is_digit (hd e))" "\<not> starts 0x2E e" using assms(2) by (auto simp: starts_iff is_digit_def)
  then show ?thesis using whole_parts [OF assms(1)] by (simp add: std_parse_def decimal_parts_def)
qed

lemma std_parse_point:
  assumes "list_all is_digit w" "list_all is_digit f" "e = [] \<or> starts 0x65 e"
  shows "std_parse (w @ 0x2E # f @ e) =
    f64_nearest (digits_value (w @ f) * 10 ^ nat (exponent_value e - int (length f))) (10 ^ nat (int (length f) - exponent_value e))"
proof -
  have "\<not> (e \<noteq> [] \<and> is_digit (hd e))" using assms(3) by (auto simp: starts_iff is_digit_def)
  moreover have "\<not> is_digit 0x2E" by (simp add: is_digit_def)
  ultimately show ?thesis
    using whole_parts [OF assms(1), of "0x2E # f @ e"] whole_parts [OF assms(2), of e]
    by (simp add: std_parse_def decimal_parts_def)
qed

lemma exponent_value_signed:
  "exponent_value (0x65 # (if p \<ge> 1 then 0x2B else 0x2D) # decimal_text (nat \<bar>p - 1\<bar>)) = p - 1"
  using decimal_text_digits [of "nat \<bar>p - 1\<bar>"] by (simp add: exponent_value_def)

lemma lay_out_reads:
  assumes "list_all is_digit ds" "ds \<noteq> []"
  shows "std_parse (lay_out ds (s + int (length ds))) = f64_nearest (digits_value ds * 10 ^ nat s) (10 ^ nat (- s))"
proof -
  define k where "k = int (length ds)"
  define p where "p = s + k"
  define e where "e = 0x65 # (if p \<ge> 1 then 0x2B else 0x2D) # decimal_text (nat \<bar>p - 1\<bar>)"
  have k: "1 \<le> k" using assms(2) by (cases ds) (simp_all add: k_def)
  have e: "exponent_value e = p - 1" "starts 0x65 e" unfolding e_def exponent_value_signed by simp_all
  have part: "list_all is_digit (take i ds)" "list_all is_digit (drop i ds)" for i
    using assms(1) by (auto simp: list_all_iff dest: in_set_takeD in_set_dropD)
  consider (whole) "k \<le> p" "p \<le> 21" | (inside) "0 < p" "p < k" "p \<le> 21" | (small) "- 6 < p" "p \<le> 0"
    | (one) "k = 1" "p > 21 \<or> p \<le> - 6" | (many) "k > 1" "p > 21 \<or> p \<le> - 6"
    by atomize_elim (use k in linarith)
  then have "std_parse (lay_out ds p) = f64_nearest (digits_value ds * 10 ^ nat s) (10 ^ nat (- s))"
  proof cases
    case whole
    then have "lay_out ds p = (ds @ zeros (nat s)) @ []" by (simp add: lay_out_def k_def [symmetric]) (simp add: p_def)
    moreover have "list_all is_digit (ds @ zeros (nat s))" using assms(1) by simp
    moreover have "(10::nat) ^ nat (- s) = 1" using whole by (simp add: p_def)
    ultimately show ?thesis using std_parse_whole [of "ds @ zeros (nat s)" "[]"]
      by (simp add: exponent_value_def digits_value_append)
  next
    case inside
    then have "lay_out ds p = take (nat p) ds @ 0x2E # drop (nat p) ds @ []" by (simp add: lay_out_def k_def)
    moreover have "int (length (drop (nat p) ds)) = - s" using inside by (simp add: p_def k_def)
    ultimately show ?thesis using std_parse_point [OF part, of "[]" "nat p" "nat p"]
      by (simp add: exponent_value_def)
  next
    case small
    define z where "z = zeros (nat (- p)) @ ds"
    have "lay_out ds p = [0x30] @ 0x2E # z @ []" using small k by (simp add: lay_out_def k_def [symmetric] z_def)
    moreover have "int (length z) = - s" using small by (simp add: p_def k_def z_def)
    moreover have "digits_value ([0x30] @ z) = digits_value ds"
      by (simp only: z_def digits_value_append digits_value_zeros) (simp add: digits_value_def)
    moreover have "list_all is_digit [0x30]" "list_all is_digit z" using assms(1) by (simp_all add: is_digit_def z_def)
    ultimately show ?thesis using std_parse_point [of "[0x30]" z "[]"] by (simp add: exponent_value_def)
  next
    case one
    then have "length ds = 1" by (simp add: k_def)
    with one(2) have "lay_out ds p = ds @ e" by (elim disjE) (simp_all add: lay_out_def e_def)
    moreover have "p - 1 = s" using one by (simp add: p_def)
    ultimately show ?thesis using std_parse_whole [OF assms(1), of e] e by simp
  next
    case many
    then have "\<not> (k \<le> p \<and> p \<le> 21)" "\<not> (0 < p \<and> p \<le> 21)" "\<not> (- 6 < p \<and> p \<le> 0)" by auto
    then have "lay_out ds p = take 1 ds @ 0x2E # drop 1 ds @ e"
      using many(1) unfolding lay_out_def Let_def k_def [symmetric] e_def by (simp only: if_False if_True) simp
    moreover have "p - 1 - int (length (drop 1 ds)) = s" using k by (simp add: k_def p_def)
    moreover have "int (length (drop 1 ds)) - (p - 1) = - s" using k by (simp add: k_def p_def)
    moreover have "take 1 ds @ drop 1 ds = ds" by simp
    ultimately show ?thesis using std_parse_point [OF part, of e 1 1] e by (simp only:) simp
  qed
  then show ?thesis by (simp only: p_def k_def)
qed

lemma lay_out_no_minus: "list_all is_digit ds \<Longrightarrow> ds \<noteq> [] \<Longrightarrow> \<exists>c r. lay_out ds p = c # r \<and> is_digit c"
  by (cases ds) (auto simp: lay_out_def Let_def is_digit_def take_Cons split: nat.split)

lemma f64_abs_parts:
  "unat (f64_abs x) = unat x mod 2 ^ 63" "f64_finite (f64_abs x) = f64_finite x" "f64_abs x = 0 \<longleftrightarrow> f64_is_zero x"
proof -
  show u: "unat (f64_abs x) = unat x mod 2 ^ 63" by (simp add: f64_abs_def unat_of_nat)
  show "f64_finite (f64_abs x) = f64_finite x" by (simp add: f64_finite_def u)
  show "f64_abs x = 0 \<longleftrightarrow> f64_is_zero x" unfolding f64_is_zero_def u [symmetric] by (simp add: unat_eq_zero)
qed

lemma f64_sign_split: "x = (if f64_negative x then f64_neg (f64_abs x) else f64_abs x)"
proof -
  have b: "unat x < 2 ^ 64" using unat_bound [of x] by simp
  have u: "unat (f64_abs x) < 2 ^ 63" by (simp add: f64_abs_parts)
  show ?thesis
  proof (cases "f64_negative x")
    case True
    then have x: "unat x = unat (f64_abs x) + 2 ^ 63" using b by (simp add: f64_abs_parts f64_negative_def le_mod_geq)
    have "\<not> bit (unat (f64_abs x)) 63" using u by (simp add: bit_iff_odd)
    then have n63: "\<not> bit (f64_abs x) 63" by (simp add: bit_unsigned_iff)
    have p: "(2 :: u64) ^ 63 = push_bit 63 1" by (simp add: push_bit_eq_mult)
    have b63: "bit ((2 :: u64) ^ 63) n \<longleftrightarrow> n = 63" for n unfolding p bit_push_bit_iff bit_1_iff by auto
    have "and (f64_abs x) (2 ^ 63) = 0"
      by (rule bit_eqI) (simp only: bit_and_iff b63 bit_0_eq bot_fun_def bot_bool_def, use n63 in blast)
    then have "f64_neg (f64_abs x) = f64_abs x + 2 ^ 63"
      by (simp add: f64_neg_def disjunctive_add_eq_xor)
    moreover have "x = word_of_nat (unat (f64_abs x) + 2 ^ 63)" unfolding x [symmetric] by simp
    then have "x = f64_abs x + 2 ^ 63" by simp
    ultimately show ?thesis using True by simp
  next
    case False
    then show ?thesis by (simp add: f64_abs_def f64_negative_def)
  qed
qed

section \<open>The name of a number\<close>

definition finite_name :: "utext \<Rightarrow> bool" where
  "finite_name t \<longleftrightarrow> (\<exists>c r. t = c # r \<and> is_digit c) \<or> (\<exists>c r. t = 0x2D # c # r \<and> is_digit c)"

lemma js_string_finite:
  assumes "f64_finite x" "\<not> f64_is_zero x"
  shows "std_parse_signed (to_js_string x) = x" "finite_name (to_js_string x)"
proof -
  obtain c s where cs: "scientific (f64_abs x) = (c, s)" by force
  define ds where "ds = decimal_text c"
  have ds: "list_all is_digit ds" "digits_value ds = c" "ds \<noteq> []" using decimal_text_digits [of c] by (simp_all add: ds_def)
  have a: "f64_finite (f64_abs x)" "unat (f64_abs x) < 2 ^ 63" "f64_abs x \<noteq> 0"
    using assms by (simp_all add: f64_abs_parts)
  define out where "out = lay_out ds (s + int (length ds))"
  have "std_parse out = f64_abs x"
    using scientific_reads [OF a cs] lay_out_reads [OF ds(1,3), of s] by (simp add: out_def reads_as_def ds(2))
  moreover obtain e r where "out = e # r" "is_digit e"
    using lay_out_no_minus [OF ds(1,3)] unfolding out_def by blast
  moreover have "\<not> f64_is_nan x" using assms(1) by (simp add: f64_is_nan_def f64_finite_def)
  then have "to_js_string x = (if f64_negative x then 0x2D # out else out)"
    using assms by (simp add: to_js_string_def cs out_def ds_def Let_def)
  moreover have "\<not> is_digit 0x2D" by (simp add: is_digit_def)
  ultimately show "std_parse_signed (to_js_string x) = x" "finite_name (to_js_string x)"
    using f64_sign_split [of x] by (auto simp: std_parse_signed_def starts_iff finite_name_def split: if_splits)
qed

lemma other_names:
  "f64_is_zero x \<Longrightarrow> to_js_string x = [0x30]"
  "f64_is_nan x \<Longrightarrow> to_js_string x = [0x4E, 0x61, 0x4E]"
  "\<not> f64_finite x \<Longrightarrow> \<not> f64_is_nan x \<Longrightarrow>
    to_js_string x = (if f64_negative x then [0x2D] else []) @ [0x49, 0x6E, 0x66, 0x69, 0x6E, 0x69, 0x74, 0x79]"
  by (auto simp: to_js_string_def text_of_string_def f64_is_nan_def f64_is_zero_def f64_finite_def f64_inf_def)

lemma infinities: "\<not> f64_finite x \<Longrightarrow> \<not> f64_is_nan x \<Longrightarrow> f64_abs x = word_of_nat f64_inf"
  by (simp add: f64_finite_def f64_is_nan_def f64_abs_def)

text \<open>
  C30: a number's name is its own. Spelled as JavaScript's \<open>String\<close> does, a finite number other than zero
  reads back as itself, to the last bit, whichever of the four layouts it takes; and two numbers
  share a name only if they are the same, both zeros, or both NaN, so distinct numeric keys stay distinct
  property names.
\<close>

theorem js_names_distinct:
  "(std_parse_signed (to_js_string x) = x \<or> \<not> f64_finite x \<or> f64_is_zero x) \<and>
   (to_js_string x = to_js_string y \<longleftrightarrow> x = y \<or> f64_is_zero x \<and> f64_is_zero y \<or> f64_is_nan x \<and> f64_is_nan y)"
proof -
  have fin: "f64_is_zero z \<Longrightarrow> f64_finite z" "f64_is_nan z \<Longrightarrow> \<not> f64_finite z" for z
    by (simp_all add: f64_is_zero_def f64_finite_def f64_is_nan_def f64_inf_def)
  have zero: "std_parse_signed [0x30] = 0"
    using std_parse_whole [of "[0x30]" "[]"] by (simp add: std_parse_signed_def is_digit_def digits_value_def exponent_value_def f64_nearest_def)
  have not_zero: "to_js_string z \<noteq> [0x30]" if "f64_finite z" "\<not> f64_is_zero z" for z
    using js_string_finite(1) [OF that] zero that(2) by (auto simp: f64_is_zero_def)
  have name: "finite_name (to_js_string z) \<longleftrightarrow> f64_finite z" for z
  proof (cases "f64_finite z")
    case True
    then show ?thesis using js_string_finite(2) other_names(1) by (cases "f64_is_zero z") (auto simp: finite_name_def is_digit_def)
  next
    case False
    then show ?thesis using other_names(2,3) [of z] by (cases "f64_is_nan z") (auto simp: finite_name_def is_digit_def)
  qed
  have eq: "x = y \<or> f64_is_zero x \<and> f64_is_zero y \<or> f64_is_nan x \<and> f64_is_nan y" if e: "to_js_string x = to_js_string y"
  proof (cases "f64_finite x")
    case True
    then have y: "f64_finite y" using name e by metis
    show ?thesis using True y js_string_finite(1) not_zero other_names(1) e by metis
  next
    case False
    then have y: "\<not> f64_finite y" using name e by metis
    show ?thesis
    proof (cases "f64_is_nan x \<or> f64_is_nan y")
      case True
      then show ?thesis using False y other_names(2,3) e by (auto split: if_splits)
    next
      case nan: False
      then have "f64_negative x = f64_negative y" using False y other_names(3) e by (auto split: if_splits)
      moreover have "f64_abs x = f64_abs y" using infinities [of x] infinities [of y] False y nan by simp
      ultimately have "x = y" using f64_sign_split [of x] f64_sign_split [of y] by metis
      then show ?thesis ..
    qed
  qed
  show ?thesis using js_string_finite(1) eq other_names by metis
qed

theorem js_names_distinct_witness:
  "std_parse_signed (to_js_string 0x4415AF1D78B58C40) = 0x4415AF1D78B58C40 \<and>
   to_js_string 0x4415AF1D78B58C40 \<noteq> to_js_string 0x43F0000000000000"
proof -
  have "f64_finite 0x4415AF1D78B58C40" "\<not> f64_is_zero 0x4415AF1D78B58C40" "\<not> f64_is_nan 0x4415AF1D78B58C40"
    by (simp_all add: f64_finite_def f64_is_zero_def f64_is_nan_def f64_inf_def)
  then show ?thesis using js_names_distinct [of "0x4415AF1D78B58C40" "0x43F0000000000000"] by simp
qed

end
