(* ===== verification/JsonEdit.thy ===== *)
theory JsonEdit
  imports JsonStrings JsonValues JsNumber
begin

text \<open>
  Changing one value in a JSONC or JSON5 text (\<open>crates/json/src/edit.rs\<close>). A position is the number of
  characters before it. What a function does is a \<open>run\<close>: \<open>None\<close> if it loops without end, a panic or a
  lexer's message, or its result. A part of the text taken backwards or beyond its end and an index out of
  range panic, as in the code; that a valid text never leads there is \<open>JsonEditTotal\<close>.
\<close>

section \<open>Runs\<close>

datatype stop = Lex lex_error | Panicked

type_synonym ('e, 'a) run = "('e + 'a) option"

definition ret :: "'a \<Rightarrow> ('e, 'a) run" where "ret x = Some (Inr x)"

definition run_bind :: "('e, 'a) run \<Rightarrow> ('a \<Rightarrow> ('e, 'b) run) \<Rightarrow> ('e, 'b) run" where
  "run_bind m f = Option.bind m (case_sum (\<lambda>e. Some (Inl e)) f)"

definition lexing :: "lex_error + 'a \<Rightarrow> (stop, 'a) run" where
  "lexing m = Some (case m of Inl e \<Rightarrow> Inl (Lex e) | Inr x \<Rightarrow> Inr x)"

abbreviation panic :: "(stop, 'a) run" where "panic \<equiv> Some (Inl Panicked)"

lemma run_bind_simps [simp]:
  "run_bind None f = None" "run_bind (Some (Inl e)) f = Some (Inl e)" "run_bind (Some (Inr x)) f = f x"
  "run_bind (ret x) f = f x"
  by (simp_all add: run_bind_def ret_def)

lemma lexing_simps [simp]: "lexing (Inl e) = Some (Inl (Lex e))" "lexing (Inr x) = ret x"
  by (simp_all add: lexing_def ret_def)

lemma run_bind_ret: "run_bind m f = Some (Inr y) \<longleftrightarrow> (\<exists>x. m = Some (Inr x) \<and> f x = Some (Inr y))"
  by (cases m; cases "the m") (auto simp: run_bind_def)

lemma run_bind_cong [fundef_cong]:
  "m = n \<Longrightarrow> (\<And>x. n = Some (Inr x) \<Longrightarrow> f x = g x) \<Longrightarrow> run_bind m f = run_bind n g"
  by (cases n; cases "the n") (auto simp: run_bind_def)

lemma run_bind_mono [partial_function_mono]:
  assumes "mono_option m" "\<And>x. mono_option (\<lambda>f. c x f)"
  shows "mono_option (\<lambda>f. run_bind (m f) (\<lambda>x. c x f))"
  unfolding run_bind_def
  by (rule bind_mono [OF assms(1)]) (auto intro!: monotoneI split: sum.split
      simp: option.leq_refl monotoneD [OF assms(2)])

fun fold_run :: "('a \<Rightarrow> 's \<Rightarrow> ('e, 's) run) \<Rightarrow> 'a list \<Rightarrow> 's \<Rightarrow> ('e, 's) run" where
  "fold_run f [] s = ret s"
| "fold_run f (x # xs) s = run_bind (f x s) (fold_run f xs)"

lemma fold_run_cong [fundef_cong]:
  "xs = ys \<Longrightarrow> (\<And>x s. x \<in> set ys \<Longrightarrow> f x s = g x s) \<Longrightarrow> fold_run f xs s = fold_run g ys s"
  by (induction ys arbitrary: xs s) (auto intro!: run_bind_cong)

section \<open>Parts of the text\<close>

text \<open>
  \<open>&text[a..b]\<close>, \<open>&text[..b]\<close>, \<open>&text[a..]\<close> and an index, which panic out of range, and the text with
  something else between its parts up to \<open>a\<close> and from \<open>b\<close>.
\<close>

definition slice :: "nat \<Rightarrow> nat \<Rightarrow> utext \<Rightarrow> utext" where
  "slice a b t = take (b - a) (drop a t)"

definition text_range :: "nat \<Rightarrow> nat \<Rightarrow> utext \<Rightarrow> (stop, utext) run" where
  "text_range a b t = (if a \<le> b \<and> b \<le> length t then ret (slice a b t) else panic)"

definition text_to :: "nat \<Rightarrow> utext \<Rightarrow> (stop, utext) run" where
  "text_to b t = (if b \<le> length t then ret (take b t) else panic)"

definition text_from :: "nat \<Rightarrow> utext \<Rightarrow> (stop, utext) run" where
  "text_from a t = (if a \<le> length t then ret (drop a t) else panic)"

definition index_at :: "nat \<Rightarrow> 'a list \<Rightarrow> (stop, 'a) run" where
  "index_at i xs = (if i < length xs then ret (xs ! i) else panic)"

definition replace_range :: "nat \<Rightarrow> nat \<Rightarrow> utext \<Rightarrow> utext \<Rightarrow> (stop, utext) run" where
  "replace_range a b new t = run_bind (text_to a t) (\<lambda>left. run_bind (text_from b t) (\<lambda>right. ret (left @ new @ right)))"

lemma ret_Inr: "ret x = Some (Inr y) \<longleftrightarrow> x = y"
  by (simp add: ret_def)

lemma part_Inr:
  "text_range a b t = Some (Inr x) \<longleftrightarrow> a \<le> b \<and> b \<le> length t \<and> x = slice a b t"
  "text_to b t = Some (Inr x) \<longleftrightarrow> b \<le> length t \<and> x = take b t"
  "text_from a t = Some (Inr x) \<longleftrightarrow> a \<le> length t \<and> x = drop a t"
  "index_at i xs = Some (Inr y) \<longleftrightarrow> i < length xs \<and> y = xs ! i"
  "replace_range a b new t = Some (Inr x) \<longleftrightarrow> a \<le> length t \<and> b \<le> length t \<and> x = take a t @ new @ drop b t"
  by (auto simp: text_range_def text_to_def text_from_def index_at_def replace_range_def run_bind_ret ret_Inr)

text \<open>In range they answer.\<close>

lemma part_ret [simp]:
  "a \<le> b \<Longrightarrow> b \<le> length t \<Longrightarrow> text_range a b t = ret (slice a b t)"
  "b \<le> length t \<Longrightarrow> text_to b t = ret (take b t)"
  "a \<le> length t \<Longrightarrow> text_from a t = ret (drop a t)"
  "i < length xs \<Longrightarrow> index_at i xs = ret (xs ! i)"
  "a \<le> length t \<Longrightarrow> b \<le> length t \<Longrightarrow> replace_range a b new t = ret (take a t @ new @ drop b t)"
  by (simp_all add: text_range_def text_to_def text_from_def index_at_def replace_range_def)

section \<open>Stepping over a value\<close>

definition is_number_start :: "scalar \<Rightarrow> bool" where
  "is_number_start c \<longleftrightarrow> c = 0x2D \<or> c = 0x2B \<or> c = 0x2E \<or> is_digit c"

text \<open>
  One token: the nesting after it and the text after it. A bracket too many makes the depth overflow, which
  panics: overflow checks are on in the release profile.
\<close>

definition skip_token :: "dialect \<Rightarrow> unicode \<Rightarrow> nat \<Rightarrow> utext \<Rightarrow> (stop, nat \<times> utext) run" where
  "skip_token d u depth r =
     (case r of
        [] \<Rightarrow> panic
      | b # r' \<Rightarrow>
          if b = 0x7B \<or> b = 0x5B then ret (depth + 1, r')
          else if b = 0x7D \<or> b = 0x5D then (if depth = 0 then panic else ret (depth - 1, r'))
          else if b = 0x2C \<or> b = 0x3A then ret (depth, r')
          else if b = 0x22 \<or> b = 0x27 then run_bind (lexing (scan_string d b r)) (\<lambda>(_, r). ret (depth, r))
          else if is_number_start b then run_bind (lexing (scan_number d r)) (\<lambda>(_, r). ret (depth, r))
          else run_bind (lexing (scan_word d u r)) (\<lambda>(_, r). ret (depth, r)))"

partial_function (option) skip_value :: "dialect \<Rightarrow> unicode \<Rightarrow> nat \<Rightarrow> utext \<Rightarrow> (stop, utext) run" where
  "skip_value d u depth cs =
     run_bind (lexing (peek d cs)) (\<lambda>r.
     run_bind (skip_token d u depth r) (\<lambda>(depth, r).
       if depth = 0 then ret r else skip_value d u depth r))"

section \<open>The document's shape\<close>

declare skip_value.simps [code]

record member =
  m_start :: nat
  m_key :: "(json_text \<times> nat) option"
  value_start :: nat
  value_end :: nat
  m_comma :: "nat option"

record container =
  is_object :: bool
  open_at :: nat
  close_at :: nat
  c_members :: "member list"

definition pos_of :: "utext \<Rightarrow> utext \<Rightarrow> nat" where
  "pos_of t r = length t - length r"

text \<open>The key at \<open>r\<close>, where it ends, and the text after the colon.\<close>

definition member_key :: "dialect \<Rightarrow> unicode \<Rightarrow> utext \<Rightarrow> utext \<Rightarrow> (stop, (json_text \<times> nat) \<times> utext) run" where
  "member_key d u t r =
     run_bind
       (if starts 0x22 r \<or> starts 0x27 r then lexing (scan_string d (hd r) r)
        else run_bind (lexing (scan_word d u r)) (\<lambda>((w, _), r). ret (w, r))) (\<lambda>(key, r).
     run_bind (lexing (peek d r)) (\<lambda>r'. ret ((key, pos_of t r), tl r')))"

definition read_member :: "dialect \<Rightarrow> unicode \<Rightarrow> utext \<Rightarrow> bool \<Rightarrow> utext \<Rightarrow> (stop, member \<times> utext) run" where
  "read_member d u t object r =
     run_bind
       (if object then run_bind (member_key d u t r) (\<lambda>(k, r). ret (Some k, r)) else ret (None, r)) (\<lambda>(key, r1).
     run_bind (lexing (peek d r1)) (\<lambda>r2.
     run_bind (skip_value d u 0 r2) (\<lambda>r3.
     run_bind (lexing (peek d r3)) (\<lambda>r4.
       ret (\<lparr>m_start = pos_of t r, m_key = key, value_start = pos_of t r2, value_end = pos_of t r3,
             m_comma = (if starts 0x2C r4 then Some (pos_of t r4) else None)\<rparr>,
            if starts 0x2C r4 then tl r4 else r4)))))"

partial_function (option) read_members ::
    "dialect \<Rightarrow> unicode \<Rightarrow> utext \<Rightarrow> bool \<Rightarrow> member list \<Rightarrow> utext \<Rightarrow> (stop, member list \<times> nat) run" where
  "read_members d u t object ms cs =
     run_bind (lexing (peek d cs)) (\<lambda>r.
       if r = [] then panic
       else if starts 0x7D r \<or> starts 0x5D r then ret (ms, pos_of t r)
       else run_bind (read_member d u t object r) (\<lambda>(m, r). read_members d u t object (ms @ [m]) r))"

declare read_members.simps [code]

definition container_at :: "dialect \<Rightarrow> unicode \<Rightarrow> utext \<Rightarrow> nat \<Rightarrow> (stop, container) run" where
  "container_at d u t p =
     run_bind (lexing (peek d (drop p t))) (\<lambda>r.
     run_bind (read_members d u t (starts 0x7B r) [] (tl r)) (\<lambda>(ms, close).
       ret \<lparr>is_object = starts 0x7B r, open_at = p, close_at = close, c_members = ms\<rparr>))"

section \<open>Lines\<close>

definition is_break :: "scalar \<Rightarrow> bool" where "is_break c \<longleftrightarrow> c = 0x0A \<or> c = 0x0D"

definition is_blank :: "scalar \<Rightarrow> bool" where "is_blank c \<longleftrightarrow> c = 0x20 \<or> c = 0x09"

definition line_start :: "utext \<Rightarrow> nat \<Rightarrow> (stop, nat) run" where
  "line_start t p = run_bind (text_to p t) (\<lambda>s. ret (p - length (takeWhile (\<lambda>c. \<not> is_break c) (rev s))))"

definition line_indent :: "utext \<Rightarrow> nat \<Rightarrow> (stop, utext) run" where
  "line_indent t p = run_bind (line_start t p) (\<lambda>a. run_bind (text_from a t) (\<lambda>s. ret (takeWhile is_blank s)))"

definition starts_line :: "utext \<Rightarrow> nat \<Rightarrow> (stop, bool) run" where
  "starts_line t p = run_bind (line_start t p) (\<lambda>a. run_bind (text_range a p t) (\<lambda>s. ret (list_all is_blank s)))"

text \<open>The rest of a line that holds only blanks and comments: the text from the line break on.\<close>

function line_rest :: "utext \<Rightarrow> utext option" where
  "line_rest [] = Some []"
| "line_rest (c # cs) =
     (if is_blank c then line_rest cs
      else if is_break c then Some (c # cs)
      else if c = 0x2F \<and> starts 0x2F cs then Some (dropWhile (\<lambda>c. \<not> is_break c) (c # cs))
      else if c = 0x2F \<and> starts 0x2A cs then
        (case block_comment_rest (tl cs) of
           None \<Rightarrow> None
         | Some r \<Rightarrow> if list_ex is_break (upto_rest (c # cs) r) then None else line_rest r)
      else None)"
  by pat_completeness auto
termination
  by (relation "measure length") (auto simp: starts_iff less_Suc_eq_le le_SucI dest!: block_comment_shorter)

definition rest_of_line :: "utext \<Rightarrow> nat \<Rightarrow> nat option" where
  "rest_of_line t p = map_option (\<lambda>r. p + (length (drop p t) - length r)) (line_rest (drop p t))"

definition past_line_break :: "utext \<Rightarrow> nat \<Rightarrow> (stop, nat) run" where
  "past_line_break t p =
     run_bind (text_from p t) (\<lambda>r.
       ret (if starts 0x0D r \<and> starts 0x0A (tl r) then p + 2 else if starts 0x0A r \<or> starts 0x0D r then p + 1 else p))"

definition multi_line :: "utext \<Rightarrow> container \<Rightarrow> (stop, bool) run" where
  "multi_line t c =
     (if c_members c = [] then ret (0x0A \<in> set t)
      else run_bind (text_range (open_at c) (close_at c) t) (\<lambda>s. ret (0x0A \<in> set s)))"

section \<open>The file's habits\<close>

record seen =
  s_unit :: "utext option"
  s_colon :: "utext option"
  s_separator :: "utext option"
  s_trailing_comma :: bool
  s_quote :: "scalar option"
  s_bare_keys :: "bool option"

definition or_insert :: "'a \<Rightarrow> 'a option \<Rightarrow> 'a option" where
  "or_insert x o' = (case o' of None \<Rightarrow> Some x | Some y \<Rightarrow> Some y)"

text \<open>What a container says of its unit, trailing comma and separator.\<close>

fun find_unit :: "utext \<Rightarrow> utext \<Rightarrow> member list \<Rightarrow> (stop, utext option) run" where
  "find_unit t outer [] = ret None"
| "find_unit t outer (m # ms) =
     run_bind (starts_line t (m_start m)) (\<lambda>starts.
       if \<not> starts then find_unit t outer ms
       else run_bind (line_indent t (m_start m)) (\<lambda>inner.
         case strip_prefix outer inner of
           Some (b # bs) \<Rightarrow> ret (Some (b # bs))
         | _ \<Rightarrow> find_unit t outer ms))"

definition survey_container :: "utext \<Rightarrow> container \<Rightarrow> seen \<Rightarrow> (stop, seen) run" where
  "survey_container t c seen =
     run_bind (multi_line t c) (\<lambda>multi.
     run_bind
       (if multi \<and> s_unit seen = None
        then run_bind (line_indent t (open_at c)) (\<lambda>outer.
             run_bind (find_unit t outer (c_members c)) (\<lambda>u. ret (seen\<lparr>s_unit := u\<rparr>)))
        else ret seen) (\<lambda>seen.
     let seen = (if multi \<and> c_members c \<noteq> [] \<and> m_comma (last (c_members c)) \<noteq> None
                 then seen\<lparr>s_trailing_comma := True\<rparr> else seen)
     in if \<not> multi \<and> s_separator seen = None \<and> 2 \<le> length (c_members c) then
          run_bind (index_at 0 (c_members c)) (\<lambda>first.
            case m_comma first of
              None \<Rightarrow> panic
            | Some comma \<Rightarrow>
                run_bind (index_at 1 (c_members c)) (\<lambda>second.
                run_bind (text_range (comma + 1) (m_start second) t) (\<lambda>gap.
                  ret (if list_all is_blank gap then seen\<lparr>s_separator := Some gap\<rparr> else seen))))
        else ret seen))"

definition survey_key :: "utext \<Rightarrow> member \<Rightarrow> seen \<Rightarrow> (stop, seen) run" where
  "survey_key t m seen =
     (case m_key m of
        None \<Rightarrow> ret seen
      | Some (_, key_end) \<Rightarrow>
          run_bind (index_at (m_start m) t) (\<lambda>quote.
          let seen =
                (if quote = 0x22 \<or> quote = 0x27
                 then seen\<lparr>s_quote := or_insert quote (s_quote seen), s_bare_keys := or_insert False (s_bare_keys seen)\<rparr>
                 else seen\<lparr>s_bare_keys := or_insert True (s_bare_keys seen)\<rparr>)
          in run_bind (text_range key_end (value_start m) t) (\<lambda>gap.
               ret (if s_colon seen = None \<and> 0x2F \<notin> set gap \<and> 0x0A \<notin> set gap then seen\<lparr>s_colon := Some gap\<rparr> else seen))))"

section \<open>Positions lie in the text\<close>

lemma scan_word_rest: "scan_word d u s = Inr (w, r) \<Longrightarrow> suffix r s"
  by (cases d) (auto simp: scan_word_def suffix_dropWhile dest: identifier_loop_suffix)

lemma lexing_Inr: "lexing m = Some (Inr x) \<longleftrightarrow> m = Inr x"
  by (cases m) (auto simp: ret_def)

lemmas run_results = run_bind_ret lexing_Inr ret_Inr

lemma skip_token_suffix: "skip_token d u depth r = Some (Inr (k, r')) \<Longrightarrow> suffix r' r"
  by (auto simp: skip_token_def run_results is_number_start_def split: list.splits if_splits
      intro: suffix_ConsI dest!: scan_string_suffix scan_number_suffix [OF list.discI [OF refl]] dest: scan_word_rest)

lemma skip_value_suffix: "skip_value d u depth cs = Some (Inr r) \<Longrightarrow> suffix r cs"
proof -
  have "\<forall>r. y = Inr r \<longrightarrow> suffix r cs" if run: "skip_value d u depth cs = Some y" for y
  proof (rule skip_value.raw_induct [OF _ run])
    fix f d u depth cs y
    assume IH: "\<And>d u depth cs y. f d u depth cs = Some y \<Longrightarrow> \<forall>r. y = Inr r \<longrightarrow> suffix r cs"
      and step: "run_bind (lexing (peek d cs)) (\<lambda>r. run_bind (skip_token d u depth r)
        (\<lambda>(depth, r). if depth = 0 then ret r else f d u depth r)) = Some y"
    show "\<forall>r. y = Inr r \<longrightarrow> suffix r cs"
    proof (intro allI impI)
      fix r assume "y = Inr r"
      with step obtain a k b where a: "peek d cs = Inr a" "skip_token d u depth a = Some (Inr (k, b))"
        and b: "(if k = 0 then ret b else f d u k b) = Some (Inr r)" by (auto simp: run_results)
      have "suffix r b" using b IH by (auto simp: ret_Inr split: if_splits)
      then show "suffix r cs" using peek_suffix [OF a(1)] skip_token_suffix [OF a(2)] suffix_order.trans by blast
    qed
  qed
  then show "skip_value d u depth cs = Some (Inr r) \<Longrightarrow> suffix r cs" by blast
qed

lemma pos_of_le [simp]: "pos_of t r \<le> length t"
  by (simp add: pos_of_def)

lemma pos_of_mono: "suffix r s \<Longrightarrow> pos_of t s \<le> pos_of t r"
  using suffix_length_le by (fastforce simp: pos_of_def)

lemma pos_of_less: "suffix r (tl s) \<Longrightarrow> s \<noteq> [] \<Longrightarrow> suffix s t \<Longrightarrow> pos_of t s < pos_of t r"
  using suffix_tl_shorter [of r s] suffix_length_le [of s t] by (auto simp: pos_of_def)

lemma drop_pos_of: "suffix r t \<Longrightarrow> drop (pos_of t r) t = r"
  by (auto simp: suffix_def pos_of_def)

text \<open>What a member is, and that a container's members follow one another.\<close>

definition after_member_at :: "member \<Rightarrow> nat" where
  "after_member_at m = (case m_comma m of None \<Rightarrow> value_end m | Some c \<Rightarrow> c + 1)"

definition member_at :: "utext \<Rightarrow> bool \<Rightarrow> nat \<Rightarrow> member \<Rightarrow> bool" where
  "member_at t object lo m \<longleftrightarrow>
     lo \<le> m_start m \<and> m_start m \<le> value_start m \<and> value_start m \<le> value_end m \<and> value_start m < length t \<and>
     (object \<longrightarrow> m_start m < value_start m) \<and> (m_key m \<noteq> None \<longleftrightarrow> object) \<and>
     (\<forall>k e. m_key m = Some (k, e) \<longrightarrow> m_start m \<le> e \<and> e < value_start m) \<and>
     value_end m \<le> after_member_at m \<and> after_member_at m \<le> length t \<and>
     (\<forall>k. m_comma m = Some k \<longrightarrow> k < length t \<and> t ! k = 0x2C)"

fun follow :: "utext \<Rightarrow> bool \<Rightarrow> nat \<Rightarrow> member list \<Rightarrow> bool" where
  "follow t object lo [] \<longleftrightarrow> True"
| "follow t object lo (m # ms) \<longleftrightarrow> member_at t object lo m \<and> follow t object (after_member_at m) ms"

lemma member_key_in:
  assumes "member_key d u t r = Some (Inr ((k, e), r'))" "suffix r t" "r' \<noteq> []"
  shows "suffix r' t \<and> pos_of t r \<le> e \<and> e < pos_of t r'"
proof -
  obtain a b where a: "(if starts 0x22 r \<or> starts 0x27 r then lexing (scan_string d (hd r) r)
        else run_bind (lexing (scan_word d u r)) (\<lambda>((w, _), r). ret (w, r))) = Some (Inr (k, a))"
    and b: "peek d a = Inr b" and r': "e = pos_of t a" "r' = tl b"
    using assms(1) by (auto simp: member_key_def run_results)
  have ar: "suffix a r" using a scan_string_suffix scan_word_rest
    by (fastforce simp: run_results split: if_splits)
  have ba: "suffix b a" using peek_suffix [OF b] .
  have bt: "suffix b t" using ar ba assms(2) suffix_order.trans by blast
  have "b \<noteq> []" using assms(3) r' by auto
  then have "pos_of t b < pos_of t r'" using pos_of_less [of r' b t] bt r' by simp
  moreover have "suffix r' t" using bt r' tl_suffix by blast
  ultimately show ?thesis using pos_of_mono [OF ar, of t] pos_of_mono [OF ba, of t] r' by linarith
qed

lemma skip_value_nonempty: "skip_value d u 0 cs = Some (Inr r) \<Longrightarrow> peek d cs = Inr x \<Longrightarrow> x \<noteq> []"
  by (auto simp: skip_value.simps [of d u 0] skip_token_def run_results)

lemma peek_nil [simp]: "peek d [] = Inr []"
  by (simp add: peek_def starts_iff)

lemma read_member_at:
  assumes "read_member d u t object r = Some (Inr (m, r'))" "suffix r t"
  shows "member_at t object (pos_of t r) m \<and> suffix r' t \<and> after_member_at m \<le> pos_of t r'"
proof -
  obtain key r1 r2 r3 r4 where k: "(if object then run_bind (member_key d u t r) (\<lambda>(k, r). ret (Some k, r)) else ret (None, r)) = Some (Inr (key, r1))"
    and p: "peek d r1 = Inr r2" "skip_value d u 0 r2 = Some (Inr r3)" "peek d r3 = Inr r4"
    and m: "m = \<lparr>m_start = pos_of t r, m_key = key, value_start = pos_of t r2, value_end = pos_of t r3,
             m_comma = (if starts 0x2C r4 then Some (pos_of t r4) else None)\<rparr>"
    and r': "r' = (if starts 0x2C r4 then tl r4 else r4)"
    using assms(1) by (auto simp: read_member_def run_results)
  have r2: "r2 \<noteq> []" using p(2) skip_value_nonempty [of d u r2 r3 "[]"] by auto
  then have r1: "r1 \<noteq> []" using p(1) by auto
  have key: "suffix r1 t \<and> pos_of t r \<le> pos_of t r1 \<and> (object \<longrightarrow> pos_of t r < pos_of t r1) \<and> (key \<noteq> None \<longleftrightarrow> object) \<and>
      (\<forall>k e. key = Some (k, e) \<longrightarrow> pos_of t r \<le> e \<and> e < pos_of t r1)"
  proof (cases object)
    case True
    then obtain k e where "member_key d u t r = Some (Inr ((k, e), r1))" "key = Some (k, e)"
      using k by (auto simp: run_results)
    then show ?thesis using member_key_in [OF _ assms(2) r1] True by fastforce
  next
    case False
    then show ?thesis using k assms(2) by (auto simp: ret_Inr)
  qed
  have s: "suffix r2 r1" "suffix r3 r2" "suffix r4 r3"
    using peek_suffix p(1) skip_value_suffix [OF p(2)] peek_suffix p(3) by auto
  have t: "suffix r2 t" "suffix r4 t" using key s suffix_order.trans by blast+
  have less: "pos_of t x < length t" if "x \<noteq> []" "suffix x t" for x
    using that suffix_length_le [of x t] by (cases x) (auto simp: pos_of_def)
  have le: "pos_of t r1 \<le> pos_of t r2" "pos_of t r2 \<le> pos_of t r3" "pos_of t r3 \<le> pos_of t r4"
    using pos_of_mono s by blast+
  have comma: "pos_of t r' = (if starts 0x2C r4 then Suc (pos_of t r4) else pos_of t r4)"
    using suffix_length_le [OF t(2)] by (auto simp: r' pos_of_def starts_iff)
  have ends: "m_start m \<le> e \<and> e < value_start m" if "m_key m = Some (k, e)" for k e
    using that key le unfolding m by force
  have after: "after_member_at m \<le> pos_of t r'" "value_end m \<le> after_member_at m"
    using le comma by (auto simp: after_member_at_def m)
  have "after_member_at m \<le> length t" using after(1) pos_of_le [of t r'] by linarith
  moreover have "k < length t \<and> t ! k = 0x2C" if "m_comma m = Some k" for k
  proof -
    have k: "k = pos_of t r4" "starts 0x2C r4" using that by (auto simp: m split: if_splits)
    then have "k < length t" using less [of r4] t(2) by (auto simp: starts_iff)
    then show ?thesis using k drop_pos_of [OF t(2)] by (auto simp: starts_iff) (metis nth_via_drop)
  qed
  ultimately have "member_at t object (pos_of t r) m" unfolding member_at_def
    using ends key le after less [OF r2 t(1)] by (auto simp: m)
  moreover have "suffix r' t" using t(2) tl_suffix r' by auto
  ultimately show ?thesis using after(1) by blast
qed

lemma follow_mono: "follow t object lo ms \<Longrightarrow> lo' \<le> lo \<Longrightarrow> follow t object lo' ms"
  by (cases ms) (auto simp: member_at_def)

lemma read_members_follow:
  assumes "read_members d u t object ms cs = Some (Inr (ms', close))" "suffix cs t"
  shows "\<exists>new. ms' = ms @ new \<and> follow t object (pos_of t cs) new \<and> pos_of t cs \<le> close \<and> close < length t"
proof -
  have "\<forall>ms' close. y = Inr (ms', close) \<longrightarrow> suffix cs t \<longrightarrow>
      (\<exists>new. ms' = ms @ new \<and> follow t object (pos_of t cs) new \<and> pos_of t cs \<le> close \<and> close < length t)"
    if run: "read_members d u t object ms cs = Some y" for y
  proof (rule read_members.raw_induct [where P = "\<lambda>d u t object ms cs y. \<forall>ms' close. y = Inr (ms', close) \<longrightarrow> suffix cs t \<longrightarrow>
      (\<exists>new. ms' = ms @ new \<and> follow t object (pos_of t cs) new \<and> pos_of t cs \<le> close \<and> close < length t)", OF _ run], intro allI impI)
    fix f d u t object ms cs y ms' close
    assume IH: "\<And>d u t object ms cs y. f d u t object ms cs = Some y \<Longrightarrow> \<forall>ms' close. y = Inr (ms', close) \<longrightarrow> suffix cs t \<longrightarrow>
      (\<exists>new. ms' = ms @ new \<and> follow t object (pos_of t cs) new \<and> pos_of t cs \<le> close \<and> close < length t)"
      and step: "run_bind (lexing (peek d cs)) (\<lambda>r. if r = [] then panic
         else if starts 0x7D r \<or> starts 0x5D r then ret (ms, pos_of t r)
         else run_bind (read_member d u t object r) (\<lambda>(m, r). f d u t object (ms @ [m]) r)) = Some y"
      and y: "y = Inr (ms', close)" and cs: "suffix cs t"
    obtain r where r: "peek d cs = Inr r" "r \<noteq> []"
      and rest: "(if starts 0x7D r \<or> starts 0x5D r then ret (ms, pos_of t r)
         else run_bind (read_member d u t object r) (\<lambda>(m, r). f d u t object (ms @ [m]) r)) = Some (Inr (ms', close))"
      using step y by (auto simp: run_results split: if_splits)
    have rt: "suffix r t" "pos_of t cs \<le> pos_of t r"
      using peek_suffix [OF r(1)] cs suffix_order.trans pos_of_mono by blast+
    show "\<exists>new. ms' = ms @ new \<and> follow t object (pos_of t cs) new \<and> pos_of t cs \<le> close \<and> close < length t"
    proof (cases "starts 0x7D r \<or> starts 0x5D r")
      case True
      have "pos_of t r < length t" using r(2) suffix_length_le [OF rt(1)] by (cases r) (auto simp: pos_of_def)
      then show ?thesis using True rest rt(2) by (auto simp: ret_Inr)
    next
      case False
      then obtain m r' where m: "read_member d u t object r = Some (Inr (m, r'))"
        and f: "f d u t object (ms @ [m]) r' = Some (Inr (ms', close))" using rest by (auto simp: run_results)
      have at: "member_at t object (pos_of t r) m" "suffix r' t" "after_member_at m \<le> pos_of t r'"
        using read_member_at [OF m rt(1)] by auto
      obtain new where new: "ms' = (ms @ [m]) @ new" "follow t object (pos_of t r') new" "pos_of t r' \<le> close" "close < length t"
        using IH [OF f] at(2) by blast
      have "follow t object (pos_of t cs) (m # new)"
        using at(1) follow_mono [OF new(2) at(3)] rt(2) by (auto simp: member_at_def)
      then show ?thesis using new at rt(2) by (intro exI [of _ "m # new"]) (auto simp: member_at_def)
    qed
  qed
  then show ?thesis using assms by blast
qed

text \<open>A container's members lie between its brackets, in order.\<close>

lemma container_follow:
  assumes "container_at d u t p = Some (Inr c)"
  shows "open_at c = p \<and> p < close_at c \<and> close_at c < length t \<and> follow t (is_object c) (p + 1) (c_members c)"
proof -
  obtain r ms close where r: "peek d (drop p t) = Inr r"
    and ms: "read_members d u t (starts 0x7B r) [] (tl r) = Some (Inr (ms, close))"
    and c: "c = \<lparr>is_object = starts 0x7B r, open_at = p, close_at = close, c_members = ms\<rparr>"
    using assms by (auto simp: container_at_def run_results)
  have s: "suffix (tl r) (drop p t)" using peek_suffix [OF r] tl_suffix by blast
  then have t: "suffix (tl r) t" using suffix_drop suffix_order.trans by blast
  have close: "follow t (starts 0x7B r) (pos_of t (tl r)) ms" "pos_of t (tl r) \<le> close" "close < length t"
    using read_members_follow [OF ms t] by auto
  have "r \<noteq> []"
  proof
    assume "r = []"
    then have "close = length t" using close by (simp add: pos_of_def)
    then show False using close(3) by simp
  qed
  then have "length (tl r) < length (drop p t)" using suffix_length_le [OF peek_suffix [OF r]] by (cases r) auto
  then have "p + 1 \<le> pos_of t (tl r)" by (auto simp: pos_of_def)
  then show ?thesis using close follow_mono by (auto simp: c)
qed

lemma follow_members: "follow t object lo ms \<Longrightarrow> m \<in> set ms \<Longrightarrow> member_at t object lo m"
  by (induction t object lo ms rule: follow.induct) (fastforce simp: member_at_def)+

lemma container_member:
  assumes "container_at d u t p = Some (Inr c)" "m \<in> set (c_members c)"
  shows "p < value_start m" "value_start m < length t"
  using follow_members [OF _ assms(2)] container_follow [OF assms(1)] by (fastforce simp: member_at_def)+

function survey :: "dialect \<Rightarrow> unicode \<Rightarrow> utext \<Rightarrow> nat \<Rightarrow> seen \<Rightarrow> (stop, seen) run" where
  "survey d u t p seen =
     run_bind (index_at p t) (\<lambda>first.
     let seen = (if first = 0x22 \<or> first = 0x27 then seen\<lparr>s_quote := or_insert first (s_quote seen)\<rparr> else seen)
     in if first \<noteq> 0x7B \<and> first \<noteq> 0x5B then ret seen
        else
          run_bind (container_at d u t p) (\<lambda>c.
          run_bind (survey_container t c seen) (\<lambda>seen.
          fold_run (\<lambda>m seen. run_bind (survey_key t m seen) (\<lambda>seen. survey d u t (value_start m) seen)) (c_members c) seen)))"
  by pat_completeness auto
termination
  by (relation "measure (\<lambda>(d, u, t, p, seen). length t - p)") (auto simp: part_Inr intro!: diff_less_mono2 dest: container_member)

declare survey.simps [simp del]

record style =
  unit_text :: utext
  newline :: utext
  colon_text :: utext
  separator_text :: utext
  trailing_commas :: bool
  quote :: "scalar option"
  bare_keys :: bool

definition or_else :: "'a option \<Rightarrow> 'a \<Rightarrow> 'a" where
  "or_else o' x = (case o' of None \<Rightarrow> x | Some y \<Rightarrow> y)"

definition nothing_seen :: seen where
  "nothing_seen = \<lparr>s_unit = None, s_colon = None, s_separator = None, s_trailing_comma = False, s_quote = None, s_bare_keys = None\<rparr>"

text \<open>\<open>Doc::new\<close>: the habits of the text.\<close>

definition style_of :: "dialect \<Rightarrow> unicode \<Rightarrow> utext \<Rightarrow> (stop, style) run" where
  "style_of d u t =
     run_bind (lexing (peek d (skip_bom t))) (\<lambda>r.
     run_bind (survey d u t (pos_of t r) nothing_seen) (\<lambda>seen.
       ret \<lparr>unit_text = or_else (s_unit seen) [0x20, 0x20],
            newline = (if (0x0D, 0x0A) \<in> set (zip t (tl t)) then [0x0D, 0x0A] else [0x0A]),
            colon_text = or_else (s_colon seen) [0x3A, 0x20],
            separator_text = or_else (s_separator seen) [0x20],
            trailing_commas = s_trailing_comma seen,
            quote = s_quote seen,
            bare_keys = or_else (s_bare_keys seen) (d = Json5)\<rparr>))"

section \<open>Finding the path\<close>

datatype segment = Key utext | Index nat

datatype value_kind = AString | ABoolean | ANull | ANumber

text \<open>What a message says; its text names the path and the value.\<close>

datatype path_error =
  NoSuchStep "segment list" value_kind segment
| ArrayHasNoProperty "segment list" utext
| ArrayNotCreated "segment list" nat
| ValueNotInDialect json_error
| WholeDocument

datatype edit_error =
  SyntaxError json_error
| PathError path_error
| RangeError "segment list" nat nat

datatype edit_stop = Refuse edit_error | Panics

datatype target = Root nat nat | Member container nat | Missing container nat

definition in_doc :: "dialect \<Rightarrow> utext \<Rightarrow> (stop, 'a) run \<Rightarrow> (edit_stop, 'a) run" where
  "in_doc d t m =
     map_option (\<lambda>r. case r of
       Inl (Lex e) \<Rightarrow> Inl (Refuse (SyntaxError (error_at d t e)))
     | Inl Panicked \<Rightarrow> Inl Panics
     | Inr x \<Rightarrow> Inr x) m"

lemma in_doc_Inr: "in_doc d t m = Some (Inr x) \<longleftrightarrow> m = Some (Inr x)"
proof (cases m)
  case (Some r)
  then show ?thesis
    by (cases r) (auto simp: in_doc_def split: stop.splits)
qed (simp add: in_doc_def)

lemma in_doc_simps [simp]: "in_doc d t (ret x) = ret x" "in_doc d t (Some (Inr x)) = ret x" "in_doc d t None = None"
  by (simp_all add: in_doc_def ret_def)

definition refuse :: "edit_error \<Rightarrow> (edit_stop, 'a) run" where
  "refuse e = Some (Inl (Refuse e))"

definition describe_value :: "scalar \<Rightarrow> value_kind" where
  "describe_value c =
     (if c = 0x22 \<or> c = 0x27 then AString
      else if c = 0x74 \<or> c = 0x66 then ABoolean
      else if c = 0x6E then ANull
      else ANumber)"

fun is_name :: "utext \<Rightarrow> json_text \<Rightarrow> bool" where
  "is_name key (Str name) \<longleftrightarrow> name = key"
| "is_name key (Utf16 us) \<longleftrightarrow> us = units key"

text \<open>The last member with the key.\<close>

definition find_key :: "container \<Rightarrow> utext \<Rightarrow> nat option" where
  "find_key c key =
     (let named = (\<lambda>i. case m_key (c_members c ! i) of Some (k, _) \<Rightarrow> is_name key k | None \<Rightarrow> False)
      in find named (rev [0..<length (c_members c)]))"

definition find_step :: "segment list \<Rightarrow> container \<Rightarrow> segment \<Rightarrow> (edit_stop, nat option) run" where
  "find_step walked c s =
     (case s of
        Key k \<Rightarrow> if is_object c then ret (find_key c k) else refuse (PathError (ArrayHasNoProperty walked k))
      | Index i \<Rightarrow>
          if is_object c then ret (find_key c (decimal_text i))
          else
            (let len = length (c_members c) in
             if len < i then refuse (RangeError walked len i)
             else ret (if i < len then Some i else None)))"

fun locate_from :: "dialect \<Rightarrow> unicode \<Rightarrow> utext \<Rightarrow> segment list \<Rightarrow> nat \<Rightarrow> segment list \<Rightarrow> (edit_stop, target) run" where
  "locate_from d u t walked p [] = Some (Inl Panics)"
| "locate_from d u t walked p (s # rest) =
     run_bind (in_doc d t (index_at p t)) (\<lambda>first.
       if first \<noteq> 0x7B \<and> first \<noteq> 0x5B
       then refuse (PathError (NoSuchStep walked (describe_value first) s))
       else
         run_bind (in_doc d t (container_at d u t p)) (\<lambda>c.
         run_bind (find_step walked c s) (\<lambda>found.
           case found of
             None \<Rightarrow> ret (Missing c (length walked))
           | Some i \<Rightarrow>
               if rest = [] then ret (Member c i)
               else run_bind (in_doc d t (index_at i (c_members c))) (\<lambda>m.
                 locate_from d u t (walked @ [s]) (value_start m) rest))))"

definition locate :: "dialect \<Rightarrow> unicode \<Rightarrow> utext \<Rightarrow> segment list \<Rightarrow> (edit_stop, target) run" where
  "locate d u t path =
     run_bind (in_doc d t (lexing (peek d (skip_bom t)))) (\<lambda>r.
       if path = [] then run_bind (in_doc d t (skip_value d u 0 r)) (\<lambda>r'. ret (Root (pos_of t r) (pos_of t r')))
       else locate_from d u t [] (pos_of t r) path)"

section \<open>Writing\<close>

definition place :: "style \<Rightarrow> utext \<Rightarrow> utext \<Rightarrow> utext" where
  "place st value base = concat (map (\<lambda>c. if c = 0x0A then newline st @ base else [c]) value)"

definition is_identifier :: "utext \<Rightarrow> bool" where
  "is_identifier key \<longleftrightarrow>
     key \<noteq> [] \<and> (is_letter (hd key) \<or> hd key = 0x24 \<or> hd key = 0x5F) \<and>
     list_all (\<lambda>c. is_alnum c \<or> c = 0x24 \<or> c = 0x5F) (tl key)"

definition write_key :: "dialect \<Rightarrow> style \<Rightarrow> utext \<Rightarrow> utext" where
  "write_key d st key =
     (if d = Json5 \<and> bare_keys st \<and> is_identifier key then key
      else quote_string key (if d = Json5 then or_else (quote st) 0x22 else 0x22))"

fun wrap_steps :: "dialect \<Rightarrow> style \<Rightarrow> segment list \<Rightarrow> bool \<Rightarrow> segment list \<Rightarrow> utext \<Rightarrow> (edit_stop, utext) run" where
  "wrap_steps d st made inline [] out = ret out"
| "wrap_steps d st made inline (Index i # ss) out = refuse (PathError (ArrayNotCreated made i))"
| "wrap_steps d st made inline (Key k # ss) out =
     (let member = write_key d st k @ colon_text st @ out in
      wrap_steps d st made inline ss
        (if inline then [0x7B] @ member @ [0x7D]
         else [0x7B, 0x0A] @ unit_text st @
           concat (map (\<lambda>c. if c = 0x0A then [0x0A] @ unit_text st else [c]) member) @
           (if trailing_commas st then [0x2C] else []) @ [0x0A, 0x7D]))"

definition wrap :: "dialect \<Rightarrow> style \<Rightarrow> segment list \<Rightarrow> nat \<Rightarrow> utext \<Rightarrow> bool \<Rightarrow> (edit_stop, utext) run" where
  "wrap d st path depth value inline =
     (if length path < depth + 1 then Some (Inl Panics)
      else wrap_steps d st (take (depth + 1) path) inline (rev (drop (depth + 1) path)) value)"

definition is_layout :: "scalar \<Rightarrow> bool" where "is_layout c \<longleftrightarrow> is_blank c \<or> is_break c"

text \<open>A new last member, written by \<open>entry\<close> for the indent of its line.\<close>

definition insert_first :: "style \<Rightarrow> utext \<Rightarrow> container \<Rightarrow> bool \<Rightarrow> (utext \<Rightarrow> utext) \<Rightarrow> (stop, utext) run" where
  "insert_first st t c inline entry =
     run_bind (text_range (open_at c + 1) (close_at c) t) (\<lambda>interior.
     let blank = list_all is_layout interior
     in if inline then replace_range (if blank then open_at c + 1 else close_at c) (close_at c) (entry []) t
        else
          run_bind (line_indent t (open_at c)) (\<lambda>outer.
          let inner = outer @ unit_text st;
              lines = newline st @ inner @ entry inner @ (if trailing_commas st then [0x2C] else []) @ newline st @ outer
          in if blank then replace_range (open_at c + 1) (close_at c) lines t
             else
               run_bind (text_to (close_at c) t) (\<lambda>s.
               replace_range (length (dropWhile is_layout (rev s))) (close_at c) lines t)))"

definition insert_after :: "style \<Rightarrow> utext \<Rightarrow> container \<Rightarrow> bool \<Rightarrow> (utext \<Rightarrow> utext) \<Rightarrow> member \<Rightarrow> (stop, utext) run" where
  "insert_after st t c inline entry m =
     (if inline then
        (case m_comma m of
           Some comma \<Rightarrow> replace_range (comma + 1) (comma + 1) (separator_text st @ entry [] @ [0x2C]) t
         | None \<Rightarrow> replace_range (value_end m) (value_end m) ([0x2C] @ separator_text st @ entry []) t)
      else
        run_bind (starts_line t (m_start m)) (\<lambda>starts.
        run_bind
          (if starts then line_indent t (m_start m)
           else run_bind (line_indent t (open_at c)) (\<lambda>outer. ret (outer @ unit_text st))) (\<lambda>indent.
        let after = after_member_at m;
            line_end = or_else (rest_of_line t after) after;
            entry = newline st @ indent @ entry indent @ (if m_comma m \<noteq> None then [0x2C] else [])
        in case m_comma m of
             Some _ \<Rightarrow> replace_range line_end line_end entry t
           | None \<Rightarrow>
               run_bind (text_range (value_end m) line_end t) (\<lambda>line.
               replace_range (value_end m) line_end ([0x2C] @ line @ entry) t))))"

definition insert_member :: "style \<Rightarrow> utext \<Rightarrow> container \<Rightarrow> bool \<Rightarrow> (utext \<Rightarrow> utext) \<Rightarrow> (stop, utext) run" where
  "insert_member st t c inline entry =
     (if c_members c = [] then insert_first st t c inline entry
      else insert_after st t c inline entry (last (c_members c)))"

definition set_value :: "dialect \<Rightarrow> unicode \<Rightarrow> style \<Rightarrow> utext \<Rightarrow> segment list \<Rightarrow> utext \<Rightarrow> (edit_stop, utext) run" where
  "set_value d u st t path value =
     run_bind (locate d u t path) (\<lambda>target.
       case target of
         Root a b \<Rightarrow>
           in_doc d t (run_bind (line_indent t a) (\<lambda>base. replace_range a b (place st value base) t))
       | Member c i \<Rightarrow>
           in_doc d t
             (run_bind (index_at i (c_members c)) (\<lambda>m.
              run_bind (line_indent t (m_start m)) (\<lambda>base.
              replace_range (value_start m) (value_end m) (place st value base) t)))
       | Missing c depth \<Rightarrow>
           run_bind (in_doc d t (multi_line t c)) (\<lambda>multi.
           run_bind (wrap d st path depth value (\<not> multi)) (\<lambda>value.
           run_bind (in_doc d t (index_at depth path)) (\<lambda>step.
           let entry = (\<lambda>indent.
                 let value = place st value indent in
                 if \<not> is_object c then value
                 else case step of
                     Key k \<Rightarrow> write_key d st k @ colon_text st @ value
                   | Index i \<Rightarrow> write_key d st (decimal_text i) @ colon_text st @ value)
           in in_doc d t (insert_member st t c (\<not> multi) entry)))))"

text \<open>The text without one member.\<close>

definition without_member :: "utext \<Rightarrow> container \<Rightarrow> nat \<Rightarrow> (stop, utext) run" where
  "without_member t c i =
     run_bind (index_at i (c_members c)) (\<lambda>m.
     run_bind
       (if i + 1 = length (c_members c) \<and> m_comma m = None \<and> 0 < i
        then run_bind (index_at (i - 1) (c_members c)) (\<lambda>before'. ret (m_comma before')) else ret None) (\<lambda>previous_comma.
     run_bind (starts_line t (m_start m)) (\<lambda>starts.
       case (if starts then rest_of_line t (after_member_at m) else None) of
         Some line_end \<Rightarrow>
           run_bind (line_start t (m_start m)) (\<lambda>a.
           run_bind (past_line_break t line_end) (\<lambda>b.
             case previous_comma of
               Some comma \<Rightarrow> run_bind (text_range (comma + 1) a t) (\<lambda>kept. replace_range comma b kept t)
             | None \<Rightarrow> replace_range a b [] t))
       | None \<Rightarrow>
           (case (m_comma m, previous_comma) of
              (Some comma, _) \<Rightarrow>
                run_bind (text_from (comma + 1) t) (\<lambda>rest.
                replace_range (m_start m) (comma + 1 + length (takeWhile is_blank rest)) [] t)
            | (None, Some comma) \<Rightarrow> replace_range comma (value_end m) [] t
            | (None, None) \<Rightarrow> replace_range (m_start m) (value_end m) [] t))))"

definition remove_once :: "dialect \<Rightarrow> unicode \<Rightarrow> utext \<Rightarrow> segment list \<Rightarrow> (edit_stop, (utext \<times> bool) option) run" where
  "remove_once d u t path =
     (case locate d u t path of
        Some (Inr (Member c i)) \<Rightarrow>
          run_bind (in_doc d t (without_member t c i)) (\<lambda>left. ret (Some (left, is_object c)))
      | Some (Inr _) \<Rightarrow> ret None
      | Some (Inl (Refuse (RangeError _ _ _))) \<Rightarrow> ret None
      | Some (Inl e) \<Rightarrow> Some (Inl e)
      | None \<Rightarrow> None)"

lemma find_step_index: "find_step walked c s = Some (Inr (Some i)) \<Longrightarrow> i < length (c_members c)"
  by (auto simp: find_step_def find_key_def Let_def ret_Inr refuse_def find_Some_iff rev_nth split: segment.splits if_splits)

text \<open>What a path leads to is in a container of the text.\<close>

definition target_in :: "dialect \<Rightarrow> unicode \<Rightarrow> utext \<Rightarrow> target \<Rightarrow> bool" where
  "target_in d u t target =
     (case target of
        Root a b \<Rightarrow> False
      | Member c i \<Rightarrow> (\<exists>p. container_at d u t p = Some (Inr c)) \<and> i < length (c_members c)
      | Missing c depth \<Rightarrow> \<exists>p. container_at d u t p = Some (Inr c))"

lemma target_in_simps [simp]:
  "target_in d u t (Member c i) \<longleftrightarrow> (\<exists>p. container_at d u t p = Some (Inr c)) \<and> i < length (c_members c)"
  "target_in d u t (Missing c depth) \<longleftrightarrow> (\<exists>p. container_at d u t p = Some (Inr c))"
  by (simp_all add: target_in_def)

lemma locate_from_target: "locate_from d u t walked p path = Some (Inr target) \<Longrightarrow> target_in d u t target"
proof (induction d u t walked p path rule: locate_from.induct)
  case (2 d u t walked p s rest)
  from 2(2) obtain first c found where first: "in_doc d t (index_at p t) = Some (Inr first)" "\<not> (first \<noteq> 0x7B \<and> first \<noteq> 0x5B)"
    and c: "in_doc d t (container_at d u t p) = Some (Inr c)" "find_step walked c s = Some (Inr found)"
    and target: "(case found of None \<Rightarrow> ret (Missing c (length walked))
      | Some i \<Rightarrow> if rest = [] then ret (Member c i)
          else run_bind (in_doc d t (index_at i (c_members c))) (\<lambda>m. locate_from d u t (walked @ [s]) (value_start m) rest))
      = Some (Inr target)"
    by (auto simp: run_bind_ret refuse_def simp del: in_doc_simps split: if_splits)
  note in_text = c(1) [unfolded in_doc_Inr]
  show ?case
  proof (cases found)
    case None
    then show ?thesis using target in_text by (auto simp: ret_Inr)
  next
    case (Some i)
    show ?thesis
    proof (cases "rest = []")
      case True
      then show ?thesis using in_text c(2) target Some find_step_index by (auto simp: ret_Inr)
    next
      case False
      then obtain m where m: "in_doc d t (index_at i (c_members c)) = Some (Inr m)"
        "locate_from d u t (walked @ [s]) (value_start m) rest = Some (Inr target)"
        using target Some by (auto simp: run_bind_ret simp del: in_doc_simps)
      show ?thesis using 2(1) [OF first c Some False m(1)] m(2) by blast
    qed
  qed
qed simp

text \<open>The depth of a missing step is one of the path.\<close>

lemma locate_from_depth:
  "locate_from d u t walked p path = Some (Inr (Missing c depth)) \<Longrightarrow> depth < length walked + length path"
proof (induction d u t walked p path rule: locate_from.induct)
  case (2 d u t walked p s rest)
  from 2(2) obtain first c' found where first: "in_doc d t (index_at p t) = Some (Inr first)" "\<not> (first \<noteq> 0x7B \<and> first \<noteq> 0x5B)"
    and c: "in_doc d t (container_at d u t p) = Some (Inr c')" "find_step walked c' s = Some (Inr found)"
    and target: "(case found of None \<Rightarrow> ret (Missing c' (length walked))
      | Some i \<Rightarrow> if rest = [] then ret (Member c' i)
          else run_bind (in_doc d t (index_at i (c_members c'))) (\<lambda>m. locate_from d u t (walked @ [s]) (value_start m) rest))
      = Some (Inr (Missing c depth))"
    by (auto simp: run_bind_ret refuse_def simp del: in_doc_simps split: if_splits)
  show ?case
  proof (cases found)
    case None
    then show ?thesis using target by (auto simp: ret_Inr)
  next
    case (Some i)
    then have "rest \<noteq> []" using target by (auto simp: ret_Inr)
    then obtain m where m: "in_doc d t (index_at i (c_members c')) = Some (Inr m)"
      "locate_from d u t (walked @ [s]) (value_start m) rest = Some (Inr (Missing c depth))"
      using target Some by (auto simp: run_bind_ret simp del: in_doc_simps)
    then show ?thesis using 2(1) [OF first c Some \<open>rest \<noteq> []\<close> m(1)] by simp
  qed
qed simp

lemma locate_depth: "locate d u t path = Some (Inr (Missing c depth)) \<Longrightarrow> depth < length path"
  using locate_from_depth [of d u t "[]"] by (auto simp: locate_def run_results split: if_splits)

lemma locate_target:
  "locate d u t path = Some (Inr target) \<Longrightarrow> (\<exists>a b. target = Root a b) \<or> target_in d u t target"
  using locate_from_target by (auto simp: locate_def run_results split: if_splits)

lemma locate_member:
  "locate d u t path = Some (Inr (Member c i)) \<Longrightarrow>
    (\<exists>p. container_at d u t p = Some (Inr c)) \<and> i < length (c_members c)"
  using locate_target by fastforce

section \<open>A removal only deletes\<close>

lemma subseq_take_drop: "a \<le> b \<Longrightarrow> subseq (take a t @ drop b t) t"
proof -
  assume "a \<le> b"
  then have "suffix (drop b t) (drop a t)" by (auto simp: suffix_def intro: exI [of _ "take (b - a) (drop a t)"])
      (metis append_take_drop_id drop_drop le_add_diff_inverse2)
  then have "subseq (take a t @ drop b t) (take a t @ drop a t)" by (intro list_emb_append_mono) auto
  then show ?thesis by simp
qed

lemma subseq_take_slice_drop: "a \<le> b \<Longrightarrow> c \<le> e \<Longrightarrow> a \<le> e \<Longrightarrow> subseq (take a t @ slice b c t @ drop e t) t"
proof (cases "b \<le> c")
  case True
  assume le: "a \<le> b" "c \<le> e" "a \<le> e"
  have "subseq (slice b c t @ drop e t) (drop b t)"
    using subseq_take_drop [of "c - b" "e - b" "drop b t"] True le by (simp add: slice_def diff_le_mono)
  moreover have "subseq (take a t @ drop b t) t" using subseq_take_drop [OF le(1)] .
  ultimately show ?thesis using subseq_order.trans list_emb_append_mono [of "(=)" "take a t" "take a t"] by blast
next
  case False
  assume "a \<le> b" "c \<le> e" "a \<le> e"
  then show ?thesis using False subseq_take_drop [of a e t] by (simp add: slice_def)
qed

lemma line_rest_suffix: "line_rest s = Some r \<Longrightarrow> suffix r s"
proof (induction s arbitrary: r rule: line_rest.induct)
  case (2 c cs)
  show ?case
  proof (cases "is_blank c \<or> is_break c \<or> c = 0x2F \<and> starts 0x2F cs")
    case True
    then show ?thesis using 2(3) 2(1) suffix_dropWhile [of "\<lambda>c. \<not> is_break c" "c # cs"]
      by (auto simp del: dropWhile.simps split: if_splits intro: suffix_ConsI)
  next
    case False
    then have c: "\<not> is_blank c" "\<not> is_break c" "\<not> (c = 0x2F \<and> starts 0x2F cs)" "c = 0x2F \<and> starts 0x2A cs"
      using 2(3) by (auto split: if_splits)
    then obtain x where x: "block_comment_rest (tl cs) = Some x" "\<not> list_ex is_break (upto_rest (c # cs) x)" "line_rest x = Some r"
      using 2(3) by (auto split: if_splits option.splits)
    have "suffix r x" using 2(2) [OF c x(1,2)] x(3) by blast
    moreover have "suffix x (tl cs)" using x(1) by (rule block_comment_suffix)
    ultimately show ?thesis using suffix_order.trans suffix_tl suffix_ConsI by metis
  qed
qed simp

lemma rest_of_line_le: "rest_of_line t p = Some e \<Longrightarrow> p \<le> e"
  by (auto simp: rest_of_line_def)

lemma rest_of_line_in: "rest_of_line t p = Some e \<Longrightarrow> p \<le> length t \<Longrightarrow> e \<le> length t"
  by (auto simp: rest_of_line_def)

lemma past_line_break_le: "past_line_break t p = Some (Inr e) \<Longrightarrow> p \<le> e"
  by (auto simp: past_line_break_def run_results part_Inr split: if_splits)

lemma line_start_le: "line_start t p = Some (Inr a) \<Longrightarrow> a \<le> p"
  by (auto simp: line_start_def run_results)

text \<open>The member at \<open>i\<close> and the comma before it.\<close>

lemma follow_nth:
  "follow t object lo ms \<Longrightarrow> i < length ms \<Longrightarrow> 0 < i \<Longrightarrow> after_member_at (ms ! (i - 1)) \<le> m_start (ms ! i)"
proof (induction t object lo ms arbitrary: i rule: follow.induct)
  case (2 t object lo m ms)
  show ?case
  proof (cases "i = 1")
    case True
    then show ?thesis using 2(2,3) by (cases ms) (auto simp: member_at_def)
  next
    case False
    then show ?thesis using 2(1) [of "i - 1"] 2(2-) by (cases i) auto
  qed
qed simp

lemma subseq_cut: "replace_range a b [] t = Some (Inr x) \<Longrightarrow> a \<le> b \<Longrightarrow> subseq x t \<and> length x \<le> length t - (b - a)"
  using subseq_take_drop [of a b t] by (auto simp: part_Inr)

lemma without_member_deletes:
  assumes c: "container_at d u t p = Some (Inr c)" and run: "without_member t c i = Some (Inr x)"
  shows "subseq x t \<and> (is_object c \<longrightarrow> length x < length t)"
proof -
  obtain m prev starts where "index_at i (c_members c) = Some (Inr m)"
    and prev: "(if i + 1 = length (c_members c) \<and> m_comma m = None \<and> 0 < i
        then run_bind (index_at (i - 1) (c_members c)) (\<lambda>b. ret (m_comma b)) else ret None) = Some (Inr prev)"
    and x: "(case (if starts then rest_of_line t (after_member_at m) else None) of
         Some line_end \<Rightarrow>
           run_bind (line_start t (m_start m)) (\<lambda>a.
           run_bind (past_line_break t line_end) (\<lambda>b.
             case prev of
               Some comma \<Rightarrow> run_bind (text_range (comma + 1) a t) (\<lambda>kept. replace_range comma b kept t)
             | None \<Rightarrow> replace_range a b [] t))
       | None \<Rightarrow>
           (case (m_comma m, prev) of
              (Some comma, _) \<Rightarrow>
                run_bind (text_from (comma + 1) t) (\<lambda>rest.
                replace_range (m_start m) (comma + 1 + length (takeWhile is_blank rest)) [] t)
            | (None, Some comma) \<Rightarrow> replace_range comma (value_end m) [] t
            | (None, None) \<Rightarrow> replace_range (m_start m) (value_end m) [] t)) = Some (Inr x)"
    using run by (auto simp: without_member_def run_bind_ret simp del: part_ret)
  then have i: "i < length (c_members c)" and m_def: "m = c_members c ! i" by (simp_all add: part_Inr)
  have f: "follow t (is_object c) (p + 1) (c_members c)" using container_follow [OF c] by blast
  have m: "m_start m \<le> value_start m" "value_start m \<le> value_end m" "value_end m \<le> after_member_at m"
      "after_member_at m \<le> length t" "value_start m < length t" and obj: "is_object c \<longrightarrow> m_start m < value_start m"
    using follow_members [OF f nth_mem [OF i]] by (auto simp: member_at_def m_def)
  have before_comma: "comma < m_start m" if "prev = Some comma" for comma
    using that prev follow_nth [OF f i] by (auto simp: m_def after_member_at_def ret_Inr run_results part_Inr split: if_splits)
  have comma: "after_member_at m = comma + 1" if "m_comma m = Some comma" for comma
    using that by (simp add: after_member_at_def)
  have cut: "subseq x t \<and> (is_object c \<longrightarrow> length x < length t)"
    if "replace_range a b [] t = Some (Inr x)" "a \<le> m_start m" "value_end m \<le> b" for a b
    using subseq_cut [OF that(1)] that(2,3) m obj by fastforce
  show ?thesis
  proof (cases "if starts then rest_of_line t (after_member_at m) else None")
    case line: (Some line_end)
    then obtain a b where ab: "line_start t (m_start m) = Some (Inr a)" "past_line_break t line_end = Some (Inr b)"
      and end': "(case prev of
          Some comma \<Rightarrow> run_bind (text_range (comma + 1) a t) (\<lambda>kept. replace_range comma b kept t)
        | None \<Rightarrow> replace_range a b [] t) = Some (Inr x)"
      using x by (auto simp: run_bind_ret)
    have le: "a \<le> m_start m" "value_end m \<le> b"
      using line_start_le [OF ab(1)] past_line_break_le [OF ab(2)] m line
        rest_of_line_le [of t "after_member_at m" line_end] by (auto split: if_splits)
    show ?thesis
    proof (cases prev)
      case None
      then show ?thesis using cut le end' by simp
    next
      case (Some k)
      then have w: "x = take k t @ slice (k + 1) a t @ drop b t" and "k + 1 \<le> a"
        using end' by (auto simp: run_bind_ret part_Inr simp del: part_ret)
      have "subseq x t" using subseq_take_slice_drop [of k "k + 1" a b t] w le m before_comma [OF Some] by simp
      moreover have "length x < length t" if "is_object c"
        using that le m obj before_comma [OF Some] by (auto simp: w slice_def)
      ultimately show ?thesis by blast
    qed
  next
    case no_line: None
    show ?thesis
    proof (cases "m_comma m")
      case (Some k)
      then obtain e where e: "replace_range (m_start m) (k + 1 + e) [] t = Some (Inr x)"
        using x no_line by (auto simp: run_bind_ret)
      then show ?thesis using cut [OF e] comma [OF Some] m by simp
    next
      case None
      then show ?thesis using x no_line cut [of "m_start m" "value_end m"] cut [of _ "value_end m"] before_comma
        by (cases prev) (auto dest: less_imp_le)
    qed
  qed
qed

lemma remove_once_deletes:
  "remove_once d u t path = Some (Inr (Some (left, object))) \<Longrightarrow> subseq left t \<and> (object \<longrightarrow> length left < length t)"
proof -
  assume r: "remove_once d u t path = Some (Inr (Some (left, object)))"
  then obtain c i where l: "locate d u t path = Some (Inr (Member c i))" "without_member t c i = Some (Inr left)" "object = is_object c"
    by (auto simp: remove_once_def run_results in_doc_Inr split: option.splits sum.splits target.splits edit_stop.splits edit_error.splits)
  obtain p where "container_at d u t p = Some (Inr c)" using locate_member [OF l(1)] by blast
  then show ?thesis using without_member_deletes l by blast
qed

text \<open>Each occurrence of a repeated key, last first; an array element once.\<close>

function remove_all :: "dialect \<Rightarrow> unicode \<Rightarrow> utext \<Rightarrow> segment list \<Rightarrow> (edit_stop, utext) run" where
  "remove_all d u t path =
     run_bind (in_doc d t (style_of d u t)) (\<lambda>_.
     run_bind (remove_once d u t path) (\<lambda>removed.
       case removed of
         Some (next, True) \<Rightarrow> remove_all d u next path
       | Some (next, False) \<Rightarrow> ret next
       | None \<Rightarrow> ret t))"
  by pat_completeness auto
termination
  by (relation "measure (\<lambda>(d, u, t, path). length t)") (auto dest: remove_once_deletes)

declare remove_all.simps [simp del]

definition edit :: "dialect \<Rightarrow> unicode \<Rightarrow> utext \<Rightarrow> segment list \<Rightarrow> utext option \<Rightarrow> (edit_stop, utext) run" where
  "edit d u t path value =
     (case json_validate d u t of
        Some e \<Rightarrow> refuse (SyntaxError e)
      | None \<Rightarrow>
          (case value of
             Some v \<Rightarrow>
               (case json_validate d u v of
                  Some e \<Rightarrow> refuse (PathError (ValueNotInDialect e))
                | None \<Rightarrow> run_bind (in_doc d t (style_of d u t)) (\<lambda>st. set_value d u st t path v))
           | None \<Rightarrow>
               run_bind (in_doc d t (style_of d u t)) (\<lambda>_.
                 if path = [] then refuse (PathError WholeDocument) else remove_all d u t path)))"

record plan =
  p_indent :: utext
  p_quote :: "scalar option"
  p_trailing_commas :: bool

definition plan_for :: "dialect \<Rightarrow> unicode \<Rightarrow> utext \<Rightarrow> segment list \<Rightarrow> (edit_stop, plan) run" where
  "plan_for d u t path =
     (case json_validate d u t of
        Some e \<Rightarrow> refuse (SyntaxError e)
      | None \<Rightarrow>
          run_bind (in_doc d t (style_of d u t)) (\<lambda>st.
          run_bind (locate d u t path) (\<lambda>target.
          run_bind (in_doc d t
              (case target of Root _ _ \<Rightarrow> ret (0x0A \<in> set t) | Member c _ \<Rightarrow> multi_line t c | Missing c _ \<Rightarrow> multi_line t c)) (\<lambda>multi.
            ret \<lparr>p_indent = (if multi then unit_text st else []),
                 p_quote = (if d = Json5 then quote st else None),
                 p_trailing_commas = trailing_commas st\<rparr>))))"

end
