(* ===== verification/JsonEditKeeps.thy ===== *)
theory JsonEditKeeps
  imports JsonEdit
begin

text \<open>
  What an edit keeps: a removal only deletes, and an addition deletes no more than blanks and line breaks. The
  steps of the lexer, parser and editor are collected here, so that a concrete edit evaluates by simplification.
\<close>

lemma ret_refuse [simp]: "ret x = ret y \<longleftrightarrow> x = y" "ret x \<noteq> refuse e" "refuse e \<noteq> ret x" "refuse e = refuse e' \<longleftrightarrow> e = e'"
  by (auto simp: ret_def refuse_def)

section \<open>Evaluating\<close>

text \<open>A step is evaluated before what follows it.\<close>

lemma weak_congs:
  "m = m' \<Longrightarrow> run_bind m f = run_bind m' f"
  "n = n' \<Longrightarrow> lexed n s g = lexed n' s g"
  "o' = o'' \<Longrightarrow> and_then o' h = and_then o'' h"
  "r = r' \<Longrightarrow> res_bind r k = res_bind r' k"
  "xs = ys \<Longrightarrow> fold_run l xs z = fold_run l ys z"
  by simp_all

named_theorems steps \<open>the lexer's, parser's and editor's steps\<close>

lemmas parser_steps [steps] = json_validate_def json_parse_def skip_bom_def value_at.simps members.simps array_elements.simps
  next_token_def peek_def is_space_def line_comment_rest_def ends_comment_line_def enter_def JSON_MAX_DEPTH_def emit_def discard_def
  is_json5_space_def scan_key_def starts_word_def is_letter_def scan_word_def identifier_loop.simps is_identifier_char_def
  colon_def scan_scalar_def scan_string_def string_fast.simps after_member_def plain_def is_digit_def

lemmas editor_steps [steps] = skip_value.simps skip_token_def container_at_def read_members.simps read_member_def member_key_def pos_of_def
  line_start_def line_indent_def starts_line_def rest_of_line_def past_line_break_def multi_line_def slice_def text_range_def text_to_def text_from_def index_at_def replace_range_def is_break_def is_blank_def
  or_insert_def find_unit.simps survey_container_def survey_key_def survey.simps style_of_def or_else_def nothing_seen_def refuse_def
  find_step_def locate_def find_key_def place_def is_identifier_def write_key_def wrap_def insert_member_def insert_after_def insert_first_def
  set_value_def without_member_def remove_once_def remove_all.simps edit_def after_member_at_def is_number_start_def quote_string_def is_layout_def
  is_alnum_def push_name_def upto_rest_def quote_char_def Let_def or_insert_def

lemma in_doc_panic [steps]: "in_doc d t (Some (Inl Panicked)) = Some (Inl Panics)"
  by (simp add: in_doc_def)

text \<open>Tables in which no character past ASCII is part of a name.\<close>

definition ascii_names :: unicode where
  "ascii_names = \<lparr>xid_start = \<lambda>_. False, xid_continue = \<lambda>_. False\<rparr>"

section \<open>A removal only deletes, to the end of the loop\<close>

lemma remove_all_deletes: "remove_all d u t path = Some (Inr t') \<Longrightarrow> subseq t' t"
proof (induction d u t path rule: remove_all.induct)
  case (1 d u t path)
  from 1(2) obtain st removed where r: "in_doc d t (style_of d u t) = Some (Inr st)" "remove_once d u t path = Some (Inr removed)"
    and t': "(case removed of Some (next, True) \<Rightarrow> remove_all d u next path | Some (next, False) \<Rightarrow> ret next | None \<Rightarrow> ret t) = Some (Inr t')"
    unfolding remove_all.simps [of d u t path] by (auto simp: run_results)
  show ?case
  proof (cases removed)
    case None
    then show ?thesis using t' by (simp add: ret_Inr)
  next
    case (Some x)
    obtain x1 object where x: "x = (x1, object)" by (cases x)
    have s: "subseq x1 t" using remove_once_deletes [of d u t path x1 object] r(2) Some x by blast
    show ?thesis
    proof (cases object)
      case True
      then have "subseq t' x1" using 1(1) [OF r Some x [symmetric]] t' Some x by simp
      then show ?thesis using s subseq_order.trans by blast
    next
      case False
      then show ?thesis using t' Some x s by (simp add: ret_Inr)
    qed
  qed
qed

text \<open>
  C24: a removal only deletes. Whatever the path and however often its key is repeated, the text after a removal is a
  subsequence of the text before it.
\<close>

theorem edit_removal_deletes:
  assumes "edit d u t path None = Some (Inr t')"
  shows "subseq t' t"
  using assms remove_all_deletes
  by (auto simp: edit_def refuse_def run_results split: option.splits if_splits)

lemma edit_removal_deletes_witness:
  "edit Jsonc ascii_names [0x5B, 0x5B, 0x5D, 0x2C, 0x20, 0x7B, 0x7D, 0x5D] [Index 0] None = ret [0x5B, 0x7B, 0x7D, 0x5D] \<and>
    subseq [0x5B, 0x7B, 0x7D, 0x5D] [0x5B, 0x5B, 0x5D, 0x2C, 0x20, 0x7B, 0x7D, 0x5D :: scalar]"
proof -
  define t :: utext where "t = [0x5B, 0x5B, 0x5D, 0x2C, 0x20, 0x7B, 0x7D, 0x5D]"
  have valid: "json_validate Jsonc ascii_names t = None" "\<exists>st. style_of Jsonc ascii_names t = ret st"
    by (simp_all add: t_def steps cong: weak_congs let_weak_cong)
  have "locate Jsonc ascii_names t [Index 0] = ret (Member \<lparr>is_object = False, open_at = 0, close_at = 7,
      c_members = [\<lparr>m_start = 1, m_key = None, value_start = 1, value_end = 3, m_comma = Some 3\<rparr>,
                   \<lparr>m_start = 5, m_key = None, value_start = 5, value_end = 7, m_comma = None\<rparr>]\<rparr> 0)"
    by (simp add: t_def steps cong: weak_congs let_weak_cong)
  then have "remove_once Jsonc ascii_names t [Index 0] = ret (Some ([0x5B, 0x7B, 0x7D, 0x5D], False))"
    unfolding remove_once_def by (simp add: ret_def, simp add: t_def steps cong: weak_congs let_weak_cong)
  then have "edit Jsonc ascii_names t [Index 0] None = Some (Inr [0x5B, 0x7B, 0x7D, 0x5D])"
    using valid by (auto simp: edit_def ret_def remove_all.simps [of Jsonc ascii_names t])
  then show ?thesis using edit_removal_deletes [of Jsonc ascii_names t "[Index 0]"] by (simp add: t_def ret_def)
qed

section \<open>An addition deletes no more than blanks\<close>

text \<open>A text without its blanks and line breaks.\<close>

definition visible :: "utext \<Rightarrow> utext" where
  "visible = filter (\<lambda>c. \<not> is_layout c)"

lemma visible_simps [simp]: "visible (s @ t) = visible s @ visible t" "list_all is_layout s \<Longrightarrow> visible s = []"
  by (auto simp: visible_def list_all_iff)

lemma visible_subseq: "subseq (visible t) t"
  using subseq_filter_left by (auto simp: visible_def)

lemma split_at: "a \<le> b \<Longrightarrow> take a t @ slice a b t @ drop b t = t"
  by (simp add: slice_def) (metis append_take_drop_id drop_drop le_add_diff_inverse2)

lemma subseq_insert: "subseq t (take a t @ new @ drop a t)"
proof -
  have "subseq (take a t @ drop a t) (take a t @ new @ drop a t)" by (intro list_emb_append_mono list_emb_append2) auto
  then show ?thesis by simp
qed

lemma subseq_insert2: "a \<le> b \<Longrightarrow> subseq t (take a t @ x @ slice a b t @ y @ drop b t)"
proof -
  assume "a \<le> b"
  have "subseq (take a t @ slice a b t @ drop b t) (take a t @ x @ slice a b t @ y @ drop b t)"
    by (intro list_emb_append_mono list_emb_append2) auto
  then show ?thesis using split_at [OF \<open>a \<le> b\<close>] by simp
qed

lemma insert_after_keeps:
  assumes "insert_after st t c inline entry m = Some (Inr x)" "value_end m \<le> after_member_at m"
  shows "subseq t x"
proof (cases inline)
  case True
  then show ?thesis using assms(1) subseq_insert
    by (auto simp: insert_after_def part_Inr simp del: append_assoc append_Cons append_Nil split: option.splits)
next
  case False
  define e where "e = or_else (rest_of_line t (after_member_at m)) (after_member_at m)"
  have "after_member_at m \<le> e" using rest_of_line_le by (auto simp: e_def or_else_def split: option.split)
  then have le: "value_end m \<le> e" using assms(2) by simp
  obtain new where new: "(case m_comma m of
      Some _ \<Rightarrow> replace_range e e new t
    | None \<Rightarrow> run_bind (text_range (value_end m) e t) (\<lambda>line. replace_range (value_end m) e ([0x2C] @ line @ new) t)) = Some (Inr x)"
    using assms(1) False unfolding insert_after_def Let_def e_def by (auto simp only: run_bind_ret if_False)
  show ?thesis
  proof (cases "m_comma m")
    case None
    then have "x = take (value_end m) t @ [0x2C] @ slice (value_end m) e t @ new @ drop e t"
      using new by (auto simp: run_bind_ret part_Inr simp del: part_ret)
    then show ?thesis using subseq_insert2 [OF le, of t "[0x2C]" new] by simp
  next
    case (Some k)
    then show ?thesis using new subseq_insert [of t e new] by (simp add: part_Inr del: part_ret)
  qed
qed

lemma insert_first_keeps:
  assumes "insert_first st t c inline entry = Some (Inr x)"
  shows "subseq (visible t) x"
proof -
  define a where "a = open_at c + 1"
  define b where "b = close_at c"
  define trimmed where "trimmed = length (dropWhile is_layout (rev (take b t)))"
  have le: "a \<le> b" "b \<le> length t" using assms by (auto simp: insert_first_def run_bind_ret part_Inr a_def b_def)
  have keep: "subseq (visible t) (left @ new @ drop b t)" if "visible left = visible (take b t)" for left new
  proof -
    have "subseq (visible left @ visible (drop b t)) (left @ new @ drop b t)"
      by (intro list_emb_append_mono list_emb_append2) (simp_all add: visible_subseq)
    moreover have "visible left @ visible (drop b t) = visible t"
      using visible_simps(1) [of "take b t" "drop b t"] that by simp
    ultimately show ?thesis by simp
  qed
  have blank: "visible (take a t) = visible (take b t)" if "list_all is_layout (slice a b t)"
  proof -
    have "take b t = take a t @ slice a b t" using le by (simp add: slice_def take_add [symmetric])
    then show ?thesis using that by simp
  qed
  have trim: "visible (take trimmed t) = visible (take b t)"
  proof -
    have "take b t = rev (dropWhile is_layout (rev (take b t))) @ rev (takeWhile is_layout (rev (take b t)))"
      by (metis rev_append rev_rev_ident takeWhile_dropWhile_id)
    moreover from this have "take trimmed (take b t) = rev (dropWhile is_layout (rev (take b t)))"
      by (metis append_eq_conv_conj length_rev trimmed_def)
    moreover have "trimmed \<le> b" using length_dropWhile_le [of is_layout "rev (take b t)"] by (simp add: trimmed_def)
    moreover have "list_all is_layout (rev (takeWhile is_layout (rev (take b t))))"
      by (auto simp: list_all_iff dest: set_takeWhileD)
    ultimately show ?thesis by (metis append_Nil2 min.absorb1 take_take visible_simps)
  qed
  obtain k new where "replace_range k b new t = Some (Inr x)" and k: "k = b \<or> k = trimmed \<or> k = a \<and> list_all is_layout (slice a b t)"
  proof (cases inline)
    case True
    then obtain interior where "text_range a b t = Some (Inr interior)"
      "replace_range (if list_all is_layout interior then a else b) b (entry []) t = Some (Inr x)"
      using assms unfolding insert_first_def Let_def a_def b_def by (auto simp only: run_bind_ret if_True)
    then show ?thesis using that [of _ "entry []"] by (cases "list_all is_layout interior") (simp_all add: part_Inr(1) del: part_ret)
  next
    case False
    then obtain new where "(if list_all is_layout (slice a b t) then replace_range a b new t
        else run_bind (text_to b t) (\<lambda>s. replace_range (length (dropWhile is_layout (rev s))) b new t)) = Some (Inr x)"
      using assms le unfolding insert_first_def Let_def a_def b_def by (auto simp only: run_bind_ret part_Inr if_False)
    then show ?thesis using that [of _ new] le by (auto simp: trimmed_def part_Inr(2) run_bind_ret simp del: part_ret split: if_splits)
  qed
  then have x: "x = take k t @ new @ drop b t" by (simp add: part_Inr del: part_ret)
  show ?thesis unfolding x using k keep blank trim by metis
qed

lemma insert_member_keeps:
  assumes "container_at d u t p = Some (Inr c)" "insert_member st t c inline entry = Some (Inr x)"
  shows "subseq (visible t) x"
proof (cases "c_members c = []")
  case True
  then show ?thesis using insert_first_keeps assms(2) by (auto simp: insert_member_def)
next
  case False
  have "member_at t (is_object c) (p + 1) (last (c_members c))"
    using follow_members [of t "is_object c" "p + 1" "c_members c"] container_follow [OF assms(1)] False by simp
  then have "subseq t x"
    using insert_after_keeps assms(2) False by (simp add: insert_member_def member_at_def)
  then show ?thesis by (rule subseq_order.trans [OF visible_subseq(1)])
qed

text \<open>
  C25: an addition keeps the text. Setting a value the path does not have yet deletes nothing but blanks and line breaks:
  every comment, key, value and bracket of the text is in the new text, in order.
\<close>

theorem addition_keeps_the_text:
  assumes "locate d u t path = Some (Inr (Missing c depth))" "edit d u t path (Some v) = Some (Inr t')"
  shows "subseq (visible t) t'"
proof -
  obtain p where c: "container_at d u t p = Some (Inr c)" using locate_target [OF assms(1)] by auto
  obtain st where "set_value d u st t path v = Some (Inr t')"
    using assms(2) by (auto simp: edit_def refuse_def run_results split: option.splits)
  then obtain inline entry where "insert_member st t c inline entry = Some (Inr t')"
    unfolding set_value_def assms(1) by (auto simp: run_bind_ret in_doc_Inr Let_def)
  then show ?thesis using insert_member_keeps [OF c] by simp
qed

lemma addition_keeps_the_text_witness:
  "edit Jsonc ascii_names [0x7B, 0x20, 0x7D] [Key [0x61]] (Some [0x5B, 0x5D]) =
      ret [0x7B, 0x22, 0x61, 0x22, 0x3A, 0x20, 0x5B, 0x5D, 0x7D] \<and>
    subseq (visible [0x7B, 0x20, 0x7D]) [0x7B, 0x22, 0x61, 0x22, 0x3A, 0x20, 0x5B, 0x5D, 0x7D]"
proof -
  define t :: utext where "t = [0x7B, 0x20, 0x7D]"
  have valid: "json_validate Jsonc ascii_names t = None" "json_validate Jsonc ascii_names [0x5B, 0x5D] = None"
    by (simp_all add: t_def steps cong: weak_congs let_weak_cong)
  have st: "style_of Jsonc ascii_names t = ret \<lparr>unit_text = [0x20, 0x20], newline = [0x0A], colon_text = [0x3A, 0x20],
      separator_text = [0x20], trailing_commas = False, quote = None, bare_keys = False\<rparr>"
    by (simp add: t_def steps cong: weak_congs let_weak_cong)
  have missing: "locate Jsonc ascii_names t [Key [0x61]] =
      ret (Missing \<lparr>is_object = True, open_at = 0, close_at = 2, c_members = []\<rparr> 0)"
    by (simp add: t_def steps cong: weak_congs let_weak_cong)
  have "edit Jsonc ascii_names t [Key [0x61]] (Some [0x5B, 0x5D]) = ret [0x7B, 0x22, 0x61, 0x22, 0x3A, 0x20, 0x5B, 0x5D, 0x7D]"
    by (simp add: edit_def valid st set_value_def missing, simp add: t_def steps cong: weak_congs let_weak_cong)
  then show ?thesis
    using addition_keeps_the_text [of Jsonc ascii_names t "[Key [0x61]]"] missing by (auto simp: t_def ret_def)
qed

end
