(* ===== verification/JsonEditTotal.thy ===== *)
theory JsonEditTotal
  imports JsonEditKeeps
begin

text \<open>
  What the editor steps over as one value is what the parser reads as one value. So in a valid text its containers are
  read as the parser reads them: no slice or index is out of the text, no lexer fails and no loop runs on.
\<close>

section \<open>Values\<close>

lemma skip_trivia_idem: "skip_trivia d cs = Inr r \<Longrightarrow> skip_trivia d r = Inr r"
  by (induction d cs rule: skip_trivia.induct) (auto split: if_splits option.splits)

lemma peek_idem: "peek d cs = Inr r \<Longrightarrow> peek d r = Inr r"
  by (auto simp: peek_def res_bind_Inr_iff skip_trivia_idem split: if_splits)

definition skip_after :: "dialect \<Rightarrow> unicode \<Rightarrow> nat \<Rightarrow> utext \<Rightarrow> (stop, utext) run" where
  "skip_after d u depth r = (if depth = 0 then ret r else skip_value d u depth r)"

lemma skip_value_step:
  "peek d cs = Inr r \<Longrightarrow> skip_token d u depth r = ret (k, r') \<Longrightarrow> skip_value d u depth cs = skip_after d u k r'"
  by (simp add: skip_value.simps [of d u depth cs] skip_after_def)

lemma skip_value_peek: "peek d cs = Inr r \<Longrightarrow> skip_value d u depth cs = skip_value d u depth r"
  by (simp add: skip_value.simps [of d u depth cs] skip_value.simps [of d u depth r] peek_idem)

lemma starts_word_plain: "starts_word c j \<Longrightarrow> c \<notin> {0x7B, 0x5B, 0x7D, 0x5D, 0x2C, 0x3A, 0x22, 0x27} \<and> \<not> is_number_start c"
  by (auto simp: starts_word_def is_letter_def is_digit_def is_number_start_def)

lemma number_start_plain: "is_number_start c \<Longrightarrow> c \<notin> {0x7B, 0x5B, 0x7D, 0x5D, 0x2C, 0x3A, 0x22, 0x27}"
  by (auto simp: is_digit_def is_number_start_def)

lemma skip_tokens:
  "starts c r \<Longrightarrow> c = 0x22 \<or> c = 0x27 \<Longrightarrow> scan_string d c r = Inr (t, r') \<Longrightarrow> skip_token d u depth r = ret (depth, r')"
  "starts c r \<Longrightarrow> is_number_start c \<Longrightarrow> scan_number d r = Inr (n, r') \<Longrightarrow> skip_token d u depth r = ret (depth, r')"
  "starts c r \<Longrightarrow> starts_word c j \<Longrightarrow> scan_word d u r = Inr (w, r') \<Longrightarrow> skip_token d u depth r = ret (depth, r')"
  using number_start_plain starts_word_plain
  by (auto simp: starts_iff skip_token_def)

lemma skip_scalar:
  assumes "starts c r" "scan_scalar d u c r = Inr (e, r')"
  shows "skip_token d u depth r = ret (depth, r')"
proof -
  consider t where "c = 0x22 \<or> c = 0x27" "scan_string d c r = Inr (t, r')"
    | n where "is_number_start c" "scan_number d r = Inr (n, r')"
    | w where "starts_word c (d = Json5)" "scan_word d u r = Inr (w, r')"
    using assms(2) by (auto simp: scan_scalar_def res_bind_Inr_iff is_number_start_def split: if_splits option.splits)
  then show ?thesis using skip_tokens [OF assms(1)] by cases metis+
qed

lemma skip_key:
  assumes "starts c r" "scan_key d u c r = Inr (k, r')"
  shows "skip_token d u depth r = ret (depth, r')"
proof -
  consider t where "c = 0x22 \<or> c = 0x27" "scan_string d c r = Inr (t, r')"
    | w where "starts_word c True" "scan_word d u r = Inr (w, r')"
    using assms(2) by (auto simp: scan_key_def res_bind_Inr_iff split: if_splits)
  then show ?thesis using skip_tokens [OF assms(1)] by cases metis+
qed

lemma skip_token_simps:
  "starts 0x7B r \<or> starts 0x5B r \<Longrightarrow> skip_token d u depth r = ret (depth + 1, tl r)"
  "starts 0x7D r \<or> starts 0x5D r \<Longrightarrow> skip_token d u (Suc depth) r = ret (depth, tl r)"
  "starts 0x2C r \<or> starts 0x3A r \<Longrightarrow> skip_token d u depth r = ret (depth, tl r)"
  by (auto simp: starts_iff skip_token_def)

lemma skip_colon: "colon d cs = Inr r \<Longrightarrow> 0 < k \<Longrightarrow> skip_value d u k cs = skip_value d u k r"
  by (auto simp: colon_def res_bind_Inr_iff next_token_peek skip_token_simps skip_value_step skip_after_def split: if_splits)

lemma skip_after_member:
  assumes "after_member d what closer cs = Inr (ended, r)" "closer = 0x7D \<or> closer = 0x5D"
  shows "skip_value d u (Suc k) cs = (if ended then skip_after d u k r else skip_value d u (Suc k) r)"
proof -
  obtain c x where x: "peek d cs = Inr x" "starts c x"
    and rest: "(if c = closer then Inr (True, tl x)
      else if c = 0x2C then res_bind (peek d (tl x)) (\<lambda>r. if starts closer r then Inr (True, tl r) else Inr (False, r))
      else Inl (expect what x)) = Inr (ended, r)"
    using assms(1) by (auto simp: after_member_def res_bind_Inr_iff next_token_peek)
  show ?thesis
  proof (cases "c = closer")
    case True
    then show ?thesis using x rest assms(2) skip_value_step [OF x(1)] skip_token_simps(2) [of x d u k] by auto
  next
    case False
    then obtain y where y: "c = 0x2C" "peek d (tl x) = Inr y" "(if starts closer y then (True, tl y) else (False, y)) = (ended, r)"
      using rest by (auto simp: res_bind_Inr_iff split: if_splits)
    have "skip_value d u (Suc k) cs = skip_value d u (Suc k) (tl x)"
      using skip_value_step [OF x(1)] skip_token_simps(3) [of x d u "Suc k"] x(2) y(1) by (simp add: skip_after_def)
    also have "\<dots> = skip_value d u (Suc k) y" using y(2) by (rule skip_value_peek)
    also have "\<dots> = (if ended then skip_after d u k r else skip_value d u (Suc k) r)"
      using y(3) assms(2) skip_value_step [OF peek_idem [OF y(2)]] skip_token_simps(2) [of y d u k] by (auto split: if_splits)
    finally show ?thesis .
  qed
qed

lemma parser_skips:
  shows "value_at sink d u depth cs s = Read r t \<Longrightarrow> skip_value d u k cs = skip_after d u k r"
    and "members sink d u depth cs s = Read r t \<Longrightarrow> skip_value d u (Suc k) cs = skip_after d u k r"
    and "array_elements sink d u depth cs s = Read r t \<Longrightarrow> skip_value d u (Suc k) cs = skip_after d u k r"
proof (induction sink d u depth cs s and sink d u depth cs s and sink d u depth cs s arbitrary: k r t and k r t and k r t
    rule: value_at_members_array_elements.induct)
  case (1 sink d u depth cs s)
  note step = 1(3) [unfolded value_at.simps [of sink d u depth cs s] outcome_reads]
  then obtain c here where h: "next_token d ValueExpected cs = Inr (c, here)" by auto
  then have p: "peek d cs = Inr here" "starts c here" by (auto simp: next_token_peek)
  show ?case
  proof (cases "c = 0x7B \<or> c = 0x5B")
    case True
    then have open_: "skip_value d u k cs = skip_value d u (Suc k) (tl here)"
      using skip_value_step [OF p(1)] skip_token_simps(1) [of here d u k] p(2) by (auto simp: skip_after_def)
    obtain x where x: "peek d (tl here) = Inr x" using step h True by (auto simp: outcome_reads split: if_splits)
    have "skip_value d u (Suc k) x = skip_after d u k r"
    proof (cases "starts (c + 2) x")
      case close: True
      then have "r = tl x" using step h x True by (auto simp: outcome_reads split: if_splits)
      then show ?thesis using close True skip_value_step [OF peek_idem [OF x]] skip_token_simps(2) [of x d u k] by auto
    next
      case False
      then show ?thesis using step h x True 1(1) [OF h refl] 1(2) [OF h refl]
        by (fastforce simp: outcome_reads split: if_splits)
    qed
    then show ?thesis using open_ skip_value_peek [OF x] by simp
  next
    case False
    then obtain e where "scan_scalar d u c here = Inr (e, r)" using step h by (auto simp: outcome_reads)
    then show ?thesis using skip_value_step [OF p(1) skip_scalar [OF p(2)]] by blast
  qed
next
  case (2 sink d u depth cs s)
  note step = 2(3) [unfolded members.simps [of sink d u depth cs s] outcome_reads]
  then obtain c here key r1 s1 r2 r3 s3 ended r4 where h: "next_token d NameExpected cs = Inr (c, here)"
    "scan_key d u c here = Inr (key, r1)" "sink (json_event.Key key) s = (None, s1)" "colon d r1 = Inr r2"
    "value_at sink d u depth r2 s1 = Read r3 s3" "after_member d BraceExpected 0x7D r3 = Inr (ended, r4)"
    and e: "(if ended then emit sink EndObject s3 (Read r4) else members sink d u depth r4 s3) = Read r t"
    by (auto simp: outcome_reads)
  have p: "peek d cs = Inr here" "starts c here" using h(1) by (auto simp: next_token_peek)
  have "skip_value d u (Suc k) cs = skip_value d u (Suc k) r1"
    using skip_value_step [OF p(1) skip_key [OF p(2) h(2)], of "Suc k"] by (simp add: skip_after_def)
  also have "\<dots> = skip_value d u (Suc k) r2" using skip_colon [OF h(4)] by simp
  also have "\<dots> = skip_value d u (Suc k) r3"
    using 2(1) [OF h(1) refl h(2) refl h(3,4) h(5)] by (simp add: skip_after_def)
  also have "\<dots> = (if ended then skip_after d u k r4 else skip_value d u (Suc k) r4)"
    using skip_after_member [OF h(6)] by simp
  also have "\<dots> = skip_after d u k r"
    using e 2(2) [OF h(1) refl h(2) refl h(3,4,5,6) refl] by (auto simp: outcome_reads split: if_splits)
  finally show ?case .
next
  case (3 sink d u depth cs s)
  note step = 3(3) [unfolded array_elements.simps [of sink d u depth cs s] outcome_reads]
  then obtain r3 s3 ended r4 where h:
    "value_at sink d u depth cs s = Read r3 s3" "after_member d BracketExpected 0x5D r3 = Inr (ended, r4)"
    and e: "(if ended then emit sink EndArray s3 (Read r4) else array_elements sink d u depth r4 s3) = Read r t"
    by (auto simp: outcome_reads)
  have "skip_value d u (Suc k) cs = skip_value d u (Suc k) r3" using 3(1) [OF h(1)] by (simp add: skip_after_def)
  also have "\<dots> = (if ended then skip_after d u k r4 else skip_value d u (Suc k) r4)"
    using skip_after_member [OF h(2)] by simp
  also have "\<dots> = skip_after d u k r"
    using e 3(2) [OF h refl] by (auto simp: outcome_reads split: if_splits)
  finally show ?case .
qed

text \<open>
  The editor steps over a value exactly as far as the parser reads it, whatever the parser is told to report.
\<close>

theorem skip_value_is_the_value:
  assumes "value_at sink d u depth cs s = Read r t"
  shows "skip_value d u 0 cs = ret r"
  using parser_skips(1) [OF assms, of 0] by (simp add: skip_after_def)

lemma skip_value_is_the_value_witness:
  "skip_value Jsonc ascii_names 0 [0x5B, 0x5B, 0x5D, 0x5D, 0x2C] = ret [0x2C]"
proof -
  have "value_at discard Jsonc ascii_names 0 [0x5B, 0x5B, 0x5D, 0x5D, 0x2C] () = Read [0x2C] ()"
    by (simp add: steps cong: weak_congs let_weak_cong)
  then show ?thesis by (rule skip_value_is_the_value)
qed

section \<open>Validation does not abort\<close>

lemma discard_reads:
  shows "value_at discard d u depth cs s \<noteq> Failed (Abort a) t"
    and "members discard d u depth cs s \<noteq> Failed (Abort a) t"
    and "array_elements discard d u depth cs s \<noteq> Failed (Abort a) t"
proof (induction "discard :: (unit, unit) sink" d u depth cs s and "discard :: (unit, unit) sink" d u depth cs s
    and "discard :: (unit, unit) sink" d u depth cs s rule: value_at_members_array_elements.induct)
  case (1 d u depth cs s)
  then show ?case
    by (subst value_at.simps) (auto simp: lexed_def emit_def discard_def split: sum.splits if_splits)
next
  case (2 d u depth cs s)
  then show ?case
    by (subst members.simps) (auto simp: lexed_def emit_def discard_def and_then_def split: sum.splits outcome.splits)
next
  case (3 d u depth cs s)
  then show ?case
    by (subst array_elements.simps) (auto simp: lexed_def emit_def discard_def and_then_def split: sum.splits outcome.splits)
qed

lemma valid_value:
  assumes "json_validate d u t = None"
  shows "\<exists>r. value_at discard d u 0 (skip_bom t) () = Read r ()"
proof (cases "value_at discard d u 0 (skip_bom t) ()")
  case (Failed e s)
  then obtain x where "e = Refused x" using discard_reads(1) by (cases e) blast+
  then show ?thesis using assms Failed by (simp add: json_validate_def json_parse_def)
qed simp

section \<open>Containers\<close>

text \<open>A value the parser reads stands at \<open>r\<close>, the rest of the text at a token.\<close>

definition value_here :: "dialect \<Rightarrow> unicode \<Rightarrow> utext \<Rightarrow> bool" where
  "value_here d u r \<longleftrightarrow> peek d r = Inr r \<and> (\<exists>depth r'. value_at discard d u depth r () = Read r' ())"

definition good_member :: "dialect \<Rightarrow> unicode \<Rightarrow> utext \<Rightarrow> bool \<Rightarrow> member \<Rightarrow> bool" where
  "good_member d u t followed m \<longleftrightarrow> value_here d u (drop (value_start m) t) \<and> (followed \<longrightarrow> m_comma m \<noteq> None)"

fun good_members :: "dialect \<Rightarrow> unicode \<Rightarrow> utext \<Rightarrow> member list \<Rightarrow> bool" where
  "good_members d u t [] \<longleftrightarrow> True"
| "good_members d u t (m # ms) \<longleftrightarrow> good_member d u t (ms \<noteq> []) m \<and> good_members d u t ms"

lemma value_at_peek: "peek d cs = Inr r \<Longrightarrow> value_at sink d u depth cs s = value_at sink d u depth r s"
  by (simp add: value_at.simps [of sink d u depth cs s] value_at.simps [of sink d u depth r s] next_token_def peek_idem)

lemma value_peeks: "value_at sink d u depth cs s = Read r t \<Longrightarrow> \<exists>x. peek d cs = Inr x \<and> x \<noteq> []"
  by (auto simp: value_at.simps [of sink d u depth cs s] outcome_reads next_token_peek starts_iff)

lemma value_here_peek:
  assumes "peek d cs = Inr r" "value_at discard d u depth cs () = Read r' ()"
  shows "value_here d u r"
  using assms value_at_peek [OF assms(1), of discard u depth "()"] peek_idem [OF assms(1)] by (auto simp: value_here_def)

text \<open>One member or element: its value is read, and its comma is taken.\<close>

lemma read_good_member:
  assumes reads: "value_at discard d u depth r1 () = Read r3 ()"
    and key: "(if object then run_bind (member_key d u t r) (\<lambda>(k, r). ret (Some k, r)) else ret (None, r)) = ret (key, r1)"
    and after: "after_member d what closer r3 = Inr (ended, r5)" "closer = 0x7D \<or> closer = 0x5D"
    and suffix: "suffix r1 t"
  shows "\<exists>m r4. read_member d u t object r = ret (m, r4) \<and> good_member d u t (\<not> ended) m \<and>
    peek d r4 = Inr (if ended then closer # r5 else r5)"
proof -
  obtain r2 where r2: "peek d r1 = Inr r2" using value_peeks [OF reads] by blast
  have skip: "skip_value d u 0 r2 = ret r3"
    using skip_value_is_the_value [OF reads] skip_value_peek [OF r2] by simp
  obtain c x where x: "peek d r3 = Inr x" "starts c x"
    and rest: "(if c = closer then Inr (True, tl x)
      else if c = 0x2C then res_bind (peek d (tl x)) (\<lambda>r. if starts closer r then Inr (True, tl r) else Inr (False, r))
      else Inl (expect what x)) = Inr (ended, r5)"
    using after(1) by (auto simp: after_member_def res_bind_Inr_iff next_token_peek)
  define m where "m = \<lparr>m_start = pos_of t r, m_key = key, value_start = pos_of t r2, value_end = pos_of t r3,
    m_comma = (if starts 0x2C x then Some (pos_of t x) else None)\<rparr>"
  have read: "read_member d u t object r = ret (m, if starts 0x2C x then tl x else x)"
    using key r2 skip x(1) by (simp add: read_member_def m_def)
  have "suffix r2 t" using peek_suffix [OF r2] suffix suffix_order.trans by blast
  then have "good_member d u t (\<not> ended) m"
    using value_here_peek [OF r2 reads] rest x after(2)
    by (auto simp: good_member_def m_def drop_pos_of split: if_splits)
  moreover have "peek d (if starts 0x2C x then tl x else x) = Inr (if ended then closer # r5 else r5)"
    using rest x after(2) peek_idem [OF x(1)] by (auto simp: starts_iff res_bind_Inr_iff split: if_splits)
  ultimately show ?thesis using read by blast
qed

lemma read_members_end:
  "peek d cs = Inr (c # r) \<Longrightarrow> c = 0x7D \<or> c = 0x5D \<Longrightarrow> read_members d u t object ms cs = ret (ms, pos_of t (c # r))"
  by (auto simp: read_members.simps [of d u t object ms cs] starts_iff)

lemma read_members_more:
  assumes "peek d cs = Inr r" "r \<noteq> []" "\<not> starts 0x7D r" "\<not> starts 0x5D r" "read_member d u t object r = ret (m, r')"
  shows "read_members d u t object ms cs = read_members d u t object (ms @ [m]) r'"
  using assms by (auto simp: read_members.simps [of d u t object ms cs])

lemma read_members_peek: "peek d cs = Inr r \<Longrightarrow> read_members d u t object ms cs = read_members d u t object ms r"
  by (simp add: read_members.simps [of d u t object ms cs] read_members.simps [of d u t object ms r] peek_idem)

text \<open>The rest of an object or array that the parser reads.\<close>

lemma object_members:
  "members (discard :: (unit, unit) sink) d u depth cs () = Read r () \<Longrightarrow> suffix cs t \<Longrightarrow>
    \<exists>new close. (\<forall>ms. read_members d u t True ms cs = ret (ms @ new, close)) \<and> good_members d u t new \<and> new \<noteq> []"
proof (induction "length cs" arbitrary: cs r rule: less_induct)
  case less
  then obtain c here key r1 r2 r3 ended r4 where h: "next_token d NameExpected cs = Inr (c, here)"
    "scan_key d u c here = Inr (key, r1)" "colon d r1 = Inr r2"
    "value_at discard d u depth r2 () = Read r3 ()" "after_member d BraceExpected 0x7D r3 = Inr (ended, r4)"
    and e: "(if ended then emit discard EndObject () (Read r4) else members discard d u depth r4 ()) = Read r ()"
    unfolding members.simps [of discard d u depth cs] by (auto simp: outcome_reads discard_def)
  have p: "peek d cs = Inr here" "starts c here" using h(1) by (auto simp: next_token_peek)
  obtain x where x: "peek d r1 = Inr x" "starts 0x3A x" "r2 = tl x"
    using h(3) by (auto simp: colon_def res_bind_Inr_iff next_token_peek split: if_splits)
  have key: "member_key d u t here = ret ((key, pos_of t r1), r2)"
    using p(2) h(2) x by (auto simp: member_key_def scan_key_def starts_iff res_bind_Inr_iff starts_word_def is_letter_def split: if_splits)
  have s: "suffix here cs" "suffix r1 here" "suffix r2 r1" "suffix r3 r2" "suffix r4 r3"
    using peek_suffix [OF p(1)] scan_key_suffix [OF p(2) h(2)] colon_suffix [OF h(3)]
      skip_value_suffix [of d u 0 r2 r3] skip_value_is_the_value [OF h(4)] after_member_suffix [OF h(5)]
    by (auto simp: ret_Inr ret_def)
  have t: "suffix r2 t" "suffix r4 t" using s less(3) suffix_order.trans by metis+
  have closer: "(0x7D :: scalar) = 0x7D \<or> (0x7D :: scalar) = 0x5D" by simp
  obtain m r5 where m: "read_member d u t True here = ret (m, r5)" "good_member d u t (\<not> ended) m"
      "peek d r5 = Inr (if ended then 0x7D # r4 else r4)"
    using read_good_member [OF h(4) _ h(5) closer t(1), of True here "Some (key, pos_of t r1)"] key by auto
  have plain: "\<not> starts 0x7D here" "\<not> starts 0x5D here" "here \<noteq> []"
    using p(2) h(2) by (auto simp: starts_iff scan_key_def starts_word_def is_letter_def split: if_splits)
  note first = read_members_more [OF p(1) plain(3,1,2) m(1)]
  show ?case
  proof (cases ended)
    case True
    then have "\<forall>ms. read_members d u t True ms cs = ret (ms @ [m], pos_of t (0x7D # r4))"
      using first m(3) read_members_end [of d r5 "0x7D" r4] by simp
    then show ?thesis using m(2) by (intro exI [of _ "[m]"]) (auto simp: good_member_def)
  next
    case False
    have "length r4 < length cs"
      using after_member_shorter [OF h(5)] suffix_length_le [OF s(1)] suffix_length_le [OF s(2)] suffix_length_le [OF s(3)]
        suffix_length_le [OF s(4)] by linarith
    then obtain new close where new: "\<forall>ms. read_members d u t True ms r4 = ret (ms @ new, close)" "good_members d u t new" "new \<noteq> []"
      using less(1) [of r4 r] e False t(2) by auto
    then have "\<forall>ms. read_members d u t True ms cs = ret (ms @ m # new, close)"
      using first read_members_peek [OF m(3)] False by simp
    then show ?thesis using m(2) False new by (intro exI [of _ "m # new"]) auto
  qed
qed

lemma closer_is_no_scalar: "c = 0x7D \<or> c = 0x5D \<Longrightarrow> scan_scalar d u c here = Inl (expect ValueExpected here)"
  by (auto simp: scan_scalar_def starts_word_def is_letter_def is_digit_def)

lemma value_not_closer:
  assumes "value_at sink d u depth cs s = Read r t" "peek d cs = Inr x"
  shows "\<not> starts 0x7D x \<and> \<not> starts 0x5D x"
  using assms closer_is_no_scalar
  by (auto simp: value_at.simps [of sink d u depth cs s] outcome_reads next_token_peek starts_iff)

lemma array_members:
  "array_elements (discard :: (unit, unit) sink) d u depth cs () = Read r () \<Longrightarrow> suffix cs t \<Longrightarrow>
    \<exists>new close. (\<forall>ms. read_members d u t False ms cs = ret (ms @ new, close)) \<and> good_members d u t new \<and> new \<noteq> []"
proof (induction "length cs" arbitrary: cs r rule: less_induct)
  case less
  then obtain r3 ended r4 where h: "value_at discard d u depth cs () = Read r3 ()" "after_member d BracketExpected 0x5D r3 = Inr (ended, r4)"
    and e: "(if ended then emit discard EndArray () (Read r4) else array_elements discard d u depth r4 ()) = Read r ()"
    unfolding array_elements.simps [of discard d u depth cs] by (auto simp: outcome_reads)
  obtain here where p: "peek d cs = Inr here" "here \<noteq> []" using value_peeks [OF h(1)] by blast
  have h1: "value_at discard d u depth here () = Read r3 ()" using h(1) value_at_peek [OF p(1), of discard] by simp
  have s: "suffix here cs" "suffix r3 here" "suffix r4 r3"
    using peek_suffix [OF p(1)] skip_value_suffix [of d u 0 here r3] skip_value_is_the_value [OF h1] after_member_suffix [OF h(2)]
    by (auto simp: ret_Inr ret_def)
  have t: "suffix here t" "suffix r4 t" using s less(3) suffix_order.trans by metis+
  have closer: "(0x5D :: scalar) = 0x7D \<or> (0x5D :: scalar) = 0x5D" by simp
  obtain m r5 where m: "read_member d u t False here = ret (m, r5)" "good_member d u t (\<not> ended) m"
      "peek d r5 = Inr (if ended then 0x5D # r4 else r4)"
    using read_good_member [OF h1 _ h(2) closer t(1), of False here None] by auto
  have plain: "\<not> starts 0x7D here" "\<not> starts 0x5D here"
    using value_not_closer [OF h(1) p(1)] by auto
  note first = read_members_more [OF p(1,2) plain m(1)]
  show ?case
  proof (cases ended)
    case True
    then have "\<forall>ms. read_members d u t False ms cs = ret (ms @ [m], pos_of t (0x5D # r4))"
      using first m(3) read_members_end [of d r5 "0x5D" r4] by simp
    then show ?thesis using m(2) by (intro exI [of _ "[m]"]) (auto simp: good_member_def)
  next
    case False
    have "length r4 < length cs"
      using after_member_shorter [OF h(2)] suffix_length_le [OF s(1)] suffix_length_le [OF s(2)] by linarith
    then obtain new close where new: "\<forall>ms. read_members d u t False ms r4 = ret (ms @ new, close)" "good_members d u t new" "new \<noteq> []"
      using less(1) [of r4 r] e False t(2) by auto
    then have "\<forall>ms. read_members d u t False ms cs = ret (ms @ m # new, close)"
      using first read_members_peek [OF m(3)] False by simp
    then show ?thesis using m(2) False new by (intro exI [of _ "m # new"]) auto
  qed
qed

lemma container_total:
  assumes "value_here d u (drop p t)" "starts 0x7B (drop p t) \<or> starts 0x5B (drop p t)"
  shows "\<exists>c. container_at d u t p = ret c \<and> good_members d u t (c_members c)"
proof -
  define here where "here = drop p t"
  obtain depth r where p: "peek d here = Inr here" and v: "value_at discard d u depth here () = Read r ()"
    using assms(1) by (auto simp: value_here_def here_def)
  have tl: "suffix (tl here) t" using tl_suffix [of here t] suffix_drop [of p t] by (simp add: here_def)
  define object where "object = starts 0x7B here"
  define closer :: scalar where "closer = (if object then 0x7D else 0x5D)"
  obtain x where x: "peek d (tl here) = Inr x" and rest: "\<not> starts closer x \<Longrightarrow>
      (if object then members discard d u (depth + 1) x () else array_elements discard d u (depth + 1) x ()) = Read r ()"
    using v p assms(2) unfolding here_def [symmetric] value_at.simps [of discard d u depth here]
    by (auto simp: outcome_reads next_token_peek starts_iff discard_def object_def closer_def split: if_splits)
  have xt: "suffix x t" using peek_suffix [OF x] tl suffix_order.trans by blast
  have "\<exists>new close. read_members d u t object [] x = ret (new, close) \<and> good_members d u t new"
  proof (cases "starts closer x")
    case True
    then obtain y where "x = closer # y" by (auto simp: starts_iff)
    then have "read_members d u t object [] x = ret ([], pos_of t (closer # y))"
      using peek_idem [OF x] by (intro read_members_end) (auto simp: closer_def)
    then show ?thesis by (intro exI [of _ "[]"]) auto
  next
    case False
    then show ?thesis
      using rest object_members [of d u "depth + 1" x r t] array_members [of d u "depth + 1" x r t] xt
      by (cases object) (fastforce split: if_splits)+
  qed
  then obtain new close where new: "read_members d u t object [] x = ret (new, close)" "good_members d u t new" by blast
  then have "container_at d u t p = ret \<lparr>is_object = object, open_at = p, close_at = close, c_members = new\<rparr>"
    using p read_members_peek [OF x, of u t object "[]"] by (simp add: container_at_def here_def object_def)
  then show ?thesis using new(2) by auto
qed

section \<open>The habits of a valid text\<close>

lemma fold_run_total:
  "(\<And>x s. x \<in> set xs \<Longrightarrow> \<exists>s'. f x s = ret s') \<Longrightarrow> \<exists>s'. fold_run f xs s = ret s'"
proof (induction xs arbitrary: s)
  case (Cons x xs)
  then obtain s1 where "f x s = ret s1" by fastforce
  then show ?case using Cons by fastforce
qed simp

lemma good_members_good: "good_members d u t ms \<Longrightarrow> m \<in> set ms \<Longrightarrow> value_here d u (drop (value_start m) t)"
  by (induction ms) (auto simp: good_member_def)

text \<open>Positions of the text answer.\<close>

lemma line_total:
  assumes "p \<le> length t"
  shows "\<exists>a \<le> p. line_start t p = ret a" "\<exists>x. line_indent t p = ret x" "\<exists>b. starts_line t p = ret b"
    "\<exists>b \<le> length t. past_line_break t p = ret b"
proof -
  show start: "\<exists>a \<le> p. line_start t p = ret a" using assms by (simp add: line_start_def)
  then obtain a where a: "a \<le> p" "line_start t p = ret a" by blast
  then show "\<exists>x. line_indent t p = ret x" "\<exists>b. starts_line t p = ret b"
    using assms by (simp_all add: line_indent_def starts_line_def)
  have "length (drop p t) + p = length t" using assms by simp
  then show "\<exists>b \<le> length t. past_line_break t p = ret b"
    using assms by (cases "drop p t"; cases "tl (drop p t)") (auto simp: past_line_break_def starts_iff)
qed

lemma find_unit_total: "\<forall>m \<in> set ms. m_start m \<le> length t \<Longrightarrow> \<exists>x. find_unit t outer ms = ret x"
proof (induction ms)
  case (Cons m ms)
  obtain b x where b: "starts_line t (m_start m) = ret b" "line_indent t (m_start m) = ret x"
    using line_total [of "m_start m" t] Cons.prems by auto
  show ?case using Cons by (auto simp: b split: option.split list.split)
qed simp

text \<open>A container read from the text, and its members.\<close>

definition container_in :: "utext \<Rightarrow> container \<Rightarrow> bool" where
  "container_in t c \<longleftrightarrow> open_at c < close_at c \<and> close_at c < length t \<and> (\<exists>lo. follow t (is_object c) lo (c_members c))"

lemma container_at_in: "container_at d u t p = ret c \<Longrightarrow> container_in t c"
  using container_follow [of d u t p c] by (auto simp: container_in_def ret_def)

lemma member_in:
  assumes "container_in t c" "m \<in> set (c_members c)"
  shows "m_start m \<le> value_start m" "value_start m \<le> value_end m" "value_end m \<le> after_member_at m"
    "after_member_at m \<le> length t" "m_start m < length t" "m_start m \<le> length t" "value_start m \<le> length t" "value_end m \<le> length t"
    "m_key m = Some (k, e) \<Longrightarrow> e \<le> value_start m" "m_comma m = Some j \<Longrightarrow> j < length t \<and> t ! j = 0x2C"
  using assms follow_members by (fastforce simp: container_in_def member_at_def)+

lemma multi_line_total: "container_in t c \<Longrightarrow> \<exists>b. multi_line t c = ret b"
  by (simp add: container_in_def multi_line_def)

lemma survey_container_total:
  assumes "good_members d u t (c_members c)" "container_in t c"
  shows "\<exists>s. survey_container t c seen = ret s"
proof -
  obtain multi where multi: "multi_line t c = ret multi" using multi_line_total [OF assms(2)] by blast
  obtain outer where outer: "line_indent t (open_at c) = ret outer"
    using line_total [of "open_at c" t] assms(2) by (auto simp: container_in_def)
  obtain x where x: "find_unit t outer (c_members c) = ret x"
    using find_unit_total [of "c_members c" t outer] member_in(6) [OF assms(2)] by blast
  show ?thesis
  proof (cases "2 \<le> length (c_members c)")
    case False
    then show ?thesis by (auto simp: survey_container_def multi outer x Let_def)
  next
    case True
    then obtain m n ms where ms: "c_members c = m # n # ms" by (cases "c_members c"; cases "tl (c_members c)") auto
    obtain k where k: "m_comma m = Some k" using assms(1) by (auto simp: ms good_member_def)
    have "k + 1 \<le> m_start n" "m_start n \<le> length t"
      using assms(2) member_in(6) [OF assms(2), of n] k by (auto simp: container_in_def ms member_at_def after_member_at_def)
    moreover have "index_at 0 (c_members c) = ret m" "index_at 1 (c_members c) = ret n" using ms by simp_all
    ultimately show ?thesis using True by (simp add: survey_container_def multi outer x Let_def k del: One_nat_def part_ret(4))
  qed
qed

lemma survey_key_total: "container_in t c \<Longrightarrow> m \<in> set (c_members c) \<Longrightarrow> \<exists>s. survey_key t m seen = ret s"
  using member_in [of t c m]
  by (cases "m_key m") (auto simp: survey_key_def Let_def)

lemma value_here_in_text: "value_here d u (drop p t) \<Longrightarrow> p < length t"
  using value_peeks [of discard d u _ "drop p t" "()" _ "()"] by (fastforce simp: value_here_def)

lemma starts_drop: "p < length t \<Longrightarrow> starts c (drop p t) \<longleftrightarrow> t ! p = c"
  by (simp add: Cons_nth_drop_Suc [symmetric] starts_iff)

lemma survey_total: "value_here d u (drop p t) \<Longrightarrow> \<exists>s. survey d u t p seen = ret s"
proof (induction d u t p seen rule: survey.induct)
  case (1 d u t p seen)
  have p: "index_at p t = ret (t ! p)" "p < length t" using value_here_in_text [OF 1(2)] by simp_all
  define seen' where "seen' = (if t ! p = 0x22 \<or> t ! p = 0x27 then seen\<lparr>s_quote := or_insert (t ! p) (s_quote seen)\<rparr> else seen)"
  show ?case
  proof (cases "t ! p = 0x7B \<or> t ! p = 0x5B")
    case True
    then obtain c where c: "container_at d u t p = ret c" "good_members d u t (c_members c)"
      using container_total [OF 1(2)] starts_drop [of p t] p by auto
    note in_t = container_at_in [OF c(1)]
    obtain s1 where s1: "survey_container t c seen' = ret s1" using survey_container_total [OF c(2) in_t] by blast
    have "\<exists>s'. fold_run (\<lambda>m seen. run_bind (survey_key t m seen) (\<lambda>seen. survey d u t (value_start m) seen)) (c_members c) s1 = ret s'"
    proof (rule fold_run_total)
      fix m s assume m: "m \<in> set (c_members c)"
      obtain s2 where s2: "survey_key t m s = ret s2" using survey_key_total [OF in_t m] by blast
      show "\<exists>s'. run_bind (survey_key t m s) (\<lambda>seen. survey d u t (value_start m) seen) = ret s'"
        using 1(1) [of "t ! p" seen' c s1 m s s2] True p c s1 s2 m good_members_good [OF c(2) m] by (auto simp: seen'_def ret_def)
    qed
    then show ?thesis using p True c(1) s1 by (simp add: survey.simps [of d u t p] Let_def seen'_def [symmetric])
  next
    case False
    then show ?thesis using p by (simp add: survey.simps [of d u t p] Let_def)
  qed
qed

lemma valid_root:
  assumes "json_validate d u t = None"
  shows "\<exists>r r'. peek d (skip_bom t) = Inr r \<and> value_here d u (drop (pos_of t r) t) \<and> suffix r t \<and> skip_value d u 0 r = ret r'"
proof -
  obtain r' where v: "value_at discard d u 0 (skip_bom t) () = Read r' ()" using valid_value [OF assms] by blast
  obtain r where r: "peek d (skip_bom t) = Inr r" using value_peeks [OF v] by blast
  have "suffix (skip_bom t) t" by (simp add: skip_bom_def suffix_tl)
  then have s: "suffix r t" using peek_suffix [OF r] suffix_order.trans by blast
  have "skip_value d u 0 r = ret r'" using skip_value_is_the_value [OF v] skip_value_peek [OF r] by simp
  then show ?thesis using r s value_here_peek [OF r v] by (auto simp: drop_pos_of)
qed

lemma style_total: "json_validate d u t = None \<Longrightarrow> \<exists>st. style_of d u t = ret st"
proof -
  assume "json_validate d u t = None"
  then obtain r where r: "peek d (skip_bom t) = Inr r" "value_here d u (drop (pos_of t r) t)" using valid_root by blast
  obtain s where "survey d u t (pos_of t r) nothing_seen = ret s" using survey_total [OF r(2)] by blast
  then show ?thesis using r by (simp add: style_of_def)
qed

section \<open>Setting a value\<close>

text \<open>A run that ends in a result, or refuses the path or the index.\<close>

definition replies :: "(edit_stop, 'a) run \<Rightarrow> bool" where
  "replies m \<longleftrightarrow> (\<exists>x. m = ret x) \<or> (\<exists>e. m = refuse (PathError e)) \<or> (\<exists>path n i. m = refuse (RangeError path n i))"

lemma replies_simps [simp]:
  "replies (ret x)" "replies (refuse (PathError e))" "replies (refuse (RangeError path n i))"
  by (auto simp: replies_def)

lemma replies_bind: "replies m \<Longrightarrow> (\<And>x. m = ret x \<Longrightarrow> replies (f x)) \<Longrightarrow> replies (run_bind m f)"
  by (auto simp: replies_def) (auto simp: refuse_def)

lemma replies_in_doc: "\<exists>x. m = ret x \<Longrightarrow> replies (in_doc d t m)"
  by auto

lemma replies_find_step: "replies (find_step walked c s)"
  by (auto simp: find_step_def Let_def split: segment.split)

lemma replies_locate_from:
  "value_here d u (drop p t) \<Longrightarrow> path \<noteq> [] \<Longrightarrow> replies (locate_from d u t walked p path)"
proof (induction d u t walked p path rule: locate_from.induct)
  case (2 d u t walked p s rest)
  have p: "index_at p t = ret (t ! p)" "p < length t" using value_here_in_text [OF 2(2)] by simp_all
  show ?case
  proof (cases "t ! p = 0x7B \<or> t ! p = 0x5B")
    case True
    then obtain c where c: "container_at d u t p = ret c" "good_members d u t (c_members c)"
      using container_total [OF 2(2)] starts_drop [of p t] p by auto
    have "replies (case found of None \<Rightarrow> ret (Missing c (length walked))
        | Some i \<Rightarrow> if rest = [] then ret (Member c i)
            else run_bind (in_doc d t (index_at i (c_members c))) (\<lambda>m. locate_from d u t (walked @ [s]) (value_start m) rest))"
      if found: "find_step walked c s = ret found" for found
    proof (cases found)
      case (Some i)
      then have "i < length (c_members c)" using found find_step_index by (simp add: ret_def)
      moreover from this have "value_here d u (drop (value_start (c_members c ! i)) t)" using good_members_good [OF c(2)] by simp
      ultimately show ?thesis using 2(1) [of "t ! p" c found i] p True c(1) found Some by (auto simp: ret_def in_doc_def replies_def)
    qed simp
    then have "replies (run_bind (find_step walked c s) (\<lambda>found. case found of None \<Rightarrow> ret (Missing c (length walked))
        | Some i \<Rightarrow> if rest = [] then ret (Member c i)
            else run_bind (in_doc d t (index_at i (c_members c))) (\<lambda>m. locate_from d u t (walked @ [s]) (value_start m) rest)))"
      by (rule replies_bind [OF replies_find_step])
    then show ?thesis using p True c(1) by auto
  qed (use p in simp)
qed simp

lemma replies_locate: "json_validate d u t = None \<Longrightarrow> replies (locate d u t path)"
proof -
  assume "json_validate d u t = None"
  then obtain r r' where "peek d (skip_bom t) = Inr r" "value_here d u (drop (pos_of t r) t)" "skip_value d u 0 r = ret r'"
    using valid_root by blast
  then show ?thesis using replies_locate_from by (simp add: locate_def)
qed

lemma replies_wrap: "depth < length path \<Longrightarrow> replies (wrap d st path depth v inline)"
proof -
  have "replies (wrap_steps d st made inline ss out)" for made ss out
    by (induction d st made inline ss out rule: wrap_steps.induct) (simp_all add: Let_def)
  then show "depth < length path \<Longrightarrow> replies (wrap d st path depth v inline)" by (simp add: wrap_def)
qed

text \<open>What a path leads to in a valid text has its positions in the text.\<close>

lemma located_in:
  assumes "locate d u t path = ret target"
  shows "case target of Root a b \<Rightarrow> a \<le> length t \<and> b \<le> length t
    | Member c i \<Rightarrow> container_in t c \<and> i < length (c_members c)
    | Missing c depth \<Rightarrow> container_in t c \<and> depth < length path"
proof (cases target)
  case (Root a b)
  have l: "locate d u t path = Some (Inr (Root a b))" using assms Root by (simp add: ret_def)
  show ?thesis
  proof (cases "path = []")
    case True
    then show ?thesis using l Root by (auto simp: locate_def run_results in_doc_Inr simp del: in_doc_simps)
  next
    case False
    then show ?thesis using l locate_from_target [of d u t "[]" _ path "Root a b"]
      by (auto simp: locate_def run_results target_in_def)
  qed
next
  case (Member c i)
  then show ?thesis using assms locate_target [of d u t path target] container_at_in by (auto simp: ret_def)
next
  case (Missing c depth)
  then show ?thesis using assms locate_target [of d u t path target] locate_depth [of d u t path c depth] container_at_in
    by (auto simp: ret_def)
qed

lemma planning_answers: "json_validate d u t = None \<Longrightarrow> replies (plan_for d u t path)"
proof -
  assume v: "json_validate d u t = None"
  obtain st where st: "style_of d u t = ret st" using style_total [OF v] by blast
  define style_plan where "style_plan multi = \<lparr>p_indent = (if multi then unit_text st else []),
      p_quote = (if d = Json5 then quote st else None), p_trailing_commas = trailing_commas st\<rparr>" for multi
  have "replies (run_bind (in_doc d t
      (case target of Root _ _ \<Rightarrow> ret (0x0A \<in> set t) | Member c _ \<Rightarrow> multi_line t c | Missing c _ \<Rightarrow> multi_line t c)) (\<lambda>multi. ret (style_plan multi)))"
    if "locate d u t path = ret target" for target
    using located_in [OF that] multi_line_total by (cases target) (fastforce intro!: replies_bind replies_in_doc)+
  then have "replies (run_bind (locate d u t path) (\<lambda>target. run_bind (in_doc d t
      (case target of Root _ _ \<Rightarrow> ret (0x0A \<in> set t) | Member c _ \<Rightarrow> multi_line t c | Missing c _ \<Rightarrow> multi_line t c)) (\<lambda>multi. ret (style_plan multi))))"
    by (rule replies_bind [OF replies_locate [OF v]])
  then show "replies (plan_for d u t path)" using v st by (simp add: plan_for_def style_plan_def)
qed

section \<open>Setting and removing\<close>

lemma insert_total:
  assumes "container_in t c"
  shows "\<exists>x. insert_member st t c inline entry = ret x"
proof (cases "c_members c = []")
  case True
  obtain outer where outer: "line_indent t (open_at c) = ret outer"
    using line_total [of "open_at c" t] assms by (auto simp: container_in_def)
  have "length (dropWhile is_layout (rev (take (close_at c) t))) \<le> length t"
    using length_dropWhile_le [of is_layout "rev (take (close_at c) t)"] by simp
  then show ?thesis using assms True
    by (simp add: insert_member_def insert_first_def outer Let_def container_in_def)
next
  case False
  define m where "m = last (c_members c)"
  have "m \<in> set (c_members c)" using False by (simp add: m_def)
  note m = member_in [OF assms this]
  define e where "e = or_else (rest_of_line t (after_member_at m)) (after_member_at m)"
  have e: "after_member_at m \<le> e" "e \<le> length t"
    using rest_of_line_le rest_of_line_in m(4) by (auto simp: e_def or_else_def split: option.split)
  obtain outer b indent where o: "line_indent t (open_at c) = ret outer" "starts_line t (m_start m) = ret b"
      "line_indent t (m_start m) = ret indent"
    using line_total [of "open_at c" t] line_total [OF m(6)] assms by (auto simp: container_in_def)
  show ?thesis
  proof (cases "m_comma m")
    case None
    then show ?thesis using e m(3,8) False
      by (simp add: insert_member_def insert_after_def m_def [symmetric] o Let_def e_def [symmetric])
  next
    case (Some k)
    then show ?thesis using e m(10) False
      by (simp add: insert_member_def insert_after_def m_def [symmetric] o Let_def e_def [symmetric] Suc_le_eq)
  qed
qed

lemma set_total:
  assumes "json_validate d u t = None"
  shows "replies (set_value d u st t path v)"
  unfolding set_value_def
proof (rule replies_bind [OF replies_locate [OF assms]])
  fix target assume "locate d u t path = ret target"
  note l = located_in [OF this]
  show "replies (case target of
         Root a b \<Rightarrow>
           in_doc d t (run_bind (line_indent t a) (\<lambda>base. replace_range a b (place st v base) t))
       | Member c i \<Rightarrow>
           in_doc d t
             (run_bind (index_at i (c_members c)) (\<lambda>m.
              run_bind (line_indent t (m_start m)) (\<lambda>base.
              replace_range (value_start m) (value_end m) (place st v base) t)))
       | Missing c depth \<Rightarrow>
           run_bind (in_doc d t (multi_line t c)) (\<lambda>multi.
           run_bind (wrap d st path depth v (\<not> multi)) (\<lambda>value.
           run_bind (in_doc d t (index_at depth path)) (\<lambda>step.
           let entry = (\<lambda>indent.
                 let value = place st value indent in
                 if \<not> is_object c then value
                 else case step of
                     Key k \<Rightarrow> write_key d st k @ colon_text st @ value
                   | Index i \<Rightarrow> write_key d st (decimal_text i) @ colon_text st @ value)
           in in_doc d t (insert_member st t c (\<not> multi) entry)))))"
  proof (cases target)
    case (Root a b)
    then show ?thesis using l line_total [of a t] by auto
  next
    case (Member c i)
    then have m: "container_in t c" "c_members c ! i \<in> set (c_members c)" "i < length (c_members c)" using l by auto
    show ?thesis using Member m line_total [OF member_in(6) [OF m(1,2)]] member_in(7,8) [OF m(1,2)] by auto
  next
    case (Missing c depth)
    then have c: "container_in t c" "depth < length path" using l by auto
    obtain multi where multi: "multi_line t c = ret multi" using multi_line_total [OF c(1)] by blast
    have "replies (in_doc d t (insert_member st t c (\<not> multi) entry))" for entry
      using insert_total [OF c(1)] by (rule replies_in_doc)
    then show ?thesis using Missing c multi by (simp add: Let_def replies_bind [OF replies_wrap])
  qed
qed

text \<open>A comma before a member that starts its line is on a line before.\<close>

lemma comma_before_line:
  assumes "starts_line t p = ret True" "line_start t p = ret a" "k < p" "k < length t" "t ! k = 0x2C"
  shows "k + 1 \<le> a"
proof (rule ccontr)
  assume no: "\<not> k + 1 \<le> a"
  then have "t ! k \<in> set (slice a p t)"
    using assms(3,4) by (auto simp: slice_def in_set_conv_nth intro!: exI [of _ "k - a"])
  moreover have "list_all is_blank (slice a p t)"
    using assms(1,2) by (auto simp: starts_line_def text_range_def split: if_splits)
      (simp_all add: ret_def)
  ultimately show False using assms(5) by (auto simp: list_all_iff is_blank_def)
qed

lemma without_member_total:
  assumes c: "container_in t c" and i: "i < length (c_members c)"
  shows "\<exists>x. without_member t c i = ret x"
proof -
  define m where "m = c_members c ! i"
  define prev where "prev = (if i + 1 = length (c_members c) \<and> m_comma m = None \<and> 0 < i then m_comma (c_members c ! (i - 1)) else None)"
  have mem: "m \<in> set (c_members c)" using i by (simp add: m_def)
  note m = member_in [OF c mem]
  have prev: "k < m_start m \<and> k < length t \<and> t ! k = 0x2C" if "prev = Some k" for k
  proof -
    have "0 < i" "m_comma (c_members c ! (i - 1)) = Some k" using that by (auto simp: prev_def split: if_splits)
    moreover obtain lo where "follow t (is_object c) lo (c_members c)" using c by (auto simp: container_in_def)
    ultimately show ?thesis
      using follow_nth [of t "is_object c" lo "c_members c" i] i member_in(10) [OF c, of "c_members c ! (i - 1)" k]
      by (auto simp: m_def after_member_at_def)
  qed
  obtain a b where a: "a \<le> m_start m" "line_start t (m_start m) = ret a" "starts_line t (m_start m) = ret b"
    using line_total [OF m(6)] by blast
  have run: "without_member t c i =
      (case (if b then rest_of_line t (after_member_at m) else None) of
         Some line_end \<Rightarrow>
           run_bind (past_line_break t line_end) (\<lambda>b.
             case prev of
               Some comma \<Rightarrow> run_bind (text_range (comma + 1) a t) (\<lambda>kept. replace_range comma b kept t)
             | None \<Rightarrow> replace_range a b [] t)
       | None \<Rightarrow>
           (case (m_comma m, prev) of
              (Some comma, _) \<Rightarrow>
                run_bind (text_from (comma + 1) t) (\<lambda>rest.
                replace_range (m_start m) (comma + 1 + length (takeWhile is_blank rest)) [] t)
            | (None, Some comma) \<Rightarrow> replace_range comma (value_end m) [] t
            | (None, None) \<Rightarrow> replace_range (m_start m) (value_end m) [] t))"
    using i a by (auto simp: without_member_def m_def [symmetric] prev_def cong: if_cong option.case_cong)
  show ?thesis
  proof (cases "if b then rest_of_line t (after_member_at m) else None")
    case line: (Some e)
    then have "b" "e \<le> length t" using rest_of_line_in [OF _ m(4)] by (auto split: if_splits)
    then obtain e' where e': "e' \<le> length t" "past_line_break t e = ret e'" using line_total [of e t] by blast
    show ?thesis
    proof (cases prev)
      case None
      then show ?thesis using line e' a m(6) by (simp add: run)
    next
      case (Some k)
      have "k + 1 \<le> a" using comma_before_line [of t "m_start m" a k] a \<open>b\<close> prev [OF Some] by simp
      then show ?thesis using line Some e' a m(6) by (simp add: run)
    qed
  next
    case no_line: None
    show ?thesis
    proof (cases "m_comma m")
      case (Some k)
      have "length (takeWhile is_blank (drop (k + 1) t)) \<le> length t - (k + 1)" "k + 1 \<le> length t"
        using length_takeWhile_le [of is_blank "drop (k + 1) t"] m(10) [OF Some] by simp_all
      then show ?thesis using no_line Some m(6) by (simp add: run)
    next
      case None
      then show ?thesis using no_line m(6,8) prev by (cases prev) (fastforce simp: run)+
    qed
  qed
qed

lemma remove_total:
  assumes "json_validate d u t = None"
  shows "replies (remove_once d u t path)"
proof -
  consider target where "locate d u t path = ret target" | e where "locate d u t path = refuse (PathError e)"
    | p n i where "locate d u t path = refuse (RangeError p n i)"
    using replies_locate [OF assms, of path] by (auto simp: replies_def)
  then show ?thesis
  proof cases
    case (1 target)
    show ?thesis
    proof (cases target)
      case (Member c i)
      then obtain x where "without_member t c i = ret x" using located_in [OF 1] without_member_total [of t c i] by auto
      then show ?thesis using 1 Member by (simp add: remove_once_def ret_def) (simp add: replies_def ret_def)
    qed (use 1 in \<open>simp_all add: remove_once_def ret_def, simp_all add: replies_def ret_def\<close>)
  qed (auto simp: remove_once_def refuse_def replies_def)
qed

text \<open>
  C23: a valid text can be edited. Where the text and the new value are valid in the dialect, planning an edit, setting
  the value and each round of a removal answer, whatever the path: with a result, or by refusing the path or the index. No
  part of the text is taken backwards or beyond its end, no index is out of range, no lexer fails, no loop runs on and none
  of the assumptions the code states as a panic fails.
\<close>

theorem setting_answers:
  assumes "json_validate d u t = None" "json_validate d u v = None"
  shows "replies (plan_for d u t path) \<and> replies (edit d u t path (Some v)) \<and> replies (remove_once d u t path)"
proof -
  obtain st where st: "style_of d u t = ret st" using style_total [OF assms(1)] by blast
  then show ?thesis
    using assms set_total [OF assms(1)] planning_answers [OF assms(1)] remove_total [OF assms(1)] by (simp add: edit_def)
qed

lemma setting_answers_witness:
  "replies (edit Jsonc ascii_names [0x5B, 0x5B, 0x5D, 0x5D] [Index 1, Key [0x61]] (Some [0x7B, 0x7D]))"
proof -
  have "json_validate Jsonc ascii_names [0x5B, 0x5B, 0x5D, 0x5D] = None" "json_validate Jsonc ascii_names [0x7B, 0x7D] = None"
    by (simp_all add: steps cong: weak_congs let_weak_cong)
  then show ?thesis using setting_answers [of Jsonc ascii_names] by blast
qed

end
