(* ===== verification/JsonEditFaults.thy ===== *)
theory JsonEditFaults
  imports JsonEditTotal
begin

text \<open>Edits of valid texts that go wrong, evaluated.\<close>

text \<open>\<open>{\<close>, a line \<open>a:''//\<close> that U+2028 ends, \<open>}\<close>.\<close>

definition hidden_line :: utext where
  "hidden_line = [0x7B, 0x0A, 0x61, 0x3A, 0x27, 0x27, 0x2F, 0x2F, 0x2028, 0x7D, 0x0A]"

text \<open>The same with the key \<open>a\<close> once more, on a line of its own.\<close>

definition hidden_line_twice :: utext where
  "hidden_line_twice = [0x7B, 0x0A, 0x61, 0x3A, 0x27, 0x27, 0x2C, 0x0A, 0x61, 0x3A, 0x27, 0x27, 0x2F, 0x2F, 0x2028, 0x7D, 0x0A]"

lemma valid_examples:
  "json_validate Json5 u hidden_line = None" "json_validate Json5 u [0x27, 0x27] = None"
  "json_validate Json5 u hidden_line_twice = None"
  by (simp_all add: hidden_line_def hidden_line_twice_def steps cong: weak_congs let_weak_cong)

lemma hidden_line_style:
  "style_of Json5 u hidden_line =
     ret \<lparr>unit_text = [0x20, 0x20], newline = [0x0A], colon_text = [0x3A], separator_text = [0x20], trailing_commas = False,
          quote = Some 0x27, bare_keys = True\<rparr>"
  by (simp add: hidden_line_def steps cong: weak_congs let_weak_cong)

lemma hidden_line_located:
  "locate Json5 u hidden_line [Key [0x62]] =
     ret (Missing \<lparr>is_object = True, open_at = 0, close_at = 9,
       c_members = [\<lparr>m_start = 2, m_key = Some (Str [0x61], 3), value_start = 4, value_end = 6, m_comma = None\<rparr>]\<rparr> 0)"
  by (simp add: hidden_line_def steps cong: weak_congs let_weak_cong)

lemma hidden_line_twice_located:
  "locate Json5 u hidden_line_twice [Key [0x61]] =
     ret (Member \<lparr>is_object = True, open_at = 0, close_at = 15,
       c_members =
         [\<lparr>m_start = 2, m_key = Some (Str [0x61], 3), value_start = 4, value_end = 6, m_comma = Some 6\<rparr>,
          \<lparr>m_start = 8, m_key = Some (Str [0x61], 9), value_start = 10, value_end = 12, m_comma = None\<rparr>]\<rparr> 1)"
  by (simp add: hidden_line_twice_def steps cong: weak_congs let_weak_cong)

lemma hidden_line_twice_style: "\<exists>st. style_of Json5 u hidden_line_twice = ret st"
  by (simp add: hidden_line_twice_def steps cong: weak_congs let_weak_cong)

lemma unclosed_object:
  "style_of Json5 u [0x7B, 0x0A, 0x61, 0x3A, 0x27, 0x27, 0x0A] = Some (Inl Panicked)"
  by (simp add: steps cong: weak_congs let_weak_cong)

lemma hidden_line_twice_without:
  "remove_once Json5 u hidden_line_twice [Key [0x61]] = ret (Some ([0x7B, 0x0A, 0x61, 0x3A, 0x27, 0x27, 0x0A], True))"
  unfolding remove_once_def hidden_line_twice_located
  by (simp add: ret_def, simp add: hidden_line_twice_def steps cong: weak_congs let_weak_cong)

text \<open>
  In JSON5, U+2028 and U+2029 end a comment, but not the line \<open>rest_of_line\<close> looks for. So the new member is written
  after the object, and the text is no longer JSON5; and a removal takes the object's brace with the comment, after which
  the next round reads a text it takes to be valid, and panics.
\<close>

definition misplaced :: utext where
  "misplaced = [0x7B, 0x0A, 0x61, 0x3A, 0x27, 0x27, 0x2C, 0x2F, 0x2F, 0x2028, 0x7D, 0x0A, 0x62, 0x3A, 0x27, 0x27, 0x0A]"

lemma line_separator_misplaces_member:
  "json_validate Json5 u hidden_line = None" "edit Json5 u hidden_line [Key [0x62]] (Some [0x27, 0x27]) = ret misplaced"
  "json_validate Json5 u misplaced \<noteq> None"
proof -
  show "edit Json5 u hidden_line [Key [0x62]] (Some [0x27, 0x27]) = ret misplaced"
    by (simp add: edit_def valid_examples hidden_line_style set_value_def hidden_line_located,
        simp add: misplaced_def hidden_line_def steps cong: weak_congs let_weak_cong)
  show "json_validate Json5 u misplaced \<noteq> None"
    by (simp add: misplaced_def steps cong: weak_congs let_weak_cong)
qed (rule valid_examples)

lemma line_separator_panics:
  "json_validate Json5 u hidden_line_twice = None" "edit Json5 u hidden_line_twice [Key [0x61]] None = Some (Inl Panics)"
proof -
  obtain st where "style_of Json5 u hidden_line_twice = ret st" using hidden_line_twice_style by blast
  then show "edit Json5 u hidden_line_twice [Key [0x61]] None = Some (Inl Panics)"
    by (simp add: edit_def valid_examples hidden_line_twice_without
        remove_all.simps [of Json5 u hidden_line_twice] remove_all.simps [of Json5 u "[0x7B, 0x0A, 0x61, 0x3A, 0x27, 0x27, 0x0A]"]
        unclosed_object in_doc_panic)
qed (rule valid_examples)

text \<open>A new value that ends in a comment is one value of the dialect, yet what follows it is lost to the comment.\<close>

lemma commented_value_breaks_text:
  "json_validate Jsonc u [0x5B, 0x5B, 0x5D, 0x5D] = None" "json_validate Jsonc u [0x5B, 0x5D, 0x2F, 0x2F] = None"
  "edit Jsonc u [0x5B, 0x5B, 0x5D, 0x5D] [Index 0] (Some [0x5B, 0x5D, 0x2F, 0x2F]) = ret [0x5B, 0x5B, 0x5D, 0x2F, 0x2F, 0x5D]"
  "json_validate Jsonc u [0x5B, 0x5B, 0x5D, 0x2F, 0x2F, 0x5D] \<noteq> None"
proof -
  show v: "json_validate Jsonc u [0x5B, 0x5B, 0x5D, 0x5D] = None" "json_validate Jsonc u [0x5B, 0x5D, 0x2F, 0x2F] = None"
    "json_validate Jsonc u [0x5B, 0x5B, 0x5D, 0x2F, 0x2F, 0x5D] \<noteq> None"
    by (simp_all add: steps cong: weak_congs let_weak_cong)
  have st: "\<exists>st. style_of Jsonc u [0x5B, 0x5B, 0x5D, 0x5D] = ret st"
    by (simp add: steps cong: weak_congs let_weak_cong)
  have "set_value Jsonc u st [0x5B, 0x5B, 0x5D, 0x5D] [Index 0] [0x5B, 0x5D, 0x2F, 0x2F] = ret [0x5B, 0x5B, 0x5D, 0x2F, 0x2F, 0x5D]" for st
    by (simp add: steps cong: weak_congs let_weak_cong)
  then show "edit Jsonc u [0x5B, 0x5B, 0x5D, 0x5D] [Index 0] (Some [0x5B, 0x5D, 0x2F, 0x2F]) = ret [0x5B, 0x5B, 0x5D, 0x2F, 0x2F, 0x5D]"
    using st by (auto simp: edit_def v)
qed

end
