(* ===== verification/Cursor.thy ===== *)
theory Cursor
  imports Codec
begin

text \<open>
  Reading bytes off the front of a slice, and integers in network order: what the binary formats
  share (\<open>take\<close>, \<open>byte\<close> and \<open>be\<close> of \<open>msgpack.rs\<close> and \<open>cbor.rs\<close>). A cursor is what is left to read.
\<close>

section \<open>The cursor\<close>

definition cut :: "'e \<Rightarrow> nat \<Rightarrow> u8 list \<Rightarrow> 'e + u8 list \<times> u8 list" where
  "cut short n cur = (if length cur < n then Inl short else Inr (take n cur, drop n cur))"

definition cut_byte :: "'e \<Rightarrow> u8 list \<Rightarrow> 'e + u8 \<times> u8 list" where
  "cut_byte short cur = res_bind (cut short 1 cur) (\<lambda>(bs, cur). Inr (bs ! 0, cur))"

definition be_value :: "u8 list \<Rightarrow> u64" where
  "be_value bs = foldl (\<lambda>acc b. or (push_bit 8 acc) (ucast b)) 0 bs"

definition cut_be :: "'e \<Rightarrow> nat \<Rightarrow> u8 list \<Rightarrow> 'e + u64 \<times> u8 list" where
  "cut_be short n cur = res_bind (cut short n cur) (\<lambda>(bs, cur). Inr (be_value bs, cur))"

text \<open>\<open>to_be_bytes\<close> of the low \<open>k\<close> bytes.\<close>

definition be_bytes :: "nat \<Rightarrow> nat \<Rightarrow> u8 list" where
  "be_bytes k n = rev (le_bytes k n)"

lemma cut_append [simp]: "length bs = n \<Longrightarrow> cut e n (bs @ cur) = Inr (bs, cur)"
  by (simp add: cut_def)

lemma cut_Inr: "cut e n cur = Inr (bs, r) \<longleftrightarrow> cur = bs @ r \<and> length bs = n"
  by (auto simp: cut_def)

lemma cut_byte_Cons [simp]: "cut_byte e (b # cur) = Inr (b, cur)" "cut_byte e [] = Inl e"
  by (simp_all add: cut_byte_def cut_def)

lemma length_be_bytes [simp]: "length (be_bytes k n) = k"
  by (simp add: be_bytes_def)

lemma be_step:
  assumes "unat (acc :: u64) < 2 ^ 56"
  shows "unat (or (push_bit 8 acc) (ucast (b :: u8))) = 256 * unat acc + unat b"
proof -
  have "and (push_bit 8 acc) (ucast b :: u64) = 0"
    by (rule bit_eqI) (auto simp: bit_simps dest: bit_imp_le_length)
  then have "or (push_bit 8 acc) (ucast b) = push_bit 8 acc + ucast b"
    by (simp add: disjunctive_add_eq_or)
  also have "\<dots> = word_of_nat (256 * unat acc + unat b)"
    by (simp add: push_bit_eq_mult unsigned_ucast_eq mult.commute)
  finally have "or (push_bit 8 acc) (ucast b) = (word_of_nat (256 * unat acc + unat b) :: u64)" .
  moreover have "256 * unat acc + unat b < 2 ^ 64" using assms unat_bound [of b] by simp
  ultimately show ?thesis by (simp add: unat_of_nat del: of_nat_add of_nat_mult)
qed

lemma be_value_nat:
  assumes "length bs \<le> 8"
  shows "unat (be_value bs) = le_nat (rev bs)"
proof -
  have le: "le_nat (xs @ [b]) = le_nat xs + 256 ^ length xs * unat b" for xs b
    by (induction xs) (simp_all add: algebra_simps)
  have "length bs \<le> 8 \<Longrightarrow> unat (foldl (\<lambda>acc b. or (push_bit 8 acc) (ucast b)) 0 bs :: u64) = le_nat (rev bs)"
  proof (induction bs rule: rev_induct)
    case (snoc b bs)
    have "le_nat (rev bs) < 256 ^ length (rev bs)" by (rule le_nat_bound)
    also have "\<dots> \<le> 256 ^ 7" using snoc.prems by (intro power_increasing) simp_all
    finally have "le_nat (rev bs) < 2 ^ 56" by simp
    then show ?case using snoc be_step [of "foldl (\<lambda>acc b. or (push_bit 8 acc) (ucast b)) 0 bs" b] by simp
  qed simp
  then show ?thesis using assms by (simp add: be_value_def)
qed

lemma be_value_bytes: "k \<le> 8 \<Longrightarrow> unat (be_value (be_bytes k n)) = n mod 256 ^ k"
  by (simp add: be_value_nat be_bytes_def le_nat_bytes)

lemma cut_be_bytes: "k \<le> 8 \<Longrightarrow> n < 256 ^ k \<Longrightarrow> cut_be e k (be_bytes k n @ cur) = Inr (word_of_nat n, cur)"
proof -
  assume k: "k \<le> 8" and n: "n < 256 ^ k"
  have "(256::nat) ^ k \<le> 256 ^ 8" using k by (intro power_increasing) simp_all
  then have "n < 2 ^ 64" using n by simp
  then have "be_value (be_bytes k n) = word_of_nat n"
    using be_value_bytes [OF k, of n] n by (simp add: word_unat_eq_iff unat_of_nat)
  then show ?thesis by (simp add: cut_be_def)
qed

interpretation be64: fixed_codec 8 "\<lambda>w :: u64. be_bytes 8 (unat w)" be_value
proof
  show "length (be_bytes 8 (unat x)) = 8" for x :: u64 by simp
  show "be_value (be_bytes 8 (unat x)) = x" for x :: u64
    using be_value_bytes [of 8 "unat x"] unat_bound [of x] by (simp add: word_unat_eq_iff)
  show "be_bytes 8 (unat (be_value bs)) = bs" if "length bs = 8" for bs
    using that le_bytes_nat [of "rev bs"] by (simp add: be_value_nat be_bytes_def)
qed

end
