(* ===== verification/ScriptValue.thy ===== *)
theory ScriptValue
  imports JsNumber Cursor
begin

text \<open>
  A JavaScript value as it crosses into Rust (\<open>Value\<close> of \<open>crates/engine/src/value.rs\<close>), the property name a
  decoded map key becomes (\<open>to_property_key\<close> of \<open>js_number.rs\<close>), and the casts between doubles and
  integers the binary formats use. A string is its UTF-8 bytes.
\<close>

datatype script_value =
  VUndefined
| VNull
| VBool bool
| VNumber f64
| VBigInt int
| VString utf8
| VBytes "u8 list"
| VArray "script_value list"
| VObject "(utf8 \<times> script_value) list"
| VOther utf8

section \<open>Property names\<close>

definition ascii :: "utext \<Rightarrow> utf8" where
  "ascii = map word_of_nat"

definition int_text :: "int \<Rightarrow> utf8" where
  "int_text i = (if i < 0 then [0x2D] else []) @ ascii (decimal_text (nat \<bar>i\<bar>))"

fun join_elements :: "utf8 list \<Rightarrow> utf8" where
  "join_elements [] = []"
| "join_elements [p] = p"
| "join_elements (p # ps) = p @ [0x2C] @ join_elements ps"

fun to_property_key :: "script_value \<Rightarrow> utf8" where
  "to_property_key (VString s) = s"
| "to_property_key (VNumber x) = ascii (to_js_string x)"
| "to_property_key (VBigInt i) = int_text i"
| "to_property_key (VBool b) = ascii (text_of_string (if b then ''true'' else ''false''))"
| "to_property_key VNull = ascii (text_of_string ''null'')"
| "to_property_key VUndefined = ascii (text_of_string ''undefined'')"
| "to_property_key (VBytes bs) = join_elements (map (\<lambda>b. int_text (uint b)) bs)"
| "to_property_key (VArray items) =
     join_elements (map (\<lambda>v. if v = VNull \<or> v = VUndefined then [] else to_property_key v) items)"
| "to_property_key (VObject ms) = ascii (text_of_string ''[object Object]'')"
| "to_property_key (VOther s) = s"

section \<open>Casts\<close>

definition f64_of_nat :: "nat \<Rightarrow> f64" where
  "f64_of_nat n = f64_nearest n 1"

definition f64_of_int :: "int \<Rightarrow> f64" where
  "f64_of_int i = (if i < 0 then f64_neg (f64_of_nat (nat (- i))) else f64_of_nat (nat i))"

text \<open>A finite double toward zero, and whether nothing is lost: \<open>n.fract() == 0.0\<close>.\<close>

definition f64_magnitude :: "f64 \<Rightarrow> nat" where
  "f64_magnitude x = (let (m, e) = f64_parts x in m * 2 ^ nat e div 2 ^ nat (- e))"

definition f64_trunc :: "f64 \<Rightarrow> int" where
  "f64_trunc x = (if f64_negative x then - int (f64_magnitude x) else int (f64_magnitude x))"

definition f64_integral :: "f64 \<Rightarrow> bool" where
  "f64_integral x \<longleftrightarrow> f64_finite x \<and> (let (m, e) = f64_parts x in m * 2 ^ nat e mod 2 ^ nat (- e) = 0)"

text \<open>
  \<open>f64::from\<close> of a single: its bits widened, a subnormal by its value. A NaN comes out quiet, as hardware
  converts it.
\<close>

definition f64_of_f32 :: "u32 \<Rightarrow> f64" where
  "f64_of_f32 w =
     (let e = unat w div 2 ^ 23 mod 256; f = unat w mod 2 ^ 23;
          body =
            (if e = 255 then (if f = 0 then f64_inf else 2047 * 2 ^ 52 + (if f < 2 ^ 22 then f + 2 ^ 22 else f) * 2 ^ 29)
             else if e = 0 then unat (f64_nearest f (2 ^ 149))
             else (e + 896) * 2 ^ 52 + f * 2 ^ 29)
      in word_of_nat (if 2 ^ 31 \<le> unat w then 2 ^ 63 + body else body))"

section \<open>Integers survive as doubles\<close>

lemma abs_parts: "f64_parts (f64_abs x) = f64_parts x"
  by (simp add: f64_parts_def f64_abs_parts)

lemma integral_magnitude:
  assumes "f64_integral x"
  shows "f64_of_nat (f64_magnitude x) = f64_abs x"
proof (cases "f64_is_zero x")
  case True
  then have "f64_parts x = (0, - 1074)" by (simp add: f64_parts_def f64_is_zero_def)
  moreover have "f64_abs x = 0" using True by (simp add: f64_abs_parts)
  ultimately show ?thesis by (simp add: f64_of_nat_def f64_magnitude_def f64_nearest_def)
next
  case False
  obtain m e where me: "f64_parts x = (m, e)" by force
  have fin: "f64_finite x" and whole: "m * 2 ^ nat e mod 2 ^ nat (- e) = 0" using assms by (simp_all add: f64_integral_def me)
  have "f64_nearest (m * 2 ^ nat e) (2 ^ nat (- e)) = f64_abs x"
    using nearest_self(1) [of "f64_abs x" m e] False fin me by (simp add: f64_abs_parts abs_parts)
  moreover have "f64_magnitude x * 2 ^ nat (- e) = m * 2 ^ nat e"
    using whole by (simp add: f64_magnitude_def me) (metis dvd_div_mult_self mod_0_imp_dvd)
  then have "f64_nearest (f64_magnitude x) 1 = f64_nearest (m * 2 ^ nat e) (2 ^ nat (- e))"
    by (intro nearest_cong) simp_all
  ultimately show ?thesis by (simp add: f64_of_nat_def)
qed

lemma negative_zero: "f64_is_zero x \<Longrightarrow> f64_trunc x = 0"
  by (simp add: f64_trunc_def f64_magnitude_def f64_parts_def f64_is_zero_def)

lemma magnitude_zero: "f64_integral x \<Longrightarrow> f64_magnitude x = 0 \<Longrightarrow> f64_is_zero x"
  using integral_magnitude [of x] by (simp add: f64_of_nat_def f64_nearest_def f64_abs_parts(3) [symmetric])

text \<open>An integral double is back from its integer, but for the sign of zero.\<close>

lemma integral_int:
  assumes "f64_integral x"
  shows "f64_of_int (f64_trunc x) = (if f64_is_zero x then 0 else x)"
proof (cases "f64_is_zero x")
  case True
  then show ?thesis using negative_zero by (simp add: f64_of_int_def f64_of_nat_def f64_nearest_def)
next
  case False
  then have "0 < f64_magnitude x" using magnitude_zero assms by blast
  then show ?thesis using False integral_magnitude [OF assms] f64_sign_split [of x]
    by (auto simp: f64_of_int_def f64_trunc_def)
qed

end
