(* ===== verification/MsgPack.thy ===== *)
theory MsgPack
  imports ScriptValue
begin

text \<open>
  MessagePack (\<open>crates/runtime/src/msgpack.rs\<close>): the marker table, the check every decode runs behind, the
  reader into a value tree and the writer.
\<close>

definition MP_MAX_DEPTH :: nat where "MP_MAX_DEPTH = 256"

datatype mp_error = MpTruncated | MpReservedMarker | MpInvalidUtf8 | MpTooDeep | MpTrailingData

datatype mp_shape =
  Atom script_value
| StrOf nat
| BinOf nat
| UintOf nat
| IntOf nat
| FloatOf nat
| ArrayOf nat
| MapOf nat
| ExtOf nat

definition mp_len :: "(nat \<Rightarrow> mp_shape) \<Rightarrow> nat \<Rightarrow> u8 list \<Rightarrow> mp_error + mp_shape \<times> u8 list" where
  "mp_len f n cur = res_bind (cut_be MpTruncated n cur) (\<lambda>(w, cur). Inr (f (unat w), cur))"

text \<open>An extension's length comes before its type byte.\<close>

definition mp_ext :: "nat \<Rightarrow> u8 list \<Rightarrow> mp_error + mp_shape \<times> u8 list" where
  "mp_ext n cur =
     res_bind (cut_be MpTruncated n cur) (\<lambda>(w, cur).
     res_bind (cut_byte MpTruncated cur) (\<lambda>(_, cur). Inr (ExtOf (unat w), cur)))"

definition mp_shape :: "u8 list \<Rightarrow> mp_error + mp_shape \<times> u8 list" where
  "mp_shape cur =
     res_bind (cut_byte MpTruncated cur) (\<lambda>(m, cur).
       if m \<le> 0x7F then Inr (Atom (VNumber (f64_of_nat (unat m))), cur)
       else if 0xE0 \<le> m then Inr (Atom (VNumber (f64_of_int (sint m))), cur)
       else if m \<le> 0x8F then Inr (MapOf (unat (and m 0x0F)), cur)
       else if m \<le> 0x9F then Inr (ArrayOf (unat (and m 0x0F)), cur)
       else if m \<le> 0xBF then Inr (StrOf (unat (and m 0x1F)), cur)
       else if m = 0xC0 then Inr (Atom VNull, cur)
       else if m = 0xC1 then Inl MpReservedMarker
       else if m = 0xC2 then Inr (Atom (VBool False), cur)
       else if m = 0xC3 then Inr (Atom (VBool True), cur)
       else if m = 0xC4 then mp_len BinOf 1 cur
       else if m = 0xC5 then mp_len BinOf 2 cur
       else if m = 0xC6 then mp_len BinOf 4 cur
       else if m = 0xC7 then mp_ext 1 cur
       else if m = 0xC8 then mp_ext 2 cur
       else if m = 0xC9 then mp_ext 4 cur
       else if m = 0xCA then Inr (FloatOf 4, cur)
       else if m = 0xCB then Inr (FloatOf 8, cur)
       else if m = 0xCC then Inr (UintOf 1, cur)
       else if m = 0xCD then Inr (UintOf 2, cur)
       else if m = 0xCE then Inr (UintOf 4, cur)
       else if m = 0xCF then Inr (UintOf 8, cur)
       else if m = 0xD0 then Inr (IntOf 1, cur)
       else if m = 0xD1 then Inr (IntOf 2, cur)
       else if m = 0xD2 then Inr (IntOf 4, cur)
       else if m = 0xD3 then Inr (IntOf 8, cur)
       else if m \<le> 0xD8 then
         res_bind (cut_byte MpTruncated cur) (\<lambda>(_, cur). Inr (ExtOf (2 ^ unat (m - 0xD4)), cur))
       else if m = 0xD9 then mp_len StrOf 1 cur
       else if m = 0xDA then mp_len StrOf 2 cur
       else if m = 0xDB then mp_len StrOf 4 cur
       else if m = 0xDC then mp_len ArrayOf 2 cur
       else if m = 0xDD then mp_len ArrayOf 4 cur
       else if m = 0xDE then mp_len MapOf 2 cur
       else mp_len MapOf 4 cur)"

section \<open>Scanning\<close>

definition is_str_marker :: "u8 \<Rightarrow> bool" where
  "is_str_marker m \<longleftrightarrow> 0xA0 \<le> m \<and> m \<le> 0xBF \<or> 0xD9 \<le> m \<and> m \<le> 0xDB"

definition str_next :: "u8 list \<Rightarrow> bool" where
  "str_next cur = (case cur of m # _ \<Rightarrow> is_str_marker m | [] \<Rightarrow> False)"

text \<open>The flag is whether a byte string, an extension or a key that is no string was found so far.\<close>

function scan_one :: "nat \<Rightarrow> u8 list \<Rightarrow> bool \<Rightarrow> mp_error + bool \<times> u8 list"
  and scan_items :: "nat \<Rightarrow> nat \<Rightarrow> u8 list \<Rightarrow> bool \<Rightarrow> mp_error + bool \<times> u8 list"
  and scan_pairs :: "nat \<Rightarrow> nat \<Rightarrow> u8 list \<Rightarrow> bool \<Rightarrow> mp_error + bool \<times> u8 list" where
  "scan_one depth cur found =
     (if depth > MP_MAX_DEPTH then Inl MpTooDeep
      else
        res_bind (mp_shape cur) (\<lambda>(sh, cur).
          case sh of
            Atom _ \<Rightarrow> Inr (found, cur)
          | StrOf n \<Rightarrow>
              res_bind (cut MpTruncated n cur) (\<lambda>(raw, cur).
                if utf8_valid raw then Inr (found, cur) else Inl MpInvalidUtf8)
          | UintOf n \<Rightarrow> res_bind (cut MpTruncated n cur) (\<lambda>(_, cur). Inr (found, cur))
          | IntOf n \<Rightarrow> res_bind (cut MpTruncated n cur) (\<lambda>(_, cur). Inr (found, cur))
          | FloatOf n \<Rightarrow> res_bind (cut MpTruncated n cur) (\<lambda>(_, cur). Inr (found, cur))
          | BinOf n \<Rightarrow> res_bind (cut MpTruncated n cur) (\<lambda>(_, cur). Inr (True, cur))
          | ExtOf n \<Rightarrow> res_bind (cut MpTruncated n cur) (\<lambda>(_, cur). Inr (True, cur))
          | ArrayOf n \<Rightarrow> scan_items (depth + 1) n cur found
          | MapOf n \<Rightarrow> scan_pairs (depth + 1) n cur found))"
| "scan_items depth 0 cur found = Inr (found, cur)"
| "scan_items depth (Suc n) cur found =
     res_bind (scan_one depth cur found) (\<lambda>(found, cur). scan_items depth n cur found)"
| "scan_pairs depth 0 cur found = Inr (found, cur)"
| "scan_pairs depth (Suc n) cur found =
     res_bind (scan_one depth cur (found \<or> \<not> str_next cur)) (\<lambda>(found, cur).
     res_bind (scan_one depth cur found) (\<lambda>(found, cur). scan_pairs depth n cur found))"
  by pat_completeness auto
termination
  by (relation "inv_image (less_than <*lex*> less_than)
        (\<lambda>x. case x of Inl (depth, _, _) \<Rightarrow> (2 * (MP_MAX_DEPTH + 1 - depth), 0 :: nat)
           | Inr (Inl (depth, n, _, _)) \<Rightarrow> (2 * (MP_MAX_DEPTH + 1 - depth) + 1, n)
           | Inr (Inr (depth, n, _, _)) \<Rightarrow> (2 * (MP_MAX_DEPTH + 1 - depth) + 1, n))") auto

definition needs_value_tree :: "u8 list \<Rightarrow> mp_error + bool" where
  "needs_value_tree bytes =
     res_bind (scan_one 0 bytes False) (\<lambda>(found, cur). if cur = [] then Inr found else Inl MpTrailingData)"

definition mp_validate :: "u8 list \<Rightarrow> mp_error + unit" where
  "mp_validate bytes = res_bind (needs_value_tree bytes) (\<lambda>_. Inr ())"

section \<open>Decoding\<close>

definition sign_extend :: "u64 \<Rightarrow> nat \<Rightarrow> int" where
  "sign_extend raw n =
     (let bits = n * 8 in
      if bits = 64 then sint raw
      else (let shift = 64 - bits in drop_bit shift (sint (push_bit shift raw))))"

function mp_read :: "nat \<Rightarrow> u8 list \<Rightarrow> mp_error + script_value \<times> u8 list"
  and mp_read_key :: "nat \<Rightarrow> u8 list \<Rightarrow> mp_error + utf8 \<times> u8 list"
  and mp_read_items :: "nat \<Rightarrow> nat \<Rightarrow> u8 list \<Rightarrow> mp_error + script_value list \<times> u8 list"
  and mp_read_pairs :: "nat \<Rightarrow> nat \<Rightarrow> u8 list \<Rightarrow> mp_error + (utf8 \<times> script_value) list \<times> u8 list" where
  "mp_read depth cur =
     (if depth > MP_MAX_DEPTH then Inl MpTooDeep
      else
        res_bind (mp_shape cur) (\<lambda>(sh, cur).
          case sh of
            Atom v \<Rightarrow> Inr (v, cur)
          | StrOf n \<Rightarrow>
              res_bind (cut MpTruncated n cur) (\<lambda>(raw, cur).
                if utf8_valid raw then Inr (VString raw, cur) else Inl MpInvalidUtf8)
          | BinOf n \<Rightarrow> res_bind (cut MpTruncated n cur) (\<lambda>(raw, cur). Inr (VBytes raw, cur))
          | UintOf n \<Rightarrow> res_bind (cut_be MpTruncated n cur) (\<lambda>(w, cur). Inr (VNumber (f64_of_nat (unat w)), cur))
          | IntOf n \<Rightarrow>
              res_bind (cut_be MpTruncated n cur) (\<lambda>(w, cur). Inr (VNumber (f64_of_int (sign_extend w n)), cur))
          | FloatOf n \<Rightarrow>
              if n = 4 then res_bind (cut_be MpTruncated 4 cur) (\<lambda>(w, cur). Inr (VNumber (f64_of_f32 (ucast w)), cur))
              else res_bind (cut_be MpTruncated 8 cur) (\<lambda>(w, cur). Inr (VNumber w, cur))
          | ExtOf n \<Rightarrow> res_bind (cut MpTruncated n cur) (\<lambda>(raw, cur). Inr (VBytes raw, cur))
          | ArrayOf n \<Rightarrow> res_bind (mp_read_items (depth + 1) n cur) (\<lambda>(vs, cur). Inr (VArray vs, cur))
          | MapOf n \<Rightarrow> res_bind (mp_read_pairs (depth + 1) n cur) (\<lambda>(ms, cur). Inr (VObject ms, cur))))"
| "mp_read_key depth cur =
     (if depth > MP_MAX_DEPTH then Inl MpTooDeep
      else
        res_bind (mp_shape cur) (\<lambda>(sh, ahead).
          case sh of
            UintOf n \<Rightarrow> res_bind (cut_be MpTruncated n ahead) (\<lambda>(w, cur). Inr (int_text (uint w), cur))
          | IntOf n \<Rightarrow> res_bind (cut_be MpTruncated n ahead) (\<lambda>(w, cur). Inr (int_text (sign_extend w n), cur))
          | _ \<Rightarrow> res_bind (mp_read depth cur) (\<lambda>(v, cur). Inr (to_property_key v, cur))))"
| "mp_read_items depth 0 cur = Inr ([], cur)"
| "mp_read_items depth (Suc n) cur =
     res_bind (mp_read depth cur) (\<lambda>(v, cur).
     res_bind (mp_read_items depth n cur) (\<lambda>(vs, cur). Inr (v # vs, cur)))"
| "mp_read_pairs depth 0 cur = Inr ([], cur)"
| "mp_read_pairs depth (Suc n) cur =
     res_bind (mp_read_key depth cur) (\<lambda>(k, cur).
     res_bind (mp_read depth cur) (\<lambda>(v, cur).
     res_bind (mp_read_pairs depth n cur) (\<lambda>(ms, cur). Inr ((k, v) # ms, cur))))"
  by pat_completeness auto
termination
  by (relation "inv_image (less_than <*lex*> less_than)
        (\<lambda>x. case x of Inl (Inl (depth, _)) \<Rightarrow> (3 * (MP_MAX_DEPTH + 1 - depth), 0 :: nat)
           | Inl (Inr (depth, _)) \<Rightarrow> (3 * (MP_MAX_DEPTH + 1 - depth) + 1, 0)
           | Inr (Inl (depth, n, _)) \<Rightarrow> (3 * (MP_MAX_DEPTH + 1 - depth) + 2, n)
           | Inr (Inr (depth, n, _)) \<Rightarrow> (3 * (MP_MAX_DEPTH + 1 - depth) + 2, n))") auto

declare scan_one.simps [simp del] mp_read.simps [simp del] mp_read_key.simps [simp del]

definition mp_read_value :: "u8 list \<Rightarrow> mp_error + script_value" where
  "mp_read_value bytes =
     res_bind (mp_read 0 bytes) (\<lambda>(v, cur). if cur = [] then Inr v else Inl MpTrailingData)"

section \<open>Encoding\<close>

datatype mp_encode_error = MpNestsTooDeep | MpCannotEncode script_value

definition write_len :: "u8 \<Rightarrow> nat \<Rightarrow> u8 option \<Rightarrow> u8 \<Rightarrow> u8 \<Rightarrow> nat \<Rightarrow> u8 list" where
  "write_len fix_base fix_max m8 m16 m32 n =
     (if n \<le> fix_max then [or fix_base (word_of_nat n)]
      else
        (case m8 of
           Some m \<Rightarrow>
             if n \<le> 0xFF then [m, word_of_nat n]
             else if n \<le> 0xFFFF then m16 # be_bytes 2 n
             else m32 # be_bytes 4 n
         | None \<Rightarrow> if n \<le> 0xFFFF then m16 # be_bytes 2 n else m32 # be_bytes 4 n))"

definition write_str_len :: "nat \<Rightarrow> u8 list" where
  "write_str_len = write_len 0xA0 0x1F (Some 0xD9) 0xDA 0xDB"

definition write_bin_len :: "nat \<Rightarrow> u8 list" where
  "write_bin_len n =
     (if n \<le> 0xFF then [0xC4, word_of_nat n]
      else if n \<le> 0xFFFF then 0xC5 # be_bytes 2 n
      else 0xC6 # be_bytes 4 n)"

text \<open>The bytes of an \<open>i64\<close> cut to \<open>k\<close>: \<open>(i as iN).to_be_bytes()\<close>.\<close>

definition int_bytes :: "nat \<Rightarrow> int \<Rightarrow> u8 list" where
  "int_bytes k i = be_bytes k (nat (i mod 256 ^ k))"

definition mp_write_int :: "int \<Rightarrow> u8 list" where
  "mp_write_int i =
     (if i \<ge> 0 then
        (let u = nat i in
         if u < 128 then [word_of_nat u]
         else if u \<le> 0xFF then [0xCC, word_of_nat u]
         else if u \<le> 0xFFFF then 0xCD # be_bytes 2 u
         else if u \<le> 0xFFFFFFFF then 0xCE # be_bytes 4 u
         else 0xCF # be_bytes 8 u)
      else if i \<ge> - 32 then [word_of_int i]
      else if i \<ge> - (2 ^ 7) then [0xD0, word_of_int i]
      else if i \<ge> - (2 ^ 15) then 0xD1 # int_bytes 2 i
      else if i \<ge> - (2 ^ 31) then 0xD2 # int_bytes 4 i
      else 0xD3 # int_bytes 8 i)"

definition mp_write_number :: "f64 \<Rightarrow> u8 list" where
  "mp_write_number x =
     (if f64_integral x \<and> - (2 ^ 63) \<le> f64_trunc x \<and> f64_trunc x < 2 ^ 63 then mp_write_int (f64_as_i64 x)
      else 0xCB # be_bytes 8 (unat x))"

fun mp_write :: "nat \<Rightarrow> script_value \<Rightarrow> mp_encode_error + u8 list"
  and mp_write_items :: "nat \<Rightarrow> script_value list \<Rightarrow> mp_encode_error + u8 list"
  and mp_write_entries :: "nat \<Rightarrow> (utf8 \<times> script_value) list \<Rightarrow> mp_encode_error + u8 list" where
  "mp_write depth v =
     (if depth > MP_MAX_DEPTH then Inl MpNestsTooDeep
      else
        (case v of
           VUndefined \<Rightarrow> Inr [0xC0]
         | VNull \<Rightarrow> Inr [0xC0]
         | VBool b \<Rightarrow> Inr [if b then 0xC3 else 0xC2]
         | VNumber x \<Rightarrow> Inr (mp_write_number x)
         | VString s \<Rightarrow> Inr (write_str_len (length s) @ s)
         | VBytes b \<Rightarrow> Inr (write_bin_len (length b) @ b)
         | VArray items \<Rightarrow>
             res_bind (mp_write_items (depth + 1) items) (\<lambda>out.
               Inr (write_len 0x90 0x0F None 0xDC 0xDD (length items) @ out))
         | VObject entries \<Rightarrow>
             res_bind (mp_write_entries (depth + 1) entries) (\<lambda>out.
               Inr (write_len 0x80 0x0F None 0xDE 0xDF (length entries) @ out))
         | other \<Rightarrow> Inl (MpCannotEncode other)))"
| "mp_write_items depth [] = Inr []"
| "mp_write_items depth (v # vs) =
     res_bind (mp_write depth v) (\<lambda>out. res_bind (mp_write_items depth vs) (\<lambda>more. Inr (out @ more)))"
| "mp_write_entries depth [] = Inr []"
| "mp_write_entries depth ((k, v) # ms) =
     res_bind (mp_write depth v) (\<lambda>out.
     res_bind (mp_write_entries depth ms) (\<lambda>more. Inr (write_str_len (length k) @ k @ out @ more)))"

declare mp_write.simps [simp del]

definition mp_write_value :: "script_value \<Rightarrow> mp_encode_error + u8 list" where
  "mp_write_value v = mp_write 0 v"

section \<open>What the check answers for\<close>

text \<open>Two answers about the same bytes: the same error, or the same rest and \<open>P\<close>.\<close>

definition answers :: "(bool \<Rightarrow> 'a \<Rightarrow> bool) \<Rightarrow> mp_error + bool \<times> u8 list \<Rightarrow> mp_error + 'a \<times> u8 list \<Rightarrow> bool" where
  "answers P s r \<longleftrightarrow>
     (case (s, r) of
        (Inl e, Inl e') \<Rightarrow> e = e'
      | (Inr (f, cur), Inr (v, cur')) \<Rightarrow> cur = cur' \<and> P f v
      | _ \<Rightarrow> False)"

text \<open>No byte string anywhere in the value.\<close>

fun json_shaped :: "script_value \<Rightarrow> bool" where
  "json_shaped (VBytes b) = False"
| "json_shaped (VArray vs) = list_all json_shaped vs"
| "json_shaped (VObject ms) = list_all (\<lambda>(k, v). json_shaped v) ms"
| "json_shaped v = True"

lemma answers_bind:
  assumes "answers P s r"
    and "\<And>f v cur. s = Inr (f, cur) \<Longrightarrow> r = Inr (v, cur) \<Longrightarrow> P f v \<Longrightarrow> answers Q (g (f, cur)) (h (v, cur))"
  shows "answers Q (res_bind s g) (res_bind r h)"
  using assms by (cases s; cases r) (auto simp: answers_def)

end
