(* ===== verification/MsgPackProofs.thy ===== *)
theory MsgPackProofs
  imports MsgPack
begin

lemma float_shape: "mp_shape cur = Inr (FloatOf n, r) \<Longrightarrow> n = 4 \<or> n = 8"
  by (auto simp: mp_shape_def mp_len_def mp_ext_def res_bind_Inr_iff split: if_splits)

lemma atom_shape: "mp_shape cur = Inr (Atom v, r) \<Longrightarrow> json_shaped v"
  by (auto simp: mp_shape_def mp_len_def mp_ext_def res_bind_Inr_iff split: if_splits)

lemma answers_cut:
  "(\<And>raw r. answers P (g (raw, r)) (h (raw, r))) \<Longrightarrow> answers P (res_bind (cut e n cur) g) (res_bind (cut e n cur) h)"
  by (cases "cut e n cur") (auto simp: answers_def)

lemma answers_Inr [simp]: "answers P (Inr (f, cur)) (Inr (v, cur)) \<longleftrightarrow> P f v"
  by (simp add: answers_def)

lemma answers_Inl [simp]: "answers P (Inl e) (Inl e)"
  by (simp add: answers_def)

lemma answers_cut_be:
  "(\<And>raw r. answers P (g (raw, r)) (h (be_value raw, r))) \<Longrightarrow>
    answers P (res_bind (cut e n cur) g) (res_bind (cut_be e n cur) h)"
proof (cases "cut e n cur")
  case (Inl d)
  then show ?thesis by (simp add: cut_be_def)
next
  case (Inr x)
  obtain raw r where x: "x = (raw, r)" by force
  assume "\<And>raw r. answers P (g (raw, r)) (h (be_value raw, r))"
  moreover have "cut_be e n cur = Inr (be_value raw, r)" using Inr x by (simp add: cut_be_def)
  ultimately show ?thesis using Inr x by simp
qed

lemma answers_mono: "answers P s r \<Longrightarrow> (\<And>f v. P f v \<Longrightarrow> Q f v) \<Longrightarrow> answers Q s r"
  by (auto simp: answers_def split: sum.splits prod.splits)

lemma answers_shape:
  "(\<And>sh r. mp_shape cur = Inr (sh, r) \<Longrightarrow> answers P (g (sh, r)) (h (sh, r))) \<Longrightarrow>
    answers P (res_bind (mp_shape cur) g) (res_bind (mp_shape cur) h)"
  by (cases "mp_shape cur") (auto simp: answers_def)

lemma answers_wrap:
  "answers P s r \<Longrightarrow> (\<And>f v. P f v \<Longrightarrow> Q f (c v)) \<Longrightarrow> answers Q s (res_bind r (\<lambda>(v, cur). Inr (c v, cur)))"
  by (cases s; cases r) (auto simp: answers_def)

lemma scan_reads:
  shows "answers (\<lambda>f v. \<not> f \<longrightarrow> \<not> f0 \<and> json_shaped v) (scan_one depth cur f0) (mp_read depth cur)"
    and "answers (\<lambda>f k. \<not> f \<longrightarrow> \<not> f0) (scan_one depth cur f0) (mp_read_key depth cur)"
    and "answers (\<lambda>f vs. \<not> f \<longrightarrow> \<not> f0 \<and> list_all json_shaped vs) (scan_items depth n cur f0) (mp_read_items depth n cur)"
    and "answers (\<lambda>f ms. \<not> f \<longrightarrow> \<not> f0 \<and> list_all (\<lambda>(k, v). json_shaped v) ms) (scan_pairs depth n cur f0) (mp_read_pairs depth n cur)"
proof (induction depth cur and depth cur and depth n cur and depth n cur arbitrary: f0 and f0 and f0 and f0
    rule: mp_read_mp_read_key_mp_read_items_mp_read_pairs.induct)
  case (1 depth cur)
  note ih = 1
  show ?case
  proof (cases "depth > MP_MAX_DEPTH")
    case False
    show ?thesis
    proof (simp only: scan_one.simps [of depth cur f0] mp_read.simps [of depth cur] False if_False, rule answers_shape, goal_cases)
      case (1 sh r)
      show ?case
      proof (cases sh)
        case (Atom v)
        then show ?thesis using atom_shape 1 by simp
      next
        case (FloatOf n)
        then show ?thesis using float_shape [of cur n r] 1 by (auto intro!: answers_cut_be)
      next
        case (ArrayOf n)
        show ?thesis unfolding ArrayOf prod.case mp_shape.case
          by (rule answers_wrap [OF ih(1) [OF False 1 refl ArrayOf]]) simp
      next
        case (MapOf n)
        show ?thesis unfolding MapOf prod.case mp_shape.case
          by (rule answers_wrap [OF ih(2) [OF False 1 refl MapOf]]) simp
      qed (auto intro!: answers_cut answers_cut_be)
    qed
  qed (simp add: scan_one.simps [of depth cur] mp_read.simps [of depth cur])
next
  case (2 depth cur)
  show ?case
  proof (cases "depth > MP_MAX_DEPTH")
    case False
    show ?thesis
    proof (cases "mp_shape cur")
      case (Inr x)
      obtain sh r where x: "x = (sh, r)" by force
      consider n where "sh = UintOf n" | n where "sh = IntOf n" | "\<forall>n. sh \<noteq> UintOf n \<and> sh \<noteq> IntOf n" by (cases sh) auto
      then show ?thesis
      proof cases
        case 1
        then show ?thesis using False Inr x
          by (auto simp: scan_one.simps [of depth cur f0] mp_read_key.simps [of depth cur] intro!: answers_cut_be)
      next
        case 2
        then show ?thesis using False Inr x
          by (auto simp: scan_one.simps [of depth cur f0] mp_read_key.simps [of depth cur] intro!: answers_cut_be)
      next
        case 3
        then have "mp_read_key depth cur = res_bind (mp_read depth cur) (\<lambda>(v, cur). Inr (to_property_key v, cur))"
          using False Inr x by (cases sh) (simp_all add: mp_read_key.simps [of depth cur])
        moreover have "answers (\<lambda>f v. \<not> f \<longrightarrow> \<not> f0 \<and> json_shaped v) (scan_one depth cur f0) (mp_read depth cur)"
          using 2 False Inr x 3 by (cases sh) auto
        ultimately show ?thesis by (auto intro: answers_wrap)
      qed
    qed (use False in \<open>simp add: scan_one.simps [of depth cur] mp_read_key.simps [of depth cur]\<close>)
  qed (simp add: scan_one.simps [of depth cur] mp_read_key.simps [of depth cur])
next
  case (4 depth n cur)
  have "answers (\<lambda>f vs. \<not> f \<longrightarrow> \<not> f0 \<and> list_all json_shaped vs) (scan_items depth n r f)
      (res_bind (mp_read_items depth n r) (\<lambda>(vs, cur). Inr (v # vs, cur)))"
    if "mp_read depth cur = Inr (v, r)" "\<not> f \<longrightarrow> \<not> f0 \<and> json_shaped v" for f v r
    using that by (intro answers_wrap [OF 4(2) [OF that(1) refl, of f]]) auto
  then show ?case by (auto intro: answers_bind [OF 4(1)])
next
  case (6 depth n cur)
  let ?ok = "\<lambda>f ms. \<not> f \<longrightarrow> \<not> f0 \<and> list_all (\<lambda>(k, v). json_shaped v) ms"
  have rest: "answers ?ok (scan_pairs depth n r f) (res_bind (mp_read_pairs depth n r) (\<lambda>(ms, cur). Inr ((k, v) # ms, cur)))"
    if "mp_read_key depth cur = Inr (k, r0)" "mp_read depth r0 = Inr (v, r)" "\<not> f \<longrightarrow> \<not> f0 \<and> json_shaped v" for f k v r r0
    using that by (intro answers_wrap [OF 6(3) [OF that(1) refl that(2) refl, of f]]) auto
  have "answers ?ok (res_bind (scan_one depth r0 f) (\<lambda>(f, cur). scan_pairs depth n cur f))
      (res_bind (mp_read depth r0) (\<lambda>(v, cur). res_bind (mp_read_pairs depth n cur) (\<lambda>(ms, cur). Inr ((k, v) # ms, cur))))"
    if "mp_read_key depth cur = Inr (k, r0)" "\<not> f \<longrightarrow> \<not> f0" for f k r0
    using that rest [OF that(1)] by (intro answers_bind [OF 6(2) [OF that(1) refl, of f]]) auto
  then show ?case by (auto intro: answers_bind [OF 6(1)])
qed simp_all

text \<open>
  C31: the check is the decoder. On any bytes, the walk that builds nothing answers an error exactly when
  the decoder does, and the same one; and where it finds nothing JSON lacks, the value decoded has no byte
  string anywhere.
\<close>

theorem check_is_decoder:
  "(case needs_value_tree bytes of
      Inl e \<Rightarrow> mp_read_value bytes = Inl e \<and> mp_validate bytes = Inl e
    | Inr found \<Rightarrow> mp_validate bytes = Inr () \<and> (\<exists>v. mp_read_value bytes = Inr v \<and> (found \<or> json_shaped v)))"
proof -
  have "answers (\<lambda>f v. \<not> f \<longrightarrow> \<not> False \<and> json_shaped v) (scan_one 0 bytes False) (mp_read 0 bytes)" by (rule scan_reads)
  then show ?thesis
    unfolding needs_value_tree_def mp_read_value_def mp_validate_def
    by (auto simp: answers_def res_bind_def split: sum.splits prod.splits if_splits)
qed

end
