(* ===== verification/Casts.thy ===== *)
theory Casts
  imports ScriptValue
begin

text \<open>
  Casts of doubles and marker bytes: lemmas the proofs about the binary formats share.
\<close>

section \<open>Casts in range\<close>

lemma div_of_mod: "0 < a \<Longrightarrow> u mod (a * c) div a = u div a mod (c :: nat)"
  by (simp add: mod_mult2_eq)

lemma bit63_negative: "bit (x :: u64) 63 \<longleftrightarrow> f64_negative x"
proof -
  have "bit x 63 \<longleftrightarrow> bit (unat x) 63" by (simp add: bit_unsigned_iff)
  also have "\<dots> \<longleftrightarrow> odd (unat x div 2 ^ 63)" by (rule bit_iff_odd)
  finally have "bit x 63 \<longleftrightarrow> odd (unat x div 2 ^ 63)" .
  moreover have "unat x < 2 ^ 64" using unat_bound [of x] by simp
  then have "unat x div 2 ^ 63 = (if f64_negative x then 1 else 0)"
    by (cases "f64_negative x") (simp_all add: f64_negative_def le_div_geq)
  ultimately show ?thesis by simp
qed

lemma as_i64_trunc:
  assumes "f64_finite x" "- (2 ^ 63) \<le> f64_trunc x" "f64_trunc x < 2 ^ 63"
  shows "f64_as_i64 x = f64_trunc x"
proof -
  define b where "b = unat x mod 2 ^ 63"
  define E where "E = b div 2 ^ 52"
  define f where "f = b mod 2 ^ 52"
  have b: "b < f64_inf" using assms(1) by (simp add: f64_finite_def b_def)
  have E: "E < 2047" using b by (simp add: E_def f64_inf_def less_mult_imp_div_less)
  have f: "f < 2 ^ 52" by (simp add: f_def)
  have u: "uint x = int (unat x)" by (rule uint_nat)
  have ux: "unat x < 2 ^ 64" using unat_bound [of x] by simp
  have "unat x div 2 ^ 52 mod 2048 = E"
    using div_of_mod [of "2 ^ 52" "unat x" 2048] by (simp add: E_def b_def)
  moreover have "uint (drop_bit 52 x) = int (unat x div 2 ^ 52)"
    unfolding unat_drop [symmetric] by simp
  moreover have "int (unat x div 2 ^ 52 mod 2048) = int (unat x div 2 ^ 52) mod 2048"
    by (simp only: of_nat_mod of_nat_numeral)
  ultimately have e: "uint (drop_bit 52 x) mod 2048 = int E" by argo
  have "unat x mod 2 ^ 52 = f" by (simp add: f_def b_def mod_mod_cancel)
  then have fx: "uint x mod 2 ^ 52 = int f" unfolding u by (metis of_nat_mod of_nat_numeral of_nat_power)
  have sign: "bit x 63 \<longleftrightarrow> f64_negative x" by (rule bit63_negative)
  define v where "v = (2 ^ 52 + f) * 2 ^ nat (int E - 1023) div 2 ^ 52"
  have parts: "f64_parts x = (if E = 0 then (f, - 1074) else (2 ^ 52 + f, int E - 1075))"
    unfolding f64_parts_def Let_def b_def [symmetric] E_def f_def ..
  have mag: "f64_magnitude x = (if E < 1023 then 0 else v)"
  proof -
    consider "E = 0" | "0 < E" "E < 1023" | "1023 \<le> E" "E < 1075" | "1075 \<le> E" by linarith
    then show ?thesis
    proof cases
      case 1
      have "f div 2 ^ nat 1074 = 0" using less_le_trans [OF f power_increasing [of 52 "nat 1074" 2]] by simp
      then show ?thesis using 1 by (simp only: f64_magnitude_def parts if_True prod.case minus_minus) simp
    next
      case 2
      have "53 \<le> nat (1075 - int E)" using 2 by simp
      from power_increasing [OF this, of "2::nat"] have "2 ^ 52 + f < 2 ^ nat (1075 - int E)" using f by simp
      moreover have "nat (int E - 1075) = 0" "- (int E - 1075) = 1075 - int E" using 2 by auto
      ultimately show ?thesis using 2 by (simp add: f64_magnitude_def parts)
    next
      case 3
      have "nat (int E - 1075) = 0" "nat (- (int E - 1075)) = 1075 - E" "nat (int E - 1023) = E - 1023" using 3 by auto
      moreover define c where "c = (2::nat) ^ (E - 1023)"
      have bc: "2 ^ (1075 - E) * c = 2 ^ 52" using 3 unfolding c_def by (simp only: power_add [symmetric]) simp
      have "v = (2 ^ 52 + f) * c div (2 ^ (1075 - E) * c)"
        by (simp only: v_def \<open>nat (int E - 1023) = E - 1023\<close> c_def [symmetric] bc)
      then have "v = (2 ^ 52 + f) div 2 ^ (1075 - E)" by (simp add: c_def)
      ultimately show ?thesis using 3 by (simp only: f64_magnitude_def parts prod.case) simp
    next
      case 4
      have "nat (int E - 1075) = E - 1075" "nat (- (int E - 1075)) = 0" "nat (int E - 1023) = (E - 1075) + 52" using 4 by auto
      then show ?thesis using 4 by (simp only: f64_magnitude_def parts v_def power_add prod.case) simp
    qed
  qed
  have i: "(2 ^ 52 + int f) * 2 ^ nat (int E - 1023) div 2 ^ 52 = int v"
    by (simp only: v_def of_nat_mult of_nat_add of_nat_power of_nat_numeral zdiv_int)
  have "f64_as_i64 x = (if int E < 1023 then 0 else if f64_negative x then max (- (2 ^ 63)) (- int v) else min (2 ^ 63 - 1) (int v))"
    using E unfolding f64_as_i64_def Let_def e fx sign i by simp
  then show ?thesis using assms(2,3) unfolding f64_trunc_def mag by (auto split: if_splits)
qed

lemma zero_integral: "f64_is_zero x \<Longrightarrow> f64_integral x \<and> f64_trunc x = 0"
  by (simp add: negative_zero f64_integral_def f64_finite_def f64_inf_def f64_parts_def f64_is_zero_def)

section \<open>Markers and lengths\<close>

lemma fix_marker:
  assumes "n < 2 ^ w" "w \<le> 8" "take_bit w base = 0"
  shows "or base (word_of_nat n) = base + word_of_nat n" "and (or base (word_of_nat n)) (mask w) = (word_of_nat n :: u8)"
proof -
  have t: "take_bit w (word_of_nat n :: u8) = word_of_nat n"
    using assms(1) by (simp add: take_bit_of_nat take_bit_nat_eq_self)
  have "and base (word_of_nat n) = 0"
  proof (rule bit_eqI)
    fix i
    have "\<not> (bit base i \<and> i < w)" using assms(3) by (metis bit_0_eq bit_take_bit_iff bot_apply bot_bool_def)
    moreover have "bit (word_of_nat n :: u8) i \<longrightarrow> i < w" using t by (metis bit_take_bit_iff)
    ultimately show "bit (and base (word_of_nat n)) i = bit 0 i" by (auto simp: bit_and_iff)
  qed
  then show "or base (word_of_nat n) = base + word_of_nat n" by (simp add: disjunctive_add_eq_or)
  show "and (or base (word_of_nat n)) (mask w) = (word_of_nat n :: u8)"
    using t assms(3) by (simp add: take_bit_eq_mask [symmetric])
qed

lemma unat_fix: "unat base + n < 256 \<Longrightarrow> unat (base + word_of_nat n :: u8) = unat base + n"
  by (simp add: unat_word_ariths unat_of_nat)

lemma be_bytes_1: "be_bytes 1 n = [word_of_nat n]"
  by (simp add: be_bytes_def)

lemma be_reads: "k \<le> 8 \<Longrightarrow> n < 256 ^ k \<Longrightarrow> cut_be e k (be_bytes k n @ r) = Inr (word_of_nat n, r) \<and> unat (word_of_nat n :: u64) = n"
proof -
  assume k: "k \<le> 8" "n < 256 ^ k"
  then have "n < 256 ^ 8" using power_increasing [of k 8 "256::nat"] by linarith
  then show ?thesis using cut_be_bytes [OF k] by (simp add: unat_of_nat)
qed

end
