(* ===== verification/MsgPackRound.thy ===== *)
theory MsgPackRound
  imports MsgPackProofs Casts
begin

text \<open>
  What the MessagePack writer writes, the reader reads back: markers, lengths, numbers, then values.
\<close>

section \<open>Sign extension\<close>

lemma word_of_int_mod: "(word_of_int (k mod 2 ^ 64) :: u64) = word_of_int k"
  by (simp add: word_of_int_eq_iff take_bit_eq_mod)

lemma sint_of_int: "- (2 ^ 63) \<le> i \<Longrightarrow> i < 2 ^ 63 \<Longrightarrow> sint (word_of_int i :: u64) = i"
  by (simp add: signed_of_int signed_take_bit_int_eq_self)

lemma sign_extend_small:
  assumes "n * 8 + s = 64" "0 < n" "0 < s" "- (2 ^ (n * 8 - 1)) \<le> i" "i < 2 ^ (n * 8 - 1)"
  shows "sign_extend (word_of_int (i mod 256 ^ n)) n = i"
proof -
  have B: "(256 :: int) ^ n = 2 ^ (n * 8)" by (simp add: power_mult mult.commute [of n])
  have s: "64 - n * 8 = s" "n * 8 \<noteq> 64" using assms(1,3) by linarith+
  have "push_bit s (word_of_int (i mod 256 ^ n) :: u64) = word_of_int ((i mod 2 ^ (n * 8)) * 2 ^ s)"
    by (simp add: push_bit_eq_mult B)
  also have "(i mod 2 ^ (n * 8)) * 2 ^ s = (i * 2 ^ s) mod 2 ^ 64"
    using assms(1) by (simp only: mod_mult_left_eq mult_mod_left power_add [symmetric])
  also have "word_of_int ((i * 2 ^ s) mod 2 ^ 64) = (word_of_int (i * 2 ^ s) :: u64)"
    by (rule word_of_int_mod)
  finally have p: "push_bit s (word_of_int (i mod 256 ^ n) :: u64) = word_of_int (i * 2 ^ s)" .
  have "n * 8 - 1 + s = 63" using assms(1,2) by linarith
  then have r: "(2 :: int) ^ (n * 8 - 1) * 2 ^ s = 2 ^ 63" by (simp only: power_add [symmetric])
  have "- (2 ^ 63) \<le> i * 2 ^ s" "i * 2 ^ s < 2 ^ 63"
    using mult_right_mono [OF assms(4), of "2 ^ s"] mult_strict_right_mono [OF assms(5), of "2 ^ s"]
    unfolding mult_minus_left r by simp_all
  then have "sint (push_bit s (word_of_int (i mod 256 ^ n) :: u64)) = i * 2 ^ s" unfolding p by (rule sint_of_int)
  then show ?thesis using s by (simp add: sign_extend_def drop_bit_eq_div)
qed

lemma sign_extend_int:
  assumes "n = 1 \<or> n = 2 \<or> n = 4 \<or> n = 8" "- (2 ^ (n * 8 - 1)) \<le> i" "i < 2 ^ (n * 8 - 1)"
  shows "sign_extend (word_of_nat (nat (i mod 256 ^ n))) n = i"
proof -
  have w: "(word_of_nat (nat (i mod 256 ^ n)) :: u64) = word_of_int (i mod 256 ^ n)" by simp
  consider "n = 8" | "n = 1" | "n = 2" | "n = 4" using assms(1) by blast
  then show ?thesis
  proof cases
    case 1
    have "(word_of_int (i mod 256 ^ n) :: u64) = word_of_int i"
      by (simp add: 1 word_of_int_eq_iff take_bit_eq_mod)
    then show ?thesis using assms(2,3) sint_of_int [of i] by (simp add: w 1 sign_extend_def)
  next
    case 2
    show ?thesis unfolding w by (rule sign_extend_small [where s = 56]) (use assms 2 in simp_all)
  next
    case 3
    show ?thesis unfolding w by (rule sign_extend_small [where s = 48]) (use assms 3 in simp_all)
  next
    case 4
    show ?thesis unfolding w by (rule sign_extend_small [where s = 32]) (use assms 4 in simp_all)
  qed
qed

section \<open>Markers\<close>

lemma fix_shapes:
  "n \<le> 0x0F \<Longrightarrow> mp_shape (or 0x80 (word_of_nat n) # r) = Inr (MapOf n, r)"
  "n \<le> 0x0F \<Longrightarrow> mp_shape (or 0x90 (word_of_nat n) # r) = Inr (ArrayOf n, r)"
  "n \<le> 0x1F \<Longrightarrow> mp_shape (or 0xA0 (word_of_nat n) # r) = Inr (StrOf n, r)"
proof -
  have m: "(0x0F :: u8) = mask 4" "(0x1F :: u8) = mask 5" by (simp_all add: mask_eq_exp_minus_1)
  have n: "unat (word_of_nat n :: u8) = n" if "n \<le> 0x1F" using that by (simp add: unat_of_nat)
  {
    assume "n \<le> 0x0F"
    then have f: "unat (or 0x80 (word_of_nat n) :: u8) = 0x80 + n" "and (or 0x80 (word_of_nat n)) 0x0F = (word_of_nat n :: u8)"
      using fix_marker [of n 4 "0x80"] unat_fix [of "0x80" n] unfolding m by simp_all
    then show "mp_shape (or 0x80 (word_of_nat n) # r) = Inr (MapOf n, r)"
      using n \<open>n \<le> 0x0F\<close> by (simp add: mp_shape_def word_le_nat_alt)
  }
  {
    assume "n \<le> 0x0F"
    then have f: "unat (or 0x90 (word_of_nat n) :: u8) = 0x90 + n" "and (or 0x90 (word_of_nat n)) 0x0F = (word_of_nat n :: u8)"
      using fix_marker [of n 4 "0x90"] unat_fix [of "0x90" n] unfolding m by simp_all
    then show "mp_shape (or 0x90 (word_of_nat n) # r) = Inr (ArrayOf n, r)"
      using n \<open>n \<le> 0x0F\<close> by (simp add: mp_shape_def word_le_nat_alt)
  }
  {
    assume "n \<le> 0x1F"
    then have f: "unat (or 0xA0 (word_of_nat n) :: u8) = 0xA0 + n" "and (or 0xA0 (word_of_nat n)) 0x1F = (word_of_nat n :: u8)"
      using fix_marker [of n 5 "0xA0"] unat_fix [of "0xA0" n] unfolding m by simp_all
    then show "mp_shape (or 0xA0 (word_of_nat n) # r) = Inr (StrOf n, r)"
      using n \<open>n \<le> 0x1F\<close> by (simp add: mp_shape_def word_le_nat_alt)
  }
qed

lemma marker_shapes:
  "mp_shape (0xD9 # r) = mp_len StrOf 1 r" "mp_shape (0xDA # r) = mp_len StrOf 2 r" "mp_shape (0xDB # r) = mp_len StrOf 4 r"
  "mp_shape (0xC4 # r) = mp_len BinOf 1 r" "mp_shape (0xC5 # r) = mp_len BinOf 2 r" "mp_shape (0xC6 # r) = mp_len BinOf 4 r"
  "mp_shape (0xDC # r) = mp_len ArrayOf 2 r" "mp_shape (0xDD # r) = mp_len ArrayOf 4 r"
  "mp_shape (0xDE # r) = mp_len MapOf 2 r" "mp_shape (0xDF # r) = mp_len MapOf 4 r"
  "mp_shape (0xCB # r) = Inr (FloatOf 8, r)"
  "mp_shape (0xCC # r) = Inr (UintOf 1, r)" "mp_shape (0xCD # r) = Inr (UintOf 2, r)"
  "mp_shape (0xCE # r) = Inr (UintOf 4, r)" "mp_shape (0xCF # r) = Inr (UintOf 8, r)"
  "mp_shape (0xD0 # r) = Inr (IntOf 1, r)" "mp_shape (0xD1 # r) = Inr (IntOf 2, r)"
  "mp_shape (0xD2 # r) = Inr (IntOf 4, r)" "mp_shape (0xD3 # r) = Inr (IntOf 8, r)"
  "mp_shape (0xC0 # r) = Inr (Atom VNull, r)" "mp_shape (0xC2 # r) = Inr (Atom (VBool False), r)"
  "mp_shape (0xC3 # r) = Inr (Atom (VBool True), r)"
  by (simp_all add: mp_shape_def)

lemma mp_len_reads: "k \<le> 8 \<Longrightarrow> n < 256 ^ k \<Longrightarrow> mp_len f k (be_bytes k n @ r) = Inr (f n, r)"
  using be_reads [of k n MpTruncated r] by (simp add: mp_len_def)

lemma len_shapes:
  assumes "n < 2 ^ 32"
  shows "mp_shape (write_str_len n @ r) = Inr (StrOf n, r)"
    and "mp_shape (write_bin_len n @ r) = Inr (BinOf n, r)"
    and "mp_shape (write_len 0x90 0x0F None 0xDC 0xDD n @ r) = Inr (ArrayOf n, r)"
    and "mp_shape (write_len 0x80 0x0F None 0xDE 0xDF n @ r) = Inr (MapOf n, r)"
proof -
  have one: "mp_len f 1 (word_of_nat n # r) = Inr (f n, r)" if "n \<le> 0xFF" for f
    using mp_len_reads [of 1 n f r] that by (simp add: be_bytes_1 del: One_nat_def)
  have two: "mp_len f 2 (be_bytes 2 n @ r) = Inr (f n, r)" if "n \<le> 0xFFFF" for f
    using mp_len_reads [of 2 n f r] that by simp
  have four: "mp_len f 4 (be_bytes 4 n @ r) = Inr (f n, r)" for f
    using mp_len_reads [of 4 n f r] assms by simp
  show "mp_shape (write_str_len n @ r) = Inr (StrOf n, r)"
    using one two four by (simp add: write_str_len_def write_len_def fix_shapes marker_shapes del: One_nat_def)
  show "mp_shape (write_bin_len n @ r) = Inr (BinOf n, r)"
    using one two four by (simp add: write_bin_len_def marker_shapes del: One_nat_def)
  show "mp_shape (write_len 0x90 0x0F None 0xDC 0xDD n @ r) = Inr (ArrayOf n, r)"
    using two four by (simp add: write_len_def fix_shapes marker_shapes)
  show "mp_shape (write_len 0x80 0x0F None 0xDE 0xDF n @ r) = Inr (MapOf n, r)"
    using two four by (simp add: write_len_def fix_shapes marker_shapes)
qed

section \<open>Numbers come back\<close>

lemma fixint_shapes:
  "u < 128 \<Longrightarrow> mp_shape (word_of_nat u # r) = Inr (Atom (VNumber (f64_of_nat u)), r)"
  "- 32 \<le> i \<Longrightarrow> i < 0 \<Longrightarrow> mp_shape (word_of_int i # r) = Inr (Atom (VNumber (f64_of_int i)), r)"
proof -
  assume u: "u < 128"
  then have "unat (word_of_nat u :: u8) = u" by (simp add: unat_of_nat)
  then show "mp_shape (word_of_nat u # r) = Inr (Atom (VNumber (f64_of_nat u)), r)"
    using u by (simp add: mp_shape_def word_le_nat_alt)
next
  assume i: "- 32 \<le> i" "i < 0"
  have s: "sint (word_of_int i :: u8) = i" using i by (simp add: signed_of_int signed_take_bit_int_eq_self)
  have "i mod 256 = (i + 256) mod 256" by simp
  also have "\<dots> = i + 256" using i by (intro mod_pos_pos_trivial) simp_all
  finally have "uint (word_of_int i :: u8) = i + 256" by (simp add: uint_word_of_int)
  then have "\<not> (word_of_int i :: u8) \<le> 0x7F" "(0xE0 :: u8) \<le> word_of_int i"
    using i by (simp_all add: word_le_def del: word_of_int_less_eq_iff)
  then show "mp_shape (word_of_int i # r) = Inr (Atom (VNumber (f64_of_int i)), r)"
    using s by (simp add: mp_shape_def)
qed

lemma int_bytes_read:
  "k = 1 \<or> k = 2 \<or> k = 4 \<or> k = 8 \<Longrightarrow> - (2 ^ (k * 8 - 1)) \<le> i \<Longrightarrow> i < 2 ^ (k * 8 - 1) \<Longrightarrow>
    \<exists>w. cut_be e k (int_bytes k i @ r) = Inr (w, r) \<and> sign_extend w k = i"
proof -
  assume k: "k = 1 \<or> k = 2 \<or> k = 4 \<or> k = 8" and i: "- (2 ^ (k * 8 - 1)) \<le> i" "i < 2 ^ (k * 8 - 1)"
  have "k \<le> 8" using k by auto
  moreover have "nat (i mod 256 ^ k) < 256 ^ k" by (simp add: nat_less_iff)
  ultimately have "cut_be e k (int_bytes k i @ r) = Inr (word_of_nat (nat (i mod 256 ^ k)), r)"
    unfolding int_bytes_def by (rule cut_be_bytes)
  then show ?thesis using sign_extend_int [OF k i] by blast
qed

lemma int_bytes_1: "int_bytes 1 i = [word_of_int i]"
  by (simp add: int_bytes_def be_bytes_1 word_of_int_eq_iff take_bit_eq_mod del: One_nat_def)

lemma mp_write_int_reads:
  assumes "- (2 ^ 63) \<le> i" "i < 2 ^ 63" "depth \<le> MP_MAX_DEPTH"
  shows "mp_read depth (mp_write_int i @ r) = Inr (VNumber (f64_of_int i), r)"
proof -
  have unsigned: "res_bind (cut_be MpTruncated k (be_bytes k (nat i) @ r)) (\<lambda>(w, cur). Inr (VNumber (f64_of_nat (unat w)), cur)) =
      Inr (VNumber (f64_of_int i), r)" if "0 \<le> i" "k \<le> 8" "nat i < 256 ^ k" for k
    using be_reads [OF that(2,3), of MpTruncated r] that(1) by (simp add: f64_of_int_def)
  have signed: "res_bind (cut_be MpTruncated k (int_bytes k i @ r)) (\<lambda>(w, cur). Inr (VNumber (f64_of_int (sign_extend w k)), cur)) =
      Inr (VNumber (f64_of_int i), r)"
    if "k = 1 \<or> k = 2 \<or> k = 4 \<or> k = 8" "- (2 ^ (k * 8 - 1)) \<le> i" "i < 2 ^ (k * 8 - 1)" for k
    using int_bytes_read [OF that, of MpTruncated r] by auto
  show ?thesis
  proof (cases "0 \<le> i")
    case True
    then have "f64_of_nat (nat i) = f64_of_int i" by (simp add: f64_of_int_def)
    with True have tiny: "mp_shape (word_of_int i # r) = Inr (Atom (VNumber (f64_of_int i)), r)" if "i < 128"
      using fixint_shapes(1) [of "nat i" r] that by simp
    from True have "f64_of_nat (nat i) = f64_of_int i" by (simp add: f64_of_int_def)
    then show ?thesis
      using True assms unsigned [of 1] unsigned [of 2] unsigned [of 4] unsigned [of 8]
      by (auto simp: mp_write_int_def Let_def mp_read.simps marker_shapes tiny be_bytes_1 simp del: One_nat_def)
  next
    case False
    then show ?thesis
      using assms signed [of 1] signed [of 2] signed [of 4] signed [of 8]
      by (auto simp: mp_write_int_def mp_read.simps marker_shapes fixint_shapes int_bytes_1 simp del: One_nat_def)
  qed
qed

section \<open>Values come back\<close>

fun mp_fits :: "nat \<Rightarrow> script_value \<Rightarrow> bool" where
  "mp_fits depth (VString s) \<longleftrightarrow> depth \<le> MP_MAX_DEPTH \<and> utf8_valid s \<and> length s < 2 ^ 32"
| "mp_fits depth (VBytes b) \<longleftrightarrow> depth \<le> MP_MAX_DEPTH \<and> length b < 2 ^ 32"
| "mp_fits depth (VArray vs) \<longleftrightarrow> depth \<le> MP_MAX_DEPTH \<and> length vs < 2 ^ 32 \<and> list_all (mp_fits (depth + 1)) vs"
| "mp_fits depth (VObject ms) \<longleftrightarrow> depth \<le> MP_MAX_DEPTH \<and> length ms < 2 ^ 32 \<and>
     list_all (\<lambda>(k, v). utf8_valid k \<and> length k < 2 ^ 32 \<and> mp_fits (depth + 1) v) ms"
| "mp_fits depth (VBigInt i) \<longleftrightarrow> False"
| "mp_fits depth (VOther s) \<longleftrightarrow> False"
| "mp_fits depth _ \<longleftrightarrow> depth \<le> MP_MAX_DEPTH"

text \<open>What comes back: \<open>undefined\<close> as \<open>null\<close>, negative zero as zero.\<close>

fun mp_decoded :: "script_value \<Rightarrow> script_value" where
  "mp_decoded VUndefined = VNull"
| "mp_decoded (VNumber x) = VNumber (if f64_is_zero x then 0 else x)"
| "mp_decoded (VArray vs) = VArray (map mp_decoded vs)"
| "mp_decoded (VObject ms) = VObject (map (\<lambda>(k, v). (k, mp_decoded v)) ms)"
| "mp_decoded v = v"

lemma mp_number_reads:
  assumes "depth \<le> MP_MAX_DEPTH"
  shows "mp_read depth (mp_write_number x @ r) = Inr (VNumber (if f64_is_zero x then 0 else x), r)"
proof (cases "f64_integral x \<and> - (2 ^ 63) \<le> f64_trunc x \<and> f64_trunc x < 2 ^ 63")
  case True
  then have "f64_as_i64 x = f64_trunc x" by (intro as_i64_trunc) (simp_all add: f64_integral_def)
  then show ?thesis
    using True mp_write_int_reads [of "f64_trunc x" depth r] assms integral_int [of x] by (simp add: mp_write_number_def)
next
  case False
  then have "\<not> f64_is_zero x" using zero_integral by auto
  moreover have "cut_be MpTruncated 8 (be_bytes 8 (unat x) @ r) = Inr (x, r)"
    using cut_be_bytes [of 8 "unat x" MpTruncated r] unat_bound [of x] by simp
  ultimately show ?thesis using False assms
    by (simp only: mp_write_number_def if_False append_Cons) (simp add: mp_read.simps marker_shapes)
qed

lemma mp_key_reads:
  "depth \<le> MP_MAX_DEPTH \<Longrightarrow> utf8_valid k \<Longrightarrow> length k < 2 ^ 32 \<Longrightarrow>
    mp_read_key depth (write_str_len (length k) @ k @ r) = Inr (k, r)"
  by (simp add: mp_read_key.simps mp_read.simps len_shapes)

lemma mp_reads_back:
  shows "mp_fits depth v \<Longrightarrow>
      \<exists>out. mp_write depth v = Inr out \<and> (\<forall>r. mp_read depth (out @ r) = Inr (mp_decoded v, r))"
    and "list_all (mp_fits depth) vs \<Longrightarrow>
      \<exists>out. mp_write_items depth vs = Inr out \<and>
        (\<forall>r. mp_read_items depth (length vs) (out @ r) = Inr (map mp_decoded vs, r))"
    and "list_all (\<lambda>(k, v). utf8_valid k \<and> length k < 2 ^ 32 \<and> mp_fits depth v) ms \<Longrightarrow>
      \<exists>out. mp_write_entries depth ms = Inr out \<and>
        (\<forall>r. mp_read_pairs depth (length ms) (out @ r) = Inr (map (\<lambda>(k, v). (k, mp_decoded v)) ms, r))"
proof (induction depth v and depth vs and depth ms rule: mp_write_mp_write_items_mp_write_entries.induct)
  case (1 depth v)
  show ?case
  proof (cases v)
    case (VArray vs)
    then have d: "depth \<le> MP_MAX_DEPTH" "length vs < 2 ^ 32" "list_all (mp_fits (depth + 1)) vs" using 1(3) by simp_all
    then obtain out where "mp_write_items (depth + 1) vs = Inr out"
      "\<forall>r. mp_read_items (depth + 1) (length vs) (out @ r) = Inr (map mp_decoded vs, r)"
      using 1(1) VArray by (auto simp: not_less)
    then show ?thesis using d VArray by (simp add: mp_write.simps mp_read.simps len_shapes)
  next
    case (VObject ms)
    then have d: "depth \<le> MP_MAX_DEPTH" "length ms < 2 ^ 32"
      "list_all (\<lambda>(k, v). utf8_valid k \<and> length k < 2 ^ 32 \<and> mp_fits (depth + 1) v) ms" using 1(3) by simp_all
    then obtain out where "mp_write_entries (depth + 1) ms = Inr out"
      "\<forall>r. mp_read_pairs (depth + 1) (length ms) (out @ r) = Inr (map (\<lambda>(k, v). (k, mp_decoded v)) ms, r)"
      using 1(2) VObject by (auto simp: not_less)
    then show ?thesis using d VObject by (simp add: mp_write.simps mp_read.simps len_shapes)
  next
    case (VNumber x)
    then show ?thesis using 1(3) mp_number_reads [of depth x] by (simp add: mp_write.simps)
  qed (use 1(3) in \<open>simp_all add: mp_write.simps mp_read.simps marker_shapes len_shapes\<close>)
next
  case (3 depth v vs)
  obtain out where "mp_write depth v = Inr out" "\<forall>r. mp_read depth (out @ r) = Inr (mp_decoded v, r)" using 3(1,3) by auto
  moreover from this 3(2) [OF this(1)] 3(3) obtain rest where "mp_write_items depth vs = Inr rest"
    "\<forall>r. mp_read_items depth (length vs) (rest @ r) = Inr (map mp_decoded vs, r)" by auto
  ultimately show ?case by simp
next
  case (5 depth k v ms)
  obtain out where out: "mp_write depth v = Inr out" "\<forall>r. mp_read depth (out @ r) = Inr (mp_decoded v, r)" using 5(1,3) by auto
  from 5(2) [OF this(1)] 5(3) obtain rest where "mp_write_entries depth ms = Inr rest"
    "\<forall>r. mp_read_pairs depth (length ms) (rest @ r) = Inr (map (\<lambda>(k, v). (k, mp_decoded v)) ms, r)" by auto
  moreover have "depth \<le> MP_MAX_DEPTH" using 5(3) by (cases v) auto
  then have "mp_read_key depth (write_str_len (length k) @ k @ r) = Inr (k, r)" for r using mp_key_reads 5(3) by auto
  ultimately show ?case using out by simp
qed simp_all

text \<open>
  C32: MessagePack round trip. A value of at most 256 levels that holds no BigInt and nothing without a
  representation, its strings valid UTF-8 and every length below 2^32, is encoded, and what was encoded
  decodes to it: every number to the last bit, with \<open>undefined\<close> become \<open>null\<close> and negative zero zero, and
  members in their order.
\<close>

theorem msgpack_roundtrip:
  assumes "mp_fits 0 v"
  shows "\<exists>bytes. mp_write_value v = Inr bytes \<and> mp_read_value bytes = Inr (mp_decoded v)"
proof -
  obtain out where "mp_write 0 v = Inr out" "\<forall>r. mp_read 0 (out @ r) = Inr (mp_decoded v, r)"
    using mp_reads_back(1) [OF assms] by blast
  moreover from this(2) have "mp_read 0 out = Inr (mp_decoded v, [])" by (metis append_Nil2)
  ultimately show ?thesis by (simp add: mp_write_value_def mp_read_value_def)
qed

theorem msgpack_roundtrip_witness:
  "\<exists>bytes. mp_write_value (VArray [VNumber 0x3FF8000000000000, VUndefined, VObject [([0x61], VBytes [1, 2])]]) = Inr bytes \<and>
    mp_read_value bytes = Inr (VArray [VNumber 0x3FF8000000000000, VNull, VObject [([0x61], VBytes [1, 2])]])"
proof -
  have "utf8_valid [0x61]" by (rule utf8_valid_ascii) simp
  then show ?thesis
    using msgpack_roundtrip [of "VArray [VNumber 0x3FF8000000000000, VUndefined, VObject [([0x61], VBytes [1, 2])]]"]
    by (simp add: MP_MAX_DEPTH_def f64_is_zero_def)
qed

text \<open>
  A length past 32 bits is cut. The bytes of a \<open>Uint8Array\<close> of 2^32 bytes are written behind a length of
  zero: the encoder reports success, and its own decoder refuses what it wrote.
\<close>

theorem long_bytes_are_cut:
  "\<forall>b. length b = 2 ^ 32 \<longrightarrow>
    mp_write_value (VBytes b) = Inr ([0xC6, 0, 0, 0, 0] @ b) \<and> mp_read_value ([0xC6, 0, 0, 0, 0] @ b) = Inl MpTrailingData"
proof (intro allI impI)
  fix b :: "u8 list"
  assume b: "length b = 2 ^ 32"
  have bytes: "be_bytes 4 n = [word_of_nat (n div 256 div 256 div 256), word_of_nat (n div 256 div 256), word_of_nat (n div 256), word_of_nat n]"
    for n
  proof -
    have four: "(4::nat) = Suc (Suc (Suc (Suc 0)))" by simp
    show ?thesis by (simp only: be_bytes_def four le_bytes.simps) simp
  qed
  have z: "be_bytes 4 (2 ^ 32) = [0, 0, 0, 0]" unfolding bytes by simp
  have "mp_shape ([0xC6, 0, 0, 0, 0] @ b) = Inr (BinOf 0, b)"
    using mp_len_reads [of 4 0 BinOf b] by (simp add: marker_shapes bytes)
  then have "mp_read 0 ([0xC6, 0, 0, 0, 0] @ b) = Inr (VBytes [], b)" by (simp add: mp_read.simps cut_def)
  moreover have "b \<noteq> []" using b by auto
  ultimately show "mp_write_value (VBytes b) = Inr ([0xC6, 0, 0, 0, 0] @ b) \<and>
      mp_read_value ([0xC6, 0, 0, 0, 0] @ b) = Inl MpTrailingData"
    using b z by (simp add: mp_write_value_def mp_write.simps write_bin_len_def mp_read_value_def)
qed

end
