(* ===== verification/Cbor.thy ===== *)
theory Cbor
  imports ScriptValue "HOL-Library.List_Lexorder"
begin

text \<open>
  CBOR (\<open>crates/runtime/src/cbor.rs\<close>): the reader into a value tree, the walk that only checks, and the
  writer of the deterministic form of RFC 8949. A count of items is \<open>None\<close> where the item ends at a break.
\<close>

definition CB_MAX_DEPTH :: nat where "CB_MAX_DEPTH = 256"

definition MAX_SAFE_INTEGER :: int where "MAX_SAFE_INTEGER = 9007199254740991"

definition int_to_value :: "int \<Rightarrow> script_value" where
  "int_to_value i =
     (if - MAX_SAFE_INTEGER \<le> i \<and> i \<le> MAX_SAFE_INTEGER then VNumber (f64_of_int i) else VBigInt i)"

datatype cb_error =
  CbTruncated
| CbTrailingData
| CbInvalidUtf8
| CbTooDeep
| CbReservedHeader
| CbUnexpectedBreak
| CbTag u64
| CbUnsupportedSimple u8
| CbTwoByteSimple u8
| CbBadIndefiniteChunk

definition cb_byte :: "u8 list \<Rightarrow> cb_error + u8 \<times> u8 list" where
  "cb_byte = cut_byte CbTruncated"

definition at_break :: "u8 list \<Rightarrow> bool" where
  "at_break cur \<longleftrightarrow> (case cur of b # _ \<Rightarrow> b = 0xFF | [] \<Rightarrow> False)"

definition read_arg :: "u8 list \<Rightarrow> u8 \<Rightarrow> cb_error + u64 \<times> u8 list" where
  "read_arg cur ai =
     (if ai \<le> 23 then Inr (ucast ai, cur)
      else if ai = 24 then res_bind (cb_byte cur) (\<lambda>(b, cur). Inr (ucast b, cur))
      else if ai = 25 then cut_be CbTruncated 2 cur
      else if ai = 26 then cut_be CbTruncated 4 cur
      else if ai = 27 then cut_be CbTruncated 8 cur
      else Inl CbReservedHeader)"

text \<open>\<open>n\<close> bytes of a string, which are checked where it is text (major type 3).\<close>

definition read_payload :: "u8 \<Rightarrow> u8 list \<Rightarrow> nat \<Rightarrow> cb_error + u8 list \<times> u8 list" where
  "read_payload major cur n =
     res_bind (cut CbTruncated n cur) (\<lambda>(raw, cur).
       if major = 3 \<and> \<not> utf8_valid raw then Inl CbInvalidUtf8 else Inr (raw, cur))"

definition read_chunk :: "u8 \<Rightarrow> u8 list \<Rightarrow> cb_error + u8 list \<times> u8 list" where
  "read_chunk major cur =
     res_bind (cb_byte cur) (\<lambda>(chunk, cur).
       if drop_bit 5 chunk \<noteq> major \<or> and chunk 0x1F = 31 then Inl CbBadIndefiniteChunk
       else res_bind (read_arg cur (and chunk 0x1F)) (\<lambda>(n, cur). read_payload major cur (unat n)))"

lemma read_arg_shorter: "read_arg cur ai = Inr (n, r) \<Longrightarrow> length r \<le> length cur"
  by (auto simp: read_arg_def cut_be_def cb_byte_def cut_byte_def cut_def result_simps split: if_splits)

lemma read_payload_shorter: "read_payload m cur n = Inr (raw, r) \<Longrightarrow> length r \<le> length cur"
  by (auto simp: read_payload_def cut_def result_simps split: if_splits)

lemma cb_byte_Inr: "cb_byte cur = Inr (b, r) \<longleftrightarrow> cur = b # r"
  by (cases cur) (auto simp: cb_byte_def)

lemma read_chunk_shorter: "read_chunk m cur = Inr (raw, r) \<Longrightarrow> length r < length cur"
  by (auto simp: read_chunk_def cb_byte_Inr result_simps split: if_splits
      dest!: read_arg_shorter read_payload_shorter)

text \<open>The chunks of a string of no stated length, up to the break.\<close>

function read_chunks :: "u8 \<Rightarrow> u8 list \<Rightarrow> u8 list \<Rightarrow> cb_error + u8 list \<times> u8 list" where
  "read_chunks major buf cur =
     (if at_break cur then Inr (buf, tl cur)
      else res_bind (read_chunk major cur) (\<lambda>(raw, cur). read_chunks major (buf @ raw) cur))"
  by pat_completeness auto
termination by (relation "measure (\<lambda>(_, _, cur). length cur)") (auto dest: read_chunk_shorter)

function skip_chunks :: "u8 \<Rightarrow> u8 list \<Rightarrow> cb_error + u8 list" where
  "skip_chunks major cur =
     (if at_break cur then Inr (tl cur)
      else res_bind (read_chunk major cur) (\<lambda>(raw, cur). skip_chunks major cur))"
  by pat_completeness auto
termination by (relation "measure (\<lambda>(_, cur). length cur)") (auto dest: read_chunk_shorter)

declare read_chunks.simps [simp del] skip_chunks.simps [simp del]

definition read_string :: "u8 \<Rightarrow> u8 \<Rightarrow> u8 list \<Rightarrow> cb_error + u8 list \<times> u8 list" where
  "read_string major ai cur =
     (if ai = 31 then read_chunks major [] cur
      else res_bind (read_arg cur ai) (\<lambda>(n, cur). read_payload major cur (unat n)))"

definition skip_string :: "u8 \<Rightarrow> u8 \<Rightarrow> u8 list \<Rightarrow> cb_error + u8 list" where
  "skip_string major ai cur =
     (if ai = 31 then skip_chunks major cur
      else
        res_bind (read_arg cur ai) (\<lambda>(n, cur).
        res_bind (read_payload major cur (unat n)) (\<lambda>(_, cur). Inr cur)))"

text \<open>How many items an array or map holds, and whether another one comes: the loops' conditions.\<close>

definition read_count :: "u8 \<Rightarrow> u8 list \<Rightarrow> cb_error + nat option \<times> u8 list" where
  "read_count ai cur =
     (if ai = 31 then Inr (None, cur) else res_bind (read_arg cur ai) (\<lambda>(n, cur). Inr (Some (unat n), cur)))"

definition item_next :: "nat option \<Rightarrow> u8 list \<Rightarrow> nat option option" where
  "item_next count cur =
     (case count of
        None \<Rightarrow> if at_break cur then None else Some None
      | Some 0 \<Rightarrow> None
      | Some (Suc n) \<Rightarrow> Some (Some n))"

definition items_end :: "nat option \<Rightarrow> u8 list \<Rightarrow> u8 list" where
  "items_end count cur = (if count = None then tl cur else cur)"

lemma read_chunks_shorter: "read_chunks m buf cur = Inr (raw, r) \<Longrightarrow> length r \<le> length cur"
  by (induction m buf cur rule: read_chunks.induct)
    (subst (asm) (2) read_chunks.simps, force simp: result_simps split: if_splits dest: read_chunk_shorter)

lemma skip_chunks_shorter: "skip_chunks m cur = Inr r \<Longrightarrow> length r \<le> length cur"
  by (induction m cur rule: skip_chunks.induct)
    (subst (asm) (2) skip_chunks.simps, force simp: result_simps split: if_splits dest: read_chunk_shorter)

lemma strings_shorter:
  "read_string m ai cur = Inr (raw, r) \<Longrightarrow> length r \<le> length cur"
  "skip_string m ai cur = Inr r \<Longrightarrow> length r \<le> length cur"
  by (fastforce simp: read_string_def skip_string_def result_simps split: if_splits
      dest: read_chunks_shorter skip_chunks_shorter read_arg_shorter read_payload_shorter)+

lemma read_count_shorter: "read_count ai cur = Inr (c, r) \<Longrightarrow> length r \<le> length cur"
  by (auto simp: read_count_def result_simps split: if_splits dest: read_arg_shorter)

lemma items_end_shorter: "length (items_end c cur) \<le> length cur"
  by (simp add: items_end_def)

section \<open>Half precision\<close>

text \<open>Every step is exact: the quotient, the sum and the scaling by a power of two.\<close>

definition half_to_f64 :: "u16 \<Rightarrow> f64" where
  "half_to_f64 half =
     (let sign = and (drop_bit 15 half) 1; e = and (drop_bit 10 half) 0x1F; frac = and half 0x3FF;
          magnitude =
            (if e = 0 then f64_times_pow2 (f64_of_nat (unat frac)) (- 24)
             else if e = 31 then (if frac = 0 then f64_infinity else 0x7FF8000000000000)
             else f64_times_pow2 (f64_nearest (1024 + unat frac) 1024) (int (unat e) - 15))
      in if sign = 1 then f64_neg magnitude else magnitude)"

definition half_exact :: "f64 \<Rightarrow> u16 option" where
  "half_exact v =
     (let sign = push_bit 15 (ucast (and (drop_bit 63 v) 1)) :: u16;
          ex = int (unat (and (drop_bit 52 v) 0x7FF));
          mant = and v 0xFFFFFFFFFFFFF
      in if ex = 0x7FF then Some (or sign 0x7C00)
         else if ex = 0 then (if mant = 0 then Some sign else None)
         else
           (let e = ex - 1023 in
            if e > 15 then None
            else if e \<ge> - 14 then
              (if and mant (2 ^ 42 - 1) \<noteq> 0 then None
               else Some (or (or sign (push_bit 10 (word_of_int (e + 15)))) (ucast (drop_bit 42 mant))))
            else if e < - 24 then None
            else
              (let m = or (2 ^ 52) mant; shift = nat (28 - e) in
               if and m (2 ^ shift - 1) \<noteq> 0 then None
               else
                 (let k = drop_bit shift m in
                  if k = 0 \<or> k \<ge> 1024 then None else Some (or sign (ucast k))))))"

section \<open>Reading and checking\<close>

text \<open>Major type 7: the value, or why there is none.\<close>

definition read_simple :: "u8 \<Rightarrow> u8 list \<Rightarrow> cb_error + script_value \<times> u8 list" where
  "read_simple ai cur =
     (if ai = 20 then Inr (VBool False, cur)
      else if ai = 21 then Inr (VBool True, cur)
      else if ai = 22 then Inr (VNull, cur)
      else if ai = 23 then Inr (VUndefined, cur)
      else if ai = 24 then
        res_bind (cb_byte cur) (\<lambda>(n, _). if n \<le> 31 then Inl (CbTwoByteSimple n) else Inl (CbUnsupportedSimple n))
      else if ai = 25 then res_bind (cut_be CbTruncated 2 cur) (\<lambda>(w, cur). Inr (VNumber (half_to_f64 (ucast w)), cur))
      else if ai = 26 then res_bind (cut_be CbTruncated 4 cur) (\<lambda>(w, cur). Inr (VNumber (f64_of_f32 (ucast w)), cur))
      else if ai = 27 then res_bind (cut_be CbTruncated 8 cur) (\<lambda>(w, cur). Inr (VNumber w, cur))
      else if 28 \<le> ai \<and> ai \<le> 30 then Inl CbReservedHeader
      else if ai = 31 then Inl CbUnexpectedBreak
      else Inl (CbUnsupportedSimple ai))"

definition skip_simple :: "u8 \<Rightarrow> u8 list \<Rightarrow> cb_error + u8 list" where
  "skip_simple ai cur =
     (if 20 \<le> ai \<and> ai \<le> 23 then Inr cur
      else if ai = 24 then
        res_bind (cb_byte cur) (\<lambda>(n, _). if n \<le> 31 then Inl (CbTwoByteSimple n) else Inl (CbUnsupportedSimple n))
      else if ai = 25 then res_bind (cut CbTruncated 2 cur) (\<lambda>(_, cur). Inr cur)
      else if ai = 26 then res_bind (cut CbTruncated 4 cur) (\<lambda>(_, cur). Inr cur)
      else if ai = 27 then res_bind (cut CbTruncated 8 cur) (\<lambda>(_, cur). Inr cur)
      else if 28 \<le> ai \<and> ai \<le> 30 then Inl CbReservedHeader
      else if ai = 31 then Inl CbUnexpectedBreak
      else Inl (CbUnsupportedSimple ai))"

lemma simple_shorter:
  "read_simple ai cur = Inr (v, r) \<Longrightarrow> length r \<le> length cur"
  "skip_simple ai cur = Inr r \<Longrightarrow> length r \<le> length cur"
  by (auto simp: read_simple_def skip_simple_def cut_be_def cut_def result_simps split: if_splits)

function cb_read :: "nat \<Rightarrow> u8 list \<Rightarrow> cb_error + script_value \<times> u8 list"
  and cb_read_items :: "nat \<Rightarrow> nat option \<Rightarrow> u8 list \<Rightarrow> cb_error + script_value list \<times> u8 list"
  and cb_read_pairs :: "nat \<Rightarrow> nat option \<Rightarrow> u8 list \<Rightarrow> cb_error + (utf8 \<times> script_value) list \<times> u8 list" where
  "cb_read depth cur =
     (if depth > CB_MAX_DEPTH then Inl CbTooDeep
      else
        res_bind (cb_byte cur) (\<lambda>(head, cur).
          let major = drop_bit 5 head; ai = and head 0x1F in
          if major = 0 then res_bind (read_arg cur ai) (\<lambda>(n, cur). Inr (int_to_value (uint n), cur))
          else if major = 1 then res_bind (read_arg cur ai) (\<lambda>(n, cur). Inr (int_to_value (- 1 - uint n), cur))
          else if major = 2 then res_bind (read_string 2 ai cur) (\<lambda>(raw, cur). Inr (VBytes raw, cur))
          else if major = 3 then res_bind (read_string 3 ai cur) (\<lambda>(raw, cur). Inr (VString raw, cur))
          else if major = 4 then
            res_bind (read_count ai cur) (\<lambda>(count, cur).
            res_bind (cb_read_items (depth + 1) count cur) (\<lambda>(vs, cur). Inr (VArray vs, cur)))
          else if major = 5 then
            res_bind (read_count ai cur) (\<lambda>(count, cur).
            res_bind (cb_read_pairs (depth + 1) count cur) (\<lambda>(ms, cur). Inr (VObject ms, cur)))
          else if major = 6 then res_bind (read_arg cur ai) (\<lambda>(n, _). Inl (CbTag n))
          else read_simple ai cur))"
| "cb_read_items depth count cur =
     (case item_next count cur of
        None \<Rightarrow> Inr ([], items_end count cur)
      | Some next \<Rightarrow>
          res_bind (cb_read depth cur) (\<lambda>(v, cur).
          res_bind (cb_read_items depth next cur) (\<lambda>(vs, cur). Inr (v # vs, cur))))"
| "cb_read_pairs depth count cur =
     (case item_next count cur of
        None \<Rightarrow> Inr ([], items_end count cur)
      | Some next \<Rightarrow>
          res_bind (cb_read depth cur) (\<lambda>(k, cur).
          res_bind (cb_read depth cur) (\<lambda>(v, cur).
          res_bind (cb_read_pairs depth next cur) (\<lambda>(ms, cur). Inr ((to_property_key k, v) # ms, cur)))))"
  by pat_completeness auto
termination
proof -
  have shorter: "cb_read_cb_read_items_cb_read_pairs_dom (Inl (depth, cur)) \<Longrightarrow>
      cb_read depth cur = Inr (v, r) \<Longrightarrow> length r < length cur"
    and "cb_read_cb_read_items_cb_read_pairs_dom (Inr (Inl (depth, count, cur))) \<Longrightarrow>
      cb_read_items depth count cur = Inr (vs, r) \<Longrightarrow> length r \<le> length cur"
    and "cb_read_cb_read_items_cb_read_pairs_dom (Inr (Inr (depth, count, cur))) \<Longrightarrow>
      cb_read_pairs depth count cur = Inr (ms, r) \<Longrightarrow> length r \<le> length cur"
    for depth count cur v vs ms r
  proof (induction arbitrary: v r and vs r and ms r rule: cb_read_cb_read_items_cb_read_pairs.pinduct)
    case (1 depth cur)
    note step = 1(4) [unfolded cb_read.psimps [OF 1(1)]]
    then obtain head rest where h: "\<not> depth > CB_MAX_DEPTH" "cb_byte cur = Inr (head, rest)"
      by (auto simp: result_simps split: if_splits)
    have inner: "length r \<le> length rest"
      if "read_count (and head 31) rest = Inr (c, b)"
        "drop_bit 5 head = 4 \<and> cb_read_items (Suc depth) c b = Inr (vs, r) \<or>
         drop_bit 5 head = 5 \<and> cb_read_pairs (Suc depth) c b = Inr (ms, r)" for c b vs ms
      using that 1(2) [OF h refl refl refl] 1(3) [OF h refl refl refl] read_count_shorter [OF that(1)] by fastforce
    have "length r \<le> length rest"
      using step h
      by (auto simp: result_simps Let_def split: if_splits
          dest: read_arg_shorter strings_shorter simple_shorter inner)
    then show ?case using h(2) by (simp add: cb_byte_Inr)
  next
    case (2 depth count cur)
    note step = 2(4) [unfolded cb_read_items.psimps [OF 2(1)]]
    show ?case
    proof (cases "item_next count cur")
      case None
      then show ?thesis using step by (auto simp: items_end_shorter)
    next
      case (Some nx)
      then show ?thesis using step 2(2) [OF Some] 2(3) [OF Some]
        by (fastforce simp: result_simps)
    qed
  next
    case (3 depth count cur)
    note step = 3(5) [unfolded cb_read_pairs.psimps [OF 3(1)]]
    show ?case
    proof (cases "item_next count cur")
      case None
      then show ?thesis using step by (auto simp: items_end_shorter)
    next
      case (Some nx)
      then show ?thesis using step 3(2) [OF Some] 3(3) [OF Some] 3(4) [OF Some]
        by (fastforce simp: result_simps)
    qed
  qed
  show ?thesis
    by (relation "inv_image (less_than <*lex*> less_than)
        (\<lambda>x. case x of Inl (depth, cur) \<Rightarrow> (length cur, 0 :: nat)
           | Inr (Inl (depth, count, cur)) \<Rightarrow> (length cur, 1)
           | Inr (Inr (depth, count, cur)) \<Rightarrow> (length cur, 1))")
      (auto simp: cb_byte_Inr dest!: shorter read_count_shorter)
qed

declare cb_read.simps [simp del] cb_read_items.simps [simp del] cb_read_pairs.simps [simp del]

text \<open>Decoding is over the whole input.\<close>

definition cb_read_value :: "u8 list \<Rightarrow> cb_error + script_value" where
  "cb_read_value bytes =
     res_bind (cb_read 0 bytes) (\<lambda>(v, cur). if cur = [] then Inr v else Inl CbTrailingData)"

function cb_skip :: "nat \<Rightarrow> u8 list \<Rightarrow> cb_error + u8 list"
  and cb_skip_items :: "nat \<Rightarrow> nat option \<Rightarrow> u8 list \<Rightarrow> cb_error + u8 list"
  and cb_skip_pairs :: "nat \<Rightarrow> nat option \<Rightarrow> u8 list \<Rightarrow> cb_error + u8 list" where
  "cb_skip depth cur =
     (if depth > CB_MAX_DEPTH then Inl CbTooDeep
      else
        res_bind (cb_byte cur) (\<lambda>(head, cur).
          let major = drop_bit 5 head; ai = and head 0x1F in
          if major = 0 \<or> major = 1 then res_bind (read_arg cur ai) (\<lambda>(_, cur). Inr cur)
          else if major = 2 then skip_string 2 ai cur
          else if major = 3 then skip_string 3 ai cur
          else if major = 4 then
            res_bind (read_count ai cur) (\<lambda>(count, cur). cb_skip_items (depth + 1) count cur)
          else if major = 5 then
            res_bind (read_count ai cur) (\<lambda>(count, cur). cb_skip_pairs (depth + 1) count cur)
          else if major = 6 then res_bind (read_arg cur ai) (\<lambda>(n, _). Inl (CbTag n))
          else skip_simple ai cur))"
| "cb_skip_items depth count cur =
     (case item_next count cur of
        None \<Rightarrow> Inr (items_end count cur)
      | Some next \<Rightarrow> res_bind (cb_skip depth cur) (\<lambda>cur. cb_skip_items depth next cur))"
| "cb_skip_pairs depth count cur =
     (case item_next count cur of
        None \<Rightarrow> Inr (items_end count cur)
      | Some next \<Rightarrow>
          res_bind (cb_skip depth cur) (\<lambda>cur.
          res_bind (cb_skip depth cur) (\<lambda>cur. cb_skip_pairs depth next cur)))"
  by pat_completeness auto
termination
proof -
  have shorter: "cb_skip_cb_skip_items_cb_skip_pairs_dom (Inl (depth, cur)) \<Longrightarrow>
      cb_skip depth cur = Inr r \<Longrightarrow> length r < length cur"
    and "cb_skip_cb_skip_items_cb_skip_pairs_dom (Inr (Inl (depth, count, cur))) \<Longrightarrow>
      cb_skip_items depth count cur = Inr r \<Longrightarrow> length r \<le> length cur"
    and "cb_skip_cb_skip_items_cb_skip_pairs_dom (Inr (Inr (depth, count, cur))) \<Longrightarrow>
      cb_skip_pairs depth count cur = Inr r \<Longrightarrow> length r \<le> length cur"
    for depth count cur r
  proof (induction arbitrary: r and r and r rule: cb_skip_cb_skip_items_cb_skip_pairs.pinduct)
    case (1 depth cur)
    note step = 1(4) [unfolded cb_skip.psimps [OF 1(1)]]
    then obtain head rest where h: "\<not> depth > CB_MAX_DEPTH" "cb_byte cur = Inr (head, rest)"
      by (auto simp: result_simps split: if_splits)
    have inner: "length r \<le> length rest"
      if "read_count (and head 31) rest = Inr (c, b)"
        "drop_bit 5 head = 4 \<and> cb_skip_items (Suc depth) c b = Inr r \<or>
         drop_bit 5 head = 5 \<and> cb_skip_pairs (Suc depth) c b = Inr r" for c b
      using that 1(2) [OF h refl refl refl] 1(3) [OF h refl refl refl] read_count_shorter [OF that(1)] by fastforce
    have "length r \<le> length rest"
      using step h
      by (auto simp: result_simps Let_def split: if_splits
          dest: read_arg_shorter strings_shorter simple_shorter inner)
    then show ?case using h(2) by (simp add: cb_byte_Inr)
  next
    case (2 depth count cur)
    note step = 2(4) [unfolded cb_skip_items.psimps [OF 2(1)]]
    show ?case
    proof (cases "item_next count cur")
      case None
      then show ?thesis using step by (auto simp: items_end_shorter)
    next
      case (Some nx)
      then show ?thesis using step 2(2) [OF Some] 2(3) [OF Some]
        by (fastforce simp: result_simps)
    qed
  next
    case (3 depth count cur)
    note step = 3(5) [unfolded cb_skip_pairs.psimps [OF 3(1)]]
    show ?case
    proof (cases "item_next count cur")
      case None
      then show ?thesis using step by (auto simp: items_end_shorter)
    next
      case (Some nx)
      then show ?thesis using step 3(2) [OF Some] 3(3) [OF Some] 3(4) [OF Some]
        by (fastforce simp: result_simps)
    qed
  qed
  show ?thesis
    by (relation "inv_image (less_than <*lex*> less_than)
        (\<lambda>x. case x of Inl (depth, cur) \<Rightarrow> (length cur, 0 :: nat)
           | Inr (Inl (depth, count, cur)) \<Rightarrow> (length cur, 1)
           | Inr (Inr (depth, count, cur)) \<Rightarrow> (length cur, 1))")
      (auto simp: cb_byte_Inr dest!: shorter read_count_shorter)
qed

declare cb_skip.simps [simp del] cb_skip_items.simps [simp del] cb_skip_pairs.simps [simp del]

definition cb_validate :: "u8 list \<Rightarrow> cb_error + unit" where
  "cb_validate bytes = res_bind (cb_skip 0 bytes) (\<lambda>cur. if cur = [] then Inr () else Inl CbTrailingData)"

section \<open>Writing\<close>

datatype cb_encode_error = CbNestsTooDeep | CbCannotEncode script_value | CbBigIntRange

definition write_head :: "u8 \<Rightarrow> nat \<Rightarrow> u8 list" where
  "write_head major n =
     (let base = push_bit 5 major in
      if n < 24 then [or base (word_of_nat n)]
      else if n \<le> 0xFF then [or base 24, word_of_nat n]
      else if n \<le> 0xFFFF then or base 25 # be_bytes 2 n
      else if n \<le> 0xFFFFFFFF then or base 26 # be_bytes 4 n
      else or base 27 # be_bytes 8 n)"

definition write_text :: "utf8 \<Rightarrow> u8 list" where
  "write_text s = write_head 3 (length s) @ s"

text \<open>\<open>n as f32\<close>: to nearest, ties to even. A NaN stays one.\<close>

definition f32_inf :: nat where "f32_inf = 255 * 2 ^ 23"

definition f32_nearest :: "nat \<Rightarrow> nat \<Rightarrow> nat" where
  "f32_nearest n d =
     (if n = 0 then 0
      else
        (let e = max (binary_exponent n d) (- 126);
             q = e - 23;
             m = half_even (n * 2 ^ nat (- q)) (d * 2 ^ nat q)
         in min f32_inf (nat (e + 126) * 2 ^ 23 + m)))"

definition f32_of_f64 :: "f64 \<Rightarrow> u32" where
  "f32_of_f64 x =
     (let body =
            (if f64_is_nan x then f32_inf + 2 ^ 22
             else if \<not> f64_finite x then f32_inf
             else (let (m, e) = f64_parts x in f32_nearest (m * 2 ^ nat e) (2 ^ nat (- e))))
      in word_of_nat (if f64_negative x then 2 ^ 31 + body else body))"

definition f64_eq :: "f64 \<Rightarrow> f64 \<Rightarrow> bool" where
  "f64_eq x y \<longleftrightarrow> \<not> f64_is_nan x \<and> \<not> f64_is_nan y \<and> (x = y \<or> f64_is_zero x \<and> f64_is_zero y)"

definition cb_write_int :: "int \<Rightarrow> u8 list" where
  "cb_write_int i = (if i \<ge> 0 then write_head 0 (nat i) else write_head 1 (nat (- (i + 1))))"

definition cb_write_number :: "f64 \<Rightarrow> u8 list" where
  "cb_write_number x =
     (if f64_is_nan x then [0xF9, 0x7E, 0]
      else if f64_integral x \<and> int (f64_magnitude x) \<le> MAX_SAFE_INTEGER \<and> \<not> (f64_is_zero x \<and> f64_negative x) then
        cb_write_int (f64_as_i64 x)
      else
        (case half_exact x of
           Some half \<Rightarrow> 0xF9 # be_bytes 2 (unat half)
         | None \<Rightarrow>
             if f64_eq (f64_of_f32 (f32_of_f64 x)) x then 0xFA # be_bytes 4 (unat (f32_of_f64 x))
             else 0xFB # be_bytes 8 (unat x)))"

definition write_bigint :: "int \<Rightarrow> cb_encode_error + u8 list" where
  "write_bigint i =
     (if 0 \<le> i \<and> i \<le> 2 ^ 64 - 1 then Inr (write_head 0 (nat i))
      else if - (2 ^ 64) \<le> i \<and> i < 0 then Inr (write_head 1 (nat (- (i + 1))))
      else Inl CbBigIntRange)"

text \<open>Outputs in a row, or the first error.\<close>

fun in_a_row :: "('e + u8 list) list \<Rightarrow> 'e + u8 list" where
  "in_a_row [] = Inr []"
| "in_a_row (x # xs) = res_bind x (\<lambda>out. res_bind (in_a_row xs) (\<lambda>more. Inr (out @ more)))"

fun cb_write :: "nat \<Rightarrow> script_value \<Rightarrow> cb_encode_error + u8 list" where
  "cb_write depth v =
     (if depth > CB_MAX_DEPTH then Inl CbNestsTooDeep
      else
        (case v of
           VUndefined \<Rightarrow> Inr [0xF7]
         | VNull \<Rightarrow> Inr [0xF6]
         | VBool b \<Rightarrow> Inr [if b then 0xF5 else 0xF4]
         | VNumber x \<Rightarrow> Inr (cb_write_number x)
         | VBigInt i \<Rightarrow> write_bigint i
         | VString s \<Rightarrow> Inr (write_text s)
         | VBytes b \<Rightarrow> Inr (write_head 2 (length b) @ b)
         | VArray items \<Rightarrow>
             res_bind (in_a_row (map (cb_write (depth + 1)) items)) (\<lambda>out.
               Inr (write_head 4 (length items) @ out))
         | VObject entries \<Rightarrow>
             (let pairs = sort_key fst (map (\<lambda>(k, val). (write_text k, cb_write (depth + 1) val)) entries) in
              res_bind (in_a_row (map (\<lambda>(key, out). res_bind out (\<lambda>out. Inr (key @ out))) pairs)) (\<lambda>out.
                Inr (write_head 5 (length pairs) @ out)))
         | other \<Rightarrow> Inl (CbCannotEncode other)))"

declare cb_write.simps [simp del]

definition cb_write_value :: "script_value \<Rightarrow> cb_encode_error + u8 list" where
  "cb_write_value v = cb_write 0 v"

end
