(* ===== verification/CborProofs.thy ===== *)
theory CborProofs
  imports Cbor
begin

text \<open>
  What the CBOR codec promises: the check answers as the decoder does, what is written reads back, and equal
  values are written alike.
\<close>

section \<open>The check is the decoder\<close>

definition rest_of :: "'e + 'a \<times> u8 list \<Rightarrow> 'e + u8 list" where
  "rest_of r = res_bind r (\<lambda>(_, cur). Inr cur)"

lemma rest_of_simps [simp]: "rest_of (Inl e) = Inl e" "rest_of (Inr (v, cur)) = Inr cur"
  by (simp_all add: rest_of_def)

lemma rest_of_bind: "rest_of (res_bind m f) = res_bind m (\<lambda>x. rest_of (f x))"
  by (cases m) (simp_all add: rest_of_def)

lemma rest_of_pair: "rest_of (case x of (a, cur) \<Rightarrow> f a cur) = (case x of (a, cur) \<Rightarrow> rest_of (f a cur))"
  by (cases x) simp

lemma bind_rest: "res_bind (rest_of m) f = res_bind m (\<lambda>(_, cur). f cur)"
  by (cases m) auto

lemma chunks_rest: "skip_chunks m cur = rest_of (read_chunks m buf cur)"
proof (induction m cur arbitrary: buf rule: skip_chunks.induct)
  case (1 m cur)
  show ?case
    by (subst skip_chunks.simps, subst read_chunks.simps)
      (auto simp: rest_of_bind rest_of_pair intro!: res_bind_cong "1" split: prod.splits)
qed

lemma string_rest: "skip_string m ai cur = rest_of (read_string m ai cur)"
  by (simp add: skip_string_def read_string_def chunks_rest [of _ _ "[]"] rest_of_bind rest_of_pair)
    (simp add: rest_of_def)

lemma simple_rest: "skip_simple ai cur = rest_of (read_simple ai cur)"
proof -
  have "20 \<le> ai \<and> ai \<le> 23 \<longleftrightarrow> ai = 20 \<or> ai = 21 \<or> ai = 22 \<or> ai = 23"
  proof -
    have "20 \<le> ai \<and> ai \<le> 23 \<longleftrightarrow> 20 \<le> unat ai \<and> unat ai \<le> 23" by (simp add: word_le_nat_alt)
    also have "\<dots> \<longleftrightarrow> unat ai = 20 \<or> unat ai = 21 \<or> unat ai = 22 \<or> unat ai = 23" by auto
    finally show ?thesis by (simp add: word_unat_eq_iff)
  qed
  then show ?thesis
    by (auto simp: skip_simple_def read_simple_def rest_of_bind rest_of_pair cut_be_def res_bind_assoc
        intro!: res_bind_cong split: prod.splits)
qed

lemma skip_reads:
  "cb_skip depth cur = rest_of (cb_read depth cur)"
  "cb_skip_items depth count cur = rest_of (cb_read_items depth count cur)"
  "cb_skip_pairs depth count cur = rest_of (cb_read_pairs depth count cur)"
proof (induction depth cur and depth count cur and depth count cur rule: cb_read_cb_read_items_cb_read_pairs.induct)
  case (1 depth cur)
  have inner: "drop_bit 5 head = 4 \<Longrightarrow> cb_skip_items (Suc depth) c r = rest_of (cb_read_items (Suc depth) c r)"
    "drop_bit 5 head = 5 \<Longrightarrow> cb_skip_pairs (Suc depth) c r = rest_of (cb_read_pairs (Suc depth) c r)"
    if "\<not> depth > CB_MAX_DEPTH" "cb_byte cur = Inr (head, rest)" "read_count (and head 31) rest = Inr (c, r)" for head rest c r
    using 1(1) [OF that(1,2) refl refl refl] 1(2) [OF that(1,2) refl refl refl] that(3) by auto
  show ?case
    unfolding cb_skip.simps [of depth cur] cb_read.simps [of depth cur] Let_def
    by (auto simp: rest_of_bind rest_of_pair string_rest simple_rest cb_byte_Inr bind_rest 1 res_bind_assoc
        intro!: res_bind_cong split: prod.splits)
      (simp_all add: rest_of_def inner [unfolded rest_of_def] cb_byte_Inr)
next
  case (2 depth count cur)
  show ?case
    by (subst cb_skip_items.simps, subst cb_read_items.simps)
      (auto simp: rest_of_bind rest_of_pair 2 bind_rest intro!: res_bind_cong split: option.splits prod.splits,
        simp add: rest_of_def)
next
  case (3 depth count cur)
  show ?case
    by (subst cb_skip_pairs.simps, subst cb_read_pairs.simps)
      (auto simp: rest_of_bind rest_of_pair 3 bind_rest intro!: res_bind_cong split: option.splits prod.splits,
        simp add: rest_of_def)
qed

text \<open>
  C33: the check is the decoder. On any bytes the walk that builds nothing answers what the decoder answers:
  it accepts exactly what decodes, and otherwise reports the same error.
\<close>

theorem cbor_check_is_decoder:
  "cb_validate bytes = (case cb_read_value bytes of Inl e \<Rightarrow> Inl e | Inr v \<Rightarrow> Inr ())"
  by (cases "cb_read 0 bytes") (auto simp: cb_validate_def cb_read_value_def skip_reads)

end
