(* ===== verification/CborFloats.thy ===== *)
theory CborFloats
  imports Cbor Casts
begin

text \<open>
  The floats CBOR writes: what \<open>half_exact\<close> finds is the half whose value the double is.
\<close>

section \<open>Fields of a word\<close>

lemma unat_fields:
  fixes a b :: "'a::len word"
  assumes "unat b < 2 ^ n" "unat a * 2 ^ n + unat b < 2 ^ LENGTH('a)"
  shows "unat (or (push_bit n a) b) = unat a * 2 ^ n + unat b"
proof -
  have "and (push_bit n a) b = 0"
  proof (rule bit_eqI)
    fix i
    have "\<not> bit b i" if "n \<le> i"
    proof -
      have "unat b < 2 ^ i" using assms(1) power_increasing [OF that, of "2::nat"] by linarith
      then have "\<not> bit (unat b) i" by (simp add: bit_iff_odd)
      then show ?thesis by (auto simp: bit_unsigned_iff dest: bit_imp_le_length)
    qed
    then show "bit (and (push_bit n a) b) i \<longleftrightarrow> bit 0 i" by (auto simp: bit_simps)
  qed
  then have "or (push_bit n a) b = push_bit n a + b" by (simp add: disjunctive_add_eq_or)
  also have "\<dots> = word_of_nat (unat a * 2 ^ n + unat b)" by (simp add: push_bit_eq_mult)
  finally show ?thesis using assms(2) by (simp only: unat_of_nat) simp
qed

lemma word_by_unat: "unat (w :: 'a::len word) = n \<Longrightarrow> w = word_of_nat n"
  by auto

lemma unat_low: "unat (and (w :: 'a::len word) (mask n)) = unat w mod 2 ^ n"
  by (simp only: take_bit_eq_mask [symmetric] unsigned_take_bit_eq) (simp add: take_bit_eq_mod)

lemma unat_high: "unat (drop_bit n (w :: 'a::len word)) = unat w div 2 ^ n"
  by (simp only: unsigned_drop_bit_eq) (simp add: drop_bit_eq_div take_bit_eq_mod less_imp_le unsigned_less)

lemma half_masks: "(0x1F :: u16) = mask 5" "(0x3FF :: u16) = mask 10" "(1 :: u16) = mask 1"
  "(0x7FF :: u64) = mask 11" "(0xFFFFFFFFFFFFF :: u64) = mask 52" "(1 :: u64) = mask 1"
  by (simp_all add: mask_eq_exp_minus_1)

text \<open>The fields of a half and of a double.\<close>

definition half_of :: "nat \<Rightarrow> nat \<Rightarrow> nat \<Rightarrow> u16" where
  "half_of s e f = word_of_nat (s * 2 ^ 15 + e * 2 ^ 10 + f)"

lemma half_fields:
  assumes "s < 2" "e < 32" "f < 1024"
  shows "unat (and (drop_bit 15 (half_of s e f)) 1) = s"
    "unat (and (drop_bit 10 (half_of s e f)) 0x1F) = e"
    "unat (and (half_of s e f) 0x3FF) = f"
proof -
  have "s * 2 ^ 15 + e * 2 ^ 10 + f < 2 ^ 16" using assms by simp
  then have u: "unat (half_of s e f) = s * 2 ^ 15 + e * 2 ^ 10 + f" unfolding half_of_def by (simp only: unat_of_nat) simp
  define q where "q = s * 32 + e"
  have "s * 2 ^ 15 + e * 2 ^ 10 + f = q * 2 ^ 10 + f" by (simp add: q_def)
  moreover have "(q * 2 ^ 10 + f) div 2 ^ 10 = q" "(q * 2 ^ 10 + f) mod 2 ^ 10 = f" using assms(3) by simp_all
  moreover have "(q * 2 ^ 10 + f) div 2 ^ 15 = (q * 2 ^ 10 + f) div 2 ^ 10 div 2 ^ 5" by (simp flip: div_mult2_eq)
  moreover have "q div 2 ^ 5 = s" "q mod 2 ^ 5 = e" using assms(2) by (simp_all add: q_def)
  ultimately have n: "(s * 2 ^ 15 + e * 2 ^ 10 + f) div 2 ^ 15 = s" "(s * 2 ^ 15 + e * 2 ^ 10 + f) div 2 ^ 10 mod 2 ^ 5 = e"
    "(s * 2 ^ 15 + e * 2 ^ 10 + f) mod 2 ^ 10 = f" by simp_all
  show "unat (and (drop_bit 15 (half_of s e f)) 1) = s"
    "unat (and (drop_bit 10 (half_of s e f)) 0x1F) = e"
    "unat (and (half_of s e f) 0x3FF) = f"
    using n assms unfolding half_masks unat_low unat_high u by simp_all
qed

definition double_exponent :: "f64 \<Rightarrow> nat" where
  "double_exponent x = unat x mod 2 ^ 63 div 2 ^ 52"

definition double_mantissa :: "f64 \<Rightarrow> nat" where
  "double_mantissa x = unat x mod 2 ^ 52"

lemma double_fields:
  "unat (and (drop_bit 63 x) 1) = of_bool (f64_negative x)"
  "unat (and (drop_bit 52 x) 0x7FF) = double_exponent x"
  "unat (and x 0xFFFFFFFFFFFFF) = double_mantissa x"
  "double_mantissa x < 2 ^ 52" "double_exponent x < 2048"
proof -
  have x: "unat x < 2 ^ 64" using unat_bound [of x] by simp
  have "unat x div 2 ^ 63 = of_bool (f64_negative x)"
    using x by (cases "f64_negative x") (simp_all add: f64_negative_def le_div_geq)
  then show "unat (and (drop_bit 63 x) 1) = of_bool (f64_negative x)" unfolding half_masks unat_low unat_high by simp
  show "unat (and (drop_bit 52 x) 0x7FF) = double_exponent x"
    unfolding half_masks unat_low unat_high double_exponent_def using div_of_mod [of "2 ^ 52" "unat x" 2048] by simp
  show "unat (and x 0xFFFFFFFFFFFFF) = double_mantissa x"
    unfolding half_masks unat_low double_mantissa_def ..
  show "double_mantissa x < 2 ^ 52" by (simp add: double_mantissa_def)
  have "unat x mod 2 ^ 63 < 2 ^ 63" by simp
  then show "double_exponent x < 2048" by (simp add: double_exponent_def less_mult_imp_div_less)
qed

lemma abs_from_fields: "unat (f64_abs x) = double_exponent x * 2 ^ 52 + double_mantissa x"
  using div_mult_mod_eq [of "unat x mod 2 ^ 63" "2 ^ 52"]
  by (simp add: f64_abs_parts double_exponent_def double_mantissa_def mod_mod_cancel)

lemma abs_enc:
  assumes "1 \<le> double_exponent x" "double_exponent x < 2047"
  shows "f64_abs x = f64_enc (2 ^ 52 + double_mantissa x) (int (double_exponent x) - 1075)"
proof -
  have n: "nat (int (double_exponent x) - 1075 + 1074) = double_exponent x - 1" using assms by simp
  have "double_exponent x * 2 ^ 52 = (double_exponent x - 1) * 2 ^ 52 + 2 ^ 52"
    using assms(1) by (simp add: algebra_simps flip: add_mult_distrib)
  then have u: "nat (int (double_exponent x) - 1075 + 1074) * 2 ^ 52 + (2 ^ 52 + double_mantissa x) = unat (f64_abs x)"
    unfolding n abs_from_fields by simp
  have "double_exponent x * 2 ^ 52 + double_mantissa x < f64_inf"
    using assms(2) double_fields(4) [of x] by (simp add: f64_inf_def)
  then have "min f64_inf (unat (f64_abs x)) = unat (f64_abs x)" by (simp add: abs_from_fields)
  then show ?thesis unfolding f64_enc_def u by simp
qed

section \<open>A half's value\<close>

lemma half_normal:
  assumes "1 \<le> e" "e < 31" "f < 1024"
  shows "f64_times_pow2 (f64_nearest (1024 + f) 1024) (int e - 15) = f64_enc ((1024 + f) * 2 ^ 42) (int e - 67)"
proof -
  have m: "2 ^ 52 \<le> (1024 + f) * 2 ^ 42" "(1024 + f) * 2 ^ 42 < 2 ^ 53" using assms(3) by simp_all
  have "f64_nearest (1024 + f) 1024 = f64_nearest ((1024 + f) * 2 ^ 42 * 2 ^ nat (- 52)) (2 ^ nat (- (- 52)))"
    by (intro nearest_cong) simp_all
  also have "\<dots> = f64_enc ((1024 + f) * 2 ^ 42) (- 52)" using m by (intro nearest_exact) simp_all
  finally have n: "f64_nearest (1024 + f) 1024 = f64_enc ((1024 + f) * 2 ^ 42) (- 52)" .
  have "f64_finite (f64_enc ((1024 + f) * 2 ^ 42) (- 52))"
    using m enc_parts(1) [OF m, of "- 52"] by (simp add: f64_inf_def)
  from times_enc [OF m _ _ this, of "int e - 15"] show ?thesis using assms(1) n by simp
qed

lemma half_subnormal:
  assumes "0 < k" "k < 1024"
  shows "f64_times_pow2 (f64_of_nat k) (- 24) = f64_enc (k * 2 ^ (53 - floorlog 2 k)) (int (floorlog 2 k) - 77)"
proof -
  define l where "l = floorlog 2 k"
  have l: "2 ^ (l - 1) \<le> k" "k < 2 ^ l" "1 \<le> l" using floorlog_range [OF assms(1)] by (simp_all add: l_def)
  have "(2::nat) ^ (l - 1) < 2 ^ 10" using l assms(2) by simp
  then have l10: "l \<le> 10" by (metis One_nat_def Suc_leI Suc_pred l(3) less_le_trans power_strict_increasing_iff one_less_numeral_iff semiring_norm(76) zero_less_one)
  have h: "half_even (k * 2 ^ (53 - l)) (2 ^ (l - 53)) = k * 2 ^ (53 - l)"
    using half_even_whole [of 1 "k * 2 ^ (53 - l)"] l10 by simp
  have n: "f64_of_nat k = f64_enc (k * 2 ^ (53 - l)) (int l - 53)"
    using nearest_nat [OF assms(1)] h by (simp add: f64_of_nat_def l_def)
  have "(2::nat) ^ 52 = 2 ^ (l - 1) * 2 ^ (53 - l)" "(2::nat) ^ 53 = 2 ^ l * 2 ^ (53 - l)" using l10 l(3) by (simp_all flip: power_add)
  then have m: "2 ^ 52 \<le> k * 2 ^ (53 - l)" "k * 2 ^ (53 - l) < 2 ^ 53"
    using mult_le_mono1 [OF l(1), of "2 ^ (53 - l)"] mult_less_mono1 [OF l(2), of "2 ^ (53 - l)"] by simp_all
  have "f64_finite (f64_enc (k * 2 ^ (53 - l)) (int l - 53))"
    using m l10 enc_parts(1) [OF m, of "int l - 53"] by (simp add: f64_inf_def nat_add_distrib)
  from times_enc [OF m _ _ this, of "- 24"] show ?thesis using n l10 by (simp add: l_def)
qed

definition half_magnitude :: "nat \<Rightarrow> nat \<Rightarrow> f64" where
  "half_magnitude e f =
     (if e = 0 then f64_times_pow2 (f64_of_nat f) (- 24)
      else if e = 31 then (if f = 0 then f64_infinity else 0x7FF8000000000000)
      else f64_times_pow2 (f64_nearest (1024 + f) 1024) (int e - 15))"

lemma half_value:
  assumes "s < 2" "e < 32" "f < 1024"
  shows "half_to_f64 (half_of s e f) = (if s = 1 then f64_neg (half_magnitude e f) else half_magnitude e f)"
proof -
  note u = half_fields [OF assms]
  have w: "and (drop_bit 15 (half_of s e f)) 1 = 1 \<longleftrightarrow> s = 1" "and (drop_bit 10 (half_of s e f)) 0x1F = 0 \<longleftrightarrow> e = 0"
    "and (drop_bit 10 (half_of s e f)) 0x1F = 31 \<longleftrightarrow> e = 31" "and (half_of s e f) 0x3FF = 0 \<longleftrightarrow> f = 0"
    unfolding word_unat_eq_iff u by simp_all
  show ?thesis unfolding half_to_f64_def Let_def w u half_magnitude_def by simp
qed

text \<open>\<open>half_exact\<close> on the fields.\<close>

definition half_found :: "nat \<Rightarrow> nat \<Rightarrow> nat \<Rightarrow> u16 option" where
  "half_found s ex mant =
     (if ex = 2047 then Some (half_of s 31 0)
      else if ex = 0 then (if mant = 0 then Some (half_of s 0 0) else None)
      else if ex > 1038 then None
      else if ex \<ge> 1009 then (if mant mod 2 ^ 42 \<noteq> 0 then None else Some (half_of s (ex - 1008) (mant div 2 ^ 42)))
      else if ex < 999 then None
      else if (2 ^ 52 + mant) mod 2 ^ (1051 - ex) \<noteq> 0 then None
      else (let k = (2 ^ 52 + mant) div 2 ^ (1051 - ex) in if k = 0 \<or> k \<ge> 1024 then None else Some (half_of s 0 k)))"

lemma half_built:
  assumes "unat (s :: u16) < 2" "unat (e :: u16) < 32" "unat (f :: u16) < 1024"
  shows "or (or (push_bit 15 s) (push_bit 10 e)) f = half_of (unat s) (unat e) (unat f)"
    "or (push_bit 15 s) f = half_of (unat s) 0 (unat f)" "push_bit 15 s = half_of (unat s) 0 0"
proof -
  have "or (push_bit 15 s) (push_bit 10 e) = push_bit 10 (or (push_bit 5 s) e)"
    by (simp add: push_bit_or)
  moreover have se: "unat (or (push_bit 5 s) e) = unat s * 2 ^ 5 + unat e" using unat_fields [of e 5 s] assms by simp
  moreover have "unat (or (push_bit 10 (or (push_bit 5 s) e)) f) = unat (or (push_bit 5 s) e) * 2 ^ 10 + unat f"
    by (rule unat_fields) (use assms se in simp_all)
  ultimately have "unat (or (or (push_bit 15 s) (push_bit 10 e)) f) = unat s * 2 ^ 15 + unat e * 2 ^ 10 + unat f"
    by (simp add: algebra_simps)
  then show "or (or (push_bit 15 s) (push_bit 10 e)) f = half_of (unat s) (unat e) (unat f)"
    unfolding half_of_def by (rule word_by_unat)
  have f: "unat (or (push_bit 15 s) f) = unat s * 2 ^ 15 + unat f" by (rule unat_fields) (use assms in simp_all)
  then show "or (push_bit 15 s) f = half_of (unat s) 0 (unat f)"
    unfolding half_of_def mult_0 add_0_right by (rule word_by_unat)
  show "push_bit 15 s = half_of (unat s) 0 0" by (simp add: half_of_def push_bit_eq_mult)
qed

lemma half_exact_fields: "half_exact x = half_found (of_bool (f64_negative x)) (double_exponent x) (double_mantissa x)"
proof -
  define s :: u16 where "s = ucast (and (drop_bit 63 x) 1)"
  define ex where "ex = double_exponent x"
  define mant where "mant = double_mantissa x"
  define m where "m = and x 0xFFFFFFFFFFFFF"
  have s: "unat s = of_bool (f64_negative x)" "unat s < 2"
    using double_fields(1) [of x] unfolding s_def by (simp_all add: unsigned_ucast_eq take_bit_eq_mod split: if_splits)
  have ex: "unat (and (drop_bit 52 x) 0x7FF) = ex" using double_fields(2) by (simp only: ex_def)
  have m: "unat m = mant" "mant < 2 ^ 52" using double_fields(3,4) [of x] by (simp_all only: m_def mant_def)
  have m0: "m = 0 \<longleftrightarrow> mant = 0" using m(1) by (metis unat_eq_zero)
  have a: "int ex = 2047 \<longleftrightarrow> ex = 2047" "int ex = 0 \<longleftrightarrow> ex = 0" "15 < int ex - 1023 \<longleftrightarrow> ex > 1038"
    "- 14 \<le> int ex - 1023 \<longleftrightarrow> ex \<ge> 1009" "int ex - 1023 < - 24 \<longleftrightarrow> ex < 999" by auto
  have low: "and w (2 ^ n - 1) = 0 \<longleftrightarrow> unat w mod 2 ^ n = 0" for w :: u64 and n
    using unat_low [of w n] by (simp add: mask_eq_exp_minus_1 unat_eq_zero [symmetric])
  have inf: "or (push_bit 15 s) 0x7C00 = half_of (unat s) 31 0" using half_built(1) [of s 31 0] s(2) by simp
  have zero: "push_bit 15 s = half_of (unat s) 0 0" using half_built(3) [of s 0 0] s(2) by simp
  have cast: "unat (ucast w :: u16) = unat w" if "unat (w :: u64) < 2 ^ 16" for w
    using that by (simp add: unsigned_ucast_eq take_bit_eq_mod)
  have normal: "or (or (push_bit 15 s) (push_bit 10 (word_of_int (int ex - 1023 + 15)))) (ucast (drop_bit 42 m)) =
      half_of (unat s) (ex - 1008) (mant div 2 ^ 42)" if "1009 \<le> ex" "\<not> 1038 < ex"
  proof -
    have "int ex - 1023 + 15 = int (ex - 1008)" using that by simp
    then have w: "word_of_int (int ex - 1023 + 15) = (word_of_nat (ex - 1008) :: u16)" by (simp only: of_int_of_nat_eq)
    have e: "unat (word_of_int (int ex - 1023 + 15) :: u16) = ex - 1008" unfolding w unat_of_nat using that by simp
    have f: "unat (drop_bit 42 m) = mant div 2 ^ 42" unfolding unat_high m(1) ..
    have "mant div 2 ^ 42 < 1024" using m(2) by (simp add: less_mult_imp_div_less)
    then show ?thesis
      using half_built(1) [of s "word_of_int (int ex - 1023 + 15)" "ucast (drop_bit 42 m)"] s(2) e f that cast [of "drop_bit 42 m"] by simp
  qed
  have m52: "unat (or (2 ^ 52) m) = 2 ^ 52 + mant"
    using unat_fields [of m 52 "1 :: u64"] m by (simp add: push_bit_eq_mult)
  have sub: "or (push_bit 15 s) (ucast w) = half_of (unat s) 0 (unat w)" if "\<not> unat (w :: u64) \<ge> 1024" for w
    using half_built(2) [of s 0 "ucast w"] s(2) that cast [of w] by simp
  have sh: "nat (28 - (int ex - 1023)) = 1051 - ex" by simp
  have k: "w = 0 \<longleftrightarrow> unat w = 0" "1024 \<le> w \<longleftrightarrow> 1024 \<le> unat w" for w :: u64
    by (simp_all add: unat_eq_zero word_le_nat_alt)
  have lowu: "unat (and w (2 ^ n - 1)) = unat w mod 2 ^ n" for w :: u64 and n
    using unat_low [of w n] by (simp add: mask_eq_exp_minus_1)
  have sub': "or (push_bit 15 s) (ucast (drop_bit n (or (2 ^ 52) m))) = half_of (unat s) 0 ((2 ^ 52 + mant) div 2 ^ n)"
    if "\<not> ((2 ^ 52 + mant) div 2 ^ n = 0 \<or> 1024 \<le> (2 ^ 52 + mant) div 2 ^ n)" for n
    using sub [of "drop_bit n (or (2 ^ 52) m)"] that unfolding unat_high m52 by blast
  show ?thesis
    unfolding half_exact_def Let_def s_def [symmetric] m_def [symmetric] ex half_found_def a low m(1) m0 sh m52 k unat_high
      ex_def [symmetric] mant_def [symmetric] s(1) [symmetric]
    by (intro if_cong refl arg_cong [where f = Some];
        (rule inf zero normal sub' | simp only: lowu m52 m(1) not_less)?; assumption?)
qed

section \<open>Exactly the halves\<close>

lemma split_52: "b < 2 ^ 52 \<Longrightarrow> (a * 2 ^ 52 + b) div 2 ^ 52 = a" "b < 2 ^ 52 \<Longrightarrow> (a * 2 ^ 52 + b) mod 2 ^ 52 = (b :: nat)"
  by simp_all

lemma enc_fields:
  assumes "2 ^ 52 \<le> m" "m < 2 ^ 53" "f64_abs x = f64_enc m j" "- 1074 \<le> j" "j + 1075 < 2047"
  shows "double_exponent x = nat (j + 1075)" "double_mantissa x = m - 2 ^ 52"
proof -
  have "nat (j + 1075) = nat (j + 1074) + 1" using assms(4) by simp
  then have n: "nat (j + 1074) * 2 ^ 52 + m = nat (j + 1075) * 2 ^ 52 + (m - 2 ^ 52)" using assms(1) by simp
  have r: "m - 2 ^ 52 < 2 ^ 52" using assms(2) by simp
  have "nat (j + 1075) \<le> 2046" using assms(5) by simp
  then have "nat (j + 1075) * 2 ^ 52 \<le> 2046 * 2 ^ 52" by (rule mult_le_mono1)
  then have "nat (j + 1075) * 2 ^ 52 + (m - 2 ^ 52) < 2047 * 2 ^ 52" using r by simp
  then have "unat (f64_abs x) = nat (j + 1075) * 2 ^ 52 + (m - 2 ^ 52)"
    unfolding assms(3) f64_enc_def n f64_inf_def by (simp only: min_def unat_of_nat) simp
  then have u: "double_exponent x * 2 ^ 52 + double_mantissa x = nat (j + 1075) * 2 ^ 52 + (m - 2 ^ 52)"
    by (simp only: abs_from_fields)
  show "double_exponent x = nat (j + 1075)"
    using arg_cong [OF u, of "\<lambda>n. n div 2 ^ 52"] split_52(1) double_fields(4) [of x] r by metis
  show "double_mantissa x = m - 2 ^ 52"
    using arg_cong [OF u, of "\<lambda>n. n mod 2 ^ 52"] split_52(2) double_fields(4) [of x] r by metis
qed

lemma half_found_value:
  assumes "\<not> f64_is_nan x" "half_found s (double_exponent x) (double_mantissa x) = Some h" "s < 2"
  shows "\<exists>e f. h = half_of s e f \<and> e < 32 \<and> f < 1024 \<and> half_magnitude e f = f64_abs x"
proof -
  define ex where "ex = double_exponent x"
  define mant where "mant = double_mantissa x"
  have m: "mant < 2 ^ 52" "ex < 2048" using double_fields(4,5) [of x] by (simp_all only: mant_def ex_def)
  have u: "unat (f64_abs x) = ex * 2 ^ 52 + mant" using abs_from_fields by (simp only: ex_def mant_def)
  note found = assms(2) [folded ex_def mant_def]
  consider "ex = 2047" | "ex = 0" | "1009 \<le> ex" "ex \<le> 1038" | "999 \<le> ex" "ex < 1009" | "0 < ex" "ex < 999" | "1038 < ex" "ex < 2047"
    using m(2) by linarith
  then show ?thesis
  proof cases
    case 1
    then have "mant = 0" using assms(1) u by (simp add: f64_is_nan_def f64_inf_def f64_abs_parts)
    then have "f64_abs x = f64_infinity" using u 1 by (simp add: word_unat_eq_iff f64_infinity_def)
    then show ?thesis using found 1 by (intro exI [of _ 31] exI [of _ 0]) (simp add: half_found_def half_magnitude_def)
  next
    case 2
    then have "mant = 0" "h = half_of s 0 0" using found by (simp_all add: half_found_def split: if_splits)
    moreover from this 2 u have "f64_abs x = 0" by (simp add: unat_eq_zero)
    moreover have "half_magnitude 0 0 = 0"
      by (simp add: half_magnitude_def f64_of_nat_def f64_nearest_def f64_times_pow2_def f64_parts_def)
    ultimately show ?thesis by (intro exI [of _ 0]) simp
  next
    case 3
    then have h: "mant mod 2 ^ 42 = 0" "h = half_of s (ex - 1008) (mant div 2 ^ 42)"
      using found by (simp_all add: half_found_def split: if_splits)
    have f: "mant div 2 ^ 42 < 1024" using m(1) by (simp add: less_mult_imp_div_less)
    have e: "1 \<le> ex - 1008" "ex - 1008 < 31" "ex - 1008 \<noteq> 0" "ex - 1008 \<noteq> 31" using 3 by auto
    have "half_magnitude (ex - 1008) (mant div 2 ^ 42) = f64_enc ((1024 + mant div 2 ^ 42) * 2 ^ 42) (int (ex - 1008) - 67)"
      using half_normal [of "ex - 1008" "mant div 2 ^ 42"] e f unfolding half_magnitude_def by simp
    also have "(1024 + mant div 2 ^ 42) * 2 ^ 42 = 2 ^ 52 + mant" using h(1) by (simp add: add_mult_distrib) (metis div_mult_mod_eq add_0_right)
    also have "int (ex - 1008) - 67 = int ex - 1075" using 3 by simp
    also have "f64_enc (2 ^ 52 + mant) (int ex - 1075) = f64_abs x"
      using abs_enc [of x] 3 by (simp add: ex_def mant_def)
    finally show ?thesis using h 3 f by (intro exI [of _ "ex - 1008"] exI [of _ "mant div 2 ^ 42"]) simp
  next
    case 4
    define k where "k = (2 ^ 52 + mant) div 2 ^ (1051 - ex)"
    have h: "(2 ^ 52 + mant) mod 2 ^ (1051 - ex) = 0" "h = half_of s 0 k" "0 < k" "k < 1024"
      using found 4 by (simp_all add: half_found_def k_def Let_def split: if_splits)
    have km: "k * 2 ^ (1051 - ex) = 2 ^ 52 + mant" using h(1) unfolding k_def by (metis div_mult_mod_eq add_0_right)
    have "2 ^ (52 - (1051 - ex)) \<le> k" "k < 2 ^ (52 - (1051 - ex) + 1)"
    proof -
      have p: "(2::nat) ^ (52 - (1051 - ex)) * 2 ^ (1051 - ex) = 2 ^ 52" "(2::nat) ^ (52 - (1051 - ex) + 1) * 2 ^ (1051 - ex) = 2 ^ 53"
        using 4 by (simp_all only: power_add [symmetric]) simp_all
      have "2 ^ (52 - (1051 - ex)) * 2 ^ (1051 - ex) \<le> k * 2 ^ (1051 - ex)" unfolding km p by simp
      then show "2 ^ (52 - (1051 - ex)) \<le> k" by simp
      have "k * 2 ^ (1051 - ex) < 2 ^ (52 - (1051 - ex) + 1) * 2 ^ (1051 - ex)" unfolding km p using m(1) by simp
      then show "k < 2 ^ (52 - (1051 - ex) + 1)" by simp
    qed
    then have l: "floorlog 2 k = ex - 998" using floorlog_pow2 [of "52 - (1051 - ex)" k] 4 by simp
    have "half_magnitude 0 k = f64_enc (k * 2 ^ (53 - floorlog 2 k)) (int (floorlog 2 k) - 77)"
      using half_subnormal [OF h(3,4)] by (simp add: half_magnitude_def)
    also have "53 - floorlog 2 k = 1051 - ex" using l 4 by auto
    also have "int (floorlog 2 k) - 77 = int ex - 1075" using l 4 by auto
    also have "f64_enc (k * 2 ^ (1051 - ex)) (int ex - 1075) = f64_abs x"
      using abs_enc [of x] 4 unfolding km by (simp add: ex_def mant_def)
    finally show ?thesis using h by (intro exI [of _ 0] exI [of _ k]) simp
  qed (use found in \<open>simp_all add: half_found_def split: if_splits\<close>)
qed

text \<open>
  \<open>half_exact\<close> finds the half whose value the double is, and misses none.
\<close>

lemma half_exact_value: "\<not> f64_is_nan x \<Longrightarrow> half_exact x = Some h \<Longrightarrow> half_to_f64 h = x"
proof -
  assume nan: "\<not> f64_is_nan x" and h: "half_exact x = Some h"
  define s where "s = (of_bool (f64_negative x) :: nat)"
  have s: "s < 2" "s = 1 \<longleftrightarrow> f64_negative x" by (simp_all add: s_def)
  obtain e f where "h = half_of s e f" "e < 32" "f < 1024" "half_magnitude e f = f64_abs x"
    using half_found_value [OF nan _ s(1), of h] h unfolding half_exact_fields s_def [symmetric] by blast
  then show ?thesis using half_value [OF s(1), of e f] f64_sign_split [of x] s(2) by (simp split: if_splits)
qed

lemma half_magnitude_found:
  assumes "e < 32" "f < 1024" "half_magnitude e f = f64_abs x" "\<not> f64_is_nan x"
  shows "half_found s (double_exponent x) (double_mantissa x) \<noteq> None"
proof -
  consider "e = 0" "f = 0" | "e = 0" "0 < f" | "e = 31" "f = 0" | "e = 31" "0 < f" | "0 < e" "e < 31"
    using assms(1) by linarith
  then show ?thesis
  proof cases
    case 1
    then have "f64_abs x = 0" using assms(3)
      by (simp add: half_magnitude_def f64_of_nat_def f64_nearest_def f64_times_pow2_def f64_parts_def)
    then have "double_exponent x * 2 ^ 52 + double_mantissa x = 0" using abs_from_fields [of x] by simp
    then show ?thesis by (simp add: half_found_def)
  next
    case 2
    define l where "l = floorlog 2 f"
    have l: "2 ^ (l - 1) \<le> f" "f < 2 ^ l" "1 \<le> l" using floorlog_range [OF 2(2)] by (simp_all add: l_def)
    have "(2::nat) ^ (l - 1) < 2 ^ 10" using l assms(2) by simp
    then have "l - 1 < 10" by (simp only: power_strict_increasing_iff numeral_less_iff)
    then have l10: "l \<le> 10" by simp
    have p: "(2::nat) ^ 52 = 2 ^ (l - 1) * 2 ^ (53 - l)" "(2::nat) ^ 53 = 2 ^ l * 2 ^ (53 - l)" using l10 l(3) by (simp_all flip: power_add)
    then have m: "2 ^ 52 \<le> f * 2 ^ (53 - l)" "f * 2 ^ (53 - l) < 2 ^ 53"
      using mult_le_mono1 [OF l(1), of "2 ^ (53 - l)"] mult_less_mono1 [OF l(2), of "2 ^ (53 - l)"] by simp_all
    have x: "f64_abs x = f64_enc (f * 2 ^ (53 - l)) (int l - 77)"
      using assms(2,3) half_subnormal [OF 2(2) assms(2)] 2 by (simp add: half_magnitude_def l_def)
    have ex: "double_exponent x = l + 998" "double_mantissa x = f * 2 ^ (53 - l) - 2 ^ 52"
      using enc_fields [OF m x] l10 by simp_all
    have r: "2 ^ 52 + double_mantissa x = f * 2 ^ (53 - l)" "1051 - double_exponent x = 53 - l" using ex m l10 by auto
    show ?thesis using ex(1) l10 l(3) assms(2) 2(2) by (simp add: half_found_def r [simplified] Let_def)
  next
    case 3
    then have "f64_abs x = f64_infinity" using assms(3) by (simp add: half_magnitude_def)
    then have "double_exponent x * 2 ^ 52 + double_mantissa x = 2047 * 2 ^ 52" using abs_from_fields [of x] by (simp add: f64_infinity_def)
    then have "double_exponent x = 2047" using double_fields(4) [of x] by simp
    then show ?thesis by (simp add: half_found_def)
  next
    case 4
    then have "f64_abs x = 0x7FF8000000000000" using assms(3) by (simp add: half_magnitude_def)
    then have "unat x mod 2 ^ 63 = 0x7FF8000000000000" using f64_abs_parts(1) [of x] by simp
    then show ?thesis using assms(4) by (simp add: f64_is_nan_def f64_inf_def)
  next
    case 5
    define m where "m = (1024 + f) * 2 ^ 42"
    have m: "2 ^ 52 \<le> m" "m < 2 ^ 53" using assms(2) by (simp_all add: m_def)
    have x: "f64_abs x = f64_enc m (int e - 67)"
      using assms(2,3) half_normal [of e f] 5 by (simp add: half_magnitude_def m_def)
    have "double_exponent x = e + 1008" "double_mantissa x = f * 2 ^ 42"
      using enc_fields [OF m x] 5 by (simp_all add: m_def)
    then show ?thesis using 5 by (simp add: half_found_def)
  qed
qed

lemma nearest_below: "unat (f64_nearest n d) < 2 ^ 63"
proof -
  have "unat (word_of_nat (min f64_inf k) :: u64) < 2 ^ 63" for k
    by (rule le_less_trans [of _ f64_inf]) (simp_all only: unat_of_nat, simp_all add: f64_inf_def)
  then show ?thesis by (simp add: f64_nearest_def Let_def)
qed

lemma neg_abs: "unat y < 2 ^ 63 \<Longrightarrow> f64_abs (f64_neg y) = y \<and> f64_abs y = y \<and> f64_negative (f64_neg y)"
proof -
  assume y: "unat y < 2 ^ 63"
  have z: "unat (y + 2 ^ 63) = unat y + 2 ^ 63" using y by (simp add: unat_word_ariths)
  have "f64_abs (y + 2 ^ 63) = y" using y unfolding f64_abs_def z by simp
  moreover have n: "f64_negative (y + 2 ^ 63)" unfolding f64_negative_def z by simp
  ultimately have "y + 2 ^ 63 = f64_neg y" using f64_sign_split [of "y + 2 ^ 63"] by simp
  then show ?thesis using n \<open>f64_abs (y + 2 ^ 63) = y\<close> y by (simp add: f64_abs_def)
qed

lemma half_exact_complete: "\<not> f64_is_nan x \<Longrightarrow> half_to_f64 h = x \<Longrightarrow> half_exact x \<noteq> None"
proof -
  assume nan: "\<not> f64_is_nan x" and h: "half_to_f64 h = x"
  define s where "s = unat h div 2 ^ 15"
  define e where "e = unat h div 2 ^ 10 mod 32"
  define f where "f = unat h mod 1024"
  have hb: "unat h < 2 ^ 16" using unat_bound [of h] by simp
  have b: "s < 2" "e < 32" "f < 1024" using hb by (simp_all add: s_def e_def f_def less_mult_imp_div_less)
  have "unat h div 2 ^ 15 = unat h div 2 ^ 10 div 32" by (simp flip: div_mult2_eq)
  then have "unat h = (s * 32 + e) * 1024 + f" unfolding s_def e_def f_def by simp
  then have "unat h = s * 2 ^ 15 + e * 2 ^ 10 + f" by simp
  then have "h = half_of s e f" unfolding half_of_def by (rule word_by_unat)
  then have v: "x = (if s = 1 then f64_neg (half_magnitude e f) else half_magnitude e f)" using half_value [OF b] h by simp
  have "unat (half_magnitude e f) < 2 ^ 63" using nearest_below
    by (simp add: half_magnitude_def f64_times_pow2_def f64_infinity_def split: prod.splits)
  then have "half_magnitude e f = f64_abs x" using v neg_abs by simp
  then show ?thesis using half_magnitude_found [OF b(2,3) _ nan] by (simp add: half_exact_fields)
qed

end
