(* ===== verification/CborRound.thy ===== *)
theory CborRound
  imports CborFloats Cbor Casts "HOL-Library.Multiset"
begin

text \<open>
  What the CBOR writer writes, the reader reads casts_back, with members in the order of their encoded keys; and the
  bytes determine the value and the value the bytes.
\<close>

section \<open>Heads\<close>

lemma head_bits:
  assumes "unat (major :: u8) < 8" "unat (a :: u8) < 32"
  shows "drop_bit 5 (or (push_bit 5 major) a) = major" "and (or (push_bit 5 major) a) 0x1F = a"
proof -
  have u: "unat (or (push_bit 5 major) a) = unat major * 2 ^ 5 + unat a" by (rule unat_fields) (use assms in simp_all)
  have m: "(0x1F :: u8) = mask 5" by (simp add: mask_eq_exp_minus_1)
  have "unat (drop_bit 5 (or (push_bit 5 major) a)) = unat major" unfolding unat_high u using assms(2) by simp
  then show "drop_bit 5 (or (push_bit 5 major) a) = major" by (simp only: word_unat_eq_iff)
  have "unat (and (or (push_bit 5 major) a) 0x1F) = unat a" unfolding m unat_low u using assms(2) by simp
  then show "and (or (push_bit 5 major) a) 0x1F = a" by (simp only: word_unat_eq_iff)
qed

lemma write_head_reads:
  assumes "unat major < 8" "n < 2 ^ 64"
  shows "\<exists>head rest. write_head major n = head # rest \<and> drop_bit 5 head = major \<and> and head 0x1F \<noteq> 31 \<and>
    (\<forall>cur. read_arg (rest @ cur) (and head 0x1F) = Inr (word_of_nat n, cur)) \<and> unat (word_of_nat n :: u64) = n"
proof -
  have u: "unat (word_of_nat n :: u64) = n" using assms(2) by (simp add: unat_of_nat)
  have small: "unat (word_of_nat n :: u8) = n" if "n < 256" using that by (simp add: unat_of_nat)
  have be: "k \<le> 8 \<Longrightarrow> n < 256 ^ k \<Longrightarrow> cut_be CbTruncated k (be_bytes k n @ cur) = Inr (word_of_nat n, cur)" for k cur
    by (rule cut_be_bytes)
  consider "n < 24" | "\<not> n < 24" "n \<le> 0xFF" | "\<not> n \<le> 0xFF" "n \<le> 0xFFFF" | "\<not> n \<le> 0xFFFF" "n \<le> 0xFFFFFFFF" | "\<not> n \<le> 0xFFFFFFFF"
    by linarith
  then show ?thesis
  proof cases
    case 1
    then have "(ucast (word_of_nat n :: u8) :: u64) = word_of_nat n"
      by (simp add: word_unat_eq_iff unsigned_ucast_eq small u take_bit_eq_mod)
    moreover have "(word_of_nat n :: u8) \<noteq> 31" using small 1 by (auto simp: word_unat_eq_iff)
    ultimately show ?thesis using 1 head_bits [OF assms(1), of "word_of_nat n"] small u
      by (simp add: write_head_def Let_def read_arg_def word_le_nat_alt)
  next
    case 2
    then have "(ucast (word_of_nat n :: u8) :: u64) = word_of_nat n"
      by (simp add: word_unat_eq_iff unsigned_ucast_eq small u take_bit_eq_mod)
    then show ?thesis using 2 head_bits [OF assms(1), of "24"] u
      by (simp add: write_head_def Let_def read_arg_def cb_byte_def)
  next
    case 3
    then show ?thesis using head_bits [OF assms(1), of "25"] u be [of 2]
      by (simp add: write_head_def Let_def read_arg_def)
  next
    case 4
    then show ?thesis using head_bits [OF assms(1), of "26"] u be [of 4]
      by (simp add: write_head_def Let_def read_arg_def)
  next
    case 5
    then show ?thesis using head_bits [OF assms(1), of "27"] u be [of 8] assms(2)
      by (simp add: write_head_def Let_def read_arg_def)
  qed
qed

section \<open>Numbers\<close>

lemma int_reads:
  assumes "depth \<le> CB_MAX_DEPTH" "- (2 ^ 64) \<le> i" "i < 2 ^ 64"
  shows "cb_read depth (cb_write_int i @ cur) = Inr (int_to_value i, cur)"
proof (cases "0 \<le> i")
  case True
  then have "nat i < 2 ^ 64" using assms(3) by (simp add: nat_less_iff)
  then obtain head rest where h: "write_head 0 (nat i) = head # rest" "drop_bit 5 head = 0"
    "read_arg (rest @ cur) (and head 0x1F) = Inr (word_of_nat (nat i), cur)" "unat (word_of_nat (nat i) :: u64) = nat i"
    using write_head_reads [of 0 "nat i"] by auto
  then have "uint (word_of_nat (nat i) :: u64) = i" using True unfolding uint_nat h(4) by simp
  then show ?thesis using h(1-3) True assms(1) by (simp add: cb_read.simps cb_byte_Inr cb_write_int_def Let_def cb_byte_def)
next
  case False
  define n where "n = nat (- (i + 1))"
  have "n < 2 ^ 64" using False assms(2) by (simp add: nat_less_iff n_def)
  then obtain head rest where h: "write_head 1 n = head # rest" "drop_bit 5 head = 1"
    "read_arg (rest @ cur) (and head 0x1F) = Inr (word_of_nat n, cur)" "unat (word_of_nat n :: u64) = n"
    using write_head_reads [of 1 n] by auto
  then have "- 1 - uint (word_of_nat n :: u64) = i" using False unfolding uint_nat h(4) by (simp add: n_def)
  then show ?thesis using h(1-3) False assms(1) by (simp add: cb_read.simps cb_write_int_def Let_def cb_byte_def n_def)
qed

text \<open>A NaN comes casts_back quiet; every other number to the last bit.\<close>

definition cb_number :: "f64 \<Rightarrow> f64" where
  "cb_number x = (if f64_is_nan x then 0x7FF8000000000000 else x)"

lemma nan_half: "half_to_f64 0x7E00 = 0x7FF8000000000000"
proof -
  have "half_of 0 31 512 = 0x7E00" by (simp add: half_of_def)
  then show ?thesis using half_value [of 0 31 512] by (simp add: half_magnitude_def)
qed

lemma zero_half: "f64_is_zero x \<Longrightarrow> half_exact x \<noteq> None"
proof -
  assume "f64_is_zero x"
  then have "double_exponent x * 2 ^ 52 + double_mantissa x = 0"
    using abs_from_fields [of x] f64_abs_parts(3) [of x] by simp
  then show ?thesis by (simp add: half_exact_fields half_found_def)
qed

lemma widen_cast:
  fixes w :: "'a::len word"
  assumes "LENGTH('a) \<le> 64"
  shows "ucast (word_of_nat (unat w) :: u64) = w"
proof -
  have "unat w < 2 ^ 64" using unat_bound [of w] power_increasing [OF assms, of "2::nat"] by linarith
  then have u: "unat (word_of_nat (unat w) :: u64) = unat w" by (simp only: unat_of_nat) simp
  show ?thesis by (simp only: word_unat_eq_iff unsigned_ucast_eq u) (simp add: take_bit_eq_mod less_imp_le unat_bound)
qed

lemma number_reads:
  assumes "depth \<le> CB_MAX_DEPTH"
  shows "cb_read depth (cb_write_number x @ cur) = Inr (VNumber (cb_number x), cur)"
proof -
  have two: "cut_be CbTruncated 2 (be_bytes 2 (unat h) @ cur) = Inr (word_of_nat (unat h), cur)" for h :: u16
    using cut_be_bytes [of 2 "unat h" CbTruncated cur] unat_bound [of h] by simp
  have four: "cut_be CbTruncated 4 (be_bytes 4 (unat w) @ cur) = Inr (word_of_nat (unat w), cur)" for w :: u32
    using cut_be_bytes [of 4 "unat w" CbTruncated cur] unat_bound [of w] by simp
  have eight: "cut_be CbTruncated 8 (be_bytes 8 (unat x) @ cur) = Inr (x, cur)"
    using cut_be_bytes [of 8 "unat x" CbTruncated cur] unat_bound [of x] by simp
  have casts_back: "(ucast (word_of_nat (unat h) :: u64) :: u16) = h" "(ucast (word_of_nat (unat w) :: u64) :: u32) = w"
    for h :: u16 and w :: u32
    by (rule widen_cast; simp)+
  have heads: "drop_bit 5 (0xF9 :: u8) = 7" "and (0xF9 :: u8) 0x1F = 25" "drop_bit 5 (0xFA :: u8) = 7" "and (0xFA :: u8) 0x1F = 26"
    "drop_bit 5 (0xFB :: u8) = 7" "and (0xFB :: u8) 0x1F = 27" by simp_all
  consider "f64_is_nan x"
    | "\<not> f64_is_nan x" "f64_integral x \<and> int (f64_magnitude x) \<le> MAX_SAFE_INTEGER \<and> \<not> (f64_is_zero x \<and> f64_negative x)"
    | h where "\<not> f64_is_nan x" "\<not> (f64_integral x \<and> int (f64_magnitude x) \<le> MAX_SAFE_INTEGER \<and> \<not> (f64_is_zero x \<and> f64_negative x))" "half_exact x = Some h"
    | "\<not> f64_is_nan x" "\<not> (f64_integral x \<and> int (f64_magnitude x) \<le> MAX_SAFE_INTEGER \<and> \<not> (f64_is_zero x \<and> f64_negative x))" "half_exact x = None"
    by (cases "half_exact x") auto
  then show ?thesis
  proof cases
    case 1
    have "be_value [0x7E, 0] = 0x7E00" by (simp add: be_value_def)
    then have "cut_be CbTruncated 2 (0x7E # 0 # cur) = Inr (0x7E00, cur)" by (simp add: cut_be_def cut_def)
    then show ?thesis using 1 assms nan_half
      by (simp add: cb_write_number_def cb_read.simps Let_def cb_byte_def read_simple_def cb_number_def)
  next
    case 2
    define i where "i = f64_trunc x"
    have i: "- MAX_SAFE_INTEGER \<le> i" "i \<le> MAX_SAFE_INTEGER" using 2 by (auto simp: i_def f64_trunc_def)
    then have "f64_as_i64 x = i" using 2 unfolding i_def by (intro as_i64_trunc) (simp_all add: f64_integral_def MAX_SAFE_INTEGER_def)
    moreover have "f64_of_int i = x" using integral_int [of x] 2 f64_sign_split [of x] f64_abs_parts(3) [of x] unfolding i_def
      by auto
    ultimately show ?thesis using 2 i int_reads [OF assms, of i cur]
      by (simp add: cb_write_number_def int_to_value_def cb_number_def MAX_SAFE_INTEGER_def)
  next
    case (3 h)
    then have "half_to_f64 h = x" using half_exact_value by simp
    moreover have "cb_write_number x = 0xF9 # be_bytes 2 (unat h)"
      by (simp only: cb_write_number_def if_not_P [OF 3(1)] if_not_P [OF 3(2)] 3(3) option.case)
    ultimately show ?thesis using 3(1) assms two [of h] casts_back
      by (simp add: cb_read.simps Let_def cb_byte_def read_simple_def cb_number_def)
  next
    case 4
    then have "\<not> f64_is_zero x" using zero_half by blast
    then have "f64_of_f32 (f32_of_f64 x) = x" if "f64_eq (f64_of_f32 (f32_of_f64 x)) x" using that by (auto simp: f64_eq_def)
    then show ?thesis using 4 assms four [of "f32_of_f64 x"] eight casts_back
      by (auto simp: cb_write_number_def cb_read.simps Let_def cb_byte_def read_simple_def cb_number_def)
  qed
qed

section \<open>Values\<close>

text \<open>The order of members: by their encoded keys, stable.\<close>

definition cb_order :: "(utf8 \<times> 'v) list \<Rightarrow> (utf8 \<times> 'v) list" where
  "cb_order = sort_key (\<lambda>(k, v). write_text k)"

fun cb_fits :: "nat \<Rightarrow> script_value \<Rightarrow> bool" where
  "cb_fits depth (VBigInt i) \<longleftrightarrow> depth \<le> CB_MAX_DEPTH \<and> - (2 ^ 64) \<le> i \<and> i < 2 ^ 64"
| "cb_fits depth (VString s) \<longleftrightarrow> depth \<le> CB_MAX_DEPTH \<and> utf8_valid s \<and> length s < 2 ^ 64"
| "cb_fits depth (VBytes b) \<longleftrightarrow> depth \<le> CB_MAX_DEPTH \<and> length b < 2 ^ 64"
| "cb_fits depth (VArray vs) \<longleftrightarrow> depth \<le> CB_MAX_DEPTH \<and> length vs < 2 ^ 64 \<and> list_all (cb_fits (depth + 1)) vs"
| "cb_fits depth (VObject ms) \<longleftrightarrow> depth \<le> CB_MAX_DEPTH \<and> length ms < 2 ^ 64 \<and>
     list_all (\<lambda>(k, v). utf8_valid k \<and> length k < 2 ^ 64 \<and> cb_fits (depth + 1) v) ms"
| "cb_fits depth (VOther s) \<longleftrightarrow> False"
| "cb_fits depth _ \<longleftrightarrow> depth \<le> CB_MAX_DEPTH"

text \<open>What comes back: members in order, a NaN quiet, a BigInt a number can hold as that number.\<close>

fun cb_canonical :: "script_value \<Rightarrow> script_value" where
  "cb_canonical (VNumber x) = VNumber (cb_number x)"
| "cb_canonical (VBigInt i) = int_to_value i"
| "cb_canonical (VArray vs) = VArray (map cb_canonical vs)"
| "cb_canonical (VObject ms) = VObject (cb_order (map (\<lambda>(k, v). (k, cb_canonical v)) ms))"
| "cb_canonical v = v"

lemma insort_key_map: "insort_key f (g x) (map g xs) = map g (insort_key (\<lambda>x. f (g x)) x xs)"
  by (induction xs) simp_all

lemma sort_key_map: "sort_key f (map g xs) = map g (sort_key (\<lambda>x. f (g x)) xs)"
  by (induction xs) (simp_all add: insort_key_map)

lemma order_map: "cb_order (map (\<lambda>(k, v). (k, h v)) ms) = map (\<lambda>(k, v). (k, h v)) (cb_order ms)"
  by (simp add: cb_order_def sort_key_map case_prod_unfold)

lemma order_set [simp]: "set (cb_order ms) = set ms" "length (cb_order ms) = length ms"
  by (simp_all add: cb_order_def)

lemma in_a_row_Inr: "(\<And>x. x \<in> set xs \<Longrightarrow> f x = Inr (g x)) \<Longrightarrow> in_a_row (map f xs) = Inr (concat (map g xs))"
  by (induction xs) auto

lemma write_object:
  "cb_write depth (VObject ms) =
     (if depth > CB_MAX_DEPTH then Inl CbNestsTooDeep
      else res_bind (in_a_row (map (\<lambda>(k, v). res_bind (cb_write (depth + 1) v) (\<lambda>out. Inr (write_text k @ out))) (cb_order ms)))
        (\<lambda>out. Inr (write_head 5 (length ms) @ out)))"
  by (simp add: cb_write.simps sort_key_map cb_order_def case_prod_unfold comp_def Let_def)

lemma text_reads: "depth \<le> CB_MAX_DEPTH \<Longrightarrow> utf8_valid s \<Longrightarrow> length s < 2 ^ 64 \<Longrightarrow> cb_read depth (write_text s @ cur) = Inr (VString s, cur)"
proof -
  assume d: "depth \<le> CB_MAX_DEPTH" and s: "utf8_valid s" "length s < 2 ^ 64"
  obtain head rest where "write_head 3 (length s) = head # rest" "drop_bit 5 head = 3" "and head 0x1F \<noteq> 31"
    "\<forall>cur. read_arg (rest @ cur) (and head 0x1F) = Inr (word_of_nat (length s), cur)" "unat (word_of_nat (length s) :: u64) = length s"
    using write_head_reads [of 3 "length s"] s(2) by auto
  then show ?thesis using d s by (simp add: cb_read.simps Let_def cb_byte_def write_text_def read_string_def read_payload_def)
qed

lemma bytes_reads: "depth \<le> CB_MAX_DEPTH \<Longrightarrow> length b < 2 ^ 64 \<Longrightarrow> cb_read depth (write_head 2 (length b) @ b @ cur) = Inr (VBytes b, cur)"
proof -
  assume d: "depth \<le> CB_MAX_DEPTH" and s: "length b < 2 ^ 64"
  obtain head rest where "write_head 2 (length b) = head # rest" "drop_bit 5 head = 2" "and head 0x1F \<noteq> 31"
    "\<forall>cur. read_arg (rest @ cur) (and head 0x1F) = Inr (word_of_nat (length b), cur)" "unat (word_of_nat (length b) :: u64) = length b"
    using write_head_reads [of 2 "length b"] s by auto
  then show ?thesis using d by (simp add: cb_read.simps Let_def cb_byte_def read_string_def read_payload_def)
qed

lemma counted_reads:
  assumes "depth \<le> CB_MAX_DEPTH" "n < 2 ^ 64"
  shows "cb_read depth (write_head 4 n @ cur) = res_bind (cb_read_items (depth + 1) (Some n) cur) (\<lambda>(vs, cur). Inr (VArray vs, cur))"
    and "cb_read depth (write_head 5 n @ cur) = res_bind (cb_read_pairs (depth + 1) (Some n) cur) (\<lambda>(ms, cur). Inr (VObject ms, cur))"
proof -
  obtain head rest where "write_head 4 n = head # rest" "drop_bit 5 head = 4" "and head 0x1F \<noteq> 31"
    "\<forall>cur. read_arg (rest @ cur) (and head 0x1F) = Inr (word_of_nat n, cur)" "unat (word_of_nat n :: u64) = n"
    using write_head_reads [of 4 n] assms(2) by auto
  then show "cb_read depth (write_head 4 n @ cur) = res_bind (cb_read_items (depth + 1) (Some n) cur) (\<lambda>(vs, cur). Inr (VArray vs, cur))"
    using assms(1) by (simp add: cb_read.simps [of depth] Let_def cb_byte_def read_count_def)
  obtain head rest where "write_head 5 n = head # rest" "drop_bit 5 head = 5" "and head 0x1F \<noteq> 31"
    "\<forall>cur. read_arg (rest @ cur) (and head 0x1F) = Inr (word_of_nat n, cur)" "unat (word_of_nat n :: u64) = n"
    using write_head_reads [of 5 n] assms(2) by auto
  then show "cb_read depth (write_head 5 n @ cur) = res_bind (cb_read_pairs (depth + 1) (Some n) cur) (\<lambda>(ms, cur). Inr (VObject ms, cur))"
    using assms(1) by (simp add: cb_read.simps [of depth] Let_def cb_byte_def read_count_def)
qed

lemma items_read:
  "(\<And>v cur. v \<in> set vs \<Longrightarrow> cb_read depth (g v @ cur) = Inr (c v, cur)) \<Longrightarrow>
    cb_read_items depth (Some (length vs)) (concat (map g vs) @ cur) = Inr (map c vs, cur)"
proof (induction vs)
  case Nil
  then show ?case by (subst cb_read_items.simps) (simp add: item_next_def items_end_def)
next
  case (Cons v vs)
  then show ?case by (subst cb_read_items.simps) (simp add: item_next_def)
qed

lemma pairs_read:
  "(\<And>k v cur. (k, v) \<in> set ms \<Longrightarrow> cb_read depth (write_text k @ cur) = Inr (VString k, cur) \<and> cb_read depth (g v @ cur) = Inr (c v, cur)) \<Longrightarrow>
    cb_read_pairs depth (Some (length ms)) (concat (map (\<lambda>(k, v). write_text k @ g v) ms) @ cur) = Inr (map (\<lambda>(k, v). (k, c v)) ms, cur)"
proof (induction ms)
  case Nil
  then show ?case by (subst cb_read_pairs.simps) (simp add: item_next_def items_end_def)
next
  case (Cons kv ms)
  obtain k v where kv: "kv = (k, v)" by force
  have "cb_read depth (write_text k @ r) = Inr (VString k, r)" "cb_read depth (g v @ r) = Inr (c v, r)" for r
    using Cons.prems [of k v r] kv by simp_all
  moreover have "cb_read_pairs depth (Some (length ms)) (concat (map (\<lambda>(k, v). write_text k @ g v) ms) @ cur) =
      Inr (map (\<lambda>(k, v). (k, c v)) ms, cur)"
    by (rule Cons.IH) (rule Cons.prems, simp)
  ultimately show ?case using kv by (subst cb_read_pairs.simps) (simp add: item_next_def)
qed

lemma bigint_reads:
  "cb_fits depth (VBigInt i) \<Longrightarrow> write_bigint i = Inr (cb_write_int i) \<and> cb_read depth (cb_write_int i @ cur) = Inr (int_to_value i, cur)"
  using int_reads [of depth i cur] by (auto simp: write_bigint_def cb_write_int_def)

lemma cb_reads_back:
  "cb_fits depth v \<Longrightarrow> \<exists>out. cb_write depth v = Inr out \<and> (\<forall>cur. cb_read depth (out @ cur) = Inr (cb_canonical v, cur))"
proof (induction v arbitrary: depth)
  case (VArray vs)
  then have d: "depth \<le> CB_MAX_DEPTH" "length vs < 2 ^ 64" by simp_all
  have "\<forall>v\<in>set vs. \<exists>out. cb_write (depth + 1) v = Inr out \<and> (\<forall>cur. cb_read (depth + 1) (out @ cur) = Inr (cb_canonical v, cur))"
    using VArray by (simp add: list_all_iff)
  then obtain g where g: "cb_write (depth + 1) v = Inr (g v)" "cb_read (depth + 1) (g v @ cur) = Inr (cb_canonical v, cur)"
    if "v \<in> set vs" for v cur by (metis bchoice)
  then show ?case using d items_read [of vs "depth + 1" g cb_canonical] counted_reads(1) [OF d] in_a_row_Inr [of vs "cb_write (depth + 1)" g]
    by (simp add: cb_write.simps)
next
  case (VObject ms)
  then have d: "depth \<le> CB_MAX_DEPTH" "length ms < 2 ^ 64" by simp_all
  have keys: "utf8_valid k" "length k < 2 ^ 64" "cb_fits (depth + 1) v" if "(k, v) \<in> set ms" for k v
    using VObject.prems that by (auto simp: list_all_iff)
  have "\<forall>v\<in>snd ` set ms. \<exists>out. cb_write (depth + 1) v = Inr out \<and> (\<forall>cur. cb_read (depth + 1) (out @ cur) = Inr (cb_canonical v, cur))"
    using VObject.IH keys(3) by fastforce
  then obtain g where g: "cb_write (depth + 1) v = Inr (g v)" "cb_read (depth + 1) (g v @ cur) = Inr (cb_canonical v, cur)"
    if "v \<in> snd ` set ms" for v cur by (metis bchoice)
  have gv: "cb_write (depth + 1) v = Inr (g v)" "cb_read (depth + 1) (g v @ cur) = Inr (cb_canonical v, cur)"
    if "(k, v) \<in> set ms" for k v cur using g that by force+
  have deep: "depth + 1 \<le> CB_MAX_DEPTH" if "(k, v) \<in> set ms" for k v using keys(3) [OF that] by (cases v) auto
  have "in_a_row (map (\<lambda>(k, v). res_bind (cb_write (depth + 1) v) (\<lambda>out. Inr (write_text k @ out))) (cb_order ms)) =
      Inr (concat (map (\<lambda>(k, v). write_text k @ g v) (cb_order ms)))"
    by (rule in_a_row_Inr) (auto dest!: gv(1) [simplified])
  moreover have "cb_read_pairs (depth + 1) (Some (length (cb_order ms))) (concat (map (\<lambda>(k, v). write_text k @ g v) (cb_order ms)) @ cur) =
      Inr (map (\<lambda>(k, v). (k, cb_canonical v)) (cb_order ms), cur)" for cur
    by (rule pairs_read) (use gv keys deep text_reads in auto)
  ultimately show ?case using d counted_reads(2) [OF d] by (simp add: write_object order_map)
next
  case (VNumber x)
  then show ?case using number_reads [of depth x] by (simp add: cb_write.simps)
next
  case (VBigInt i)
  then show ?case using bigint_reads [of depth i] by (simp add: cb_write.simps)
next
  case (VString s)
  then show ?case using text_reads [of depth s] by (simp add: cb_write.simps)
next
  case (VBytes b)
  then show ?case using bytes_reads [of depth b] by (simp add: cb_write.simps)
qed (simp_all add: cb_write.simps cb_read.simps cb_byte_def Let_def read_simple_def)

text \<open>
  C34: CBOR round trip. A value of at most 256 levels without what CBOR cannot hold (a BigInt past 64 bits,
  something that is no data), its strings valid UTF-8, is encoded, and the bytes decode to it: every number
  to the last bit, with members in the order of their encoded keys, a NaN quiet and a BigInt a number can
  hold become that number.
\<close>

theorem cbor_roundtrip:
  assumes "cb_fits 0 v"
  shows "\<exists>bytes. cb_write_value v = Inr bytes \<and> cb_read_value bytes = Inr (cb_canonical v)"
proof -
  obtain out where "cb_write 0 v = Inr out" "\<forall>cur. cb_read 0 (out @ cur) = Inr (cb_canonical v, cur)"
    using cb_reads_back [OF assms] by blast
  moreover from this(2) have "cb_read 0 out = Inr (cb_canonical v, [])" by (metis append_Nil2)
  ultimately show ?thesis by (simp add: cb_write_value_def cb_read_value_def)
qed

theorem cbor_roundtrip_witness:
  "\<exists>bytes. cb_write_value (VObject [([0x62], VBigInt (2 ^ 60)), ([0x61], VArray [VBytes [1], VUndefined])]) = Inr bytes \<and>
    cb_read_value bytes = Inr (VObject [([0x61], VArray [VBytes [1], VUndefined]), ([0x62], VBigInt (2 ^ 60))])"
proof -
  have "utf8_valid [0x61]" "utf8_valid [0x62]" by (auto intro: utf8_valid_ascii)
  then show ?thesis
    using cbor_roundtrip [of "VObject [([0x62], VBigInt (2 ^ 60)), ([0x61], VArray [VBytes [1], VUndefined])]"]
    by (simp add: CB_MAX_DEPTH_def int_to_value_def MAX_SAFE_INTEGER_def cb_order_def write_text_def write_head_def)
qed

section \<open>One encoding\<close>

lemma small_nat:
  assumes "0 < n" "n < 2 ^ 53"
  shows "f64_integral (f64_of_nat n) \<and> f64_magnitude (f64_of_nat n) = n \<and> \<not> f64_is_nan (f64_of_nat n) \<and>
    \<not> f64_is_zero (f64_of_nat n) \<and> unat (f64_of_nat n) < 2 ^ 63"
proof -
  define l where "l = floorlog 2 n"
  have l: "2 ^ (l - 1) \<le> n" "n < 2 ^ l" "1 \<le> l" using floorlog_range [OF assms(1)] by (simp_all add: l_def)
  have "(2::nat) ^ (l - 1) < 2 ^ 53" using l assms(2) by simp
  then have l53: "l \<le> 53" by (simp only: power_strict_increasing_iff)
  have "(2::nat) ^ 52 = 2 ^ (l - 1) * 2 ^ (53 - l)" "(2::nat) ^ 53 = 2 ^ l * 2 ^ (53 - l)" using l53 l(3) by (simp_all flip: power_add)
  then have m: "2 ^ 52 \<le> n * 2 ^ (53 - l)" "n * 2 ^ (53 - l) < 2 ^ 53"
    using mult_le_mono1 [OF l(1), of "2 ^ (53 - l)"] mult_less_mono1 [OF l(2), of "2 ^ (53 - l)"] by simp_all
  have "half_even (n * 2 ^ (53 - l)) (2 ^ (l - 53)) = n * 2 ^ (53 - l)"
    using half_even_whole [of 1 "n * 2 ^ (53 - l)"] l53 by simp
  then have e: "f64_of_nat n = f64_enc (n * 2 ^ (53 - l)) (int l - 53)"
    using nearest_nat [OF assms(1)] by (simp add: f64_of_nat_def l_def)
  have fin: "f64_finite (f64_of_nat n)"
    using m l53 enc_parts(1) [OF m, of "int l - 53"] by (simp add: e f64_inf_def nat_add_distrib)
  then have parts: "f64_parts (f64_of_nat n) = (n * 2 ^ (53 - l), int l - 53)"
    using enc_parts(2) [OF m, of "int l - 53"] by (simp add: e)
  have "nat (int l - 53) = 0" "nat (- (int l - 53)) = 53 - l" using l53 by simp_all
  then have "f64_integral (f64_of_nat n)" "f64_magnitude (f64_of_nat n) = n" using fin by (simp_all add: f64_integral_def f64_magnitude_def parts)
  moreover have "\<not> f64_is_nan (f64_of_nat n)" using fin by (simp add: f64_is_nan_def f64_finite_def)
  ultimately have ok: "f64_integral (f64_of_nat n)" "f64_magnitude (f64_of_nat n) = n" "\<not> f64_is_nan (f64_of_nat n)" by simp_all
  have zero: "f64_magnitude y = 0" if "f64_is_zero y" for y
    using that by (simp add: f64_magnitude_def f64_parts_def f64_is_zero_def)
  have "\<not> f64_is_zero (f64_of_nat n)"
    using zero [of "f64_of_nat n"] ok(2) assms(1) by auto
  then show ?thesis using ok nearest_below by (simp add: f64_of_nat_def)
qed

lemma signs:
  assumes "unat y < 2 ^ 63" "\<not> f64_is_zero y"
  shows "f64_negative (f64_neg y)" "\<not> f64_negative y" "f64_magnitude (f64_neg y) = f64_magnitude y"
    "f64_integral (f64_neg y) = f64_integral y" "f64_is_nan (f64_neg y) = f64_is_nan y" "f64_is_zero (f64_neg y) = f64_is_zero y"
proof -
  have a: "f64_abs (f64_neg y) = f64_abs y" "f64_abs y = y" using neg_abs [OF assms(1)] by simp_all
  then have u: "unat (f64_neg y) mod 2 ^ 63 = unat y mod 2 ^ 63" using f64_abs_parts(1) by metis
  show "\<not> f64_negative y" using assms(1) by (simp add: f64_negative_def)
  show "f64_negative (f64_neg y)" using neg_abs [OF assms(1)] by simp
  show "f64_is_nan (f64_neg y) = f64_is_nan y" "f64_is_zero (f64_neg y) = f64_is_zero y"
    unfolding f64_is_nan_def f64_is_zero_def u by simp_all
  have p: "f64_parts (f64_neg y) = f64_parts y" unfolding f64_parts_def u ..
  then show "f64_magnitude (f64_neg y) = f64_magnitude y" "f64_integral (f64_neg y) = f64_integral y"
    unfolding f64_magnitude_def f64_integral_def f64_finite_def u by simp_all
qed

lemma small_int_bytes:
  assumes "- MAX_SAFE_INTEGER \<le> i" "i \<le> MAX_SAFE_INTEGER"
  shows "cb_write_number (f64_of_int i) = cb_write_int i"
proof -
  define x where "x = f64_of_int i"
  define n where "n = nat \<bar>i\<bar>"
  have x: "\<not> f64_is_nan x \<and> f64_integral x \<and> f64_magnitude x = n \<and> \<not> (f64_is_zero x \<and> f64_negative x) \<and> (0 < n \<longrightarrow> (f64_negative x \<longleftrightarrow> i < 0))"
  proof (cases "i = 0")
    case True
    then have "x = 0" by (simp add: x_def f64_of_int_def f64_of_nat_def f64_nearest_def)
    then show ?thesis using True by (simp add: f64_is_nan_def f64_integral_def f64_finite_def f64_parts_def f64_magnitude_def f64_negative_def f64_inf_def n_def)
  next
    case False
    then have n: "0 < n" "n < 2 ^ 53" using assms by (simp_all add: n_def MAX_SAFE_INTEGER_def nat_less_iff)
    note sn = small_nat [OF n]
    have "x = (if i < 0 then f64_neg (f64_of_nat n) else f64_of_nat n)" by (simp add: x_def f64_of_int_def n_def)
    then show ?thesis using sn signs [of "f64_of_nat n"] by auto
  qed
  have t: "f64_trunc x = i" using x by (auto simp: f64_trunc_def n_def)
  then have "f64_as_i64 x = i" using x assms as_i64_trunc [of x] by (simp add: f64_integral_def MAX_SAFE_INTEGER_def)
  moreover have "int (f64_magnitude x) \<le> MAX_SAFE_INTEGER" using x assms by (simp add: n_def)
  ultimately show ?thesis using x by (simp add: cb_write_number_def x_def [symmetric])
qed

lemma canonical_bytes: "cb_write depth (cb_canonical v) = cb_write depth v"
proof (induction v arbitrary: depth)
  case (VNumber x)
  have "f64_is_nan 0x7FF8000000000000" by (simp add: f64_is_nan_def f64_inf_def)
  then have "cb_write_number (cb_number x) = cb_write_number x"
    by (cases "f64_is_nan x") (simp_all only: cb_number_def cb_write_number_def if_True if_False)
  then show ?case by (simp add: cb_write.simps)
next
  case (VBigInt i)
  then show ?case using small_int_bytes [of i]
    by (auto simp: cb_write.simps int_to_value_def write_bigint_def cb_write_int_def MAX_SAFE_INTEGER_def)
next
  case (VArray vs)
  then show ?case by (simp add: cb_write.simps [of depth] comp_def cong: map_cong)
next
  case (VObject ms)
  have twice: "cb_order (cb_order ms) = cb_order ms" by (simp add: cb_order_def sort_key_id_if_sorted)
  have c: "cb_canonical (VObject ms) = VObject (map (\<lambda>(k, v). (k, cb_canonical v)) (cb_order ms))" by (simp add: order_map)
  have sorted: "cb_order (map (\<lambda>(k, v). (k, cb_canonical v)) (cb_order ms)) = map (\<lambda>(k, v). (k, cb_canonical v)) (cb_order ms)"
    by (simp only: order_map twice)
  have members: "map ((\<lambda>(k, v). res_bind (cb_write (depth + 1) v) (\<lambda>out. Inr (write_text k @ out))) \<circ> (\<lambda>(k, v). (k, cb_canonical v))) (cb_order ms) =
      map (\<lambda>(k, v). res_bind (cb_write (depth + 1) v) (\<lambda>out. Inr (write_text k @ out))) (cb_order ms)"
    using VObject by (fastforce intro!: map_cong)
  show ?case unfolding c write_object sorted map_map members length_map order_set(2) ..
qed simp_all

text \<open>
  C35: one encoding. Two values that fit are written as the same bytes exactly when they hold the same data:
  the same value up to the order of members, the payload of a NaN, and whether a small integer came as a
  BigInt. So the encoding is deterministic and loses nothing.
\<close>

theorem cbor_one_encoding:
  assumes "cb_fits 0 v" "cb_fits 0 w"
  shows "cb_write_value v = cb_write_value w \<longleftrightarrow> cb_canonical v = cb_canonical w"
proof
  assume "cb_write_value v = cb_write_value w"
  then show "cb_canonical v = cb_canonical w" using cb_reads_back [OF assms(1)] cb_reads_back [OF assms(2)]
    by (auto simp: cb_write_value_def)
next
  assume "cb_canonical v = cb_canonical w"
  then show "cb_write_value v = cb_write_value w" unfolding cb_write_value_def by (metis canonical_bytes)
qed

theorem cbor_one_encoding_witness:
  "cb_write_value (VNumber 0x7FF0000000000001) = cb_write_value (VNumber 0xFFF8000000000000) \<and>
   cb_write_value (VNumber 0x8000000000000000) \<noteq> cb_write_value (VNumber 0)"
  using cbor_one_encoding [of "VNumber 0x7FF0000000000001" "VNumber 0xFFF8000000000000"]
    cbor_one_encoding [of "VNumber 0x8000000000000000" "VNumber 0"]
  by (simp add: CB_MAX_DEPTH_def cb_number_def f64_is_nan_def f64_inf_def)

text \<open>Members in another order.\<close>

lemma write_text_inj:
  assumes "write_text k = write_text k'" "length k < 2 ^ 64" "length k' < 2 ^ 64"
  shows "k = k'"
proof -
  obtain head rest where h: "write_head 3 (length k) = head # rest"
    "\<forall>cur. read_arg (rest @ cur) (and head 0x1F) = Inr (word_of_nat (length k), cur)"
    using write_head_reads [of 3 "length k"] assms(2) by auto
  obtain head' rest' where h': "write_head 3 (length k') = head' # rest'"
    "\<forall>cur. read_arg (rest' @ cur) (and head' 0x1F) = Inr (word_of_nat (length k'), cur)"
    using write_head_reads [of 3 "length k'"] assms(3) by auto
  have "head = head'" "rest @ k = rest' @ k'" using assms(1) h(1) h'(1) by (simp_all add: write_text_def)
  then have "Inr (word_of_nat (length k) :: u64, k) = (Inr (word_of_nat (length k'), k') :: cb_error + _)"
    using h(2) h'(2) by metis
  then show ?thesis by simp
qed

text \<open>
  Insertion order does not show. Two objects with the same members in any order, their keys distinct, are
  written as the same bytes, or refused alike.
\<close>

theorem cbor_member_order:
  assumes "mset ms = mset ms'" "distinct (map fst ms)" "\<forall>k\<in>set (map fst ms). length k < 2 ^ 64"
  shows "cb_write_value (VObject ms) = cb_write_value (VObject ms')"
proof -
  have "inj_on (\<lambda>(k, v). write_text k) (set ms)"
  proof (rule inj_onI)
    fix a b assume ab: "a \<in> set ms" "b \<in> set ms" "(\<lambda>(k, v). write_text k) a = (\<lambda>(k, v). write_text k) b"
    then have "fst a = fst b" using write_text_inj assms(3) by (auto simp: case_prod_unfold)
    then show "a = b" using ab assms(2) by (metis distinct_map inj_onD)
  qed
  then have "cb_order ms = cb_order ms'" unfolding cb_order_def using assms(1)
    by (intro sort_key_inj_key_eq) (simp_all add: mset_sort)
  moreover have "length ms = length ms'" using assms(1) by (metis size_mset)
  ultimately show ?thesis by (simp add: cb_write_value_def write_object)
qed

theorem cbor_member_order_witness:
  "cb_write_value (VObject [([0x62], VNull), ([0x61], VUndefined)]) = cb_write_value (VObject [([0x61], VUndefined), ([0x62], VNull)])"
  using cbor_member_order [of "[([0x62], VNull), ([0x61], VUndefined)]" "[([0x61], VUndefined), ([0x62], VNull)]"] by simp

end
