(* ===== verification/CborShortest.thy ===== *)
theory CborShortest
  imports CborRound
begin

text \<open>
  The encoder's choice among the three float forms is the shortest that holds the number.
\<close>

section \<open>A single is found again\<close>

lemma single_cong:
  assumes "n * d' = n' * d" "0 < d" "0 < d'"
  shows "f32_nearest n d = f32_nearest n' d'"
proof (cases "n = 0")
  case True
  then show ?thesis using assms by (simp add: f32_nearest_def)
next
  case False
  then have pos: "0 < n" "0 < n'" using assms by (auto intro!: gr0I)
  have e: "binary_exponent n' d' = binary_exponent n d"
    using binary_exponent_spec [OF pos(1) assms(2)] ge_pow2_cong [OF assms]
    by (intro binary_exponent_unique pos assms) simp_all
  have "half_even (n * a) (d * b) = half_even (n' * a) (d' * b)" if "0 < b" for a b
  proof (rule half_even_cong)
    show "n * a * (d' * b) = n' * a * (d * b)" using assms(1) by (simp add: ac_simps)
  qed (use assms that in simp_all)
  then show ?thesis using pos by (simp add: f32_nearest_def Let_def e)
qed

lemma single_normal:
  assumes "2 ^ 23 \<le> m" "m < 2 ^ 24" "- 149 \<le> j" "j + 150 < 255"
  shows "f32_nearest (m * 2 ^ nat j) (2 ^ nat (- j)) = nat (j + 149) * 2 ^ 23 + m"
proof -
  define n where "n = m * 2 ^ nat j"
  define d where "d = (2::nat) ^ nat (- j)"
  have pos: "0 < n" "0 < d" using assms(1) by (simp_all add: n_def d_def)
  have v: "real n / real d = real m * 2 powi j" by (simp add: n_def d_def two_powi)
  have m: "2 ^ 23 \<le> real m" "real m < 2 ^ 24" using assms(1,2) by simp_all
  have "ge_pow2 n d (23 + j)"
    unfolding ge_pow2_real [OF pos(2)] v using m(1) by (simp add: power_int_add)
  moreover have "\<not> ge_pow2 n d (23 + j + 1)"
    unfolding ge_pow2_real [OF pos(2)] v using m(2) by (simp add: power_int_add)
  ultimately have e: "binary_exponent n d = 23 + j" by (rule binary_exponent_unique [OF pos])
  have "n * d = m * (d * 2 ^ nat j)" by (simp add: n_def)
  then have h: "half_even (n * d) (d * 2 ^ nat j) = m" using half_even_whole [of "d * 2 ^ nat j" m] pos(2) by (simp del: mult_eq_0_iff add: ac_simps)
  have q: "max (23 + j) (- 126) - 23 = j" "nat (max (23 + j) (- 126) + 126) = nat (j + 149)" using assms(3) by auto
  have "nat (j + 149) \<le> 253" using assms(4) by simp
  then have "nat (j + 149) * 2 ^ 23 + m < f32_inf" using assms(2) by (simp add: f32_inf_def)
  then show ?thesis
    unfolding n_def [symmetric] d_def [symmetric] f32_nearest_def Let_def e q using pos(1) h by (simp flip: d_def)
qed

lemma single_subnormal: "f < 2 ^ 23 \<Longrightarrow> f32_nearest f (2 ^ 149) = f"
proof (cases "f = 0")
  case True
  then show ?thesis by (simp add: f32_nearest_def)
next
  case False
  assume f: "f < 2 ^ 23"
  define d where "d = (2::nat) ^ 149"
  have d: "0 < d" "real d = 2 ^ 149" by (simp_all add: d_def)
  have "real f < 2 ^ 23" using f by simp
  then have "real f / real d < 2 ^ 23 / 2 ^ 149" unfolding d(2) by (simp add: divide_strict_right_mono)
  also have "\<dots> = (2::real) powi (- 126)" by (simp add: power_int_def field_simps)
  finally have "\<not> ge_pow2 f d (- 126)" unfolding ge_pow2_real [OF d(1)] by simp
  then have "binary_exponent f d < - 126"
    using ge_pow2_mono [OF d(1) conjunct1 [OF binary_exponent_spec [of f d]], of "- 126"] False d(1) by linarith
  then have e: "max (binary_exponent f d) (- 126) = - 126" by simp
  have "half_even (f * d) (d * 2 ^ nat (- 126 - 23)) = f" using half_even_whole [OF d(1), of f] by simp
  moreover have "(2::nat) ^ nat (- (- 126 - 23)) = d" by (simp add: d_def)
  ultimately have "f32_nearest f d = f" using False f unfolding f32_nearest_def Let_def e by (simp add: f32_inf_def)
  then show "f32_nearest f (2 ^ 149) = f" by (simp only: d_def)
qed

lemma regroup: "p * q * k = r * s \<Longrightarrow> c * k * p * q = c * r * (s :: nat)"
proof -
  assume a: "p * q * k = r * s"
  have "c * k * p * q = c * (p * q * k)" by (simp only: ac_simps)
  then show ?thesis unfolding a by (simp only: ac_simps)
qed

definition widened :: "nat \<Rightarrow> nat \<Rightarrow> nat" where
  "widened e f =
     (if e = 255 then (if f = 0 then f64_inf else 2047 * 2 ^ 52 + (if f < 2 ^ 22 then f + 2 ^ 22 else f) * 2 ^ 29)
      else if e = 0 then unat (f64_nearest f (2 ^ 149))
      else (e + 896) * 2 ^ 52 + f * 2 ^ 29)"

definition narrowed :: "nat \<Rightarrow> nat" where
  "narrowed b =
     (if f64_inf < b then f32_inf + 2 ^ 22
      else if b = f64_inf then f32_inf
      else (let (m, e) = (if b div 2 ^ 52 = 0 then (b mod 2 ^ 52, - 1074) else (2 ^ 52 + b mod 2 ^ 52, int (b div 2 ^ 52) - 1075))
            in f32_nearest (m * 2 ^ nat e) (2 ^ nat (- e))))"

lemma narrowed_body:
  "f32_of_f64 x = word_of_nat (if f64_negative x then 2 ^ 31 + narrowed (unat x mod 2 ^ 63) else narrowed (unat x mod 2 ^ 63))"
proof -
  have "f64_is_nan x \<longleftrightarrow> f64_inf < unat x mod 2 ^ 63" "\<not> f64_is_nan x \<Longrightarrow> \<not> f64_finite x \<longleftrightarrow> unat x mod 2 ^ 63 = f64_inf"
    by (auto simp: f64_is_nan_def f64_finite_def)
  then show ?thesis unfolding f32_of_f64_def narrowed_def f64_parts_def Let_def by auto
qed

lemma widened_narrowed:
  assumes "e < 256" "f < 2 ^ 23" "\<not> f64_inf < widened e f"
  shows "narrowed (widened e f) = e * 2 ^ 23 + f"
proof -
  consider "e = 255" "f = 0" | "e = 0" "f = 0" | "e = 0" "0 < f" | "1 \<le> e" "e < 255" | "e = 255" "0 < f"
    using assms(1) by linarith
  then show ?thesis
  proof cases
    case 1
    then show ?thesis by (simp add: widened_def narrowed_def f32_inf_def)
  next
    case 2
    then have "widened e f = 0" by (simp add: widened_def f64_nearest_def)
    then show ?thesis using 2 by (simp add: narrowed_def f64_inf_def f32_nearest_def)
  next
    case 3
    define l where "l = floorlog 2 f"
    have l: "2 ^ (l - 1) \<le> f" "f < 2 ^ l" "1 \<le> l" using floorlog_range [OF 3(2)] by (simp_all add: l_def)
    have "(2::nat) ^ (l - 1) < 2 ^ 23" using l assms(2) by simp
    then have "l - 1 < 23" by (simp only: power_strict_increasing_iff)
    then have l23: "l \<le> 23" by simp
    define m where "m = f * 2 ^ (53 - l)"
    have "(2::nat) ^ 52 = 2 ^ (l - 1) * 2 ^ (53 - l)" "(2::nat) ^ 53 = 2 ^ l * 2 ^ (53 - l)" using l23 l(3) by (simp_all flip: power_add)
    then have m: "2 ^ 52 \<le> m" "m < 2 ^ 53"
      using mult_le_mono1 [OF l(1), of "2 ^ (53 - l)"] mult_less_mono1 [OF l(2), of "2 ^ (53 - l)"] by (simp_all add: m_def)
    define j where "j = int l - 202"
    have j: "nat j = 0" "nat (- j) = 202 - l" "- 1074 \<le> j" using l23 by (simp_all add: j_def)
    define a where "a = (2::nat) ^ (53 - l)"
    have pw: "(2::nat) ^ (202 - l) = 2 ^ 149 * a" "0 < a" using l23 unfolding a_def by (simp_all del: power_numeral flip: power_add)
    have cross: "f * (2 ^ 149 * a) = f * a * 2 ^ 149" by simp
    have x: "f64_nearest f (2 ^ 149) = f64_enc m j"
    proof -
      have "f64_nearest f (2 ^ 149) = f64_nearest (m * 2 ^ nat j) (2 ^ nat (- j))"
        unfolding j pw m_def a_def [symmetric] by (intro nearest_cong) (simp_all add: pw(2) del: power_numeral)
      then show ?thesis using nearest_exact [OF m j(3)] by simp
    qed
    have "nat (j + 1074) \<le> 895" using l23 by (simp add: j_def)
    then have "nat (j + 1074) * 2 ^ 52 \<le> 895 * 2 ^ 52" by (rule mult_le_mono1)
    then have small: "nat (j + 1074) * 2 ^ 52 + m < f64_inf" using m by (simp add: f64_inf_def)
    then have fin: "f64_finite (f64_enc m j)" using enc_parts(1) [OF m j(3)] by simp
    have b: "unat (f64_enc m j) mod 2 ^ 63 = unat (f64_enc m j)" using nearest_below [of f "2 ^ 149"] unfolding x by simp
    have "f64_parts (f64_enc m j) = (m, j)" by (rule enc_parts(2) [OF m j(3) fin])
    then have parts: "(if unat (f64_enc m j) div 2 ^ 52 = 0 then (unat (f64_enc m j) mod 2 ^ 52, - 1074)
        else (2 ^ 52 + unat (f64_enc m j) mod 2 ^ 52, int (unat (f64_enc m j) div 2 ^ 52) - 1075)) = (m, j)"
      unfolding f64_parts_def Let_def b .
    have "unat (f64_enc m j) < f64_inf" using fin b by (simp add: f64_finite_def)
    then have "narrowed (unat (f64_enc m j)) = f32_nearest (m * 2 ^ nat j) (2 ^ nat (- j))"
      unfolding narrowed_def parts by simp
    also have "\<dots> = f32_nearest f (2 ^ 149)"
      unfolding j pw m_def a_def [symmetric] by (rule single_cong) (simp_all add: pw(2) del: power_numeral)
    finally show ?thesis using 3 single_subnormal [OF assms(2)] x by (simp add: widened_def)
  next
    case 4
    define j where "j = int e - 150"
    have "f * 2 ^ 29 < 2 ^ 52" using assms(2) by simp
    then have d: "((e + 896) * 2 ^ 52 + f * 2 ^ 29) div 2 ^ 52 = e + 896" "((e + 896) * 2 ^ 52 + f * 2 ^ 29) mod 2 ^ 52 = f * 2 ^ 29"
      by (rule split_52)+
    have w: "widened e f = (e + 896) * 2 ^ 52 + f * 2 ^ 29" using 4 by (simp add: widened_def)
    have "(e + 896) * 2 ^ 52 \<le> 1150 * 2 ^ 52" by (rule mult_le_mono1) (use 4 in simp)
    then have "widened e f < f64_inf" using \<open>f * 2 ^ 29 < 2 ^ 52\<close> unfolding w f64_inf_def by simp
    then have "narrowed (widened e f) =
        f32_nearest ((2 ^ 52 + f * 2 ^ 29) * 2 ^ nat (int (e + 896) - 1075)) (2 ^ nat (- (int (e + 896) - 1075)))"
      unfolding narrowed_def w d by simp
    also have "\<dots> = f32_nearest ((2 ^ 23 + f) * 2 ^ nat j) (2 ^ nat (- j))"
    proof (rule single_cong)
      have "(2 ^ 52 + f * 2 ^ 29) = (2 ^ 23 + f) * 2 ^ 29" by simp
      moreover have "(2::nat) ^ nat (int (e + 896) - 1075) * 2 ^ nat (- j) * 2 ^ 29 = 2 ^ nat j * 2 ^ nat (- (int (e + 896) - 1075))"
      proof -
        have "nat (int (e + 896) - 1075) + nat (- j) + 29 = nat j + nat (- (int (e + 896) - 1075))" by (auto simp: j_def)
        then show ?thesis by (metis power_add)
      qed
      ultimately show "(2 ^ 52 + f * 2 ^ 29) * 2 ^ nat (int (e + 896) - 1075) * 2 ^ nat (- j) =
          (2 ^ 23 + f) * 2 ^ nat j * 2 ^ nat (- (int (e + 896) - 1075))"
        by (simp only: regroup)
    qed simp_all
    also have "\<dots> = nat (j + 149) * 2 ^ 23 + (2 ^ 23 + f)"
      by (rule single_normal) (use assms(2) 4 in \<open>simp_all add: j_def\<close>)
    also have "nat (j + 149) = e - 1" using 4 by (simp add: j_def)
    also have "(e - 1) * 2 ^ 23 + (2 ^ 23 + f) = e * 2 ^ 23 + f" using 4 by (cases e) simp_all
    finally show ?thesis .
  next
    case 5
    then show ?thesis using assms(3) by (simp add: widened_def f64_inf_def split: if_splits)
  qed
qed

lemma single_found:
  assumes "f64_of_f32 w = x" "\<not> f64_is_nan x"
  shows "f32_of_f64 x = w"
proof -
  define b where "b = unat w mod 2 ^ 31"
  define e where "e = b div 2 ^ 23"
  define f where "f = b mod 2 ^ 23"
  have wb: "unat w < 2 ^ 32" using unat_bound [of w] by simp
  have b: "b < 2 ^ 31" "b = e * 2 ^ 23 + f" "f < 2 ^ 23" by (simp_all add: b_def e_def f_def)
  have e: "e < 256" using b(1) by (simp add: e_def less_mult_imp_div_less)
  have ef: "unat w div 2 ^ 23 mod 256 = e" "unat w mod 2 ^ 23 = f"
    using div_of_mod [of "2 ^ 23" "unat w" 256] by (simp_all add: e_def f_def b_def mod_mod_cancel)
  have wv: "unat w = (if 2 ^ 31 \<le> unat w then 2 ^ 31 + b else b)" using wb unfolding b_def by (simp add: le_mod_geq)
  have below: "widened e f < 2 ^ 63"
  proof -
    have "f * 2 ^ 29 < 2 ^ 52" using b(3) by simp
    moreover have "(e + 896) * 2 ^ 52 \<le> 1151 * 2 ^ 52" by (rule mult_le_mono1) (use e in simp)
    ultimately have "(e + 896) * 2 ^ 52 + f * 2 ^ 29 < 2 ^ 63" by simp
    moreover have "unat (f64_nearest f (2 ^ 149)) < 2 ^ 63" by (rule nearest_below)
    ultimately show ?thesis using b(3) by (auto simp: widened_def f64_inf_def)
  qed
  have x: "x = word_of_nat (if 2 ^ 31 \<le> unat w then 2 ^ 63 + widened e f else widened e f)"
    using assms(1) unfolding f64_of_f32_def Let_def ef widened_def by simp
  have u: "unat x = (if 2 ^ 31 \<le> unat w then 2 ^ 63 + widened e f else widened e f)"
    unfolding x unat_of_nat using below by simp
  have neg: "f64_negative x \<longleftrightarrow> 2 ^ 31 \<le> unat w" and mag: "unat x mod 2 ^ 63 = widened e f"
    using below unfolding f64_negative_def u by simp_all
  have "narrowed (widened e f) = b"
    using widened_narrowed [OF e b(3)] assms(2) b(2) unfolding f64_is_nan_def mag by simp
  then have "(if 2 ^ 31 \<le> unat w then 2 ^ 31 + narrowed (widened e f) else narrowed (widened e f)) = unat w" using wv by argo
  then have "f32_of_f64 x = word_of_nat (unat w)" unfolding narrowed_body neg mag by (simp only:)
  then show ?thesis by simp
qed

text \<open>
  C37: the shortest float. A number that is not written as an integer takes three bytes when a half holds it
  exactly, else five when a single does, else nine: no float form that would read back the same is shorter.
\<close>

theorem cbor_shortest_float:
  assumes "\<not> f64_is_nan x" "\<not> (f64_integral x \<and> int (f64_magnitude x) \<le> MAX_SAFE_INTEGER \<and> \<not> (f64_is_zero x \<and> f64_negative x))"
  shows "length (cb_write_number x) =
    (if \<exists>h. half_to_f64 h = x then 3 else if \<exists>w. f64_of_f32 w = x then 5 else 9)"
proof -
  have half: "(\<exists>h. half_to_f64 h = x) \<longleftrightarrow> half_exact x \<noteq> None"
    using half_exact_complete half_exact_value assms(1) by blast
  have single: "(\<exists>w. f64_of_f32 w = x) \<longleftrightarrow> f64_eq (f64_of_f32 (f32_of_f64 x)) x" if "half_exact x = None"
  proof
    assume "\<exists>w. f64_of_f32 w = x"
    then show "f64_eq (f64_of_f32 (f32_of_f64 x)) x" using single_found assms(1) by (auto simp: f64_eq_def)
  next
    assume "f64_eq (f64_of_f32 (f32_of_f64 x)) x"
    then show "\<exists>w. f64_of_f32 w = x" using that by (auto simp: f64_eq_def dest: zero_half)
  qed
  have "cb_write_number x = (case half_exact x of Some half \<Rightarrow> 0xF9 # be_bytes 2 (unat half)
      | None \<Rightarrow> if f64_eq (f64_of_f32 (f32_of_f64 x)) x then 0xFA # be_bytes 4 (unat (f32_of_f64 x)) else 0xFB # be_bytes 8 (unat x))"
    unfolding cb_write_number_def if_not_P [OF assms(1)] if_not_P [OF assms(2)] ..
  then show ?thesis using half single by (cases "half_exact x") auto
qed

theorem cbor_shortest_float_witness: "length (cb_write_number 0x3FF8000000000000) = 3"
proof -
  have "half_exact 0x3FF8000000000000 = Some 0x3E00" by (simp add: half_exact_def Let_def)
  moreover have n: "\<not> f64_is_nan 0x3FF8000000000000" by (simp add: f64_is_nan_def f64_inf_def)
  ultimately have "half_to_f64 0x3E00 = 0x3FF8000000000000" by (intro half_exact_value)
  moreover have "\<not> f64_integral 0x3FF8000000000000" by (simp add: f64_integral_def f64_parts_def Let_def)
  ultimately show ?thesis using cbor_shortest_float [OF n] by auto
qed

end
