(* ===== verification/CborDecoded.thy ===== *)
theory CborDecoded
  imports CborRound
begin

text \<open>
  What the CBOR decoder makes can always be encoded again: nesting, integers and texts stay in the encoder's
  range, the names keys become included.
\<close>

section \<open>Property names are UTF-8\<close>

lemma ascii_valid: "\<forall>c\<in>set t. c < 128 \<Longrightarrow> utf8_valid (ascii t)"
  by (rule utf8_valid_ascii) (auto simp: ascii_def word_less_nat_alt unat_of_nat)

lemma digits_ascii: "list_all is_digit t \<Longrightarrow> \<forall>c\<in>set t. c < 128"
  by (auto simp: list_all_iff is_digit_def)

lemma int_text_valid: "utf8_valid (int_text i)"
  using decimal_text_digits [of "nat \<bar>i\<bar>"] ascii_valid [OF digits_ascii]
  by (auto simp: int_text_def utf8_valid_append utf8_valid_ascii intro!: utf8_valid_append [of "[0x2D]", simplified])

lemma js_string_valid: "utf8_valid (ascii (to_js_string x))"
proof (rule ascii_valid)
  have lay: "\<forall>c\<in>set (lay_out (decimal_text d) p). c < 128" for d p
    using digits_ascii [OF conjunct1 [OF decimal_text_digits [of d]]]
      digits_ascii [OF conjunct1 [OF decimal_text_digits [of "nat \<bar>p - 1\<bar>"]]] digits_ascii [OF digits_zeros(1)]
    by (auto simp: lay_out_def Let_def dest!: in_set_takeD in_set_dropD)
  show "\<forall>c\<in>set (to_js_string x). c < 128"
    unfolding to_js_string_def Let_def
    using lay by (auto simp: text_of_string_def of_char_def split: prod.splits)
qed

lemma join_valid: "\<forall>p\<in>set ps. utf8_valid p \<Longrightarrow> utf8_valid (join_elements ps)"
proof (induction ps rule: join_elements.induct)
  case (3 p q ps)
  have "utf8_valid (p @ [0x2C] @ join_elements (q # ps))"
    using 3 by (intro utf8_valid_append) (auto intro: utf8_valid_ascii)
  then show ?case by simp
qed simp_all

section \<open>What the decoder makes\<close>

fun cb_made :: "nat \<Rightarrow> script_value \<Rightarrow> bool" where
  "cb_made depth (VBigInt i) \<longleftrightarrow> depth \<le> CB_MAX_DEPTH \<and> - (2 ^ 64) \<le> i \<and> i < 2 ^ 64"
| "cb_made depth (VString s) \<longleftrightarrow> depth \<le> CB_MAX_DEPTH \<and> utf8_valid s"
| "cb_made depth (VArray vs) \<longleftrightarrow> depth \<le> CB_MAX_DEPTH \<and> list_all (cb_made (depth + 1)) vs"
| "cb_made depth (VObject ms) \<longleftrightarrow> depth \<le> CB_MAX_DEPTH \<and> list_all (\<lambda>(k, v). utf8_valid k \<and> cb_made (depth + 1) v) ms"
| "cb_made depth (VOther s) \<longleftrightarrow> False"
| "cb_made depth _ \<longleftrightarrow> depth \<le> CB_MAX_DEPTH"

text \<open>Lengths a 64-bit machine can hold.\<close>

fun in_memory :: "script_value \<Rightarrow> bool" where
  "in_memory (VString s) \<longleftrightarrow> length s < 2 ^ 64"
| "in_memory (VBytes b) \<longleftrightarrow> length b < 2 ^ 64"
| "in_memory (VArray vs) \<longleftrightarrow> length vs < 2 ^ 64 \<and> list_all in_memory vs"
| "in_memory (VObject ms) \<longleftrightarrow> length ms < 2 ^ 64 \<and> list_all (\<lambda>(k, v). length k < 2 ^ 64 \<and> in_memory v) ms"
| "in_memory v \<longleftrightarrow> True"

lemma made_fits: "cb_made depth v \<Longrightarrow> in_memory v \<Longrightarrow> cb_fits depth v"
proof (induction v arbitrary: depth)
  case (VObject ms)
  then show ?case by (fastforce simp: list_all_iff)
qed (auto simp: list_all_iff)

lemma made_key: "cb_made depth v \<Longrightarrow> utf8_valid (to_property_key v)"
proof (induction v arbitrary: depth)
  case (VArray vs)
  then show ?case by (auto intro!: join_valid VArray.IH simp: list_all_iff)
next
  case (VBytes b)
  then show ?case by (auto intro!: join_valid int_text_valid)
qed (auto intro!: ascii_valid simp: js_string_valid int_text_valid text_of_string_def of_char_def)

lemma payload_valid: "read_payload 3 cur n = Inr (raw, r) \<Longrightarrow> utf8_valid raw"
  by (auto simp: read_payload_def result_simps split: if_splits)

lemma chunk_valid: "read_chunk 3 cur = Inr (raw, r) \<Longrightarrow> utf8_valid raw"
  by (auto simp: read_chunk_def result_simps split: if_splits dest: payload_valid)

lemma chunks_valid: "read_chunks 3 buf cur = Inr (raw, r) \<Longrightarrow> utf8_valid buf \<Longrightarrow> utf8_valid raw"
proof (induction "3 :: u8" buf cur rule: read_chunks.induct)
  case (1 buf cur)
  show ?case
  proof (cases "at_break cur")
    case True
    then show ?thesis using 1 by (simp add: read_chunks.simps [of _ buf])
  next
    case False
    then obtain piece rest where p: "read_chunk 3 cur = Inr (piece, rest)" "read_chunks 3 (buf @ piece) rest = Inr (raw, r)"
      using 1(2) by (auto simp: read_chunks.simps [of _ buf] result_simps)
    then show ?thesis using 1(1) [OF False p(1) refl p(2)] 1(3) chunk_valid utf8_valid_append by blast
  qed
qed

lemma string_valid: "read_string 3 ai cur = Inr (raw, r) \<Longrightarrow> utf8_valid raw"
  by (auto simp: read_string_def result_simps split: if_splits dest: chunks_valid payload_valid)

lemma simple_made: "read_simple ai cur = Inr (v, r) \<Longrightarrow> depth \<le> CB_MAX_DEPTH \<Longrightarrow> cb_made depth v"
  by (auto simp: read_simple_def result_simps split: if_splits)

lemma int_made:
  "depth \<le> CB_MAX_DEPTH \<Longrightarrow> cb_made depth (int_to_value (uint (n :: u64)))"
  "depth \<le> CB_MAX_DEPTH \<Longrightarrow> cb_made depth (int_to_value (- 1 - uint (n :: u64)))"
proof -
  define u where "u = uint n"
  have u: "0 \<le> u" "u < 2 ^ 64" using uint_bounded [of n] by (simp_all add: u_def)
  assume "depth \<le> CB_MAX_DEPTH"
  then show "cb_made depth (int_to_value (uint n))" "cb_made depth (int_to_value (- 1 - uint n))"
    using u unfolding u_def [symmetric] by (simp_all add: int_to_value_def)
qed

lemma read_made:
  "cb_read depth cur = Inr (v, r) \<Longrightarrow> cb_made depth v"
  "cb_read_items depth cnt cur = Inr (vs, r) \<Longrightarrow> list_all (cb_made depth) vs"
  "cb_read_pairs depth cnt cur = Inr (ms, r) \<Longrightarrow> list_all (\<lambda>(k, v). utf8_valid k \<and> cb_made depth v) ms"
proof (induction depth cur and depth cnt cur and depth cnt cur arbitrary: v r and vs r and ms r
    rule: cb_read_cb_read_items_cb_read_pairs.induct)
  case (1 depth cur)
  note step = 1(3) [unfolded cb_read.simps [of depth cur]]
  then obtain head rest where h: "\<not> depth > CB_MAX_DEPTH" "cb_byte cur = Inr (head, rest)"
    by (auto simp: result_simps split: if_splits)
  have d: "depth \<le> CB_MAX_DEPTH" using h by simp
  have inner: "cb_made depth v"
    if "read_count (and head 31) rest = Inr (c, b)"
      "drop_bit 5 head = 4 \<and> cb_read_items (Suc depth) c b = Inr (vs, r) \<and> v = VArray vs \<or>
       drop_bit 5 head = 5 \<and> cb_read_pairs (Suc depth) c b = Inr (ms, r) \<and> v = VObject ms" for c b vs ms
    using that 1(1) [OF h refl refl refl] 1(2) [OF h refl refl refl] d by auto
  show ?case
    using step h d
    by (auto simp: result_simps Let_def int_made split: if_splits dest: string_valid simple_made inner)
next
  case (2 depth cnt cur)
  note step = 2(3) [unfolded cb_read_items.simps [of depth cnt cur]]
  then show ?case using 2(1,2) by (auto simp: result_simps split: option.splits)
next
  case (3 depth cnt cur)
  note step = 3(4) [unfolded cb_read_pairs.simps [of depth cnt cur]]
  then show ?case using 3(1,2,3) made_key by (fastforce simp: result_simps split: option.splits)
qed

text \<open>
  C36: what decodes can be written. For any bytes that decode, in indefinite lengths or not, with any keys, the
  value is encoded again without an error, and the encoding decodes to the same data.
\<close>

theorem cbor_decoded_reencodes:
  assumes "cb_read_value bytes = Inr v" "in_memory v"
  shows "\<exists>out. cb_write_value v = Inr out \<and> cb_read_value out = Inr (cb_canonical v)"
proof -
  have "cb_made 0 v" using assms(1) read_made(1) by (auto simp: cb_read_value_def result_simps split: if_splits)
  then obtain out where "cb_write 0 v = Inr out" "\<forall>cur. cb_read 0 (out @ cur) = Inr (cb_canonical v, cur)"
    using cb_reads_back made_fits assms(2) by blast
  moreover from this(2) have "cb_read 0 out = Inr (cb_canonical v, [])" by (metis append_Nil2)
  ultimately show ?thesis by (simp add: cb_write_value_def cb_read_value_def)
qed

theorem cbor_decoded_reencodes_witness:
  "\<exists>out. cb_write_value (VBytes [7]) = Inr out \<and> cb_read_value out = Inr (VBytes [7])"
proof -
  have "cb_read_value [0x5F, 0x41, 7, 0xFF] = Inr (VBytes [7])"
    by (simp add: cb_read_value_def cb_read.simps cb_byte_def Let_def CB_MAX_DEPTH_def read_string_def read_chunks.simps
        at_break_def read_chunk_def read_arg_def read_payload_def cut_def)
  then show ?thesis using cbor_decoded_reencodes [of "[0x5F, 0x41, 7, 0xFF]" "VBytes [7]"] by simp
qed

end
