(* ===== verification/DnsWire.thy ===== *)
theory DnsWire
  imports Cursor
begin

text \<open>
  DNS messages (\<open>default-providers/src/dns/wire.rs\<close>): one query out, one response in. Texts are their UTF-8
  bytes and a position is an index into the message.
\<close>

section \<open>Text\<close>

abbreviation dot :: u8 where "dot \<equiv> 0x2E"

abbreviation backslash :: u8 where "backslash \<equiv> 0x5C"

definition ascii_lower :: "u8 \<Rightarrow> u8" where
  "ascii_lower b = (if 0x41 \<le> b \<and> b \<le> 0x5A then b + 0x20 else b)"

definition same_ignoring_case :: "utf8 \<Rightarrow> utf8 \<Rightarrow> bool" where
  "same_ignoring_case s t \<longleftrightarrow> map ascii_lower s = map ascii_lower t"

text \<open>\<open>String::from_utf8_lossy\<close>: the most of a character that is there is replaced at once.\<close>

fun broken_len :: "u8 list \<Rightarrow> nat" where
  "broken_len (b # c # bs) =
     (if 0xE0 \<le> b \<and> b \<le> 0xEF \<and> continuation c \<and> (b = 0xE0 \<longrightarrow> 0xA0 \<le> c) \<and> (b = 0xED \<longrightarrow> c \<le> 0x9F) then 2
      else if 0xF0 \<le> b \<and> b \<le> 0xF4 \<and> continuation c \<and> (b = 0xF0 \<longrightarrow> 0x90 \<le> c) \<and> (b = 0xF4 \<longrightarrow> c \<le> 0x8F) then
        (case bs of d # _ \<Rightarrow> if continuation d then 3 else 2 | [] \<Rightarrow> 2)
      else 1)"
| "broken_len _ = 1"

lemma broken_len_pos: "0 < broken_len bs"
  by (cases bs rule: broken_len.cases) (auto split: list.split)

function utf8_lossy :: "u8 list \<Rightarrow> utf8" where
  "utf8_lossy bs =
     (if bs = [] then []
      else case utf8_next bs of
          Some r \<Rightarrow> take (length bs - length r) bs @ utf8_lossy r
        | None \<Rightarrow> [0xEF, 0xBF, 0xBD] @ utf8_lossy (drop (broken_len bs) bs))"
  by pat_completeness auto
termination
  by (relation "measure length") (auto dest: utf8_next_shorter simp: broken_len_pos)

declare utf8_lossy.simps [simp del]

definition decimal3 :: "u8 \<Rightarrow> utf8" where
  "decimal3 b = [0x30 + b div 100, 0x30 + b div 10 mod 10, 0x30 + b mod 10]"

section \<open>The query\<close>

definition UDP_PAYLOAD :: nat where "UDP_PAYLOAD = 1232"
definition CLASS_IN :: u16 where "CLASS_IN = 1"
definition TYPE_OPT :: nat where "TYPE_OPT = 41"
definition MAX_NAME :: nat where "MAX_NAME = 255"
definition MAX_POINTERS :: nat where "MAX_POINTERS = 64"

definition type_code :: "string \<Rightarrow> u16 option" where
  "type_code name =
     (if name = ''A'' then Some 1
      else if name = ''NS'' then Some 2
      else if name = ''CNAME'' then Some 5
      else if name = ''SOA'' then Some 6
      else if name = ''PTR'' then Some 12
      else if name = ''MX'' then Some 15
      else if name = ''TXT'' then Some 16
      else if name = ''AAAA'' then Some 28
      else if name = ''SRV'' then Some 33
      else if name = ''NAPTR'' then Some 35
      else if name = ''CAA'' then Some 257
      else None)"

text \<open>\<open>WireError\<close>, with what its message quotes; \<open>Short\<close> says what the response ends inside.\<close>

datatype piece_of = ARecord | AnARecord | AnAaaaRecord | ANameInARecord | AName | ALabel | ANamePointer | AField

datatype dns_error =
  NotADnsName utf8
| BadLabel utf8 nat
| LongName utf8
| Short piece_of
| NameTooLong
| PointerNotBackwards
| TooManyPointers
| ReservedLabelType
| TypeNotRead u16

definition strip_dot :: "utf8 \<Rightarrow> utf8" where
  "strip_dot name = (if name \<noteq> [] \<and> last name = dot then butlast name else name)"

definition is_graphic :: "u8 \<Rightarrow> bool" where
  "is_graphic b \<longleftrightarrow> 0x21 \<le> b \<and> b \<le> 0x7E"

fun encode_labels :: "utf8 \<Rightarrow> u8 list list \<Rightarrow> dns_error + u8 list" where
  "encode_labels name [] = Inr [0]"
| "encode_labels name (l # ls) =
     (if l = [] \<or> length l > 63 then Inl (BadLabel name (length l))
      else res_bind (encode_labels name ls) (\<lambda>out. Inr (word_of_nat (length l) # l @ out)))"

definition encode_name :: "utf8 \<Rightarrow> dns_error + u8 list" where
  "encode_name name =
     (let name = strip_dot name in
      if name = [] then Inr [0]
      else if \<not> list_all is_graphic name then Inl (NotADnsName name)
      else
        res_bind (encode_labels name (split_on dot name)) (\<lambda>out.
          if length out > MAX_NAME then Inl (LongName name) else Inr out))"

definition u16_bytes :: "u16 \<Rightarrow> u8 list" where
  "u16_bytes w = be_bytes 2 (unat w)"

definition query :: "u16 \<Rightarrow> utf8 \<Rightarrow> u16 \<Rightarrow> dns_error + u8 list" where
  "query ident name qtype =
     res_bind (encode_name name) (\<lambda>question.
       Inr (u16_bytes ident @ u16_bytes 0x0100 @ u16_bytes 1 @ u16_bytes 0 @ u16_bytes 0 @ u16_bytes 1 @
         question @ u16_bytes qtype @ u16_bytes CLASS_IN @
         [0] @ be_bytes 2 TYPE_OPT @ be_bytes 2 UDP_PAYLOAD @ be_bytes 4 0 @ be_bytes 2 0))"

section \<open>Names\<close>

text \<open>A byte of a label as presentation text.\<close>

definition escape_byte :: "u8 \<Rightarrow> utf8" where
  "escape_byte b =
     (if b = dot \<or> b = backslash then [backslash, b]
      else if 0x21 \<le> b \<and> b \<le> 0x7E then [b]
      else backslash # decimal3 b)"

definition label_text :: "u8 list \<Rightarrow> utf8" where
  "label_text label = concat (map escape_byte label) @ [dot]"

definition byte_at :: "u8 list \<Rightarrow> nat \<Rightarrow> u8 option" where
  "byte_at bytes p = (if p < length bytes then Some (bytes ! p) else None)"

definition bytes_at :: "u8 list \<Rightarrow> nat \<Rightarrow> nat \<Rightarrow> u8 list option" where
  "bytes_at bytes p n = (if p + n \<le> length bytes then Some (take n (drop p bytes)) else None)"

text \<open>
  The loop of \<open>read_name\<close>: \<open>p\<close> is \<open>at\<close>, and the answer is the text and where the name ends. The pointers left
  and the bytes ahead, in this order, get less.
\<close>

function read_name_loop :: "u8 list \<Rightarrow> utf8 \<Rightarrow> nat \<Rightarrow> nat option \<Rightarrow> nat \<Rightarrow> nat \<Rightarrow> dns_error + utf8 \<times> nat" where
  "read_name_loop bytes out p resume pointers wire_len =
     (case byte_at bytes p of
        None \<Rightarrow> Inl (Short AName)
      | Some len \<Rightarrow>
          if and len 0xC0 = 0 then
            if len = 0 then Inr (out, case resume of Some r \<Rightarrow> r | None \<Rightarrow> p + 1)
            else
              (case bytes_at bytes (p + 1) (unat len) of
                 None \<Rightarrow> Inl (Short ALabel)
               | Some label \<Rightarrow>
                   if wire_len + unat len + 1 > MAX_NAME then Inl NameTooLong
                   else read_name_loop bytes (out @ label_text label) (p + 1 + unat len) resume pointers
                          (wire_len + unat len + 1))
          else if and len 0xC0 = 0xC0 then
            (case byte_at bytes (p + 1) of
               None \<Rightarrow> Inl (Short ANamePointer)
             | Some low \<Rightarrow>
                 let target = unat (be_value [and len 0x3F, low]) in
                 if target \<ge> p then Inl PointerNotBackwards
                 else if pointers + 1 > MAX_POINTERS then Inl TooManyPointers
                 else read_name_loop bytes out target (case resume of Some r \<Rightarrow> Some r | None \<Rightarrow> Some (p + 2))
                        (pointers + 1) wire_len)
          else Inl ReservedLabelType)"
  by pat_completeness auto
termination
  by (relation "inv_image (less_than <*lex*> less_than)
      (\<lambda>(bytes, out, p, resume, pointers, wire_len). (MAX_POINTERS + 1 - pointers, length bytes - p))")
    (auto simp: byte_at_def split: if_splits)

declare read_name_loop.simps [simp del]

definition read_name :: "u8 list \<Rightarrow> nat \<Rightarrow> dns_error + utf8 \<times> nat" where
  "read_name bytes p =
     res_bind (read_name_loop bytes [] p None 0 0) (\<lambda>(out, p). Inr (if out = [] then [dot] else out, p))"

definition name_in :: "u8 list \<Rightarrow> nat \<Rightarrow> nat \<Rightarrow> dns_error + utf8 \<times> nat" where
  "name_in bytes p end' =
     res_bind (read_name bytes p) (\<lambda>(name, p). if p > end' then Inl (Short ANameInARecord) else Inr (name, p))"

section \<open>The reader\<close>

definition take_at :: "u8 list \<Rightarrow> nat \<Rightarrow> nat \<Rightarrow> dns_error + u8 list \<times> nat" where
  "take_at bytes p n = res_bind (ok_or (Short AField) (bytes_at bytes p n)) (\<lambda>out. Inr (out, p + n))"

definition u8_at :: "u8 list \<Rightarrow> nat \<Rightarrow> dns_error + u8 \<times> nat" where
  "u8_at bytes p = res_bind (take_at bytes p 1) (\<lambda>(b, p). Inr (b ! 0, p))"

definition u16_at :: "u8 list \<Rightarrow> nat \<Rightarrow> dns_error + u16 \<times> nat" where
  "u16_at bytes p = res_bind (take_at bytes p 2) (\<lambda>(b, p). Inr (ucast (be_value b), p))"

definition u32_at :: "u8 list \<Rightarrow> nat \<Rightarrow> dns_error + u32 \<times> nat" where
  "u32_at bytes p = res_bind (take_at bytes p 4) (\<lambda>(b, p). Inr (ucast (be_value b), p))"

definition character_string :: "u8 list \<Rightarrow> nat \<Rightarrow> dns_error + utf8 \<times> nat" where
  "character_string bytes p =
     res_bind (u8_at bytes p) (\<lambda>(len, p).
     res_bind (take_at bytes p (unat len)) (\<lambda>(b, p). Inr (utf8_lossy b, p)))"

section \<open>Records\<close>

text \<open>\<open>Ipv4Addr\<close> and \<open>Ipv6Addr\<close> as text: the first longest run of zero groups, if longer than one, is \<open>::\<close>.\<close>

definition digit_byte :: "nat \<Rightarrow> u8" where
  "digit_byte n = word_of_nat (if n < 10 then 0x30 + n else 0x57 + n)"

fun in_base :: "nat \<Rightarrow> nat \<Rightarrow> utf8" where
  "in_base b n = (if n < b \<or> b < 2 then [digit_byte n] else in_base b (n div b) @ [digit_byte (n mod b)])"

declare in_base.simps [simp del]

fun joined :: "utf8 \<Rightarrow> utf8 list \<Rightarrow> utf8" where
  "joined sep [] = []"
| "joined sep [x] = x"
| "joined sep (x # xs) = x @ sep @ joined sep xs"

definition ipv4_text :: "u8 list \<Rightarrow> utf8" where
  "ipv4_text octets = joined [dot] (map (\<lambda>o'. in_base 10 (unat o')) octets)"

fun longest_zeros :: "nat \<Rightarrow> nat \<times> nat \<Rightarrow> nat \<times> nat \<Rightarrow> u16 list \<Rightarrow> nat \<times> nat" where
  "longest_zeros i longest current [] = longest"
| "longest_zeros i longest current (g # gs) =
     (if g = 0 then
        (let current = (if snd current = 0 then (i, 1) else (fst current, snd current + 1))
         in longest_zeros (i + 1) (if snd current > snd longest then current else longest) current gs)
      else longest_zeros (i + 1) longest (0, 0) gs)"

definition groups_text :: "u16 list \<Rightarrow> utf8" where
  "groups_text gs = joined [0x3A] (map (\<lambda>g. in_base 16 (unat g)) gs)"

fun groups_of :: "u8 list \<Rightarrow> u16 list" where
  "groups_of (a # b # bs) = ucast (be_value [a, b]) # groups_of bs"
| "groups_of _ = []"

definition ipv6_text :: "u8 list \<Rightarrow> utf8" where
  "ipv6_text octets =
     (if take 12 octets = replicate 10 0 @ [0xFF, 0xFF]
      then [0x3A, 0x3A, 0x66, 0x66, 0x66, 0x66, 0x3A] @ ipv4_text (drop 12 octets)
      else
        (let gs = groups_of octets; (start, len) = longest_zeros 0 (0, 0) (0, 0) gs in
         if len > 1 then groups_text (take start gs) @ [0x3A, 0x3A] @ groups_text (drop (start + len) gs)
         else groups_text gs))"

datatype dns_record =
  TextRecord utf8
| Caa bool utf8 utf8
| Mx u16 utf8
| Naptr u16 u16 utf8 utf8 utf8 utf8
| Soa utf8 utf8 u32 int int int u32
| Srv u16 u16 u16 utf8
| Txt "utf8 list"

function txt_strings :: "u8 list \<Rightarrow> nat \<Rightarrow> nat \<Rightarrow> dns_error + utf8 list" where
  "txt_strings bytes end' p =
     (if p < end' then
        res_bind (u8_at bytes p) (\<lambda>(len, q).
        res_bind (take_at bytes q (unat len)) (\<lambda>(b, q).
        res_bind (txt_strings bytes end' q) (\<lambda>rest. Inr (utf8_lossy b # rest))))
      else Inr [])"
  by pat_completeness auto
termination
  by (relation "measure (\<lambda>(bytes, end', p). end' - p)")
    (auto simp: u8_at_def take_at_def res_bind_Inr_iff)

declare txt_strings.simps [simp del]

text \<open>The record whose data is \<open>bytes\<close> from \<open>start\<close> to \<open>end'\<close>; fields are not read past \<open>end'\<close>.\<close>

definition rdata :: "u8 list \<Rightarrow> nat \<Rightarrow> nat \<Rightarrow> u16 \<Rightarrow> dns_error + dns_record" where
  "rdata bytes start end' rtype =
     (let data = take (end' - start) (drop start bytes); here = take end' bytes in
      if rtype = 1 then (if length data = 4 then Inr (TextRecord (ipv4_text data)) else Inl (Short AnARecord))
      else if rtype = 28 then (if length data = 16 then Inr (TextRecord (ipv6_text data)) else Inl (Short AnAaaaRecord))
      else if rtype = 2 \<or> rtype = 5 \<or> rtype = 12 then
        res_bind (name_in bytes start end') (\<lambda>(name, p). Inr (TextRecord name))
      else if rtype = 15 then
        res_bind (u16_at here start) (\<lambda>(preference, p).
        res_bind (name_in bytes p end') (\<lambda>(exchange, p). Inr (Mx preference exchange)))
      else if rtype = 16 then res_bind (txt_strings here end' start) (\<lambda>strings. Inr (Txt strings))
      else if rtype = 33 then
        res_bind (u16_at here start) (\<lambda>(priority, p).
        res_bind (u16_at here p) (\<lambda>(weight, p).
        res_bind (u16_at here p) (\<lambda>(port, p).
        res_bind (name_in bytes p end') (\<lambda>(target, p). Inr (Srv priority weight port target)))))
      else if rtype = 6 then
        res_bind (name_in bytes start end') (\<lambda>(mname, p).
        res_bind (name_in bytes p end') (\<lambda>(rname, p).
        res_bind (u32_at here p) (\<lambda>(serial, p).
        res_bind (u32_at here p) (\<lambda>(refresh, p).
        res_bind (u32_at here p) (\<lambda>(retry, p).
        res_bind (u32_at here p) (\<lambda>(expire, p).
        res_bind (u32_at here p) (\<lambda>(minimum, p). Inr (Soa mname rname serial (sint refresh) (sint retry) (sint expire) minimum))))))))
      else if rtype = 35 then
        res_bind (u16_at here start) (\<lambda>(order, p).
        res_bind (u16_at here p) (\<lambda>(preference, p).
        res_bind (character_string here p) (\<lambda>(flags, p).
        res_bind (character_string here p) (\<lambda>(services, p).
        res_bind (character_string here p) (\<lambda>(regexp, p).
        res_bind (name_in bytes p end') (\<lambda>(replacement, p).
          Inr (Naptr order preference flags services regexp replacement)))))))
      else if rtype = 257 then
        res_bind (u8_at here start) (\<lambda>(flags, p).
        res_bind (u8_at here p) (\<lambda>(tag_len, p).
        res_bind (take_at here p (unat tag_len)) (\<lambda>(tag, p).
          Inr (Caa (and flags 0x80 \<noteq> 0) (utf8_lossy tag) (utf8_lossy (take (end' - p) (drop p bytes)))))))
      else Inl (TypeNotRead rtype))"

section \<open>The response\<close>

datatype answer = Records "dns_record list" | NoSuchName | Truncated | ServerFailed u8

fun read_records :: "u8 list \<Rightarrow> u16 \<Rightarrow> nat \<Rightarrow> nat \<Rightarrow> dns_error + dns_record list" where
  "read_records bytes qtype 0 p = Inr []"
| "read_records bytes qtype (Suc n) p =
     res_bind (read_name bytes p) (\<lambda>(owner, p).
     res_bind (u16_at bytes p) (\<lambda>(rtype, p).
     res_bind (u16_at bytes p) (\<lambda>(class', p).
     res_bind (u32_at bytes p) (\<lambda>(ttl, p).
     res_bind (u16_at bytes p) (\<lambda>(len, start).
       let end' = start + unat len in
       if end' > length bytes then Inl (Short ARecord)
       else
         res_bind
           (if rtype = qtype \<and> class' = CLASS_IN then
              res_bind (rdata bytes start end' rtype) (\<lambda>r. Inr [r])
            else Inr []) (\<lambda>r.
         res_bind (read_records bytes qtype n end') (\<lambda>rs. Inr (r @ rs))))))))"

definition trim_dots :: "utf8 \<Rightarrow> utf8" where
  "trim_dots t = rev (dropWhile (\<lambda>b. b = dot) (rev t))"

definition response :: "u8 list \<Rightarrow> u16 \<Rightarrow> utf8 \<Rightarrow> u16 \<Rightarrow> dns_error + answer option" where
  "response bytes ident name qtype =
     res_bind (u16_at bytes 0) (\<lambda>(got_id, p).
     res_bind (u16_at bytes p) (\<lambda>(flags, p).
     res_bind (u16_at bytes p) (\<lambda>(questions, p).
     res_bind (u16_at bytes p) (\<lambda>(answers, p).
     res_bind (u16_at bytes p) (\<lambda>(_, p).
     res_bind (u16_at bytes p) (\<lambda>(_, p).
       if got_id \<noteq> ident \<or> and flags 0x8000 = 0 \<or> and (drop_bit 11 flags) 0xF \<noteq> 0 \<or> questions \<noteq> 1 then Inr None
       else
         res_bind (read_name bytes p) (\<lambda>(asked, p).
         res_bind (u16_at bytes p) (\<lambda>(asked_type, p).
         res_bind (u16_at bytes p) (\<lambda>(asked_class, p).
           if \<not> same_ignoring_case (trim_dots asked) (strip_dot name) \<or> asked_type \<noteq> qtype \<or> asked_class \<noteq> CLASS_IN
           then Inr None
           else if and flags 0x0200 \<noteq> 0 then Inr (Some Truncated)
           else if and flags 0xF = 3 then Inr (Some NoSuchName)
           else if and flags 0xF \<noteq> 0 then Inr (Some (ServerFailed (ucast (and flags 0xF))))
           else res_bind (read_records bytes qtype (unat answers) p) (\<lambda>rs. Inr (Some (Records rs))))))))))))"

end
