(* ===== verification/DnsProofs.thy ===== *)
theory DnsProofs
  imports DnsWire
begin

text \<open>
  A name read from a message is the text of one list of labels, a name written is read back, and a response is
  taken only if it repeats the question, where the name asked about has no backslash.
\<close>

section \<open>The text of a name\<close>

lemma unat_plus_small: "unat (a :: u8) + unat b < 256 \<Longrightarrow> unat (a + b) = unat a + unat b"
  by (simp add: unat_word_ariths)

lemma decimal3_inject: "decimal3 b = decimal3 c \<Longrightarrow> b = c"
proof -
  assume "decimal3 b = decimal3 c"
  then have "b div 100 = c div 100" "b div 10 mod 10 = c div 10 mod 10" "b mod 10 = c mod 10"
    by (simp_all add: decimal3_def)
  then have "unat (b div 100) = unat (c div 100)" "unat (b div 10 mod 10) = unat (c div 10 mod 10)" "unat (b mod 10) = unat (c mod 10)"
    by simp_all
  then have "unat b div 100 = unat c div 100" "unat b div 10 mod 10 = unat c div 10 mod 10" "unat b mod 10 = unat c mod 10"
    by (simp_all add: unat_div unat_mod)
  moreover have "n = 100 * (n div 100) + 10 * (n div 10 mod 10) + n mod 10" for n :: nat
  proof -
    have "10 * (n div 10) + n mod 10 = n" "10 * (n div 10 div 10) + n div 10 mod 10 = n div 10"
      by (rule mult_div_mod_eq)+
    moreover have "n div 100 = n div 10 div 10" using div_mult2_eq [of n 10 10] by simp
    ultimately show ?thesis by linarith
  qed
  ultimately have "unat b = unat c" by metis
  then show "b = c" by (simp add: word_unat_eq_iff)
qed

lemma decimal3_hd: "hd (decimal3 b) \<noteq> dot \<and> hd (decimal3 b) \<noteq> backslash"
proof -
  have "unat b div 100 \<le> 2" using unat_bound [of b] by simp
  then have "unat (0x30 + b div 100) = 0x30 + unat b div 100 \<and> unat b div 100 \<le> 2"
    by (subst unat_plus_small) (simp_all add: unat_div)
  then show ?thesis by (auto simp: decimal3_def word_unat_eq_iff)
qed

lemma escape_prefix_free: "escape_byte b @ r = escape_byte c @ s \<Longrightarrow> b = c \<and> r = s"
  using decimal3_hd [of b] decimal3_hd [of c] decimal3_inject [of b c]
  by (auto simp: escape_byte_def decimal3_def split: if_splits)

lemma escape_not_dot: "\<exists>x xs. escape_byte b = x # xs \<and> x \<noteq> dot"
  by (auto simp: escape_byte_def)

lemma label_text_split: "label_text l @ r = label_text m @ s \<Longrightarrow> l = m \<and> r = s"
proof (induction l arbitrary: m)
  case Nil
  then show ?case using escape_not_dot [of "hd m"] by (cases m) (auto simp: label_text_def)
next
  case (Cons b l)
  show ?case
  proof (cases m)
    case Nil
    then show ?thesis using Cons.prems escape_not_dot [of b] by (auto simp: label_text_def)
  next
    case (Cons c m')
    have "escape_byte b @ (label_text l @ r) = escape_byte c @ (label_text m' @ s)"
      using Cons.prems Cons by (simp add: label_text_def)
    then have "b = c" "label_text l @ r = label_text m' @ s" using escape_prefix_free by blast+
    then show ?thesis using Cons.IH [of m'] Cons by simp
  qed
qed

definition labels_text :: "u8 list list \<Rightarrow> utf8" where
  "labels_text ls = concat (map label_text ls)"

definition name_text :: "u8 list list \<Rightarrow> utf8" where
  "name_text ls = (if ls = [] then [dot] else labels_text ls)"

lemma labels_text_simps [simp]:
  "labels_text [] = []" "labels_text (l # ls) = label_text l @ labels_text ls" "labels_text (ls @ ms) = labels_text ls @ labels_text ms"
  by (simp_all add: labels_text_def)

lemma label_text_nonempty [simp]: "label_text l \<noteq> []"
  by (simp add: label_text_def)

lemma labels_text_Nil [simp]: "labels_text ls = [] \<longleftrightarrow> ls = []"
  by (cases ls) simp_all

lemma labels_text_inject: "labels_text ls = labels_text ms \<Longrightarrow> ls = ms"
proof (induction ls arbitrary: ms)
  case Nil
  then show ?case by (cases ms) auto
next
  case (Cons l ls)
  then obtain m ms' where m: "ms = m # ms'" by (cases ms) auto
  then have "label_text l @ labels_text ls = label_text m @ labels_text ms'" using Cons.prems by simp
  then have "l = m" "labels_text ls = labels_text ms'" using label_text_split by blast+
  then show ?case using Cons.IH m by blast
qed

lemma name_text_inject: "[] \<notin> set ls \<Longrightarrow> [] \<notin> set ms \<Longrightarrow> name_text ls = name_text ms \<Longrightarrow> ls = ms"
proof -
  have root: "\<not> [dot] = labels_text ls" if ls: "ls \<noteq> []" "[] \<notin> set ls" for ls
  proof
    assume eq: "[dot] = labels_text ls"
    obtain l ls' where l: "ls = l # ls'" using ls(1) by (cases ls) auto
    then have "label_text [] @ [] = label_text l @ labels_text ls'" using eq by (simp add: label_text_def)
    then have "l = []" using label_text_split by blast
    then show False using ls(2) l by simp
  qed
  assume "[] \<notin> set ls" "[] \<notin> set ms" "name_text ls = name_text ms"
  then show ?thesis using labels_text_inject [of ls ms] root [of ls] root [of ms]
    by (auto simp: name_text_def split: if_splits)
qed

section \<open>Reading a name\<close>

definition wire_size :: "u8 list list \<Rightarrow> nat" where
  "wire_size ls = sum_list (map (\<lambda>l. length l + 1) ls)"

lemma wire_size_simps [simp]: "wire_size [] = 0" "wire_size (l # ls) = length l + 1 + wire_size ls"
  by (simp_all add: wire_size_def)

definition label_ok :: "u8 list \<Rightarrow> bool" where
  "label_ok l \<longleftrightarrow> l \<noteq> [] \<and> length l \<le> 63"

lemma small_length_byte: "and (len :: u8) 0xC0 = 0 \<Longrightarrow> unat len \<le> 63"
proof -
  assume a: "and len 0xC0 = 0"
  have "and len 0x3F = len"
  proof (rule bit_word_eqI)
    fix n assume n: "n < LENGTH(8)"
    have "\<not> bit (and len 0xC0) n" using a by simp
    then show "bit (and len 0x3F) n \<longleftrightarrow> bit len n" using n
      by (auto simp: bit_and_iff eval_nat_numeral less_Suc_eq)
  qed
  then show ?thesis using word_and_le1 [of len "0x3F"] by (simp add: word_le_nat_alt)
qed

lemma read_name_loop_reads:
  "read_name_loop bytes out p resume pointers wire_len = Inr (out', p') \<Longrightarrow> wire_len \<le> MAX_NAME \<Longrightarrow>
    \<exists>labels. out' = out @ labels_text labels \<and> list_all label_ok labels \<and> wire_len + wire_size labels \<le> MAX_NAME \<and>
      (case resume of Some r \<Rightarrow> p' = r | None \<Rightarrow> p < p' \<and> p' \<le> length bytes)"
proof (induction bytes out p resume pointers wire_len rule: read_name_loop.induct)
  case (1 bytes out p resume pointers wire_len)
  note step = 1(3) [unfolded read_name_loop.simps [of bytes out p resume pointers wire_len]]
  obtain len where len: "byte_at bytes p = Some len" using step by (auto split: option.splits)
  then have p: "p < length bytes" by (auto simp: byte_at_def split: if_splits)
  consider (root) "and len 0xC0 = 0" "len = 0" | (label) "and len 0xC0 = 0" "len \<noteq> 0"
    | (pointer) "and len 0xC0 \<noteq> 0" "and len 0xC0 = 0xC0"
    using step len by (auto split: if_splits)
  then show ?case
  proof cases
    case root
    then show ?thesis using step len p 1(4) by (intro exI [of _ "[]"]) (auto split: option.splits)
  next
    case label
    then obtain l where l: "bytes_at bytes (p + 1) (unat len) = Some l" using step len by (auto split: option.splits)
    then have size: "\<not> wire_len + unat len + 1 > MAX_NAME"
      and rest: "read_name_loop bytes (out @ label_text l) (p + 1 + unat len) resume pointers (wire_len + unat len + 1) = Inr (out', p')"
      using step len label by (auto split: if_splits)
    have l': "length l = unat len" "p + 1 + unat len \<le> length bytes"
      using l by (auto simp: bytes_at_def split: if_splits)
    have ok: "label_ok l" using small_length_byte [OF label(1)] label(2) l' by (auto simp: label_ok_def unat_eq_0)
    obtain labels where labels: "out' = (out @ label_text l) @ labels_text labels" "list_all label_ok labels"
        "wire_len + unat len + 1 + wire_size labels \<le> MAX_NAME"
        "case resume of Some r \<Rightarrow> p' = r | None \<Rightarrow> p + 1 + unat len < p' \<and> p' \<le> length bytes"
      using 1(1) [OF len label l size rest] size by auto
    then show ?thesis using ok l' by (intro exI [of _ "l # labels"]) (auto split: option.splits)
  next
    case pointer
    then obtain low where low: "byte_at bytes (p + 1) = Some low" using step len by (auto split: option.splits)
    define t where "t = unat (be_value [and len 0x3F, low])"
    have t: "\<not> t \<ge> p" "\<not> pointers + 1 > MAX_POINTERS"
      and rest: "read_name_loop bytes out t (case resume of Some r \<Rightarrow> Some r | None \<Rightarrow> Some (p + 2)) (pointers + 1) wire_len = Inr (out', p')"
      using step len pointer low by (auto simp: t_def Let_def split: if_splits)
    have "p + 1 < length bytes" using low by (auto simp: byte_at_def split: if_splits)
    then show ?thesis using 1(2) [OF len pointer low t_def t rest 1(4)] by (cases resume) auto
  qed
qed

lemma read_name_labels:
  assumes "read_name bytes p = Inr (t, p')"
  shows "\<exists>labels. t = name_text labels \<and> list_all label_ok labels"
proof -
  obtain out where out: "read_name_loop bytes [] p None 0 0 = Inr (out, p')" "t = (if out = [] then [dot] else out)"
    using assms by (auto simp: read_name_def res_bind_Inr_iff)
  obtain labels where "out = labels_text labels" "list_all label_ok labels" using read_name_loop_reads [OF out(1)] by auto
  then show ?thesis using out(2) by (auto simp: name_text_def)
qed

section \<open>What is asked is read back\<close>

lemma encode_labels_Inr:
  "encode_labels name ls = Inr out \<longleftrightarrow>
    list_all label_ok ls \<and> out = concat (map (\<lambda>l. word_of_nat (length l) # l) ls) @ [0]"
  by (induction ls arbitrary: out) (auto simp: res_bind_Inr_iff label_ok_def)

lemma byte_at_append [simp]: "byte_at (pre @ b # post) (length pre) = Some b"
  by (simp add: byte_at_def)

lemma bytes_at_append: "length xs = n \<Longrightarrow> p = length pre \<Longrightarrow> bytes_at (pre @ xs @ post) p n = Some xs"
  by (simp add: bytes_at_def)

lemma length_byte: "n \<le> 63 \<Longrightarrow> and (word_of_nat n :: u8) 0xC0 = 0 \<and> unat (word_of_nat n :: u8) = n"
proof -
  assume n: "n \<le> 63"
  have bits: "\<not> bit n 6" "\<not> bit n 7" using n by (simp_all add: bit_iff_odd)
  have "and (word_of_nat n :: u8) 0xC0 = 0"
    by (rule bit_word_eqI) (use bits in \<open>auto simp: bit_simps eval_nat_numeral less_Suc_eq\<close>)
  then show ?thesis using n by (simp add: unat_of_nat)
qed

definition resumed :: "nat option \<Rightarrow> nat \<Rightarrow> nat" where
  "resumed resume p = (case resume of Some r \<Rightarrow> r | None \<Rightarrow> p)"

lemma read_encoded:
  "list_all label_ok ls \<Longrightarrow> wire_len + wire_size ls \<le> MAX_NAME \<Longrightarrow>
    read_name_loop (pre @ concat (map (\<lambda>l. word_of_nat (length l) # l) ls) @ [0] @ post) out (length pre) resume pointers wire_len =
      Inr (out @ labels_text ls, resumed resume (length pre + wire_size ls + 1))"
proof (induction ls arbitrary: pre out wire_len)
  case Nil
  then show ?case by (simp add: read_name_loop.simps byte_at_append resumed_def split: option.split)
next
  case (Cons l ls)
  define rest where "rest = concat (map (\<lambda>l. word_of_nat (length l) # l) ls) @ [0] @ post"
  have l: "length l \<le> 63" "l \<noteq> []" using Cons.prems(1) by (simp_all add: label_ok_def)
  have len: "and (word_of_nat (length l) :: u8) 0xC0 = 0" "unat (word_of_nat (length l) :: u8) = length l"
    "(word_of_nat (length l) :: u8) \<noteq> 0"
    using length_byte [OF l(1)] l(2) by (auto simp flip: unat_eq_0)
  have at: "byte_at (pre @ word_of_nat (length l) # l @ rest) (length pre) = Some (word_of_nat (length l))"
    "bytes_at (pre @ word_of_nat (length l) # l @ rest) (Suc (length pre)) (length l) = Some l"
    using bytes_at_append [of l "length l" "length pre + 1" "pre @ [word_of_nat (length l)]" rest] by simp_all
  have "read_name_loop (pre @ word_of_nat (length l) # l @ rest) out (length pre) resume pointers wire_len =
      read_name_loop ((pre @ word_of_nat (length l) # l) @ rest) (out @ label_text l) (length (pre @ word_of_nat (length l) # l))
        resume pointers (wire_len + length l + 1)"
    using Cons.prems(2) by (subst read_name_loop.simps) (simp add: at len)
  also have "\<dots> = Inr ((out @ label_text l) @ labels_text ls,
      resumed resume (length (pre @ word_of_nat (length l) # l) + wire_size ls + 1))"
    unfolding rest_def using Cons.prems by (intro Cons.IH) simp_all
  finally show ?case by (simp add: rest_def add.assoc)
qed

definition question_labels :: "utf8 \<Rightarrow> u8 list list" where
  "question_labels name = (if strip_dot name = [] then [] else split_on dot (strip_dot name))"

lemma encode_name_Inr:
  assumes "encode_name name = Inr q"
  shows "list_all label_ok (question_labels name)" "wire_size (question_labels name) + 1 \<le> MAX_NAME"
    and "q = concat (map (\<lambda>l. word_of_nat (length l) # l) (question_labels name)) @ [0]"
    and "length q = wire_size (question_labels name) + 1" and "list_all is_graphic (strip_dot name)"
proof -
  have size: "length (concat (map (\<lambda>l. word_of_nat (length l) # l) ls)) = wire_size ls" for ls :: "u8 list list"
    by (induction ls) simp_all
  show "list_all label_ok (question_labels name)" "wire_size (question_labels name) + 1 \<le> MAX_NAME"
    "q = concat (map (\<lambda>l. word_of_nat (length l) # l) (question_labels name)) @ [0]"
    "length q = wire_size (question_labels name) + 1" "list_all is_graphic (strip_dot name)"
    using assms size [of "split_on dot (strip_dot name)"]
    by (auto simp: encode_name_def question_labels_def encode_labels_Inr res_bind_Inr_iff Let_def MAX_NAME_def split: if_splits)
qed

text \<open>A name that is asked about reads back.\<close>

lemma asked_name_reads_back:
  assumes "encode_name name = Inr q"
  shows "read_name (pre @ q @ post) (length pre) = Inr (name_text (question_labels name), length pre + length q)"
proof -
  note q = encode_name_Inr [OF assms]
  have "read_name_loop (pre @ q @ post) [] (length pre) None 0 0 =
      Inr (labels_text (question_labels name), length pre + length q)"
    using read_encoded [OF q(1), of 0 pre post "[]" None 0] q(2-4) by (simp add: resumed_def)
  then show ?thesis by (simp add: read_name_def name_text_def)
qed

section \<open>The question\<close>

lemma join_split: "concat (map (\<lambda>l. l @ [d]) (split_on d s)) = s @ [d]"
  by (induction s) (auto split: list.split simp: split_on.simps)

lemma plain_label_text:
  "list_all is_graphic l \<Longrightarrow> dot \<notin> set l \<Longrightarrow> backslash \<notin> set l \<Longrightarrow> label_text l = l @ [dot]"
proof -
  assume "list_all is_graphic l" "dot \<notin> set l" "backslash \<notin> set l"
  then have "\<forall>b\<in>set l. escape_byte b = [b]"
    by (auto simp: escape_byte_def list_all_iff is_graphic_def)
  then have "concat (map escape_byte l) = l" by (induction l) simp_all
  then show ?thesis by (simp add: label_text_def)
qed

lemma ascii_lower_keeps: "ascii_lower b = dot \<longleftrightarrow> b = dot" "ascii_lower b = backslash \<longleftrightarrow> b = backslash"
proof -
  have up: "unat (b + 0x20) = unat b + 0x20" if "0x41 \<le> b" "b \<le> 0x5A"
    using that by (subst unat_plus_small) (simp_all add: word_le_nat_alt)
  show "ascii_lower b = dot \<longleftrightarrow> b = dot" "ascii_lower b = backslash \<longleftrightarrow> b = backslash"
    using up by (auto simp: ascii_lower_def word_unat_eq_iff word_le_nat_alt)
qed

lemma ascii_lower_graphic: "is_graphic (ascii_lower b) \<longleftrightarrow> is_graphic b"
proof -
  have "unat (b + 0x20) = unat b + 0x20" if "0x41 \<le> b" "b \<le> 0x5A"
    using that by (subst unat_plus_small) (simp_all add: word_le_nat_alt)
  then show ?thesis by (auto simp: ascii_lower_def is_graphic_def word_le_nat_alt)
qed

lemma split_on_map: "(\<And>b. f b = c \<longleftrightarrow> b = c) \<Longrightarrow> split_on c (map f s) = map (map f) (split_on c s)"
  by (induction s) (auto split: list.split)

text \<open>A label is plain if its text is itself.\<close>

definition plain_label :: "u8 list \<Rightarrow> bool" where
  "plain_label l \<longleftrightarrow> list_all is_graphic l \<and> dot \<notin> set l \<and> backslash \<notin> set l"

lemma plain_labels_text: "list_all plain_label ls \<Longrightarrow> labels_text ls = concat (map (\<lambda>l. l @ [dot]) ls)"
  by (induction ls) (simp_all add: plain_label_def plain_label_text)

lemma not_plain_text: "\<not> plain_label l \<Longrightarrow> backslash \<in> set (label_text l)"
proof -
  assume "\<not> plain_label l"
  then obtain b where "b \<in> set l" "\<not> is_graphic b \<or> b = dot \<or> b = backslash"
    by (auto simp: plain_label_def list_all_iff)
  then show ?thesis by (force simp: label_text_def escape_byte_def is_graphic_def)
qed

lemma set_trim_dots: "x \<in> set t \<Longrightarrow> x \<noteq> dot \<Longrightarrow> x \<in> set (trim_dots t)"
proof -
  assume x: "x \<in> set t" "x \<noteq> dot"
  have "set (rev t) = set (takeWhile (\<lambda>b. b = dot) (rev t)) \<union> set (dropWhile (\<lambda>b. b = dot) (rev t))"
    by (metis set_append takeWhile_dropWhile_id)
  then show ?thesis using x by (auto simp: trim_dots_def dest: set_takeWhileD)
qed

lemma trim_one_dot: "t \<noteq> [] \<Longrightarrow> last t \<noteq> dot \<Longrightarrow> trim_dots (t @ [dot]) = t"
  by (cases t rule: rev_cases) (auto simp: trim_dots_def)

text \<open>The text of plain labels without its last dot is what splitting gives the labels of.\<close>

lemma split_labels:
  "ls \<noteq> [] \<Longrightarrow> \<forall>l\<in>set ls. dot \<notin> set l \<Longrightarrow> concat (map (\<lambda>l. l @ [dot]) ls) = t @ [dot] \<Longrightarrow> split_on dot t = ls"
proof (induction ls arbitrary: t)
  case (Cons l ls)
  show ?case
  proof (cases ls)
    case Nil
    then show ?thesis using Cons.prems by (simp add: split_on_free)
  next
    case (Cons m ms)
    then obtain ls' x where x: "ls = ls' @ [x]" by (metis list.distinct(1) rev_exhaust)
    define t' where "t' = concat (map (\<lambda>l. l @ [dot]) ls') @ x"
    have t': "concat (map (\<lambda>l. l @ [dot]) ls) = t' @ [dot]" by (simp add: x t'_def)
    then have "t = l @ dot # t'" using Cons.prems(3) by (simp add: append_eq_append_conv2)
    then show ?thesis using Cons.IH [OF _ _ t'] Cons.prems(2) Cons by (simp add: split_on_append)
  qed
qed simp

lemma split_on_last: "split_on c (s @ [c]) = split_on c s @ [[]]"
  by (induction s) (auto split: list.split)

lemma split_on_subset: "p \<in> set (split_on c s) \<Longrightarrow> set p \<subseteq> set s"
proof (induction s arbitrary: p)
  case (Cons a s)
  show ?case
  proof (cases "a = c")
    case True
    then show ?thesis using Cons by auto
  next
    case False
    then obtain x xs where x: "split_on c s = x # xs" by (cases "split_on c s") auto
    then have "set x \<subseteq> set s" "p \<in> set xs \<Longrightarrow> set p \<subseteq> set s" using Cons.IH by simp_all
    then show ?thesis using Cons.prems False x by auto
  qed
qed simp

lemma question_text:
  assumes "encode_name name = Inr q" "backslash \<notin> set name"
  shows "name_text (question_labels name) = strip_dot name @ [dot]"
    and "trim_dots (name_text (question_labels name)) = strip_dot name"
    and "list_all plain_label (question_labels name)"
proof -
  have graphic: "list_all is_graphic (strip_dot name)" "backslash \<notin> set (strip_dot name)"
    using encode_name_Inr(5) [OF assms(1)] assms(2) by (auto simp: strip_dot_def dest: in_set_butlastD)
  have pieces: "set l \<subseteq> set (strip_dot name) - {dot}" if "l \<in> set (split_on dot (strip_dot name))" for l
    using that split_on_subset split_on_pieces_free by fastforce
  show plain: "list_all plain_label (question_labels name)"
    using graphic pieces by (fastforce simp: question_labels_def plain_label_def list_all_iff)
  show shown: "name_text (question_labels name) = strip_dot name @ [dot]"
    using plain_labels_text [OF plain] join_split [of dot "strip_dot name"]
    by (auto simp: name_text_def question_labels_def)
  show "trim_dots (name_text (question_labels name)) = strip_dot name"
  proof (cases "strip_dot name = []")
    case False
    have "last (strip_dot name) \<noteq> dot"
    proof
      assume "last (strip_dot name) = dot"
      then obtain s where "strip_dot name = s @ [dot]" using False by (metis append_butlast_last_id)
      then have "[] \<in> set (question_labels name)" by (simp add: question_labels_def split_on_last)
      then show False using encode_name_Inr(1) [OF assms(1)] by (auto simp: list_all_iff label_ok_def)
    qed
    then show ?thesis using shown trim_one_dot [OF False] by simp
  qed (simp add: shown trim_dots_def)
qed

section \<open>The answer to a question\<close>

lemma bytes_at_Some: "bytes_at bytes p n = Some b \<longleftrightarrow> p + n \<le> length bytes \<and> b = take n (drop p bytes)"
  by (auto simp: bytes_at_def)

lemma u16_at_Inr: "u16_at bytes p = Inr (w, q) \<longleftrightarrow> p + 2 \<le> length bytes \<and> take 2 (drop p bytes) = u16_bytes w \<and> q = p + 2"
proof -
  have there: "u16_bytes (ucast (be_value b)) = b" if "length b = 2" for b
  proof -
    have "unat (ucast (be_value b) :: u16) = le_nat (rev b)"
      using that be_value_nat [of b] le_nat_bound [of "rev b"] by (simp add: unsigned_ucast_eq unsigned_take_bit_eq take_bit_eq_mod)
    then show ?thesis using that le_bytes_nat [of "rev b"] by (simp add: u16_bytes_def be_bytes_def)
  qed
  have forth: "ucast (be_value (u16_bytes w)) = w" for w
  proof -
    have "unat (be_value (u16_bytes w)) = unat w" using be_value_bytes [of 2 "unat w"] unat_bound [of w] by (simp add: u16_bytes_def)
    moreover have "unat w < 65536" using unat_bound [of w] by simp
    ultimately show ?thesis by (simp add: word_unat_eq_iff unsigned_ucast_eq unsigned_take_bit_eq take_bit_eq_mod)
  qed
  show ?thesis
    by (auto simp: u16_at_def take_at_def res_bind_Inr_iff ok_or_Inr_iff bytes_at_Some there forth)
qed

text \<open>Only an answer that carries the query's id and repeats its question, but for case, is taken.\<close>

lemma response_answers_the_question:
  assumes "response bytes ident name qtype = Inr (Some a)" "encode_name name = Inr q" "backslash \<notin> set name"
  shows "\<exists>flags labels p.
    take 2 bytes = u16_bytes ident \<and> take 2 (drop 2 bytes) = u16_bytes flags \<and> and flags 0x8000 \<noteq> 0 \<and>
    read_name bytes 12 = Inr (name_text labels, p) \<and>
    map (map ascii_lower) labels = map (map ascii_lower) (question_labels name) \<and>
    take 4 (drop p bytes) = u16_bytes qtype @ u16_bytes CLASS_IN"
proof -
  obtain flags asked p where head: "take 2 bytes = u16_bytes ident" "take 2 (drop 2 bytes) = u16_bytes flags" "and flags 0x8000 \<noteq> 0"
    and asked: "read_name bytes 12 = Inr (asked, p)" "same_ignoring_case (trim_dots asked) (strip_dot name)"
    and rest: "take 2 (drop p bytes) = u16_bytes qtype" "take 2 (drop (p + 2) bytes) = u16_bytes CLASS_IN"
    using assms(1) by (auto simp: response_def res_bind_Inr_iff u16_at_Inr simp del: add_2_eq_Suc add_2_eq_Suc' split: if_splits)
  obtain labels where labels: "asked = name_text labels" "list_all label_ok labels"
    using read_name_labels [OF asked(1)] by blast
  have lower: "map ascii_lower (trim_dots asked) = map ascii_lower (strip_dot name)"
    using asked(2) by (simp add: same_ignoring_case_def)
  have "backslash \<notin> set (strip_dot name)" using assms(3) by (auto simp: strip_dot_def dest: in_set_butlastD)
  then have "backslash \<notin> set (map ascii_lower (trim_dots asked))" unfolding lower using ascii_lower_keeps(2) by fastforce
  then have "backslash \<notin> set (trim_dots asked)" using ascii_lower_keeps(2) by force
  then have "backslash \<notin> set asked" using set_trim_dots by fastforce
  then have plain: "list_all plain_label labels"
    using not_plain_text by (force simp: labels(1) name_text_def labels_text_def list_all_iff split: if_splits)
  have "map (map ascii_lower) labels = map (map ascii_lower) (question_labels name)"
  proof (cases "labels = []")
    case True
    then have "strip_dot name = []" using lower labels(1) by (simp add: name_text_def trim_dots_def)
    then show ?thesis using True by (simp add: question_labels_def)
  next
    case False
    then obtain ls l where l: "labels = ls @ [l]" by (metis rev_exhaust)
    define t where "t = concat (map (\<lambda>l. l @ [dot]) ls) @ l"
    have shown: "concat (map (\<lambda>l. l @ [dot]) labels) = t @ [dot]" by (simp add: l t_def)
    then have "asked = t @ [dot]" using plain_labels_text [OF plain] False labels(1) by (simp add: name_text_def)
    moreover have "l \<noteq> []" "dot \<notin> set l" using labels(2) plain l by (auto simp: label_ok_def plain_label_def)
    then have "t \<noteq> []" "last t = last l" "last l \<noteq> dot" using last_in_set [of l] by (auto simp: t_def simp del: last_in_set)
    ultimately have "trim_dots asked = t" using trim_one_dot [of t] by simp
    then have t: "map ascii_lower t = map ascii_lower (strip_dot name)" using lower by simp
    have "split_on dot t = labels" using split_labels [OF False _ shown] plain by (auto simp: plain_label_def list_all_iff)
    then have "map (map ascii_lower) labels = split_on dot (map ascii_lower t)"
      using split_on_map [of ascii_lower dot t] ascii_lower_keeps(1) by simp
    also have "\<dots> = map (map ascii_lower) (split_on dot (strip_dot name))"
      using split_on_map [of ascii_lower dot "strip_dot name"] ascii_lower_keeps(1) t by simp
    finally show ?thesis using t \<open>t \<noteq> []\<close> by (auto simp: question_labels_def)
  qed
  moreover have "take 4 (drop p bytes) = u16_bytes qtype @ u16_bytes CLASS_IN"
    using rest take_add [of 2 2 "drop p bytes"] by (simp add: add.commute)
  ultimately show ?thesis using head asked(1) labels(1) by blast
qed

section \<open>A reply to the query\<close>

lemma u16_at_append:
  "p = length pre \<Longrightarrow> u16_at (pre @ u16_bytes w @ post) p = Inr (w, p + 2)"
  using u16_at_Inr [of "pre @ u16_bytes w @ post" p w "p + 2"] by (simp add: u16_bytes_def)

lemma length_u16_bytes [simp]: "length (u16_bytes w) = 2"
  by (simp add: u16_bytes_def)

text \<open>What a server sends back: its header, the question repeated, and the sections.\<close>

definition reply_message :: "u16 \<Rightarrow> u16 \<Rightarrow> nat \<Rightarrow> u8 list \<Rightarrow> u16 \<Rightarrow> u8 list \<Rightarrow> u8 list" where
  "reply_message ident flags count q qtype sections =
     u16_bytes ident @ u16_bytes flags @ u16_bytes 1 @ be_bytes 2 count @ u16_bytes 0 @ u16_bytes 0 @
       q @ u16_bytes qtype @ u16_bytes CLASS_IN @ sections"

lemma reply_to_query:
  assumes q: "encode_name name = Inr q" "backslash \<notin> set name" and count: "count < 2 ^ 16"
    and flags: "and flags 0x8000 \<noteq> 0" "and (drop_bit 11 flags) 0xF = 0"
  shows "response (reply_message ident flags count q qtype sections) ident name qtype =
    (if and flags 0x0200 \<noteq> 0 then Inr (Some Truncated)
     else if and flags 0xF = 3 then Inr (Some NoSuchName)
     else if and flags 0xF \<noteq> 0 then Inr (Some (ServerFailed (ucast (and flags 0xF))))
     else res_bind (read_records (reply_message ident flags count q qtype sections) qtype count (16 + length q)) (\<lambda>rs. Inr (Some (Records rs))))"
proof -
  define bytes where "bytes = reply_message ident flags count q qtype sections"
  define head where "head = u16_bytes ident @ u16_bytes flags @ u16_bytes 1 @ u16_bytes (word_of_nat count) @ u16_bytes 0 @ u16_bytes 0"
  have count_bytes: "be_bytes 2 count = u16_bytes (word_of_nat count)" using count by (simp add: u16_bytes_def unat_of_nat)
  have b: "bytes = head @ q @ u16_bytes qtype @ u16_bytes CLASS_IN @ sections"
    by (simp add: bytes_def reply_message_def head_def count_bytes)
  have len: "length head = 12" by (simp add: head_def)
  have reads: "u16_at bytes 0 = Inr (ident, 2)" "u16_at bytes 2 = Inr (flags, 4)" "u16_at bytes 4 = Inr (1, 6)"
    "u16_at bytes 6 = Inr (word_of_nat count, 8)" "u16_at bytes 8 = Inr (0, 10)" "u16_at bytes 10 = Inr (0, 12)"
    by (simp_all add: u16_at_Inr b head_def)
  have name: "read_name bytes 12 = Inr (name_text (question_labels name), 12 + length q)"
    using asked_name_reads_back [OF q(1), of head] len by (simp add: b)
  have tail: "u16_at bytes (12 + length q) = Inr (qtype, 14 + length q)" "u16_at bytes (14 + length q) = Inr (CLASS_IN, 16 + length q)"
    using u16_at_append [of "12 + length q" "head @ q" qtype] u16_at_append [of "14 + length q" "head @ q @ u16_bytes qtype" CLASS_IN] len
    by (simp_all add: b)
  have same: "same_ignoring_case (trim_dots (name_text (question_labels name))) (strip_dot name)"
    using question_text(2) [OF q] by (simp add: same_ignoring_case_def)
  have "unat (word_of_nat count :: u16) = count" using count by (simp add: unat_of_nat)
  then show ?thesis unfolding bytes_def [symmetric] response_def
    using reads name tail same flags by simp
qed

lemma read_pointer_to_question:
  assumes q: "encode_name name = Inr q" and "bytes = head @ q @ post" "length head = 12" "12 < p"
    and at: "byte_at bytes p = Some 0xC0" "byte_at bytes (p + 1) = Some 12"
  shows "read_name bytes p = Inr (name_text (question_labels name), p + 2)"
proof -
  note labels = encode_name_Inr [OF q]
  have "read_name_loop bytes [] 12 (Some (p + 2)) 1 0 = Inr (labels_text (question_labels name), p + 2)"
    using read_encoded [OF labels(1), of 0 head post "[]" "Some (p + 2)" 1] labels(2,3) assms(2,3) by (simp add: resumed_def)
  then have "read_name_loop bytes [] p None 0 0 = Inr (labels_text (question_labels name), p + 2)"
    using at assms(4) by (subst read_name_loop.simps) (simp add: be_value_def MAX_POINTERS_def)
  then show ?thesis by (simp add: read_name_def name_text_def)
qed

text \<open>An address record whose owner is a pointer to the question.\<close>

definition a_record :: "u32 \<Rightarrow> u8 list \<Rightarrow> u8 list" where
  "a_record ttl octets = [0xC0, 12] @ u16_bytes 1 @ u16_bytes CLASS_IN @ be_bytes 4 (unat ttl) @ u16_bytes 4 @ octets"

lemma read_a_records:
  assumes q: "encode_name name = Inr q" and head: "length head = 12" and "length pre > 0"
  shows "list_all (\<lambda>(ttl, octets). length octets = 4) rs \<Longrightarrow>
    read_records (head @ q @ pre @ concat (map (\<lambda>(ttl, octets). a_record ttl octets) rs) @ post) 1 (length rs) (12 + length q + length pre) =
      Inr (map (\<lambda>(ttl, octets). TextRecord (ipv4_text octets)) rs)"
  using assms(3)
proof (induction rs arbitrary: pre)
  case (Cons r rs)
  obtain ttl octets where r: "r = (ttl, octets)" by (cases r)
  have len: "length octets = 4" using Cons.prems(1) r by simp
  define rest where "rest = concat (map (\<lambda>(ttl, octets). a_record ttl octets) rs) @ post"
  define bytes where "bytes = head @ q @ pre @ a_record ttl octets @ rest"
  define p where "p = 12 + length q + length pre"
  have at: "byte_at bytes p = Some 0xC0" "byte_at bytes (p + 1) = Some 12"
    using head by (simp_all add: byte_at_def bytes_def p_def a_record_def nth_append)
  have owner: "read_name bytes p = Inr (name_text (question_labels name), p + 2)"
    by (rule read_pointer_to_question [OF q _ head _ at]) (use Cons.prems(2) in \<open>simp_all add: bytes_def p_def\<close>)
  define before where "before = head @ q @ pre @ [0xC0, 12]"
  have before: "length before = p + 2" using head by (simp add: before_def p_def)
  have b: "bytes = before @ u16_bytes 1 @ u16_bytes CLASS_IN @ be_bytes 4 (unat ttl) @ u16_bytes 4 @ octets @ rest"
    by (simp add: bytes_def before_def a_record_def)
  have reads: "u16_at bytes (p + 2) = Inr (1, p + 4)" "u16_at bytes (p + 4) = Inr (CLASS_IN, p + 6)"
      "u16_at bytes (p + 10) = Inr (4, p + 12)"
    using before by (simp_all add: u16_at_Inr b)
  obtain t where ttl: "u32_at bytes (p + 6) = Inr (t, p + 10)"
    using before by (auto simp: u32_at_def take_at_def bytes_at_def b ok_or_def)
  have size: "length bytes = p + 16 + length rest" using before len by (simp add: b)
  have data: "take 4 (drop (p + 12) bytes) = octets" using before len by (simp add: b)
  have next': "read_records bytes 1 (length rs) (p + 16) = Inr (map (\<lambda>(ttl, octets). TextRecord (ipv4_text octets)) rs)"
    using Cons.IH [of "pre @ a_record ttl octets"] Cons.prems(1) len
    by (simp add: bytes_def p_def rest_def a_record_def)
  have "read_records bytes 1 (Suc (length rs)) p = Inr (map (\<lambda>(ttl, octets). TextRecord (ipv4_text octets)) (r # rs))"
    using owner reads ttl size data next' [unfolded add.commute [of p 16]] len by (simp add: Let_def rdata_def r)
  then show ?case by (simp add: bytes_def p_def rest_def r)
qed simp

text \<open>
  C39: a name's addresses are read. Where a name without a backslash can be asked about, the reply that repeats the question,
  is flagged a whole response to a standard query without an error and holds up to 65535 address records of four bytes, each
  owned by a pointer to the question, is read as those addresses, in order. With a backslash that reply is ignored
  (\<open>backslash_question\<close>).
\<close>

theorem addresses_are_read:
  assumes "encode_name name = Inr q" "backslash \<notin> set name" "length rs < 2 ^ 16"
    and "and flags 0x8000 \<noteq> 0" "and (drop_bit 11 flags) 0xF = 0" "and flags 0x0200 = 0" "and flags 0xF = 0"
    and "list_all (\<lambda>(ttl, octets). length octets = 4) rs"
  shows "response (reply_message ident flags (length rs) q 1 (concat (map (\<lambda>(ttl, octets). a_record ttl octets) rs))) ident name 1 =
    Inr (Some (Records (map (\<lambda>(ttl, octets). TextRecord (ipv4_text octets)) rs)))"
proof -
  define head where "head = u16_bytes ident @ u16_bytes flags @ u16_bytes 1 @ be_bytes 2 (length rs) @ u16_bytes 0 @ u16_bytes 0"
  define pre where "pre = u16_bytes 1 @ u16_bytes CLASS_IN"
  have "reply_message ident flags (length rs) q 1 s = head @ q @ pre @ s" for s
    by (simp add: reply_message_def head_def pre_def)
  then show ?thesis
    using reply_to_query [OF assms(1-5), of ident 1] read_a_records [OF assms(1), of head pre rs "[]"] assms(6-8)
    by (simp add: head_def pre_def)
qed

lemma addresses_are_read_witness:
  "response (reply_message 7 0x8180 1 [1, 0x61, 0] 1 (a_record 300 [192, 0, 2, 1])) 7 [0x61] 1 =
    Inr (Some (Records [TextRecord (ipv4_text [192, 0, 2, 1])]))"
proof -
  have "encode_name [0x61] = Inr [1, 0x61, 0]"
    by (simp add: encode_name_def strip_dot_def is_graphic_def MAX_NAME_def)
  then show ?thesis using addresses_are_read [of "[0x61]" "[1, 0x61, 0]" "[(300, [192, 0, 2, 1])]" "0x8180" 7] by simp
qed

section \<open>Names that go wrong\<close>

text \<open>
  A name may hold a backslash, which is sent as it is; but read back it is escaped, and the comparison is of texts. So the
  answer to the question \<open>a\\<close> is ignored, and the answer about another name, the label \<open>a.\<close>, is taken.
\<close>

lemma backslash_question:
  "encode_name [0x61, backslash] = Inr [2, 0x61, backslash, 0]"
  "response (reply_message ident 0x8003 0 [2, 0x61, backslash, 0] qtype []) ident [0x61, backslash] qtype = Inr None"
  "response (reply_message ident 0x8003 0 [2, 0x61, dot, 0] qtype []) ident [0x61, backslash] qtype = Inr (Some NoSuchName)"
proof -
  show q: "encode_name [0x61, backslash] = Inr [2, 0x61, backslash, 0]"
    by (simp add: encode_name_def strip_dot_def is_graphic_def MAX_NAME_def)
  have at: "u16_at (reply_message ident 0x8003 0 q qtype []) 0 = Inr (ident, 2)" "u16_at (reply_message ident 0x8003 0 q qtype []) 2 = Inr (0x8003, 4)"
    "u16_at (reply_message ident 0x8003 0 q qtype []) 4 = Inr (1, 6)" "u16_at (reply_message ident 0x8003 0 q qtype []) 6 = Inr (0, 8)"
    "u16_at (reply_message ident 0x8003 0 q qtype []) 8 = Inr (0, 10)" "u16_at (reply_message ident 0x8003 0 q qtype []) 10 = Inr (0, 12)"
    "u16_at (reply_message ident 0x8003 0 q qtype []) (12 + length q) = Inr (qtype, 14 + length q)"
    "u16_at (reply_message ident 0x8003 0 q qtype []) (14 + length q) = Inr (CLASS_IN, 16 + length q)" for q
    by (simp_all add: u16_at_Inr reply_message_def) (simp_all add: u16_bytes_def)
  define head where "head = u16_bytes ident @ u16_bytes 0x8003 @ u16_bytes 1 @ be_bytes 2 0 @ u16_bytes 0 @ u16_bytes 0"
  have name: "read_name (reply_message ident 0x8003 0 (word_of_nat (length l) # l @ [0]) qtype []) 12 = Inr (label_text l, 14 + length l)"
    if "label_ok l" for l
    using read_encoded [of "[l]" 0 head "u16_bytes qtype @ u16_bytes CLASS_IN" "[]" None 0] that
    by (simp add: read_name_def reply_message_def head_def resumed_def label_ok_def MAX_NAME_def)
  show "response (reply_message ident 0x8003 0 [2, 0x61, backslash, 0] qtype []) ident [0x61, backslash] qtype = Inr None"
    using at [of "[2, 0x61, backslash, 0]"] name [of "[0x61, backslash]"]
    by (simp add: response_def label_ok_def label_text_def escape_byte_def trim_dots_def strip_dot_def same_ignoring_case_def)
  show "response (reply_message ident 0x8003 0 [2, 0x61, dot, 0] qtype []) ident [0x61, backslash] qtype = Inr (Some NoSuchName)"
    using at [of "[2, 0x61, dot, 0]"] name [of "[0x61, dot]"]
    by (simp add: response_def label_ok_def label_text_def escape_byte_def trim_dots_def strip_dot_def same_ignoring_case_def)
qed

text \<open>
  The bound on a name leaves the root's byte out: a name of 256 bytes on the wire is read, which is one more than a name
  may have and than \<open>encode_name\<close> writes.
\<close>

lemma long_name_is_read:
  assumes "list_all label_ok ls" "wire_size ls = 255"
  shows "read_name (concat (map (\<lambda>l. word_of_nat (length l) # l) ls) @ [0]) 0 = Inr (name_text ls, 256)"
  using read_encoded [OF assms(1), of 0 "[]" "[]" "[]" None 0] assms(2)
  by (simp add: read_name_def resumed_def MAX_NAME_def name_text_def)

lemma long_name_exists: "\<exists>ls. list_all label_ok ls \<and> wire_size ls = 255"
  by (intro exI [of _ "[replicate 63 0x61, replicate 63 0x61, replicate 63 0x61, replicate 62 0x61]"]) (simp add: label_ok_def)

lemma long_name:
  "\<exists>message labels. list_all label_ok labels \<and> length message = 256 \<and> read_name message 0 = Inr (name_text labels, 256)"
proof -
  obtain ls where ls: "list_all label_ok ls" "wire_size ls = 255" using long_name_exists by blast
  have "length (concat (map (\<lambda>l. word_of_nat (length l) # l) ls) @ [0 :: u8]) = 256"
    using ls(2) by (simp add: length_concat comp_def wire_size_def)
  with long_name_is_read [OF ls] ls(1) show ?thesis by blast
qed

text \<open>
  C38: a hostile label cannot pass for two. Whatever the message, a name read from it is the text of a list of labels of 1 to
  63 bytes and of no other such list; and what it takes of the message is in the message and not empty. With their
  length bytes and the root's byte the labels are 256 bytes at most, and a name of 256 bytes on the wire is read: one more
  than the 255 that a name may have.
\<close>

theorem name_read_is_one_name:
  assumes "read_name bytes p = Inr (t, p')"
  shows "(\<exists>labels. t = name_text labels \<and> list_all label_ok labels \<and> wire_size labels + 1 \<le> 256 \<and>
      (\<forall>others. list_all label_ok others \<longrightarrow> name_text others = t \<longrightarrow> others = labels)) \<and> p < p' \<and> p' \<le> length bytes \<and>
    (\<exists>message labels. list_all label_ok labels \<and> length message = 256 \<and> read_name message 0 = Inr (name_text labels, 256))"
proof -
  obtain out where out: "read_name_loop bytes [] p None 0 0 = Inr (out, p')" "t = (if out = [] then [dot] else out)"
    using assms by (auto simp: read_name_def res_bind_Inr_iff)
  obtain labels where labels: "out = labels_text labels" "list_all label_ok labels" "wire_size labels + 1 \<le> 256"
      "p < p' \<and> p' \<le> length bytes"
    using read_name_loop_reads [OF out(1)] by (auto simp: MAX_NAME_def)
  then have t: "t = name_text labels" using out(2) by (auto simp: name_text_def)
  have ok: "[] \<notin> set ls" if "list_all label_ok ls" for ls using that by (auto simp: list_all_iff label_ok_def)
  have "\<forall>others. list_all label_ok others \<longrightarrow> name_text others = t \<longrightarrow> others = labels"
    using t labels(2) name_text_inject ok by blast
  then show ?thesis using t labels long_name by blast
qed

lemma name_read_is_one_name_witness:
  "\<exists>labels. [0x61, dot] = name_text labels \<and> list_all label_ok labels \<and> wire_size labels + 1 \<le> 256 \<and>
    (\<forall>others. list_all label_ok others \<longrightarrow> name_text others = [0x61, dot] \<longrightarrow> others = labels)"
proof -
  have "encode_name [0x61] = Inr [1, 0x61, 0]"
    by (simp add: encode_name_def strip_dot_def is_graphic_def MAX_NAME_def)
  from asked_name_reads_back [OF this, of "[]" "[]"] have "read_name [1, 0x61, 0] 0 = Inr ([0x61, dot], 3)"
    by (simp add: question_labels_def strip_dot_def name_text_def label_text_def escape_byte_def)
  from name_read_is_one_name [OF this, THEN conjunct1] show ?thesis by blast
qed

end
