(* ===== verification/DnsResolve.thy ===== *)
theory DnsResolve
  imports DnsProofs IpAddr JsonText
begin

text \<open>
  The stub resolver (\<open>default-providers/src/dns/mod.rs\<close> and \<open>config.rs\<close>) around the messages. What the
  network does in one attempt is an \<open>exchange\<close>: the ids drawn, the datagrams that arrive before the wait ends,
  and what a TCP connection brings. The words of an input or output error are a parameter.
\<close>

section \<open>The servers of \<open>resolv.conf\<close>\<close>

definition is_whitespace :: "scalar \<Rightarrow> bool" where
  "is_whitespace c \<longleftrightarrow> 0x09 \<le> c \<and> c \<le> 0x0D \<or> c = 0x20 \<or> c = 0x85 \<or> c = 0xA0 \<or> c = 0x1680 \<or> 0x2000 \<le> c \<and> c \<le> 0x200A \<or>
     c = 0x2028 \<or> c = 0x2029 \<or> c = 0x202F \<or> c = 0x205F \<or> c = 0x3000"

text \<open>\<open>str::lines\<close>: a line may end in a carriage return, and a last empty one is none.\<close>

definition lines :: "utext \<Rightarrow> utext list" where
  "lines t =
     (let ls = split_on 0x0A t; ls = (if last ls = [] then butlast ls else ls)
      in map (\<lambda>l. if l \<noteq> [] \<and> last l = 0x0D then butlast l else l) ls)"

definition split_whitespace :: "utext \<Rightarrow> utext list" where
  "split_whitespace t = filter (\<lambda>w. w \<noteq> []) (split_on 0x20 (map (\<lambda>c. if is_whitespace c then 0x20 else c) t))"

definition parse_address :: "utext \<Rightarrow> ip_addr option" where
  "parse_address t = (if list_all (\<lambda>c. c < 128) t then parse_ip (map char_of t) else None)"

definition MAX_SERVERS :: nat where "MAX_SERVERS = 3"

definition resolv_conf :: "utext \<Rightarrow> ip_addr list" where
  "resolv_conf t =
     (let address = (\<lambda>line.
            case split_whitespace (takeWhile (\<lambda>c. c \<noteq> 0x23 \<and> c \<noteq> 0x3B) line) of
              word # address # _ \<Rightarrow> if word = text_of_string ''nameserver'' then Some address else None
            | _ \<Rightarrow> None);
          servers = take MAX_SERVERS (List.map_filter parse_address (List.map_filter address (lines t)))
      in if servers = [] then [V4 [127, 0, 0, 1]] else servers)"

section \<open>One question to one server\<close>

record 'e exchange =
  udp_id :: "'e + u16"
  udp_ready :: "'e option"
  datagrams :: "u8 list list"
  udp_end :: 'e
  tcp_id :: "'e + u16"
  tcp_body :: "'e + u8 list"

datatype 'e ask_error = Io 'e | BadQuery dns_error | TcpTruncated | TcpOtherQuestion | TcpUnread dns_error

definition ask_tcp :: "'e exchange \<Rightarrow> utf8 \<Rightarrow> u16 \<Rightarrow> 'e ask_error + answer" where
  "ask_tcp x name qtype =
     res_bind (res_map_err Io (tcp_id x)) (\<lambda>ident.
     res_bind (res_map_err BadQuery (query ident name qtype)) (\<lambda>_.
     res_bind (res_map_err Io (tcp_body x)) (\<lambda>body.
       case response body ident name qtype of
         Inr (Some Truncated) \<Rightarrow> Inl TcpTruncated
       | Inr (Some a) \<Rightarrow> Inr a
       | Inr None \<Rightarrow> Inl TcpOtherQuestion
       | Inl e \<Rightarrow> Inl (TcpUnread e))))"

fun await_answer :: "'e exchange \<Rightarrow> u16 \<Rightarrow> utf8 \<Rightarrow> u16 \<Rightarrow> u8 list list \<Rightarrow> 'e ask_error + answer" where
  "await_answer x ident name qtype [] = Inl (Io (udp_end x))"
| "await_answer x ident name qtype (d # ds) =
     (case response d ident name qtype of
        Inr (Some Truncated) \<Rightarrow> ask_tcp x name qtype
      | Inr (Some a) \<Rightarrow> Inr a
      | _ \<Rightarrow> await_answer x ident name qtype ds)"

definition ask :: "'e exchange \<Rightarrow> utf8 \<Rightarrow> u16 \<Rightarrow> 'e ask_error + answer" where
  "ask x name qtype =
     res_bind (res_map_err Io (udp_id x)) (\<lambda>ident.
     res_bind (res_map_err BadQuery (query ident name qtype)) (\<lambda>_.
       case udp_ready x of
         Some e \<Rightarrow> Inl (Io e)
       | None \<Rightarrow> await_answer x ident name qtype (datagrams x)))"

section \<open>Resolving\<close>

definition ROUNDS :: nat where "ROUNDS = 2"

type_synonym dns_server = "ip_addr \<times> u16"

record dns_query =
  q_name :: utf8
  q_type :: string
  name_server :: "(string \<times> u16) option"

datatype 'e failure = Answered dns_server u8 | SentTruncated dns_server | NoAnswer dns_server "'e ask_error"

datatype 'e resolve_error =
  NotARecordType string
| CannotAsk dns_error
| NotAnAddress string
| NoServers
| NotFound utf8
| NoServerAnswered utf8 "'e failure list"

text \<open>The attempts in order; \<open>world r s\<close> is what happens when server \<open>s\<close> is asked in round \<open>r\<close>.\<close>

fun try_servers :: "(nat \<Rightarrow> dns_server \<Rightarrow> 'e exchange) \<Rightarrow> utf8 \<Rightarrow> u16 \<Rightarrow> (nat \<times> dns_server) list \<Rightarrow> 'e failure list \<Rightarrow>
    'e resolve_error + dns_record list" where
  "try_servers world name qtype [] failures = Inl (NoServerAnswered name (remdups_adj failures))"
| "try_servers world name qtype ((r, s) # rest) failures =
     (case ask (world r s) name qtype of
        Inr (Records rs) \<Rightarrow> Inr rs
      | Inr NoSuchName \<Rightarrow> Inl (NotFound name)
      | Inr (ServerFailed rcode) \<Rightarrow> try_servers world name qtype rest (failures @ [Answered s rcode])
      | Inr Truncated \<Rightarrow> try_servers world name qtype rest (failures @ [SentTruncated s])
      | Inl e \<Rightarrow> try_servers world name qtype rest (failures @ [NoAnswer s e]))"

definition resolve_dns :: "ip_addr list \<Rightarrow> (nat \<Rightarrow> dns_server \<Rightarrow> 'e exchange) \<Rightarrow> dns_query \<Rightarrow> 'e resolve_error + dns_record list" where
  "resolve_dns system world q =
     res_bind (ok_or (NotARecordType (q_type q)) (type_code (q_type q))) (\<lambda>qtype.
     res_bind (res_map_err CannotAsk (query 0 (q_name q) qtype)) (\<lambda>_.
     res_bind
       (case name_server q of
          Some (ip, port) \<Rightarrow> res_bind (ok_or (NotAnAddress ip) (parse_ip ip)) (\<lambda>ip. Inr [(ip, port)])
        | None \<Rightarrow> Inr (map (\<lambda>ip. (ip, 53)) system)) (\<lambda>servers.
       if servers = [] then Inl NoServers
       else try_servers world (q_name q) qtype (concat (map (\<lambda>r. map (Pair r) servers) [0..<ROUNDS])) [])))"

section \<open>Whose answer it is\<close>

lemma resolv_conf_bounds: "1 \<le> length (resolv_conf t) \<and> length (resolv_conf t) \<le> MAX_SERVERS"
  by (simp add: resolv_conf_def Let_def MAX_SERVERS_def Suc_le_eq)

text \<open>The messages of an exchange that could be its answer, each with the id its query carried.\<close>

definition offered :: "'e exchange \<Rightarrow> (u16 \<times> u8 list) set" where
  "offered x = {(ident, d). udp_id x = Inr ident \<and> udp_ready x = None \<and> d \<in> set (datagrams x)} \<union>
     {(ident, d). tcp_id x = Inr ident \<and> tcp_body x = Inr d}"

lemma ask_tcp_offered: "ask_tcp x name qtype = Inr a \<Longrightarrow> \<exists>(ident, d) \<in> offered x. response d ident name qtype = Inr (Some a)"
proof -
  assume asked: "ask_tcp x name qtype = Inr a"
  then obtain ident body where x: "tcp_id x = Inr ident" "tcp_body x = Inr body"
    and r: "(case response body ident name qtype of
         Inr (Some Truncated) \<Rightarrow> Inl TcpTruncated
       | Inr (Some a) \<Rightarrow> Inr a
       | Inr None \<Rightarrow> Inl TcpOtherQuestion
       | Inl e \<Rightarrow> Inl (TcpUnread e)) = (Inr a :: 'a ask_error + answer)"
    by (auto simp: ask_tcp_def res_bind_Inr_iff res_map_err_Inr_iff)
  from r have "response body ident name qtype = Inr (Some a)"
    by (cases "response body ident name qtype") (auto split: option.splits answer.splits)
  then show ?thesis using x by (auto simp: offered_def)
qed

lemma await_offered:
  "await_answer x ident name qtype ds = Inr a \<Longrightarrow> udp_id x = Inr ident \<Longrightarrow> udp_ready x = None \<Longrightarrow> set ds \<subseteq> set (datagrams x) \<Longrightarrow>
    \<exists>(ident, d) \<in> offered x. response d ident name qtype = Inr (Some a)"
proof (induction x ident name qtype ds rule: await_answer.induct)
  case (2 x ident name qtype d ds)
  have here: "(ident, d) \<in> offered x" using 2 by (auto simp: offered_def)
  show ?case
  proof (cases "response d ident name qtype")
    case (Inl e)
    then show ?thesis using 2 by auto
  next
    case (Inr o')
    show ?thesis
    proof (cases o')
      case None
      then show ?thesis using 2 Inr by auto
    next
      case (Some b)
      then show ?thesis using 2 Inr here ask_tcp_offered by (cases b) auto
    qed
  qed
qed simp

lemma ask_offered: "ask x name qtype = Inr a \<Longrightarrow> \<exists>(ident, d) \<in> offered x. response d ident name qtype = Inr (Some a)"
  using await_offered by (fastforce simp: ask_def res_bind_Inr_iff res_map_err_Inr_iff split: option.splits)

lemma try_servers_asked:
  "try_servers world name qtype attempts failures = Inr rs \<Longrightarrow> \<exists>(r, s) \<in> set attempts. ask (world r s) name qtype = Inr (Records rs)"
  by (induction world name qtype attempts failures rule: try_servers.induct) (fastforce split: sum.splits answer.splits)+

text \<open>
  C40: the records are the answer to the question. What a lookup of a name without a backslash returns was read from a
  message that a server asked for it sent in an attempt of one of the two rounds, and that message carries the id of that
  attempt's query, is a response, and repeats the question: the name's labels, but for case, the type and the class. For a
  name with a backslash the last need not hold: the message may be about another name (\<open>backslash_question\<close>).
\<close>

theorem resolved_was_asked:
  assumes "resolve_dns system world q = Inr rs" "backslash \<notin> set (q_name q)"
  shows "\<exists>r s ident d flags labels qtype p.
    r < ROUNDS \<and> (case name_server q of None \<Rightarrow> s \<in> (\<lambda>ip. (ip, 53)) ` set system
      | Some (ip, port) \<Rightarrow> parse_ip ip = Some (fst s) \<and> snd s = port) \<and>
    (ident, d) \<in> offered (world r s) \<and> type_code (q_type q) = Some qtype \<and>
    response d ident (q_name q) qtype = Inr (Some (Records rs)) \<and>
    take 2 d = u16_bytes ident \<and> take 2 (drop 2 d) = u16_bytes flags \<and> and flags 0x8000 \<noteq> 0 \<and>
    read_name d 12 = Inr (name_text labels, p) \<and>
    map (map ascii_lower) labels = map (map ascii_lower) (question_labels (q_name q)) \<and>
    take 4 (drop p d) = u16_bytes qtype @ u16_bytes CLASS_IN"
proof -
  obtain qtype m servers where q: "type_code (q_type q) = Some qtype" "query 0 (q_name q) qtype = Inr m"
    and servers: "(case name_server q of Some (ip, port) \<Rightarrow> res_bind (ok_or (NotAnAddress ip) (parse_ip ip)) (\<lambda>ip. Inr [(ip, port)])
        | None \<Rightarrow> Inr (map (\<lambda>ip. (ip, 53)) system)) = (Inr servers :: 'a resolve_error + dns_server list)"
    and tried: "try_servers world (q_name q) qtype (concat (map (\<lambda>r. map (Pair r) servers) [0..<ROUNDS])) [] = Inr rs"
    using assms(1) by (auto simp: resolve_dns_def res_bind_Inr_iff ok_or_Inr_iff res_map_err_Inr_iff split: if_splits)
  obtain w where w: "encode_name (q_name q) = Inr w" using q(2) by (auto simp: query_def res_bind_Inr_iff)
  obtain r s where rs: "(r, s) \<in> set (concat (map (\<lambda>r. map (Pair r) servers) [0..<ROUNDS]))"
    and asked: "ask (world r s) (q_name q) qtype = Inr (Records rs)"
    using try_servers_asked [OF tried] by blast
  have r: "r < ROUNDS" "s \<in> set servers" using rs by auto
  have s: "case name_server q of None \<Rightarrow> s \<in> (\<lambda>ip. (ip, 53)) ` set system
      | Some (ip, port) \<Rightarrow> parse_ip ip = Some (fst s) \<and> snd s = port"
    using servers r(2) by (auto simp: res_bind_Inr_iff ok_or_Inr_iff split: option.splits)
  obtain ident d where d: "(ident, d) \<in> offered (world r s)" "response d ident (q_name q) qtype = Inr (Some (Records rs))"
    using ask_offered [OF asked] by blast
  show ?thesis using response_answers_the_question [OF d(2) w assms(2)] r(1) s d q(1) by blast
qed

lemma resolved_was_asked_witness:
  "\<exists>r s ident d flags labels qtype p.
    r < ROUNDS \<and> s \<in> (\<lambda>ip. (ip, 53)) ` {V4 [127, 0, 0, 1]} \<and> type_code ''A'' = Some qtype \<and>
    take 2 d = u16_bytes ident \<and> take 2 (drop 2 d) = u16_bytes flags \<and> and flags 0x8000 \<noteq> 0 \<and>
    read_name d 12 = Inr (name_text labels, p) \<and> map (map ascii_lower) labels = [[0x61]]"
proof -
  define q where "q = \<lparr>q_name = [0x61], q_type = ''A'', name_server = None\<rparr>"
  define x :: "unit exchange" where "x = \<lparr>udp_id = Inr 7, udp_ready = None, datagrams = [[1], reply_message 7 0x8180 0 [1, 0x61, 0] 1 []],
    udp_end = (), tcp_id = Inl (), tcp_body = Inl ()\<rparr>"
  have name: "encode_name [0x61] = Inr [1, 0x61, 0]"
    by (simp add: encode_name_def strip_dot_def is_graphic_def MAX_NAME_def)
  have "response (reply_message 7 0x8180 0 [1, 0x61, 0] 1 []) 7 [0x61] 1 = Inr (Some (Records []))"
    using reply_to_query [OF name, of 0 "0x8180" 7 1 "[]"] by simp
  moreover have "response [1] 7 [0x61] 1 = Inl (Short AField)"
    by (simp add: response_def u16_at_def take_at_def bytes_at_def ok_or_def)
  ultimately have "ask x [0x61] 1 = Inr (Records [])"
    using name by (simp add: ask_def x_def query_def)
  then have "resolve_dns [V4 [127, 0, 0, 1]] (\<lambda>_ _. x) q = Inr []"
    using name by (simp add: resolve_dns_def q_def type_code_def ROUNDS_def query_def upt_conv_Cons)
  from resolved_was_asked [OF this] show ?thesis
    by (force simp: q_def question_labels_def strip_dot_def ascii_lower_def)
qed

end
