(* ===== verification/Spec2Isabelle.thy ===== *)
theory Spec2Isabelle
  imports Permissions Jail Timers Ownership Topology Wire JsonStrings JsonValues JsonEditFaults MsgPackRound CborProofs CborShortest CborDecoded
    DnsResolve
begin

text \<open>
  A verification development for ES-Runtime, a JavaScript runtime written in Rust.

  \<^bold>\<open>The program.\<close> A guest program runs in an engine (\<open>crates/engine\<close>, V8 behind it) inside a
  \<open>Runtime\<close> (\<open>crates/runtime\<close>) that turns an event loop, and reaches the host only through provider
  interfaces (\<open>crates/providers\<close>), which \<open>crates/default-providers\<close> implements on the system. What it
  may reach is a set of capabilities (\<open>crates/common\<close>), granted on the command line
  (\<open>crates/cli-common\<close>), some narrowed by lists of addresses and paths. Databases are reached by drivers in
  Rust; the MongoDB one keeps its own view of a deployment, a pool per server, and speaks BSON
  (\<open>crates/bson\<close>) over \<open>OP_MSG\<close>.

  \<^bold>\<open>Permissions.\<close> \<open>Capability\<close> (\<open>common/src/capability.rs\<close>): the bit set as a record around a word, and its
  refinement to sets. \<open>Allowlist\<close> states what an allowlist promises as a locale, which \<open>HostAllowlist\<close>
  (\<open>host_allowlist.rs\<close>, with IP literals in \<open>IpAddr\<close>) and \<open>PathAllowlist\<close> (\<open>path_allowlist.rs\<close>) provide.
  \<open>Permissions\<close> (\<open>cli-common/src/permissions.rs\<close>) records flags and resolves them. \<open>Paths\<close> (\<open>path.rs\<close>) is
  lexical path handling and module ids; \<open>Jail\<close> (\<open>jail.rs\<close>) confines every path a program names.
  The operating system's \<open>canonicalize\<close> and \<open>metadata\<close> are arguments there, with what the code relies
  on as hypotheses.

  \<^bold>\<open>The event loop.\<close> \<open>Timers\<close>: the schedule (\<open>runtime/src/timer.rs\<close>), the engine's table of timers
  (\<open>engine/src/op.rs\<close>) and the timer phases of \<open>Runtime::tick\<close>; the guest's code, its timer callbacks, its
  microtasks and its listeners for failures, is a parameter that yields the timer calls it makes. The listeners run after
  the turn's last drain, so what they set waits for the next turn.

  \<^bold>\<open>Handles.\<close> \<open>Ownership\<close>: which agent owns which id (\<open>handles.rs\<close>) and which command holds which
  connection (\<open>db_conns.rs\<close>), over a locale of id registries, with runs of many agents as step relations.

  \<^bold>\<open>MongoDB.\<close> \<open>Codec\<close> is little-endian integers, a locale with two instances. \<open>Bson\<close> is the writer, the
  reader and the format both are held against. \<open>Btree\<close> is an ordered map as a locale and as the
  association list the model uses, \<open>Float64\<close> the bits of a double. \<open>Sdam\<close> (\<open>sdam.rs\<close>) turns hello
  replies into a description of the deployment; \<open>SdamInvariant\<close> keeps it coherent and \<open>SdamEffects\<close> says
  what each update and error does. \<open>Select\<close> (\<open>select.rs\<close>) chooses a server, \<open>Pool\<close> (\<open>pool.rs\<close>)
  a connection, \<open>Topology\<close> (\<open>topology.rs\<close>) puts the three together, and \<open>Wire\<close> (\<open>wire.rs\<close>) frames
  messages.

  \<^bold>\<open>Names.\<close> The stub resolver (\<open>default-providers/src/dns\<close>). \<open>DnsWire\<close> (\<open>wire.rs\<close>) is one query
  and one response; \<open>DnsProofs\<close> shows that a name read is one name, that what is asked reads back, that a reply
  to the query is read and, but for names with a backslash, that no other is; \<open>DnsResolve\<close> (\<open>mod.rs\<close>, \<open>config.rs\<close>) is the rounds over
  the servers, and whose answer a lookup returns.

  \<^bold>\<open>JSON.\<close> The text half of \<open>runtime:serialization\<close>'s JSONC and JSON5 (\<open>crates/json\<close>). \<open>JsonText\<close> is
  texts as lists of scalars and the string builder that pairs surrogate escapes; \<open>JsonNumber\<close>
  (\<open>number.rs\<close>) rounds hex literals, held against the nearest double; \<open>JsonLexer\<close> (\<open>lexer.rs\<close>) is the scanners and
  \<open>JsonParser\<close> (\<open>parser.rs\<close>) the recursive descent, total because every value consumes text.
  \<open>JsonStrings\<close> holds the string scanner against reading one character at a time, \<open>JsonEvents\<close> shows
  that one recorded parse determines all, and \<open>JsonValues\<close> that what is reported is a value.
  \<open>JsonEdit\<close> (\<open>edit.rs\<close>) changes one value of a text: the containers and the habits of the file, finding
  a path, splicing; a slice taken backwards or beyond the end and an index out of range are panics there.
  \<open>JsonEditKeeps\<close> shows what an edit keeps, \<open>JsonEditTotal\<close> that the editor sees the
  values the parser sees, so a valid text can be edited without a panic, and \<open>JsonEditFaults\<close> evaluates edits that go wrong.

  \<^bold>\<open>Binary formats.\<close> The codecs of \<open>runtime:serialization\<close> over the value tree of the engine
  (\<open>engine/src/value.rs\<close>). \<open>Cursor\<close> is reading off the front of a slice, \<open>JsNumber\<close>
  (\<open>js_number.rs\<close>) how JavaScript spells a number, \<open>ScriptValue\<close> the values and the property names
  of decoded keys, \<open>Casts\<close> lemmas both formats share. \<open>MsgPack\<close> (\<open>msgpack.rs\<close>) is held by
  \<open>MsgPackProofs\<close> (the check answers as the decoder) and \<open>MsgPackRound\<close> (the round trip); \<open>Cbor\<close>
  (\<open>cbor.rs\<close>) by \<open>CborProofs\<close> (the check), \<open>CborFloats\<close> and \<open>CborShortest\<close> (the three float forms),
  \<open>CborRound\<close> (the round trip, and one encoding per value) and \<open>CborDecoded\<close> (what decodes encodes again).

  \<^bold>\<open>Conventions.\<close> Strings of the command line and paths are \<open>string\<close>; texts on the wire are their UTF-8
  bytes. Integers keep their width as words where they wrap and are \<open>int\<close> or \<open>nat\<close> where they cannot leave
  their range; where overflow panics the value is \<open>None\<close>. An error is a value of the component's
  own type holding what its message quotes. A lock's critical section is one step. Loops end by
  structure or by a measure; two of the editor's, which run on in an invalid text, are partial functions with
  \<open>None\<close> for not returning. No definition uses fuel.

  \<^bold>\<open>Not modelled.\<close> The engine's bindings to V8 and the guest's JavaScript; the providers' sockets, files,
  processes and TLS; the build, test and package tooling of \<open>crates/dev-cli\<close>; cryptography and
  compression, which call libraries; and the data formats other than BSON, JSON, MessagePack and CBOR.
\<close>

end
